(* ===== verification/Prelude.thy ===== *)
theory Prelude
  imports Main "HOL-Library.Word"
begin

text \<open>
  Shared vocabulary of the development: the machine integers of the Go sources, the error
  values of \<^verbatim>\<open>errors.go\<close>, the theorem collections that carry the component proofs, and the
  facts about powers of two, masks and modular distances that every component uses.

  \<^verbatim>\<open>uint64\<close> and \<^verbatim>\<open>uintptr\<close> are the same 64-bit word here: \<^verbatim>\<open>cacheline.go\<close> refuses to build
  on any platform where a \<^verbatim>\<open>uintptr\<close> is not eight bytes wide.
\<close>

unbundle bit_operations_syntax

type_synonym u8 = "8 word"
type_synonym u32 = "32 word"
type_synonym u64 = "64 word"

text \<open>Layout constants and address arithmetic, unfolded together.\<close>
named_theorems layout_simps

text \<open>What a load sees after a store.\<close>
named_theorems mem_simps

text \<open>Errors are values. \<open>Errno\<close> carries the errno of a system call, which the Go code
  returns unchanged.\<close>

datatype error =
    ErrBackpressure
  | ErrShardFull
  | ErrPayloadTooLarge
  | ErrClosed
  | ErrNotFound
  | ErrIndexFull
  | ErrUnsupportedPlatform
  | ErrPinFailed
  | ErrConfig
  | Errno u64

section \<open>Powers of two and masks\<close>

lemma and_double_nat: "(2 * a) AND (2 * b) = 2 * (a AND b)" for a b :: nat
  by (subst and_nat_rec) simp
lemma and_double_Suc_nat: "(2 * a) AND Suc (2 * b) = 2 * (a AND b)" for a b :: nat
  by (subst and_nat_rec) simp

lemma and_pred_eq_0_nat:
  "0 < n \<Longrightarrow> n AND (n - 1) = 0 \<Longrightarrow> \<exists>k. n = 2 ^ k" for n :: nat
proof (induction n rule: less_induct)
  case (less n)
  show ?case
  proof (cases "even n")
    case True
    then obtain m where m: "n = 2 * m" by blast
    with less.prems(1) have pos: "0 < m" by simp
    then have "n - 1 = Suc (2 * (m - 1))" using m by simp
    then have "n AND (n - 1) = 2 * (m AND (m - 1))"
      using m by (simp only: and_double_Suc_nat)
    with less.prems(2) have "m AND (m - 1) = 0" by simp
    moreover have "m < n" using m pos by simp
    ultimately obtain k where "m = 2 ^ k" using less.IH pos by blast
    then have "n = 2 ^ Suc k" using m by simp
    then show ?thesis by blast
  next
    case False
    then obtain m where m: "n = Suc (2 * m)" by (metis oddE Suc_eq_plus1)
    then have "n AND (n - 1) = 2 * m"
      using and_double_Suc_nat [of m m] by (simp add: ac_simps)
    with less.prems(2) m have "n = 2 ^ 0" by simp
    then show ?thesis by blast
  qed
qed

lemma pow2_and_pred_nat: "(2 ^ k :: nat) AND (2 ^ k - 1) = 0"
  using take_bit_eq_mask [of k "2 ^ k :: nat"] by (simp add: mask_eq_exp_minus_1 take_bit_eq_mod)


lemma unat_pow2: "k < 64 \<Longrightarrow> unat (2 ^ k :: u64) = 2 ^ k"
proof -
  assume "k < 64"
  then have "(2::nat) ^ k < 2 ^ 64" by (rule power_strict_increasing) simp
  then show ?thesis using unat_of_nat [of "2 ^ k", where ?'a = 64] by simp
qed

lemma and_mask_mod: "unat (x AND (2 ^ k - 1) :: u64) = unat x mod 2 ^ k"
proof -
  have "unat (x AND (2 ^ k - 1)) = unat (take_bit k x)"
    by (simp add: take_bit_eq_mask mask_eq_exp_minus_1)
  also have "\<dots> = take_bit k (unat x)" by (rule unsigned_take_bit_eq)
  finally show ?thesis by (simp only: take_bit_eq_mod)
qed

lemma and_not_mask_div:
  "unat (x AND NOT (2 ^ k - 1) :: u64) = unat x div 2 ^ k * 2 ^ k"
proof -
  have "unat (x AND NOT (mask k)) = push_bit k (drop_bit k (unat x))"
    by (rule bit_eqI) (auto simp: bit_simps dest: bit_imp_le_length)
  then show ?thesis
    by (simp add: mask_eq_exp_minus_1 push_bit_eq_mult drop_bit_eq_div)
qed

lemma and_pred_nat: "n \<noteq> 0 \<Longrightarrow> unat (n AND (n - 1)) = unat n AND (unat n - 1)" for n :: u64
  by (simp add: unsigned_and_eq unat_minus_one)

lemma unat_pow2_pred: "k < 64 \<Longrightarrow> unat (2 ^ k - 1 :: u64) = 2 ^ k - 1"
  by (metis unat_pow2 unat_minus_one power_not_zero unat_0 zero_neq_numeral)

section \<open>Positions as natural numbers\<close>

text \<open>Counters are words. Their natural-number reading is faithful as long as they stay
  below \<open>2 ^ 64\<close>; the facts below move between the two.\<close>

lemma unat_lt64: "unat (x :: u64) < 18446744073709551616"
  using unsigned_less [where ?'a = nat, of x] by simp

lemma unat_of_nat64: "n < 2 ^ 64 \<Longrightarrow> unat (of_nat n :: u64) = n"
  by (simp add: unat_of_nat)

lemma of_nat_eq64: "a < 2 ^ 64 \<Longrightarrow> b < 2 ^ 64 \<Longrightarrow> (of_nat a :: u64) = of_nat b \<longleftrightarrow> a = b"
  by (metis unat_of_nat64)

lemma unat_add1: "unat x + 1 < 2 ^ 64 \<Longrightarrow> unat (x + 1 :: u64) = unat x + 1"
  by (simp add: unat_word_ariths)

lemma unat_add64: "unat x + unat y < 2 ^ 64 \<Longrightarrow> unat (x + y :: u64) = unat x + unat y"
  by (simp add: unat_word_ariths)

lemma unat_add_le: "unat (x + y :: u64) \<le> unat x + unat y"
  by (simp add: unat_word_ariths)

lemma unat_of_nat_le: "unat (of_nat n :: u64) \<le> n"
  by (simp add: unat_of_nat)

lemma unat_mult64: "unat x * unat y < 2 ^ 64 \<Longrightarrow> unat (x * y :: u64) = unat x * unat y"
  by (simp add: unat_word_ariths)

lemma unat_diff_swap:
  fixes p q :: u64
  assumes "p \<noteq> q"
  shows "unat (p - q) = 2 ^ 64 - unat (q - p)"
proof -
  have "unat p \<noteq> unat q" using assms by (simp add: word_unat_eq_iff)
  then show ?thesis
    using unat_lt64 [of p] unat_lt64 [of q] by (simp add: unat_sub_if') linarith
qed

lemma sint_neg_of_nat:
  assumes "d \<le> 2 ^ 63"
  shows "sint (- of_nat d :: u64) = - int d"
proof -
  have "sint (word_of_int (- int d) :: u64) = signed_take_bit 63 (- int d)"
    unfolding signed_of_int by simp
  also have "\<dots> = - int d" using assms by (intro signed_take_bit_int_eq_self) auto
  finally show ?thesis by simp
qed

lemma unat_dist_decreases: "c \<noteq> t \<Longrightarrow> unat (t - (c + 1)) < unat (t - c)" for c t :: u64
  using measure_unat [of "t - c"] by (simp add: diff_diff_eq)

lemma unat_diff_of_nat:
  assumes "x \<le> y" "y - x < 2 ^ 64"
  shows "unat (b + of_nat y - (b + of_nat x) :: u64) = y - x"
proof -
  have "b + of_nat y - (b + of_nat x) = (of_nat (y - x) :: u64)" using assms(1) by (simp add: of_nat_diff)
  then show ?thesis using assms(2) by (simp only: unat_of_nat64)
qed

lemma dvd_gap: "a dvd x \<Longrightarrow> a dvd y \<Longrightarrow> x < y \<Longrightarrow> x + a \<le> (y :: nat)"
  using dvd_imp_le [of a "y - x"] by (simp add: dvd_diff_nat)

text \<open>Two positions of one window of \<open>n\<close> slots that name the same slot are the same.\<close>

lemma mod_window_eq:
  assumes "p mod n = q mod n" "p \<le> q" "q < p + n"
  shows "p = (q :: nat)"
proof -
  from assms(1,2) obtain d where "q = p + n * d" by (metis mod_eq_nat1E)
  with assms(3) show ?thesis by (cases d) auto
qed

text \<open>Two partial maps with the same entries are the same.\<close>

lemma map_eqI: "(\<And>k v. f k = Some v \<longleftrightarrow> g k = Some v) \<Longrightarrow> f = g"
  by (rule ext) (metis not_Some_eq)

end
