(* ===== verification/Layout.thy ===== *)
theory Layout
  imports Prelude
begin

text \<open>
  The physical layout of the engine: \<^verbatim>\<open>cacheline.go\<close> and \<^verbatim>\<open>layout.go\<close>. Constants, the raw
  address arithmetic, the power-of-two rounding, and the layout of the structs that the Go
  compiler is asked to confirm at build time.
\<close>

section \<open>Constants\<close>

definition CacheLineSize :: u64 where [layout_simps]: "CacheLineSize = 64"
definition CoherenceStride :: u64 where [layout_simps]: "CoherenceStride = 128"
definition WordSize :: u64 where [layout_simps]: "WordSize = 8"
definition HeaderSize :: u64 where [layout_simps]: "HeaderSize = 64"

definition offSeq :: u64 where [layout_simps]: "offSeq = 0"
definition offTicket :: u64 where [layout_simps]: "offTicket = 8"
definition offTimestamp :: u64 where [layout_simps]: "offTimestamp = 16"
definition offKey :: u64 where [layout_simps]: "offKey = 24"
definition offLength :: u64 where [layout_simps]: "offLength = 32"
definition offEpoch :: u64 where [layout_simps]: "offEpoch = 40"
definition offChecksum :: u64 where [layout_simps]: "offChecksum = 48"
definition offFlags :: u64 where [layout_simps]: "offFlags = 52"
definition offReserved :: u64 where [layout_simps]: "offReserved = 56"

definition FlagCommitted :: u32 where "FlagCommitted = push_bit 0 1"
definition FlagTombstone :: u32 where "FlagTombstone = push_bit 1 1"
definition FlagTruncated :: u32 where "FlagTruncated = push_bit 2 1"

lemma FlagCommitted_set [simp]: "(x OR FlagCommitted) AND FlagCommitted = FlagCommitted"
  by (rule bit_word_eqI) (auto simp: bit_simps)

lemma Flags_nonzero [simp]: "FlagCommitted \<noteq> 0" "FlagTombstone \<noteq> 0"
  by (simp_all add: FlagCommitted_def FlagTombstone_def)

section \<open>Raw address arithmetic\<close>

text \<open>\<^verbatim>\<open>unsafe.Add\<close> is addition on 64-bit addresses.\<close>

definition cellAt :: "u64 \<Rightarrow> u64 \<Rightarrow> u64 \<Rightarrow> u64" where
  [layout_simps]: "cellAt base idx stride = base + idx * stride"

definition fieldAt :: "u64 \<Rightarrow> u64 \<Rightarrow> u64" where
  [layout_simps]: "fieldAt cellBase off = cellBase + off"

definition payloadAt :: "u64 \<Rightarrow> u64" where
  [layout_simps]: "payloadAt cellBase = cellBase + HeaderSize"

definition alignUp :: "u64 \<Rightarrow> u64 \<Rightarrow> u64" where
  "alignUp n align = (n + align - 1) AND NOT (align - 1)"

definition isAligned :: "u64 \<Rightarrow> u64 \<Rightarrow> bool" where
  "isAligned addr align \<longleftrightarrow> addr AND (align - 1) = 0"

definition isPow2 :: "u64 \<Rightarrow> bool" where
  "isPow2 n \<longleftrightarrow> n \<noteq> 0 \<and> n AND (n - 1) = 0"

definition cellStrideFor :: "u64 \<Rightarrow> u64" where
  "cellStrideFor payloadCap = alignUp (HeaderSize + payloadCap) CacheLineSize"

section \<open>Rounding and alignment\<close>

lemma isPow2_iff: "isPow2 n \<longleftrightarrow> (\<exists>k<64. n = 2 ^ k)"
proof
  assume n: "isPow2 n"
  then have nz: "n \<noteq> 0" and a: "n AND (n - 1) = 0" by (simp_all add: isPow2_def)
  have "unat n AND (unat n - 1) = 0" using and_pred_nat [OF nz] a by simp
  moreover have "0 < unat n" using nz by (simp add: unat_gt_0)
  ultimately obtain k where k: "unat n = 2 ^ k" using and_pred_eq_0_nat by blast
  have "k < 64"
  proof (rule ccontr)
    assume "\<not> k < 64"
    then have "(2::nat) ^ 64 \<le> 2 ^ k" by (intro power_increasing) auto
    with k unat_lt64 [of n] show False by simp
  qed
  with k have "n = 2 ^ k" by (metis unat_pow2 word_unat_eq_iff)
  with \<open>k < 64\<close> show "\<exists>k<64. n = 2 ^ k" by blast
next
  assume "\<exists>k<64. n = 2 ^ k"
  then obtain k where k: "k < 64" "n = 2 ^ k" by blast
  then have u: "unat n = 2 ^ k" by (simp add: unat_pow2)
  then have nz: "n \<noteq> 0" by (metis power_not_zero unat_0 zero_neq_numeral)
  have "unat (n AND (n - 1)) = 0"
    using pow2_and_pred_nat [of k] u and_pred_nat [OF nz] by simp
  with nz show "isPow2 n" by (simp add: isPow2_def unat_eq_zero)
qed

lemma isAligned_iff: "k < 64 \<Longrightarrow> isAligned a (2 ^ k) \<longleftrightarrow> 2 ^ k dvd unat a"
  by (metis and_mask_mod dvd_eq_mod_eq_0 isAligned_def unat_eq_zero)

lemma alignUp_unat:
  assumes "k < 64" "unat n + 2 ^ k - 1 < 2 ^ 64"
  shows "unat (alignUp n (2 ^ k)) = (unat n + 2 ^ k - 1) div 2 ^ k * 2 ^ k"
proof -
  have "unat (n + (2 ^ k - 1)) = unat n + (2 ^ k - 1)"
    using assms by (subst unat_add64) (simp_all add: unat_pow2_pred)
  then have "unat (n + 2 ^ k - 1) = unat n + (2 ^ k - 1)" by (simp only: add_diff_eq)
  then show ?thesis by (simp add: alignUp_def and_not_mask_div)
qed


lemma roundup_div:
  fixes n a :: nat
  assumes "0 < a"
  shows "n \<le> (n + a - 1) div a * a" "(n + a - 1) div a * a < n + a"
    "a dvd (n + a - 1) div a * a"
proof -
  have "n + a - 1 = (n + a - 1) div a * a + (n + a - 1) mod a" by simp
  moreover have "(n + a - 1) mod a < a" using assms by simp
  ultimately show "n \<le> (n + a - 1) div a * a" "(n + a - 1) div a * a < n + a"
    using assms by linarith+
qed simp

lemma alignUp_bounds:
  assumes "k < 64" "unat n + 2 ^ k - 1 < 2 ^ 64"
  shows "2 ^ k dvd unat (alignUp n (2 ^ k))" "unat n \<le> unat (alignUp n (2 ^ k))"
    "unat (alignUp n (2 ^ k)) < unat n + 2 ^ k"
  using roundup_div [of "2 ^ k" "unat n"] by (simp_all add: alignUp_unat [OF assms])

lemma dvd_mod_64: "k < 64 \<Longrightarrow> 2 ^ k dvd (n mod 2 ^ 64) \<longleftrightarrow> (2::nat) ^ k dvd n"
  by (rule dvd_mod_iff, rule le_imp_power_dvd) simp

lemma isAligned_add:
  "k < 64 \<Longrightarrow> isAligned a (2 ^ k) \<Longrightarrow> isAligned b (2 ^ k) \<Longrightarrow> isAligned (a + b) (2 ^ k)"
  using dvd_mod_64 [of k "unat a + unat b"] by (simp add: isAligned_iff unat_word_ariths)

lemma isAligned_mult:
  "k < 64 \<Longrightarrow> isAligned b (2 ^ k) \<Longrightarrow> isAligned (a * b) (2 ^ k)"
  using dvd_mod_64 [of k "unat a * unat b"] by (simp add: isAligned_iff unat_word_ariths)

lemma isAligned_weaken:
  assumes "k \<le> j" "j < 64" "isAligned a (2 ^ j)"
  shows "isAligned a (2 ^ k)"
proof -
  have "(2::nat) ^ k dvd 2 ^ j" using assms(1) by (rule le_imp_power_dvd)
  with assms show ?thesis by (meson isAligned_iff dvd_trans le_less_trans)
qed

lemma cellStrideFor_aligned: "isAligned (cellStrideFor p) 64"
proof -
  have "unat (cellStrideFor p) = unat (HeaderSize + p + 2 ^ 6 - 1) div 2 ^ 6 * 2 ^ 6"
    unfolding cellStrideFor_def alignUp_def CacheLineSize_def
    using and_not_mask_div [of "HeaderSize + p + 2 ^ 6 - 1" 6] by simp
  then have "2 ^ 6 dvd unat (cellStrideFor p)" by simp
  then show ?thesis using isAligned_iff [of 6] by simp
qed

lemma cellStrideFor_bounds:
  assumes "unat p + 127 < 2 ^ 64"
  shows "unat p + 64 \<le> unat (cellStrideFor p)" "unat (cellStrideFor p) < unat p + 128"
proof -
  have h: "unat (HeaderSize + p) = unat p + 64"
    using assms by (simp add: HeaderSize_def unat_word_ariths)
  have "unat (HeaderSize + p) + 2 ^ 6 - 1 < 2 ^ 64" using h assms by simp
  from alignUp_bounds(2,3) [OF _ this] h
  show "unat p + 64 \<le> unat (cellStrideFor p)" "unat (cellStrideFor p) < unat p + 128"
    by (simp_all add: cellStrideFor_def CacheLineSize_def)
qed

section \<open>Struct layout\<close>

text \<open>
  The sizes, alignments and field offsets that \<^verbatim>\<open>unsafe.Sizeof\<close>, \<^verbatim>\<open>unsafe.Alignof\<close> and
  \<^verbatim>\<open>unsafe.Offsetof\<close> report on a 64-bit platform: a field starts at the next multiple of its
  alignment, a struct is as aligned as its most aligned field and is padded to a multiple
  of that alignment.
\<close>

datatype gotype = GUint64 | GUint32 | GByte | GPointer | GArray nat gotype | GStruct "gotype list"

definition roundup :: "nat \<Rightarrow> nat \<Rightarrow> nat" where
  "roundup n a = (n + a - 1) div a * a"

fun alignof :: "gotype \<Rightarrow> nat" where
  "alignof GUint64 = 8"
| "alignof GUint32 = 4"
| "alignof GByte = 1"
| "alignof GPointer = 8"
| "alignof (GArray n t) = alignof t"
| "alignof (GStruct ts) = foldr max (map alignof ts) 1"

fun sizeof :: "gotype \<Rightarrow> nat" and fields_end :: "nat \<Rightarrow> gotype list \<Rightarrow> nat" where
  "sizeof GUint64 = 8"
| "sizeof GUint32 = 4"
| "sizeof GByte = 1"
| "sizeof GPointer = 8"
| "sizeof (GArray n t) = n * sizeof t"
| "sizeof (GStruct ts) = roundup (fields_end 0 ts) (alignof (GStruct ts))"
| "fields_end cur [] = cur"
| "fields_end cur (t # ts) = fields_end (roundup cur (alignof t) + sizeof t) ts"

fun offsets_from :: "nat \<Rightarrow> gotype list \<Rightarrow> nat list" where
  "offsets_from cur [] = []"
| "offsets_from cur (t # ts) =
     (let off = roundup cur (alignof t) in off # offsets_from (off + sizeof t) ts)"

definition offsetsof :: "gotype \<Rightarrow> nat list" where
  "offsetsof t = (case t of GStruct ts \<Rightarrow> offsets_from 0 ts | _ \<Rightarrow> [])"

definition padU64_t :: gotype where
  "padU64_t = GStruct [GUint64, GArray (unat (CoherenceStride - WordSize)) GByte]"

definition cellHeader_t :: gotype where
  "cellHeader_t = GStruct
     [GUint64, GUint64, GUint64, GUint64, GUint64, GUint64, GUint32, GUint32, GUint64]"

lemma alignof_pos [simp]: "0 < alignof t"
proof (induction t rule: alignof.induct)
  case (6 ts)
  have "(1::nat) \<le> foldr max xs 1" for xs by (induction xs) auto
  then show ?case by (simp add: Suc_le_eq)
qed auto

lemma roundup_facts:
  assumes "0 < a"
  shows "n \<le> roundup n a" "a dvd roundup n a"
  using roundup_div [OF assms, of n] by (simp_all add: roundup_def)

lemma offsets_from_aligned:
  "i < length ts \<Longrightarrow> alignof (ts ! i) dvd offsets_from cur ts ! i"
  by (induction cur ts arbitrary: i rule: offsets_from.induct)
    (auto simp: Let_def nth_Cons roundup_facts split: nat.splits)

lemma offsets_from_ge: "i < length ts \<Longrightarrow> cur \<le> offsets_from cur ts ! i"
proof (induction cur ts arbitrary: i rule: offsets_from.induct)
  case (2 cur t ts)
  have "cur \<le> roundup cur (alignof t)" by (simp add: roundup_facts)
  with 2 show ?case
    by (cases i) (force simp: Let_def)+
qed simp

text \<open>Fields of a struct never overlap.\<close>

lemma offsets_from_disjoint:
  "i < j \<Longrightarrow> j < length ts \<Longrightarrow>
   offsets_from cur ts ! i + sizeof (ts ! i) \<le> offsets_from cur ts ! j"
proof (induction cur ts arbitrary: i j rule: offsets_from.induct)
  case (2 cur t ts)
  then show ?case
    by (cases i; cases j) (auto simp: Let_def offsets_from_ge)
qed simp

end
