(* ===== verification/Memory.thy ===== *)
theory Memory
  imports Layout
begin

text \<open>
  Off-heap memory and the accessors of \<^verbatim>\<open>atomics.go\<close>, \<^verbatim>\<open>cacheline.go\<close> and \<^verbatim>\<open>layout.go\<close>.
  Memory is a map from 64-bit addresses to bytes; both supported architectures (amd64,
  arm64) are little-endian, and so are the multi-byte accesses here. A slice into the arena
  is an address and a length: it aliases memory and holds no bytes of its own.
\<close>

type_synonym mem = "u64 \<Rightarrow> u8"

section \<open>Byte runs\<close>

definition load_bytes :: "mem \<Rightarrow> u64 \<Rightarrow> nat \<Rightarrow> u8 list" where
  "load_bytes m p n = map (\<lambda>i. m (p + of_nat i)) [0..<n]"

definition store_bytes :: "mem \<Rightarrow> u64 \<Rightarrow> u8 list \<Rightarrow> mem" where
  "store_bytes m p bs = (\<lambda>a. if unat (a - p) < length bs then bs ! unat (a - p) else m a)"

fun of_bytes :: "u8 list \<Rightarrow> 'a::len word" where
  "of_bytes [] = 0"
| "of_bytes (b # bs) = ucast b OR push_bit 8 (of_bytes bs)"

definition bytes_of :: "nat \<Rightarrow> 'a::len word \<Rightarrow> u8 list" where
  "bytes_of n w = map (\<lambda>i. ucast (drop_bit (8 * i) w)) [0..<n]"

section \<open>Atomic accesses\<close>

definition ptrLoad64 :: "mem \<Rightarrow> u64 \<Rightarrow> u64" where
  "ptrLoad64 m p = of_bytes (load_bytes m p 8)"

definition ptrStore64 :: "mem \<Rightarrow> u64 \<Rightarrow> u64 \<Rightarrow> mem" where
  "ptrStore64 m p v = store_bytes m p (bytes_of 8 v)"

definition ptrCAS64 :: "mem \<Rightarrow> u64 \<Rightarrow> u64 \<Rightarrow> u64 \<Rightarrow> mem \<times> bool" where
  "ptrCAS64 m p old new =
     (if ptrLoad64 m p = old then (ptrStore64 m p new, True) else (m, False))"

definition ptrAdd64 :: "mem \<Rightarrow> u64 \<Rightarrow> u64 \<Rightarrow> mem \<times> u64" where
  "ptrAdd64 m p d = (let v = ptrLoad64 m p + d in (ptrStore64 m p v, v))"

definition ptrLoad32 :: "mem \<Rightarrow> u64 \<Rightarrow> u32" where
  "ptrLoad32 m p = of_bytes (load_bytes m p 4)"

definition ptrStore32 :: "mem \<Rightarrow> u64 \<Rightarrow> u32 \<Rightarrow> mem" where
  "ptrStore32 m p v = store_bytes m p (bytes_of 4 v)"

text \<open>A padded cursor is a typed Go field, so it is modelled by its value. \<^verbatim>\<open>load\<close> and
  \<^verbatim>\<open>store\<close> are reading and replacing that value; \<^verbatim>\<open>add\<close> returns the new value and \<^verbatim>\<open>cas\<close>
  says whether it swapped.\<close>

type_synonym padU64 = u64

definition atomicAdd64 :: "padU64 \<Rightarrow> u64 \<Rightarrow> padU64 \<times> u64" where
  "atomicAdd64 v d = (v + d, v + d)"

definition atomicCAS64 :: "padU64 \<Rightarrow> u64 \<Rightarrow> u64 \<Rightarrow> padU64 \<times> bool" where
  "atomicCAS64 v old new = (if v = old then (new, True) else (v, False))"

section \<open>Payloads\<close>

record slice =
  sl_ptr :: u64
  sl_len :: nat

definition nil_slice :: slice where
  "nil_slice = \<lparr>sl_ptr = 0, sl_len = 0\<rparr>"

definition slice_bytes :: "mem \<Rightarrow> slice \<Rightarrow> u8 list" where
  "slice_bytes m s = load_bytes m (sl_ptr s) (sl_len s)"

definition payloadSlice :: "u64 \<Rightarrow> u64 \<Rightarrow> slice" where
  "payloadSlice cellBase n =
     (if n = 0 then nil_slice else \<lparr>sl_ptr = payloadAt cellBase, sl_len = unat n\<rparr>)"

definition copyIntoPayload :: "mem \<Rightarrow> u64 \<Rightarrow> u8 list \<Rightarrow> mem \<times> u64" where
  "copyIntoPayload m cellBase src =
     (if length src = 0 then (m, 0)
      else (store_bytes m (payloadAt cellBase) src, of_nat (length src)))"

section \<open>Little-endian round trip\<close>

lemma bit_of_bytes:
  "bit (of_bytes bs :: 'a::len word) j \<longleftrightarrow>
     j < LENGTH('a) \<and> j div 8 < length bs \<and> bit (bs ! (j div 8)) (j mod 8)"
proof (induction bs arbitrary: j)
  case (Cons b bs)
  show ?case
  proof (cases "j < 8")
    case True
    then show ?thesis by (auto simp: bit_simps)
  next
    case False
    then have "j div 8 = Suc ((j - 8) div 8)" "j mod 8 = (j - 8) mod 8"
      by (simp_all add: le_div_geq le_mod_geq)
    with False Cons.IH [of "j - 8"] show ?thesis
      by (auto simp: bit_simps dest: bit_imp_le_length)
  qed
qed simp

lemma length_bytes_of [simp]: "length (bytes_of n w) = n"
  by (simp add: bytes_of_def)

lemma of_bytes_bytes_of:
  assumes "LENGTH('a) \<le> 8 * n"
  shows "of_bytes (bytes_of n w) = (w :: 'a::len word)"
proof (rule bit_word_eqI)
  fix j
  assume j: "j < LENGTH('a)"
  with assms have "j div 8 < n" by linarith
  with j show "bit (of_bytes (bytes_of n w) :: 'a word) j \<longleftrightarrow> bit w j"
    by (simp add: bit_of_bytes bytes_of_def bit_simps)
qed

section \<open>Loads after stores\<close>

text \<open>Two byte runs are apart when neither starts inside the other, on the circle of
  64-bit addresses.\<close>

definition apart :: "u64 \<Rightarrow> nat \<Rightarrow> u64 \<Rightarrow> nat \<Rightarrow> bool" where
  "apart p n q k \<longleftrightarrow> n \<le> unat (q - p) \<and> k \<le> unat (p - q)"

lemma length_load_bytes [simp]: "length (load_bytes m p n) = n"
  by (simp add: load_bytes_def)

lemma store_bytes_Nil [simp]: "store_bytes m p [] = m"
  by (simp add: store_bytes_def)

lemma store_bytes_other:
  assumes "apart p (length bs) q k" "i < k"
  shows "store_bytes m p bs (q + of_nat i) = m (q + of_nat i)"
proof -
  have d: "length bs \<le> unat (q - p)" "k \<le> unat (p - q)" using assms(1) by (simp_all add: apart_def)
  have "unat (q - p) + i < 2 ^ 64 \<or> length bs = 0"
  proof (cases "q = p")
    case False
    then have "unat (p - q) = 2 ^ 64 - unat (q - p)" by (intro unat_diff_swap) simp
    then have "unat (q - p) + i < 2 ^ 64" using d assms(2) unat_lt64 [of "q - p"] by linarith
    then show ?thesis ..
  qed (use d in simp)
  moreover have "i < 2 ^ 64" using d(2) assms(2) unat_lt64 [of "p - q"] by simp
  ultimately have "length bs \<le> unat ((q - p) + of_nat i)"
    using d(1) by (auto simp: unat_word_ariths unat_of_nat64)
  then have "length bs \<le> unat (q + of_nat i - p)" by (simp only: diff_add_eq)
  then show ?thesis by (simp add: store_bytes_def)
qed

lemma load_store_apart:
  "apart p (length bs) q k \<Longrightarrow> load_bytes (store_bytes m p bs) q k = load_bytes m q k"
  by (simp add: load_bytes_def store_bytes_other)

lemma load_store_prefix:
  assumes "length bs \<le> n" "n \<le> 2 ^ 64"
  shows "load_bytes (store_bytes m p bs) p n = bs @ drop (length bs) (load_bytes m p n)"
proof (rule nth_equalityI)
  fix i
  assume "i < length (load_bytes (store_bytes m p bs) p n)"
  with assms have "i < n" "unat (of_nat i :: u64) = i" by (auto simp: unat_of_nat64)
  with assms(1) show "load_bytes (store_bytes m p bs) p n ! i =
      (bs @ drop (length bs) (load_bytes m p n)) ! i"
    by (simp add: load_bytes_def store_bytes_def nth_append)
qed (use assms in simp)

lemma load_store_same:
  "length bs \<le> 2 ^ 64 \<Longrightarrow> load_bytes (store_bytes m p bs) p (length bs) = bs"
  by (simp add: load_store_prefix)

text \<open>Runs given by offsets from a common base: the way every cell and bucket is addressed.\<close>

lemma apart_offsets:
  assumes "x + n \<le> y" "y + k \<le> 2 ^ 64" "0 < n" "0 < k"
  shows "apart (b + of_nat x) n (b + of_nat y) k" "apart (b + of_nat y) k (b + of_nat x) n"
proof -
  have lt: "y - x < 2 ^ 64" "x < y" using assms by linarith+
  then have yx: "unat (b + of_nat y - (b + of_nat x)) = y - x"
    by (intro unat_diff_of_nat) simp_all
  then have "b + of_nat y \<noteq> b + of_nat x" using lt by auto
  then have "unat (b + of_nat x - (b + of_nat y)) = 2 ^ 64 - (y - x)"
    using yx by (subst unat_diff_swap) auto
  with yx assms show "apart (b + of_nat x) n (b + of_nat y) k" "apart (b + of_nat y) k (b + of_nat x) n"
    by (auto simp: apart_def)
qed

lemma load64_store64_same [mem_simps]: "ptrLoad64 (ptrStore64 m p v) p = v"
  using load_store_same [of "bytes_of 8 v" m p]
  by (simp add: ptrLoad64_def ptrStore64_def of_bytes_bytes_of)

lemma load32_store32_same [mem_simps]: "ptrLoad32 (ptrStore32 m p v) p = v"
  using load_store_same [of "bytes_of 4 v" m p]
  by (simp add: ptrLoad32_def ptrStore32_def of_bytes_bytes_of)

lemma loads_store_apart:
  "apart p 8 q 8 \<Longrightarrow> ptrLoad64 (ptrStore64 m p v) q = ptrLoad64 m q"
  "apart p 4 q 8 \<Longrightarrow> ptrLoad64 (ptrStore32 m p w) q = ptrLoad64 m q"
  "apart p 8 q 4 \<Longrightarrow> ptrLoad32 (ptrStore64 m p v) q = ptrLoad32 m q"
  "apart p 4 q 4 \<Longrightarrow> ptrLoad32 (ptrStore32 m p w) q = ptrLoad32 m q"
  "apart p 8 q n \<Longrightarrow> load_bytes (ptrStore64 m p v) q n = load_bytes m q n"
  "apart p 4 q n \<Longrightarrow> load_bytes (ptrStore32 m p w) q n = load_bytes m q n"
  "apart p (length bs) q 8 \<Longrightarrow> ptrLoad64 (store_bytes m p bs) q = ptrLoad64 m q"
  "apart p (length bs) q 4 \<Longrightarrow> ptrLoad32 (store_bytes m p bs) q = ptrLoad32 m q"
  by (simp_all add: ptrLoad64_def ptrLoad32_def ptrStore64_def ptrStore32_def load_store_apart)

lemma atomicCAS64_success [simp]: "atomicCAS64 v v new = (new, True)"
  by (simp add: atomicCAS64_def)

end
