(* ===== verification/Records.thy ===== *)
theory Records
  imports Memory
begin

text \<open>
  \<^verbatim>\<open>record.go\<close>: the view of one committed mutation that consumers are handed, and the FNV-1a
  digest. \<open>Payload\<close> is a slice into arena memory, so every operation that looks at its bytes
  takes the memory as an argument: the same record shows other bytes once its cell has been
  overwritten.
\<close>

record Record =
  Ticket :: u64
  Timestamp :: u64
  Key :: u64
  Epoch :: u64
  Slot :: u64
  Flags :: u32
  Checksum :: u32
  Payload :: slice
  Shard :: int

definition fnvOffset32 :: u32 where "fnvOffset32 = 2166136261"
definition fnvPrime32 :: u32 where "fnvPrime32 = 16777619"

text \<open>The loop of \<^verbatim>\<open>checksum32\<close>, byte by byte.\<close>

fun fnv_loop :: "u32 \<Rightarrow> u8 list \<Rightarrow> u32" where
  "fnv_loop h [] = h"
| "fnv_loop h (b # bs) = fnv_loop ((h XOR ucast b) * fnvPrime32) bs"

definition checksum32 :: "u8 list \<Rightarrow> u32" where
  "checksum32 b = (let h = fnv_loop fnvOffset32 b in if h = 0 then 1 else h)"

definition CopyPayload :: "mem \<Rightarrow> Record \<Rightarrow> u8 list" where
  "CopyPayload m r = (if sl_len (Payload r) = 0 then [] else slice_bytes m (Payload r))"

definition IsTombstone :: "Record \<Rightarrow> bool" where
  "IsTombstone r \<longleftrightarrow> Flags r AND FlagTombstone \<noteq> 0"

definition Verify :: "mem \<Rightarrow> Record \<Rightarrow> bool" where
  "Verify m r =
     (if Checksum r = 0 then True else checksum32 (slice_bytes m (Payload r)) = Checksum r)"

definition zero_Record :: Record where
  "zero_Record = \<lparr>Ticket = 0, Timestamp = 0, Key = 0, Epoch = 0, Slot = 0, Flags = 0,
     Checksum = 0, Payload = nil_slice, Shard = 0\<rparr>"

section \<open>The digest\<close>

lemma checksum32_nonzero [simp]: "checksum32 bs \<noteq> 0"
  by (simp add: checksum32_def Let_def)

lemma fnvPrime32_inverse: "fnvPrime32 * 899433627 = 1"
  by (simp add: fnvPrime32_def)

lemma fnv_mult_inj: "x * fnvPrime32 = y * fnvPrime32 \<Longrightarrow> x = y"
proof -
  assume "x * fnvPrime32 = y * fnvPrime32"
  then have "x * fnvPrime32 * 899433627 = y * fnvPrime32 * 899433627" by simp
  then show ?thesis by (simp only: mult.assoc fnvPrime32_inverse mult_1_right)
qed

lemma xor_cancel_right: "(x XOR z = y XOR z) = (x = y)" for x y z :: "'a::len word"
  by (metis xor.assoc xor.right_neutral xor_self_eq)

lemma ucast_u8_inj:
  assumes "(ucast (a :: u8) :: u32) = ucast b"
  shows "a = b"
proof (rule bit_word_eqI)
  fix n :: nat
  assume "n < LENGTH(8)"
  moreover have "bit (ucast a :: u32) n = bit (ucast b :: u32) n" using assms by simp
  ultimately show "bit a n = bit b n" by (simp add: bit_simps)
qed

lemma fnv_loop_append: "fnv_loop h (xs @ ys) = fnv_loop (fnv_loop h xs) ys"
  by (induction h xs rule: fnv_loop.induct) auto

text \<open>Every step is injective in the running digest, and in the byte.\<close>

lemma fnv_loop_inj: "fnv_loop h bs = fnv_loop h' bs \<Longrightarrow> h = h'"
proof (induction bs arbitrary: h h')
  case (Cons b bs)
  then have "(h XOR ucast b) * fnvPrime32 = (h' XOR ucast b) * fnvPrime32" by (metis fnv_loop.simps(2))
  then show ?case by (metis fnv_mult_inj xor_cancel_right)
qed simp

lemma fnv_loop_byte:
  assumes "fnv_loop h (a # bs) = fnv_loop h (b # bs)"
  shows "a = b"
proof -
  have "(h XOR ucast a) * fnvPrime32 = (h XOR ucast b) * fnvPrime32"
    using assms fnv_loop_inj by (metis fnv_loop.simps(2))
  then have "ucast a XOR h = (ucast b XOR h :: u32)" by (metis fnv_mult_inj xor.commute)
  then show ?thesis by (metis ucast_u8_inj xor_cancel_right)
qed

lemma fnv_single_byte:
  "a \<noteq> b \<Longrightarrow> fnv_loop h (xs @ a # ys) \<noteq> fnv_loop h (xs @ b # ys)"
  by (metis fnv_loop_append fnv_loop_byte)

text \<open>
  C34: A payload whose stored digest was taken with \<^verbatim>\<open>checksum32\<close> and in which exactly one byte
  has since changed is refused by \<^verbatim>\<open>Verify\<close>; the only digests that can hide such a change are
  0 and 1, which the reserved zero value folds together.
\<close>
theorem Verify_detects_byte_change:
  assumes "Checksum r = checksum32 (xs @ a # ys)"
    and "slice_bytes m (Payload r) = xs @ b # ys"
    and "a \<noteq> b"
    and "checksum32 (xs @ a # ys) \<noteq> 1"
  shows "\<not> Verify m r"
  using assms fnv_single_byte [OF assms(3), of fnvOffset32 xs ys]
  by (auto simp: Verify_def checksum32_def Let_def split: if_splits)

theorem Verify_detects_byte_change_witness:
  "\<not> Verify (\<lambda>_. 8) (zero_Record\<lparr>Checksum := checksum32 [7], Payload := \<lparr>sl_ptr = 64, sl_len = 1\<rparr>\<rparr>)"
  using Verify_detects_byte_change [of "zero_Record\<lparr>Checksum := checksum32 [7],
      Payload := \<lparr>sl_ptr = 64, sl_len = 1\<rparr>\<rparr>" "[]" 7 "[]" "\<lambda>_. 8" 8]
  by (simp add: slice_bytes_def load_bytes_def checksum32_def fnvOffset32_def fnvPrime32_def Let_def)

end
