(* ===== verification/Ring.thy ===== *)
theory Ring
  imports Records
begin

text \<open>
  \<^verbatim>\<open>ring.go\<close>: the bounded sequence ring whose cells live in arena memory. The operations are
  translated statement by statement over byte memory, each run without interference from
  another thread. Loops that a lone thread may never leave return an option.
\<close>

section \<open>The ring and its operations\<close>

record ring =
  r_base :: u64
  r_stride :: u64
  r_capacity :: u64
  r_mask :: u64
  r_payloadCap :: u64
  r_epoch :: u64
  r_tail :: padU64
  r_commit :: padU64
  r_head :: padU64

definition ring_t :: gotype where
  "ring_t = GStruct [GPointer, GUint64, GUint64, GUint64, GUint64, GUint64,
     GArray (unat (CoherenceStride - 48)) GByte, padU64_t, padU64_t, padU64_t]"

definition ringBytes :: "u64 \<Rightarrow> u64 \<Rightarrow> u64" where
  "ringBytes cells payloadCap = cells * cellStrideFor payloadCap"

text \<open>One iteration of the priming loop of \<^verbatim>\<open>initRing\<close>.\<close>

definition init_cell :: "u64 \<Rightarrow> u64 \<Rightarrow> u64 \<Rightarrow> nat \<Rightarrow> mem \<Rightarrow> mem" where
  "init_cell base stride epoch i m0 =
     (let c = cellAt base (of_nat i) stride;
          m1 = ptrStore64 m0 (fieldAt c offSeq) (of_nat i);
          m2 = ptrStore64 m1 (fieldAt c offTicket) 0;
          m3 = ptrStore64 m2 (fieldAt c offTimestamp) 0;
          m4 = ptrStore64 m3 (fieldAt c offKey) 0;
          m5 = ptrStore64 m4 (fieldAt c offLength) 0;
          m6 = ptrStore64 m5 (fieldAt c offEpoch) epoch;
          m7 = ptrStore64 m6 (fieldAt c offReserved) 0;
          m8 = ptrStore32 m7 (fieldAt c offChecksum) 0
      in ptrStore32 m8 (fieldAt c offFlags) 0)"

definition initRing :: "mem \<Rightarrow> u64 \<Rightarrow> u64 \<Rightarrow> u64 \<Rightarrow> u64 \<Rightarrow> error + mem \<times> ring" where
  "initRing m base cells payloadCap epoch =
     (if cells = 0 \<or> \<not> isPow2 cells then Inl ErrConfig
      else if \<not> isAligned base CacheLineSize then Inl ErrConfig
      else let stride = cellStrideFor payloadCap in
        Inr (fold (init_cell base stride epoch) [0..<unat cells] m,
             \<lparr>r_base = base, r_stride = stride, r_capacity = cells, r_mask = cells - 1,
              r_payloadCap = payloadCap, r_epoch = epoch, r_tail = 0, r_commit = 0, r_head = 0\<rparr>))"

definition cell :: "ring \<Rightarrow> u64 \<Rightarrow> u64" where
  "cell r pos = cellAt (r_base r) (pos AND r_mask r) (r_stride r)"

text \<open>\<^verbatim>\<open>claim\<close>: the turnstile. Without interference a positive difference is seen again on
  every turn of the loop, so the result is an option: \<open>None\<close> is "does not return".\<close>

partial_function (option) claim :: "mem \<Rightarrow> ring \<Rightarrow> ((u64 \<times> bool) \<times> ring) option" where
  "claim m r =
     (let pos = r_tail r;
          c = cell r pos;
          seq = ptrLoad64 m (fieldAt c offSeq);
          dif = sint (seq - pos)
      in if dif = 0 then
           (case atomicCAS64 (r_tail r) pos (pos + 1) of (t, ok) \<Rightarrow>
              if ok then Some ((pos, True), r\<lparr>r_tail := t\<rparr>) else claim m (r\<lparr>r_tail := t\<rparr>))
         else if dif < 0 then Some ((0, False), r)
         else claim m r)"

text \<open>\<^verbatim>\<open>advanceCommit\<close>: the distance from the commit index to the tail shrinks on every turn.\<close>

function advanceCommit :: "mem \<Rightarrow> ring \<Rightarrow> ring" where
  "advanceCommit m r =
     (let c = r_commit r in
      if c = r_tail r then r
      else if ptrLoad64 m (fieldAt (cell r c) offSeq) \<noteq> c + 1 then r
      else case atomicCAS64 (r_commit r) c (c + 1) of (c', ok) \<Rightarrow> advanceCommit m (r\<lparr>r_commit := c'\<rparr>))"
  by pat_completeness auto
termination
  by (relation "measure (\<lambda>(m, r). unat (r_tail r - r_commit r))")
    (auto simp: atomicCAS64_def unat_dist_decreases)

declare advanceCommit.simps [simp del]

text \<open>The stores of \<^verbatim>\<open>publish\<close>, up to and including the release store of the sequence word.\<close>

definition publish_stores ::
  "mem \<Rightarrow> ring \<Rightarrow> u64 \<Rightarrow> u64 \<Rightarrow> u64 \<Rightarrow> u64 \<Rightarrow> u32 \<Rightarrow> u8 list \<Rightarrow> u32 \<Rightarrow> mem \<times> u64" where
  "publish_stores m r pos ticket key ts flags payload checksum =
     (let c = cell r pos;
          (m0, n) = copyIntoPayload m c payload;
          m1 = ptrStore64 m0 (fieldAt c offTicket) ticket;
          m2 = ptrStore64 m1 (fieldAt c offTimestamp) ts;
          m3 = ptrStore64 m2 (fieldAt c offKey) key;
          m4 = ptrStore64 m3 (fieldAt c offLength) n;
          m5 = ptrStore64 m4 (fieldAt c offEpoch) (r_epoch r);
          m6 = ptrStore32 m5 (fieldAt c offChecksum) checksum;
          m7 = ptrStore32 m6 (fieldAt c offFlags) (flags OR FlagCommitted)
      in (ptrStore64 m7 (fieldAt c offSeq) (pos + 1), n))"

definition ring_publish ::
  "mem \<Rightarrow> ring \<Rightarrow> u64 \<Rightarrow> u64 \<Rightarrow> u64 \<Rightarrow> u64 \<Rightarrow> u32 \<Rightarrow> u8 list \<Rightarrow> u32 \<Rightarrow> u64 \<times> mem \<times> ring" where
  "ring_publish m r pos ticket key ts flags payload checksum =
     (let (m', n) = publish_stores m r pos ticket key ts flags payload checksum
      in (n, m', advanceCommit m' r))"

definition release :: "mem \<Rightarrow> ring \<Rightarrow> u64 \<Rightarrow> mem" where
  "release m r pos = ptrStore64 m (fieldAt (cell r pos) offSeq) (pos + r_capacity r)"

text \<open>\<^verbatim>\<open>dequeue\<close>: the loads of the claimed cell into the record.\<close>

definition load_record :: "mem \<Rightarrow> ring \<Rightarrow> u64 \<Rightarrow> Record \<Rightarrow> Record" where
  "load_record m r pos rec =
     (let c = cell r pos; n = ptrLoad64 m (fieldAt c offLength)
      in rec\<lparr>Ticket := ptrLoad64 m (fieldAt c offTicket),
             Timestamp := ptrLoad64 m (fieldAt c offTimestamp),
             Key := ptrLoad64 m (fieldAt c offKey),
             Epoch := ptrLoad64 m (fieldAt c offEpoch),
             Checksum := ptrLoad32 m (fieldAt c offChecksum),
             Flags := ptrLoad32 m (fieldAt c offFlags),
             Slot := pos AND r_mask r,
             Payload := payloadSlice c n\<rparr>)"

function dequeue :: "mem \<Rightarrow> ring \<Rightarrow> Record \<Rightarrow> (u64 \<times> bool) \<times> Record \<times> mem \<times> ring" where
  "dequeue m r rec =
     (let pos = r_head r in
      if pos \<ge> r_commit r then ((0, False), rec, m, r)
      else case atomicCAS64 (r_head r) pos (pos + 1) of (h, ok) \<Rightarrow>
        if \<not> ok then dequeue m (r\<lparr>r_head := h\<rparr>) rec
        else let r' = r\<lparr>r_head := h\<rparr>; c = cell r' pos in
          if ptrLoad64 m (fieldAt c offSeq) \<noteq> pos + 1
          then ((0, False), rec, release m r' pos, r')
          else ((pos, True), load_record m r' pos rec, m, r'))"
  by pat_completeness auto
termination
  by (relation "{}") (auto simp: atomicCAS64_def)

declare dequeue.simps [simp del]

definition pending :: "ring \<Rightarrow> u64" where
  "pending r = (let h = r_head r; t = r_tail r in if t < h then 0 else t - h)"

definition committed :: "ring \<Rightarrow> u64" where
  "committed r = (let h = r_head r; c = r_commit r in if c < h then 0 else c - h)"

definition occupancyPct :: "ring \<Rightarrow> u64" where
  "occupancyPct r = pending r * 100 div r_capacity r"

section \<open>Geometry\<close>

text \<open>What \<^verbatim>\<open>initRing\<close> fixes about a ring, together with the caller's promise that the cells
  fit the address space.\<close>

definition ring_geom :: "ring \<Rightarrow> bool" where
  "ring_geom r \<longleftrightarrow> isPow2 (r_capacity r) \<and> r_mask r = r_capacity r - 1 \<and>
     isAligned (r_base r) 64 \<and> r_stride r = cellStrideFor (r_payloadCap r) \<and>
     unat (r_payloadCap r) + 127 < 2 ^ 64 \<and> unat (r_capacity r) * unat (r_stride r) \<le> 2 ^ 64"

abbreviation rcap :: "ring \<Rightarrow> nat" where
  "rcap r \<equiv> unat (r_capacity r)"

text \<open>The cell of slot \<open>i\<close>.\<close>

definition cellB :: "ring \<Rightarrow> nat \<Rightarrow> u64" where
  "cellB r i = cellAt (r_base r) (of_nat i) (r_stride r)"

lemma cell_cellB:
  assumes "ring_geom r"
  shows "cell r pos = cellB r (unat pos mod rcap r)"
proof -
  from assms obtain k where "k < 64" "r_capacity r = 2 ^ k"
    by (auto simp: ring_geom_def isPow2_iff)
  then have "unat (pos AND r_mask r) = unat pos mod rcap r"
    using assms by (simp add: ring_geom_def and_mask_mod unat_pow2)
  then have "pos AND r_mask r = of_nat (unat pos mod rcap r)" by (metis of_nat_unat ucast_id)
  then show ?thesis by (simp add: cell_def cellB_def)
qed

lemma ring_geom_pos: "ring_geom r \<Longrightarrow> 0 < rcap r"
  by (auto simp: ring_geom_def isPow2_def unat_gt_0)

lemma ring_geom_fits: "ring_geom r \<Longrightarrow> rcap r * unat (r_stride r) \<le> 2 ^ 64"
  unfolding ring_geom_def by (elim conjE)

end
