(* ===== verification/Cells.thy ===== *)
theory Cells
  imports Ring
begin

text \<open>
  What a cell holds. \<open>read_cell\<close> gathers the words of one cell into a record, so that a
  store into one field of one cell becomes an update of one field of one view; the proofs
  about the ring and the index work on views and never look at addresses again.
\<close>

section \<open>Cells and fields do not overlap\<close>

lemma cellB_offset:
  "cellB r i + of_nat off = r_base r + of_nat (i * unat (r_stride r) + off)"
  by (simp add: cellB_def cellAt_def)

lemma cell_end_le:
  assumes "ring_geom r" "i < rcap r" "off + n \<le> unat (r_stride r)"
  shows "i * unat (r_stride r) + off + n \<le> 2 ^ 64"
proof -
  have "(i + 1) * unat (r_stride r) \<le> rcap r * unat (r_stride r)"
    using assms(2) by (intro mult_le_mono1) simp
  also have "\<dots> \<le> 2 ^ 64" using assms(1) by (rule ring_geom_fits)
  finally show ?thesis using assms(3) by simp
qed

lemma cells_ordered:
  assumes "i < (j::nat)" "off + n \<le> S"
  shows "i * S + off + n \<le> j * S + off'"
proof -
  have "(i + 1) * S \<le> j * S" using assms(1) by (intro mult_le_mono1) simp
  then show ?thesis using assms(2) by simp
qed

lemma cell_apart:
  assumes g: "ring_geom r" and ij: "i < rcap r" "j < rcap r"
    and fit: "off + n \<le> unat (r_stride r)" "off' + n' \<le> unat (r_stride r)"
    and pos: "0 < n" "0 < n'"
    and apart: "i \<noteq> j \<or> off + n \<le> off' \<or> off' + n' \<le> off"
  shows "apart (cellB r i + of_nat off) n (cellB r j + of_nat off') n'"
proof -
  let ?S = "unat (r_stride r)"
  have ends: "i * ?S + off + n \<le> 2 ^ 64" "j * ?S + off' + n' \<le> 2 ^ 64"
    using cell_end_le g ij fit by blast+
  consider "i * ?S + off + n \<le> j * ?S + off'" | "j * ?S + off' + n' \<le> i * ?S + off"
    using apart cells_ordered [of i j off n ?S off'] cells_ordered [of j i off' n' ?S off] fit
    by (metis add.assoc add_le_cancel_left linorder_neqE_nat)
  then show ?thesis
  proof cases
    case 1
    show ?thesis unfolding cellB_offset by (rule apart_offsets(1) [OF 1 ends(2) pos])
  next
    case 2
    show ?thesis unfolding cellB_offset by (rule apart_offsets(2) [OF 2 ends(1) pos(2,1)])
  qed
qed

section \<open>Views\<close>

record cellv =
  cv_seq :: u64
  cv_ticket :: u64
  cv_timestamp :: u64
  cv_key :: u64
  cv_length :: u64
  cv_epoch :: u64
  cv_checksum :: u32
  cv_flags :: u32
  cv_payload :: "u8 list"

definition read_cell :: "mem \<Rightarrow> ring \<Rightarrow> nat \<Rightarrow> cellv" where
  "read_cell m r i =
     (let c = cellB r i in
      \<lparr>cv_seq = ptrLoad64 m (fieldAt c offSeq), cv_ticket = ptrLoad64 m (fieldAt c offTicket),
       cv_timestamp = ptrLoad64 m (fieldAt c offTimestamp), cv_key = ptrLoad64 m (fieldAt c offKey),
       cv_length = ptrLoad64 m (fieldAt c offLength), cv_epoch = ptrLoad64 m (fieldAt c offEpoch),
       cv_checksum = ptrLoad32 m (fieldAt c offChecksum), cv_flags = ptrLoad32 m (fieldAt c offFlags),
       cv_payload = load_bytes m (payloadAt c) (unat (r_payloadCap r))\<rparr>)"

lemma read_cell_cursors [simp]:
  "read_cell m (r\<lparr>r_tail := t\<rparr>) = read_cell m r"
  "read_cell m (r\<lparr>r_commit := t\<rparr>) = read_cell m r"
  "read_cell m (r\<lparr>r_head := t\<rparr>) = read_cell m r"
  by (simp_all add: read_cell_def cellB_def fun_eq_iff)

lemma read_cell_loads:
  "ptrLoad64 m (fieldAt (cellB r i) offSeq) = cv_seq (read_cell m r i)"
  "ptrLoad64 m (fieldAt (cellB r i) offTicket) = cv_ticket (read_cell m r i)"
  "ptrLoad64 m (fieldAt (cellB r i) offTimestamp) = cv_timestamp (read_cell m r i)"
  "ptrLoad64 m (fieldAt (cellB r i) offKey) = cv_key (read_cell m r i)"
  "ptrLoad64 m (fieldAt (cellB r i) offLength) = cv_length (read_cell m r i)"
  "ptrLoad64 m (fieldAt (cellB r i) offEpoch) = cv_epoch (read_cell m r i)"
  "ptrLoad32 m (fieldAt (cellB r i) offChecksum) = cv_checksum (read_cell m r i)"
  "ptrLoad32 m (fieldAt (cellB r i) offFlags) = cv_flags (read_cell m r i)"
  "load_bytes m (payloadAt (cellB r i)) (unat (r_payloadCap r)) = cv_payload (read_cell m r i)"
  by (simp_all add: read_cell_def Let_def)

lemma length_cv_payload [simp]: "length (cv_payload (read_cell m r i)) = unat (r_payloadCap r)"
  by (simp add: read_cell_def Let_def)

text \<open>The two kinds of places inside a cell: a header word and the payload run.\<close>

lemma header_apart:
  assumes "ring_geom r" "i < rcap r" "j < rcap r"
    and "unat off + n \<le> 64" "unat off' + n' \<le> 64" "0 < n" "0 < n'"
    and "i \<noteq> j \<or> unat off + n \<le> unat off' \<or> unat off' + n' \<le> unat off"
  shows "apart (fieldAt (cellB r i) off) n (fieldAt (cellB r j) off') n'"
proof -
  have "64 \<le> unat (r_stride r)"
    using assms(1) cellStrideFor_bounds(1) [of "r_payloadCap r"] by (simp add: ring_geom_def)
  with assms have "apart (cellB r i + of_nat (unat off)) n (cellB r j + of_nat (unat off')) n'"
    by (intro cell_apart) auto
  then show ?thesis by (simp add: fieldAt_def)
qed

lemma payload_header_apart:
  assumes "ring_geom r" "i < rcap r" "j < rcap r"
    and "k \<le> unat (r_payloadCap r)" "unat off + n \<le> 64" "0 < k" "0 < n"
  shows "apart (payloadAt (cellB r i)) k (fieldAt (cellB r j) off) n"
    "apart (fieldAt (cellB r j) off) n (payloadAt (cellB r i)) k"
proof -
  have "unat (r_payloadCap r) + 64 \<le> unat (r_stride r)"
    using assms(1) cellStrideFor_bounds(1) [of "r_payloadCap r"] by (simp add: ring_geom_def)
  with assms have "apart (cellB r i + of_nat 64) k (cellB r j + of_nat (unat off)) n"
    by (intro cell_apart) auto
  then show "apart (payloadAt (cellB r i)) k (fieldAt (cellB r j) off) n"
    "apart (fieldAt (cellB r j) off) n (payloadAt (cellB r i)) k"
    by (auto simp: fieldAt_def payloadAt_def HeaderSize_def apart_def)
qed

lemma payload_apart:
  assumes "ring_geom r" "i < rcap r" "j < rcap r" "i \<noteq> j"
    and "k \<le> unat (r_payloadCap r)" "n \<le> unat (r_payloadCap r)" "0 < k" "0 < n"
  shows "apart (payloadAt (cellB r i)) k (payloadAt (cellB r j)) n"
proof -
  have "unat (r_payloadCap r) + 64 \<le> unat (r_stride r)"
    using assms(1) cellStrideFor_bounds(1) [of "r_payloadCap r"] by (simp add: ring_geom_def)
  with assms have "apart (cellB r i + of_nat 64) k (cellB r j + of_nat 64) n"
    by (intro cell_apart) auto
  then show ?thesis by (simp add: payloadAt_def HeaderSize_def)
qed

section \<open>Stores seen through views\<close>

lemma unat_offsets [simp]:
  "unat offSeq = 0" "unat offTicket = 8" "unat offTimestamp = 16" "unat offKey = 24"
  "unat offLength = 32" "unat offEpoch = 40" "unat offChecksum = 48" "unat offFlags = 52"
  "unat offReserved = 56"
  by (simp_all add: layout_simps)

lemma payload_load_header_store:
  assumes "ring_geom r" "i < rcap r" "j < rcap r" "k \<le> unat (r_payloadCap r)" "unat off + 8 \<le> 64"
  shows "load_bytes (ptrStore64 m (fieldAt (cellB r i) off) v) (payloadAt (cellB r j)) k =
      load_bytes m (payloadAt (cellB r j)) k"
    "load_bytes (ptrStore32 m (fieldAt (cellB r i) off) w) (payloadAt (cellB r j)) k =
      load_bytes m (payloadAt (cellB r j)) k"
proof -
  have "load_bytes (ptrStore64 m (fieldAt (cellB r i) off) v) (payloadAt (cellB r j)) k =
      load_bytes m (payloadAt (cellB r j)) k \<and>
    load_bytes (ptrStore32 m (fieldAt (cellB r i) off) w) (payloadAt (cellB r j)) k =
      load_bytes m (payloadAt (cellB r j)) k"
  proof (cases "k = 0")
    case True
    then show ?thesis by (simp add: load_bytes_def)
  next
    case False
    with assms show ?thesis by (simp add: loads_store_apart payload_header_apart)
  qed
  then show "load_bytes (ptrStore64 m (fieldAt (cellB r i) off) v) (payloadAt (cellB r j)) k =
      load_bytes m (payloadAt (cellB r j)) k"
    "load_bytes (ptrStore32 m (fieldAt (cellB r i) off) w) (payloadAt (cellB r j)) k =
      load_bytes m (payloadAt (cellB r j)) k" by simp_all
qed

lemmas view_simps = read_cell_def Let_def load64_store64_same load32_store32_same
  loads_store_apart(1-4) header_apart payload_load_header_store

lemma read_cell_stores [mem_simps]:
  assumes "ring_geom r" "i < rcap r" "j < rcap r"
  shows
  "read_cell (ptrStore64 m (fieldAt (cellB r i) offSeq) v) r j =
     (if j = i then (read_cell m r i)\<lparr>cv_seq := v\<rparr> else read_cell m r j)"
  "read_cell (ptrStore64 m (fieldAt (cellB r i) offTicket) v) r j =
     (if j = i then (read_cell m r i)\<lparr>cv_ticket := v\<rparr> else read_cell m r j)"
  "read_cell (ptrStore64 m (fieldAt (cellB r i) offTimestamp) v) r j =
     (if j = i then (read_cell m r i)\<lparr>cv_timestamp := v\<rparr> else read_cell m r j)"
  "read_cell (ptrStore64 m (fieldAt (cellB r i) offKey) v) r j =
     (if j = i then (read_cell m r i)\<lparr>cv_key := v\<rparr> else read_cell m r j)"
  "read_cell (ptrStore64 m (fieldAt (cellB r i) offLength) v) r j =
     (if j = i then (read_cell m r i)\<lparr>cv_length := v\<rparr> else read_cell m r j)"
  "read_cell (ptrStore64 m (fieldAt (cellB r i) offEpoch) v) r j =
     (if j = i then (read_cell m r i)\<lparr>cv_epoch := v\<rparr> else read_cell m r j)"
  "read_cell (ptrStore64 m (fieldAt (cellB r i) offReserved) v) r j = read_cell m r j"
  "read_cell (ptrStore32 m (fieldAt (cellB r i) offChecksum) w) r j =
     (if j = i then (read_cell m r i)\<lparr>cv_checksum := w\<rparr> else read_cell m r j)"
  "read_cell (ptrStore32 m (fieldAt (cellB r i) offFlags) w) r j =
     (if j = i then (read_cell m r i)\<lparr>cv_flags := w\<rparr> else read_cell m r j)"
  using assms by (simp_all add: view_simps)

lemma copyIntoPayload_count [mem_simps]: "snd (copyIntoPayload m c src) = of_nat (length src)"
  by (simp add: copyIntoPayload_def)

lemma load_after_copy:
  assumes "ring_geom r" "i < rcap r" "j < rcap r" "length src \<le> unat (r_payloadCap r)"
  shows "load_bytes (store_bytes m (payloadAt (cellB r i)) src) (payloadAt (cellB r j)) (unat (r_payloadCap r)) =
    (if j = i then src @ drop (length src) (cv_payload (read_cell m r i)) else cv_payload (read_cell m r j))"
proof (cases "j = i \<or> src = []")
  case True
  moreover have "unat (r_payloadCap r) \<le> 2 ^ 64" using unat_lt64 [of "r_payloadCap r"] by simp
  ultimately show ?thesis
    using assms by (auto simp: load_store_prefix simp flip: read_cell_loads(9))
next
  case False
  then have "0 < length src" by simp
  moreover from this have "0 < unat (r_payloadCap r)" using assms(4) by linarith
  ultimately have "apart (payloadAt (cellB r i)) (length src) (payloadAt (cellB r j)) (unat (r_payloadCap r))"
    using assms False by (intro payload_apart) auto
  with False show ?thesis by (simp add: load_store_apart flip: read_cell_loads(9))
qed

lemma read_cell_copy [mem_simps]:
  assumes "ring_geom r" "i < rcap r" "j < rcap r" "length src \<le> unat (r_payloadCap r)"
  shows "read_cell (fst (copyIntoPayload m (cellB r i) src)) r j =
     (if j = i then (read_cell m r i)\<lparr>cv_payload := src @ drop (length src) (cv_payload (read_cell m r i))\<rparr>
      else read_cell m r j)"
proof (cases "src = []")
  case False
  then have "0 < length src" by simp
  then have ap: "unat off + n \<le> 64 \<Longrightarrow> 0 < n \<Longrightarrow>
      apart (payloadAt (cellB r i)) (length src) (fieldAt (cellB r j) off) n" for off n
    using assms by (intro payload_header_apart)
  have "read_cell (store_bytes m (payloadAt (cellB r i)) src) r j =
     (read_cell m r j)\<lparr>cv_payload :=
        if j = i then src @ drop (length src) (cv_payload (read_cell m r i)) else cv_payload (read_cell m r j)\<rparr>"
    unfolding load_after_copy [OF assms, symmetric]
    by (simp add: read_cell_def Let_def loads_store_apart(7,8) ap)
  with False show ?thesis by (simp add: copyIntoPayload_def)
qed (simp add: copyIntoPayload_def)

section \<open>The ring operations on views\<close>

abbreviation rslot :: "ring \<Rightarrow> u64 \<Rightarrow> nat" where
  "rslot r pos \<equiv> unat pos mod rcap r"

lemma rslot_less [simp]: "ring_geom r \<Longrightarrow> rslot r pos < rcap r"
  by (simp add: ring_geom_pos)

lemma publish_stores_view:
  assumes "ring_geom r" "j < rcap r" "length payload \<le> unat (r_payloadCap r)"
  shows "read_cell (fst (publish_stores m r pos ticket key ts flags payload checksum)) r j =
    (if j = rslot r pos
     then \<lparr>cv_seq = pos + 1, cv_ticket = ticket, cv_timestamp = ts, cv_key = key,
           cv_length = of_nat (length payload), cv_epoch = r_epoch r, cv_checksum = checksum,
           cv_flags = flags OR FlagCommitted,
           cv_payload = payload @ drop (length payload) (cv_payload (read_cell m r j))\<rparr>
     else read_cell m r j)"
    "snd (publish_stores m r pos ticket key ts flags payload checksum) = of_nat (length payload)"
  using assms
  by (simp_all add: publish_stores_def Let_def case_prod_beta cell_cellB mem_simps)

lemma release_view:
  assumes "ring_geom r" "j < rcap r"
  shows "read_cell (release m r pos) r j =
    (if j = rslot r pos then (read_cell m r j)\<lparr>cv_seq := pos + r_capacity r\<rparr> else read_cell m r j)"
  using assms by (simp add: release_def cell_cellB mem_simps)

lemma load_record_view:
  assumes "ring_geom r" "v = read_cell m r (rslot r pos)"
  shows "load_record m r pos rec =
    rec\<lparr>Ticket := cv_ticket v, Timestamp := cv_timestamp v, Key := cv_key v, Epoch := cv_epoch v,
        Checksum := cv_checksum v, Flags := cv_flags v, Slot := pos AND r_mask r,
        Payload := payloadSlice (cellB r (rslot r pos)) (cv_length v)\<rparr>"
  using assms by (simp add: load_record_def Let_def cell_cellB read_cell_loads)

lemma init_cell_view:
  assumes "ring_geom r" "i < rcap r" "j < rcap r"
  shows "read_cell (init_cell (r_base r) (r_stride r) e i m) r j =
    (if j = i then \<lparr>cv_seq = of_nat i, cv_ticket = 0, cv_timestamp = 0, cv_key = 0, cv_length = 0,
       cv_epoch = e, cv_checksum = 0, cv_flags = 0, cv_payload = cv_payload (read_cell m r j)\<rparr>
     else read_cell m r j)"
  using assms
  by (simp add: init_cell_def Let_def cellB_def [symmetric] mem_simps)

lemma init_cells_view:
  assumes "ring_geom r" "n \<le> rcap r" "j < rcap r"
  shows "read_cell (fold (init_cell (r_base r) (r_stride r) e) [0..<n] m) r j =
    (if j < n then \<lparr>cv_seq = of_nat j, cv_ticket = 0, cv_timestamp = 0, cv_key = 0, cv_length = 0,
       cv_epoch = e, cv_checksum = 0, cv_flags = 0, cv_payload = cv_payload (read_cell m r j)\<rparr>
     else read_cell m r j)"
  using assms(2)
proof (induction n)
  case (Suc n)
  then show ?case using assms(1,3) by (auto simp: init_cell_view)
qed simp

text \<open>The bytes of a payload slice of length at most the payload capacity.\<close>

lemma payloadSlice_bytes:
  assumes "unat n \<le> unat (r_payloadCap r)"
  shows "slice_bytes m (payloadSlice (cellB r i) n) = take (unat n) (cv_payload (read_cell m r i))"
proof -
  have "load_bytes m p k = take k (load_bytes m p l)" if "k \<le> l" for p k l
    using that by (simp add: load_bytes_def take_map)
  from this [OF assms, of "payloadAt (cellB r i)"] show ?thesis
    by (simp add: slice_bytes_def payloadSlice_def nil_slice_def load_bytes_def read_cell_def Let_def)
qed

end
