(* ===== verification/RingInv.thy ===== *)
theory RingInv
  imports Cells
begin

text \<open>
  The ring invariant and what every operation does to it. The ghost sets \<open>W\<close> and \<open>R\<close> are
  the positions claimed but not yet published and the positions dequeued but not yet
  released; \<open>L\<close> maps a position to the entry published there.
\<close>

record entry =
  e_ticket :: u64
  e_timestamp :: u64
  e_key :: u64
  e_flags :: u32
  e_checksum :: u32
  e_payload :: "u8 list"

definition holds :: "ring \<Rightarrow> cellv \<Rightarrow> entry \<Rightarrow> bool" where
  "holds r v e \<longleftrightarrow> cv_ticket v = e_ticket e \<and> cv_timestamp v = e_timestamp e \<and> cv_key v = e_key e \<and>
     cv_epoch v = r_epoch r \<and> cv_flags v = e_flags e OR FlagCommitted \<and>
     cv_checksum v = e_checksum e \<and> cv_length v = of_nat (length (e_payload e)) \<and>
     length (e_payload e) \<le> unat (r_payloadCap r) \<and>
     take (length (e_payload e)) (cv_payload v) = e_payload e"

abbreviation "rT r \<equiv> unat (r_tail r)"
abbreviation "rC r \<equiv> unat (r_commit r)"
abbreviation "rH r \<equiv> unat (r_head r)"

text \<open>The life of position \<open>p\<close>, read off the sequence word of its cell: claimed, published
  (and perhaps being read), or handed on to the next lap.\<close>

definition slot_ok :: "mem \<Rightarrow> ring \<Rightarrow> nat set \<Rightarrow> nat set \<Rightarrow> (nat \<Rightarrow> entry) \<Rightarrow> nat \<Rightarrow> bool" where
  "slot_ok m r W R L p \<longleftrightarrow>
     (let v = read_cell m r (p mod rcap r) in
      if p \<in> W then cv_seq v = of_nat p
      else if rH r \<le> p \<or> p \<in> R then cv_seq v = of_nat (p + 1) \<and> holds r v (L p)
      else cv_seq v = of_nat (p + rcap r))"

text \<open>\<open>ring_inv0\<close> lets the commit index lag behind the published prefix, as it does between
  the release store of \<^verbatim>\<open>publish\<close> and the end of \<^verbatim>\<open>advanceCommit\<close>.\<close>

definition ring_inv0 :: "mem \<Rightarrow> ring \<Rightarrow> nat set \<Rightarrow> nat set \<Rightarrow> (nat \<Rightarrow> entry) \<Rightarrow> bool" where
  "ring_inv0 m r W R L \<longleftrightarrow> ring_geom r \<and> 2 \<le> rcap r \<and>
     rH r \<le> rC r \<and> rC r \<le> rT r \<and> rT r \<le> rH r + rcap r \<and> rT r + rcap r < 2 ^ 64 \<and>
     W \<subseteq> {rC r..<rT r} \<and> R \<subseteq> {..<rH r} \<and> (\<forall>q\<in>R. rT r \<le> q + rcap r) \<and>
     (\<forall>p. p < rT r \<longrightarrow> rT r \<le> p + rcap r \<longrightarrow> slot_ok m r W R L p) \<and>
     (\<forall>p. rT r \<le> p \<longrightarrow> p < rcap r \<longrightarrow> cv_seq (read_cell m r p) = of_nat p)"

definition ring_inv :: "mem \<Rightarrow> ring \<Rightarrow> nat set \<Rightarrow> nat set \<Rightarrow> (nat \<Rightarrow> entry) \<Rightarrow> bool" where
  "ring_inv m r W R L \<longleftrightarrow> ring_inv0 m r W R L \<and> (rC r = rT r \<or> rC r \<in> W)"

lemma ring_inv0D:
  assumes "ring_inv0 m r W R L"
  shows "ring_geom r" "2 \<le> rcap r" "rH r \<le> rC r" "rC r \<le> rT r" "rT r \<le> rH r + rcap r"
    "rT r + rcap r < 2 ^ 64" "W \<subseteq> {rC r..<rT r}" "R \<subseteq> {..<rH r}"
    "\<And>q. q \<in> R \<Longrightarrow> rT r \<le> q + rcap r"
    "\<And>p. p < rT r \<Longrightarrow> rT r \<le> p + rcap r \<Longrightarrow> slot_ok m r W R L p"
    "\<And>p. rT r \<le> p \<Longrightarrow> p < rcap r \<Longrightarrow> cv_seq (read_cell m r p) = of_nat p"
  using assms unfolding ring_inv0_def by blast+

lemma ring_invD: "ring_inv m r W R L \<Longrightarrow> ring_inv0 m r W R L"
  "ring_inv m r W R L \<Longrightarrow> rC r = rT r \<or> rC r \<in> W"
  by (auto simp: ring_inv_def)

section \<open>Starting\<close>

lemma initRing_geom:
  assumes "initRing m base cells payloadCap epoch = Inr (m', r)"
    and "unat payloadCap + 127 < 2 ^ 64" "unat cells * unat (cellStrideFor payloadCap) \<le> 2 ^ 64"
  shows "ring_geom r" "r_capacity r = cells" "r_payloadCap r = payloadCap" "r_base r = base"
    "r_tail r = 0" "r_commit r = 0" "r_head r = 0" "r_epoch r = epoch"
    "m' = fold (init_cell (r_base r) (r_stride r) epoch) [0..<rcap r] m"
  using assms
  by (auto simp: initRing_def ring_geom_def Let_def CacheLineSize_def split: if_splits)

lemma initRing_inv:
  assumes init: "initRing m base cells payloadCap epoch = Inr (m', r)"
    and fits: "unat payloadCap + 127 < 2 ^ 64" "unat cells * unat (cellStrideFor payloadCap) \<le> 2 ^ 64"
    and two: "2 \<le> unat cells"
  shows "ring_inv m' r {} {} L"
proof -
  note g = initRing_geom [OF init fits]
  have seq: "cv_seq (read_cell m' r p) = of_nat p" if "p < rcap r" for p
    using init_cells_view [OF g(1) order_refl that] that g(9) by simp
  have "rcap r < 2 ^ 64" using unat_lt64 [of "r_capacity r"] by simp
  with g seq two show ?thesis by (simp add: ring_inv_def ring_inv0_def)
qed

section \<open>Claiming\<close>

definition ring_full :: "ring \<Rightarrow> nat set \<Rightarrow> nat set \<Rightarrow> bool" where
  "ring_full r W R \<longleftrightarrow> rcap r \<le> rT r \<and> (let q = rT r - rcap r in q \<in> W \<or> rH r \<le> q \<or> q \<in> R)"

lemma tail_seq:
  assumes "ring_inv0 m r W R L" "v = read_cell m r (rslot r (r_tail r))"
  shows "\<not> ring_full r W R \<Longrightarrow> cv_seq v = r_tail r"
    and "ring_full r W R \<Longrightarrow> \<exists>d. 1 \<le> d \<and> d \<le> rcap r \<and> d \<le> rT r \<and> cv_seq v = of_nat (rT r - d)"
proof -
  note i = ring_inv0D [OF assms(1)]
  let ?q = "rT r - rcap r"
  have ok: "slot_ok m r W R L ?q" if "rcap r \<le> rT r"
    using that i(2,10) by simp
  have slot: "?q mod rcap r = rT r mod rcap r" if "rcap r \<le> rT r"
    using that by (simp add: le_mod_geq)
  have w: "of_nat (rT r) = r_tail r" by simp
  show "cv_seq v = r_tail r" if "\<not> ring_full r W R"
    using that ok slot i(11) [of "rT r"] assms(2) w
    by (cases "rcap r \<le> rT r") (auto simp: ring_full_def slot_ok_def Let_def simp del: of_nat_unat)
  show "\<exists>d. 1 \<le> d \<and> d \<le> rcap r \<and> d \<le> rT r \<and> cv_seq v = of_nat (rT r - d)" if full: "ring_full r W R"
  proof (cases "?q \<in> W")
    case True
    with full ok slot assms(2) i(2) have "cv_seq v = of_nat (rT r - rcap r)"
      by (simp add: ring_full_def slot_ok_def Let_def)
    with full i(2) show ?thesis by (intro exI [of _ "rcap r"]) (simp add: ring_full_def)
  next
    case False
    with full ok slot assms(2) have "cv_seq v = of_nat (?q + 1)"
      by (auto simp: ring_full_def slot_ok_def Let_def)
    moreover from full have "rcap r \<le> rT r" by (simp add: ring_full_def)
    then have "?q + 1 = rT r - (rcap r - 1)" using i(2) by linarith
    ultimately show ?thesis
      using full i(2) by (intro exI [of _ "rcap r - 1"]) (auto simp: ring_full_def)
  qed
qed


lemma ring_cap_bound: "ring_geom r \<Longrightarrow> rcap r \<le> 2 ^ 58"
proof -
  assume g: "ring_geom r"
  have "64 \<le> unat (r_stride r)"
    using g cellStrideFor_bounds(1) [of "r_payloadCap r"] by (simp add: ring_geom_def)
  then have "rcap r * 64 \<le> rcap r * unat (r_stride r)" by (rule mult_le_mono2)
  also have "\<dots> \<le> 2 ^ 64" using g by (rule ring_geom_fits)
  finally show ?thesis by simp
qed

lemma claim_full:
  assumes "ring_inv0 m r W R L" "ring_full r W R"
  shows "claim m r = Some ((0, False), r)"
proof -
  note i = ring_inv0D [OF assms(1)]
  obtain d where d: "1 \<le> d" "d \<le> rcap r" "d \<le> rT r"
    "cv_seq (read_cell m r (rslot r (r_tail r))) = of_nat (rT r - d)"
    using tail_seq(2) [OF assms(1) refl assms(2)] by blast
  have "of_nat (rT r - d) - r_tail r = (- of_nat d :: u64)" using d(3) by (simp add: of_nat_diff)
  moreover have "d \<le> 2 ^ 63" using d(2) ring_cap_bound [OF i(1)] by simp
  ultimately have "sint (of_nat (rT r - d) - r_tail r) = - int d" by (simp only: sint_neg_of_nat)
  then show ?thesis
    using d by (subst claim.simps) (simp add: Let_def cell_cellB [OF i(1)] read_cell_loads)
qed

lemma claim_free:
  assumes "ring_inv0 m r W R L" "\<not> ring_full r W R"
  shows "claim m r = Some ((r_tail r, True), r\<lparr>r_tail := r_tail r + 1\<rparr>)"
  using tail_seq(1) [OF assms(1) refl assms(2)] ring_inv0D(1) [OF assms(1)]
  by (subst claim.simps) (simp add: Let_def cell_cellB read_cell_loads)

lemma ring_geom_cursors [simp]:
  "ring_geom (r\<lparr>r_tail := t\<rparr>) = ring_geom r"
  "ring_geom (r\<lparr>r_commit := t\<rparr>) = ring_geom r"
  "ring_geom (r\<lparr>r_head := t\<rparr>) = ring_geom r"
  by (simp_all add: ring_geom_def)

lemma holds_cursors [simp]:
  "holds (r\<lparr>r_tail := t\<rparr>) = holds r"
  "holds (r\<lparr>r_commit := t\<rparr>) = holds r"
  "holds (r\<lparr>r_head := t\<rparr>) = holds r"
  by (simp_all add: holds_def fun_eq_iff)

lemma slot_ok_cursors [simp]:
  "slot_ok m (r\<lparr>r_tail := t\<rparr>) W R L p = slot_ok m r W R L p"
  "slot_ok m (r\<lparr>r_commit := t\<rparr>) W R L p = slot_ok m r W R L p"
  by (simp_all add: slot_ok_def)

lemma claim_inv0:
  assumes inv: "ring_inv0 m r W R L" and free: "\<not> ring_full r W R" and room: "rT r + rcap r + 1 < 2 ^ 64"
  shows "ring_inv0 m (r\<lparr>r_tail := r_tail r + 1\<rparr>) (insert (rT r) W) R L"
proof -
  note i = ring_inv0D [OF inv]
  have t: "unat (r_tail r + 1) = rT r + 1" using room by (simp add: unat_add1)
  have seq: "cv_seq (read_cell m r (rT r mod rcap r)) = of_nat (rT r)"
    using tail_seq(1) [OF inv refl free] by simp
  have ok: "slot_ok m r (insert (rT r) W) R L p" if "p < rT r + 1" "rT r + 1 \<le> p + rcap r" for p
  proof (cases "p = rT r")
    case True
    then show ?thesis using seq by (simp add: slot_ok_def)
  next
    case False
    then show ?thesis using i(10) [of p] that by (simp add: slot_ok_def)
  qed
  have "rT r \<noteq> rH r + rcap r" "q \<in> R \<Longrightarrow> rT r \<noteq> q + rcap r" for q
    using free by (auto simp: ring_full_def Let_def)
  then have bounds: "rT r + 1 \<le> rH r + rcap r" "\<And>q. q \<in> R \<Longrightarrow> rT r + 1 \<le> q + rcap r"
    using i(5,9) by (fastforce intro!: Suc_leI le_neq_implies_less)+
  show ?thesis
    unfolding ring_inv0_def using t ok bounds i room by auto
qed

lemma claim_inv:
  assumes "ring_inv m r W R L" "\<not> ring_full r W R" "rT r + rcap r + 1 < 2 ^ 64"
  shows "ring_inv m (r\<lparr>r_tail := r_tail r + 1\<rparr>) (insert (rT r) W) R L"
  using claim_inv0 [OF ring_invD(1) [OF assms(1)] assms(2,3)] ring_invD(2) [OF assms(1)]
  by (auto simp: ring_inv_def)

section \<open>Publishing\<close>

definition entry_of :: "u64 \<Rightarrow> u64 \<Rightarrow> u64 \<Rightarrow> u32 \<Rightarrow> u8 list \<Rightarrow> u32 \<Rightarrow> entry" where
  "entry_of ticket key ts flags payload checksum =
     \<lparr>e_ticket = ticket, e_timestamp = ts, e_key = key, e_flags = flags,
      e_checksum = checksum, e_payload = payload\<rparr>"

lemma entry_of_self [simp]:
  "entry_of (e_ticket e) (e_key e) (e_timestamp e) (e_flags e) (e_payload e) (e_checksum e) = e"
  by (simp add: entry_of_def)

text \<open>Positions of the current window, and the untouched slots of the first lap, sit in
  different cells.\<close>

lemma window_slots:
  assumes "p < t" "t \<le> p + n" "q < t" "t \<le> q + n" "p mod n = q mod (n::nat)"
  shows "p = q"
  using assms mod_window_eq [of p n q] mod_window_eq [of q n p] by (cases "p \<le> q") auto

lemma fresh_slot: "p < t \<Longrightarrow> t \<le> q \<Longrightarrow> q < n \<Longrightarrow> p mod n \<noteq> (q::nat)"
  by simp

text \<open>Filling the cell of a claimed position changes nothing as long as its sequence word stays.\<close>

lemma fill_inv0:
  assumes inv: "ring_inv0 m r W R L" and p: "p \<in> W"
    and others: "\<And>j. j < rcap r \<Longrightarrow> j \<noteq> p mod rcap r \<Longrightarrow> read_cell m' r j = read_cell m r j"
    and seq: "cv_seq (read_cell m' r (p mod rcap r)) = cv_seq (read_cell m r (p mod rcap r))"
  shows "ring_inv0 m' r W R L"
proof -
  note i = ring_inv0D [OF inv]
  have pw: "p < rT r" "rT r \<le> p + rcap r" using i(3,5,7) p by auto
  have ok: "slot_ok m' r W R L q" if q: "q < rT r" "rT r \<le> q + rcap r" for q
  proof (cases "q = p")
    case True
    then show ?thesis using i(10) [OF q] p seq by (simp add: slot_ok_def)
  next
    case False
    then have "q mod rcap r \<noteq> p mod rcap r" using window_slots q pw by metis
    with i(10) [OF q] i(1) show ?thesis by (simp add: slot_ok_def Let_def others ring_geom_pos)
  qed
  have fresh: "cv_seq (read_cell m' r q) = of_nat q" if "rT r \<le> q" "q < rcap r" for q
    using fresh_slot [OF pw(1) that] that i(11) by (metis others)
  show ?thesis unfolding ring_inv0_def using i ok fresh by auto
qed

text \<open>Once the sequence word of a filled cell has been stored, its position is published.\<close>

lemma publish_inv0:
  assumes inv: "ring_inv0 m r W R L" and p: "p \<in> W"
    and others: "\<And>j. j < rcap r \<Longrightarrow> j \<noteq> p mod rcap r \<Longrightarrow> read_cell m' r j = read_cell m r j"
    and seq: "cv_seq (read_cell m' r (p mod rcap r)) = of_nat (p + 1)"
    and hold: "holds r (read_cell m' r (p mod rcap r)) e"
  shows "ring_inv0 m' r (W - {p}) R (L(p := e))"
proof -
  note i = ring_inv0D [OF inv]
  have pw: "rC r \<le> p" "p < rT r" "rT r \<le> p + rcap r" using i(3,5,7) p by auto
  have ok: "slot_ok m' r (W - {p}) R (L(p := e)) q" if q: "q < rT r" "rT r \<le> q + rcap r" for q
  proof (cases "q = p")
    case True
    then show ?thesis using i(3) pw seq hold by (simp add: slot_ok_def)
  next
    case False
    then have "q mod rcap r \<noteq> p mod rcap r" using window_slots q pw by metis
    with False i(10) [OF q] i(1) show ?thesis
      by (simp add: slot_ok_def Let_def others ring_geom_pos)
  qed
  have fresh: "cv_seq (read_cell m' r q) = of_nat q" if "rT r \<le> q" "q < rcap r" for q
    using fresh_slot [OF pw(2) that] that i(11) by (metis others)
  show ?thesis unfolding ring_inv0_def using i ok fresh by auto
qed

lemma publish_stores_inv0:
  assumes inv: "ring_inv0 m r W R L" and p: "unat pos \<in> W"
    and len: "length payload \<le> unat (r_payloadCap r)"
  shows "ring_inv0 (fst (publish_stores m r pos ticket key ts flags payload checksum)) r
           (W - {unat pos}) R (L(unat pos := entry_of ticket key ts flags payload checksum))"
proof (rule publish_inv0 [OF inv p])
  note g = ring_inv0D(1) [OF inv]
  note view = publish_stores_view(1) [OF g _ len]
  let ?v = "read_cell (fst (publish_stores m r pos ticket key ts flags payload checksum)) r"
  show "?v j = read_cell m r j" if "j < rcap r" "j \<noteq> rslot r pos" for j using that by (simp add: view)
  show "cv_seq (?v (rslot r pos)) = of_nat (unat pos + 1)" using g by (simp add: view ring_geom_pos)
  show "holds r (?v (rslot r pos)) (entry_of ticket key ts flags payload checksum)"
    using g len by (simp add: view ring_geom_pos holds_def entry_of_def)
qed

lemma commit_seq:
  assumes inv: "ring_inv0 m r W R L" and lt: "rC r < rT r"
  shows "ptrLoad64 m (fieldAt (cell r (r_commit r)) offSeq) = r_commit r + 1 \<longleftrightarrow> rC r \<notin> W"
proof -
  note i = ring_inv0D [OF inv]
  have "slot_ok m r W R L (rC r)" using i(3,5) lt by (intro i(10)) auto
  then have "cv_seq (read_cell m r (rslot r (r_commit r))) = (if rC r \<in> W then r_commit r else r_commit r + 1)"
    using i(3) by (auto simp: slot_ok_def Let_def add.commute)
  then show ?thesis by (simp add: cell_cellB [OF i(1)] read_cell_loads)
qed

lemma advance_inv0:
  assumes "ring_inv0 m r W R L" "rC r < rT r" "rC r \<notin> W"
  shows "ring_inv0 m (r\<lparr>r_commit := r_commit r + 1\<rparr>) W R L" "unat (r_commit r + 1) = rC r + 1"
proof -
  note i = ring_inv0D [OF assms(1)]
  show c: "unat (r_commit r + 1) = rC r + 1" using i(6) assms(2) by (intro unat_add1) simp
  have "x \<in> {rC r + 1..<rT r}" if "x \<in> W" for x
  proof -
    from that have "x \<in> {rC r..<rT r}" "x \<noteq> rC r" using i(7) assms(3) by blast+
    then show ?thesis by simp
  qed
  then have "W \<subseteq> {rC r + 1..<rT r}" ..
  then show "ring_inv0 m (r\<lparr>r_commit := r_commit r + 1\<rparr>) W R L"
    unfolding ring_inv0_def using c i assms(2) by auto
qed

lemma advanceCommit_spec:
  "ring_inv0 m r W R L \<Longrightarrow>
   \<exists>c. advanceCommit m r = r\<lparr>r_commit := c\<rparr> \<and> rC r \<le> unat c \<and> ring_inv m (r\<lparr>r_commit := c\<rparr>) W R L"
proof (induction m r rule: advanceCommit.induct)
  case (1 m r)
  note i = ring_inv0D [OF "1.prems"]
  show ?case
  proof (cases "rC r < rT r \<and> rC r \<notin> W")
    case True
    then have step: "r_commit r \<noteq> r_tail r"
      "\<not> ptrLoad64 m (fieldAt (cell r (r_commit r)) offSeq) \<noteq> r_commit r + 1"
      "(r_commit r + 1, True) = atomicCAS64 (r_commit r) (r_commit r) (r_commit r + 1)"
      using commit_seq [OF "1.prems"] by auto
    note next_inv = advance_inv0 [OF "1.prems" True [THEN conjunct1] True [THEN conjunct2]]
    have "\<exists>c. advanceCommit m (r\<lparr>r_commit := r_commit r + 1\<rparr>) = r\<lparr>r_commit := c\<rparr> \<and>
        rC r + 1 \<le> unat c \<and> ring_inv m (r\<lparr>r_commit := c\<rparr>) W R L"
      using "1.IH" [OF refl step next_inv(1)] next_inv(2) by simp
    then show ?thesis
      using step by (subst advanceCommit.simps) (force simp: Let_def)
  next
    case False
    then have stop: "rC r = rT r \<or> rC r \<in> W" using i(4) by auto
    then have "advanceCommit m r = r"
    proof (cases "r_commit r = r_tail r")
      case False
      then have "rC r < rT r" using i(4) by (simp add: le_neq_implies_less word_unat_eq_iff)
      with stop have "ptrLoad64 m (fieldAt (cell r (r_commit r)) offSeq) \<noteq> r_commit r + 1"
        using commit_seq [OF "1.prems"] by simp
      then show ?thesis by (subst advanceCommit.simps) (simp add: Let_def)
    qed (subst advanceCommit.simps, simp)
    then show ?thesis
      using stop "1.prems" by (intro exI [of _ "r_commit r"]) (simp add: ring_inv_def)
  qed
qed

lemma ring_publish_spec:
  assumes "ring_inv m r W R L" "unat pos \<in> W" "length payload \<le> unat (r_payloadCap r)"
  obtains m' c where
    "ring_publish m r pos ticket key ts flags payload checksum =
       (of_nat (length payload), m', r\<lparr>r_commit := c\<rparr>)"
    "m' = fst (publish_stores m r pos ticket key ts flags payload checksum)"
    "rC r \<le> unat c"
    "ring_inv m' (r\<lparr>r_commit := c\<rparr>) (W - {unat pos}) R
       (L(unat pos := entry_of ticket key ts flags payload checksum))"
proof -
  define m' where "m' = fst (publish_stores m r pos ticket key ts flags payload checksum)"
  note g = ring_inv0D(1) [OF ring_invD(1) [OF assms(1)]]
  from publish_stores_inv0 [OF ring_invD(1) [OF assms(1)] assms(2,3)]
  have "ring_inv0 m' r (W - {unat pos}) R (L(unat pos := entry_of ticket key ts flags payload checksum))"
    by (simp add: m'_def)
  from advanceCommit_spec [OF this] obtain c where
    c: "advanceCommit m' r = r\<lparr>r_commit := c\<rparr>" "rC r \<le> unat c"
      "ring_inv m' (r\<lparr>r_commit := c\<rparr>) (W - {unat pos}) R
        (L(unat pos := entry_of ticket key ts flags payload checksum))" by blast
  have "ring_publish m r pos ticket key ts flags payload checksum =
       (of_nat (length payload), m', r\<lparr>r_commit := c\<rparr>)"
    using c(1) publish_stores_view(2) [OF g ring_geom_pos [OF g] assms(3)]
    by (simp add: ring_publish_def m'_def case_prod_beta)
  with c that m'_def show thesis by blast
qed

section \<open>Consuming\<close>

lemma release_inv0:
  assumes inv: "ring_inv0 m r W R L" and p: "unat pos \<in> R"
  shows "ring_inv0 (release m r pos) r W (R - {unat pos}) L"
proof -
  note i = ring_inv0D [OF inv]
  let ?p = "unat pos"
  have pw: "?p < rH r" "?p < rT r" "rT r \<le> ?p + rcap r" using i(3,4,8,9) p by auto
  then have nW: "?p \<notin> W" using i(3,7) by auto
  note view = release_view [OF i(1)]
  have sum: "of_nat (?p + rcap r) = pos + r_capacity r" by simp
  have ok: "slot_ok (release m r pos) r W (R - {?p}) L q" if q: "q < rT r" "rT r \<le> q + rcap r" for q
  proof (cases "q = ?p")
    case True
    then show ?thesis using i(1) nW pw sum by (simp add: slot_ok_def view ring_geom_pos)
  next
    case False
    then have "q mod rcap r \<noteq> ?p mod rcap r" using window_slots q pw(2,3) by metis
    with False i(10) [OF q] i(1) show ?thesis by (simp add: slot_ok_def Let_def view ring_geom_pos)
  qed
  have fresh: "cv_seq (read_cell (release m r pos) r q) = of_nat q" if "rT r \<le> q" "q < rcap r" for q
    using fresh_slot [OF pw(2) that] that i(11) by (auto simp: view)
  show ?thesis
    using i ok fresh unfolding ring_inv0_def by auto
qed

lemma release_inv:
  assumes "ring_inv m r W R L" "unat pos \<in> R"
  shows "ring_inv (release m r pos) r W (R - {unat pos}) L"
  using release_inv0 [OF ring_invD(1) [OF assms(1)] assms(2)] ring_invD(2) [OF assms(1)] by (simp add: ring_inv_def)

lemma dequeue_empty:
  assumes "ring_inv0 m r W R L" "rH r = rC r"
  shows "dequeue m r rec = ((0, False), rec, m, r)"
  using assms(2) by (subst dequeue.simps) (simp add: Let_def word_le_nat_alt)

lemma head_committed:
  assumes inv: "ring_inv0 m r W R L" and lt: "rH r < rC r"
  shows "rH r \<notin> W" "cv_seq (read_cell m r (rslot r (r_head r))) = r_head r + 1"
    "holds r (read_cell m r (rslot r (r_head r))) (L (rH r))" "unat (r_head r + 1) = rH r + 1"
proof -
  note i = ring_inv0D [OF inv]
  show nW: "rH r \<notin> W" using i(7) lt by auto
  have win: "rH r < rT r" using lt i(4) by simp
  then have "slot_ok m r W R L (rH r)" using i(5) by (intro i(10)) auto
  with nW show "holds r (read_cell m r (rslot r (r_head r))) (L (rH r))"
    "cv_seq (read_cell m r (rslot r (r_head r))) = r_head r + 1"
    by (simp_all add: slot_ok_def Let_def add.commute)
  show "unat (r_head r + 1) = rH r + 1" using win i(6) by (intro unat_add1) simp
qed

lemma take_inv0:
  assumes inv: "ring_inv0 m r W R L" and lt: "rH r < rC r"
  shows "ring_inv0 m (r\<lparr>r_head := r_head r + 1\<rparr>) W (insert (rH r) R) L"
proof -
  note i = ring_inv0D [OF inv] and h = head_committed(4) [OF inv lt]
  have ok: "slot_ok m (r\<lparr>r_head := r_head r + 1\<rparr>) W (insert (rH r) R) L q" if q: "q < rT r" "rT r \<le> q + rcap r" for q
    using i(10) [OF q] h by (auto simp: slot_ok_def Let_def split: if_splits)
  show ?thesis unfolding ring_inv0_def using i h ok lt by auto
qed

lemma dequeue_step:
  assumes inv: "ring_inv m r W R L" and lt: "rH r < rC r"
  defines "r' \<equiv> r\<lparr>r_head := r_head r + 1\<rparr>"
  shows "dequeue m r rec = ((r_head r, True), load_record m r' (r_head r) rec, m, r')"
    and "ring_inv m r' W (insert (rH r) R) L"
    and "holds r (read_cell m r (rH r mod rcap r)) (L (rH r))"
proof -
  note i = ring_inv0D [OF ring_invD(1) [OF inv]] and h = head_committed [OF ring_invD(1) [OF inv] lt]
  show "holds r (read_cell m r (rH r mod rcap r)) (L (rH r))" by (rule h(3))
  have "\<not> r_commit r \<le> r_head r" using lt by (simp add: word_le_nat_alt)
  then show "dequeue m r rec = ((r_head r, True), load_record m r' (r_head r) rec, m, r')"
    using h(2) cell_cellB [of r' "r_head r"] i(1)
    by (subst dequeue.simps) (simp add: Let_def r'_def cellB_def read_cell_loads [unfolded cellB_def])
  show "ring_inv m r' W (insert (rH r) R) L"
    using take_inv0 [OF ring_invD(1) [OF inv] lt] ring_invD(2) [OF inv] by (simp add: ring_inv_def r'_def)
qed

end
