(* ===== verification/Queue.thy ===== *)
theory Queue
  imports Main
begin

text \<open>
  The contract of a bounded first-in first-out queue, as the engine relies on it: a put is
  accepted exactly while the queue is not full, a take delivers the oldest item, and no call
  fails to return. \<open>budget\<close> bounds the number of puts the contract covers, because a queue
  whose positions are machine words cannot be a queue forever; \<open>img\<close> is what an item looks
  like when it comes out.
\<close>

datatype 'x qop = Put 'x | Take

datatype 'y qout = Accepted | Rejected | Item 'y | Nothing

fun spec_run :: "('x \<Rightarrow> 'y) \<Rightarrow> nat \<Rightarrow> 'y list \<Rightarrow> 'x qop list \<Rightarrow> 'y qout list" where
  "spec_run img n q [] = []"
| "spec_run img n q (Put x # ops) =
     (if length q < n then Accepted # spec_run img n (q @ [img x]) ops
      else Rejected # spec_run img n q ops)"
| "spec_run img n q (Take # ops) =
     (case q of [] \<Rightarrow> Nothing # spec_run img n [] ops | y # ys \<Rightarrow> Item y # spec_run img n ys ops)"

text \<open>An implementation answers with an option: \<open>None\<close> is a call that does not return.\<close>

fun impl_run :: "('s \<Rightarrow> 'x \<Rightarrow> ('s \<times> bool) option) \<Rightarrow> ('s \<Rightarrow> 'y option \<times> 's) \<Rightarrow> 's \<Rightarrow> 'x qop list
    \<Rightarrow> 'y qout list option" where
  "impl_run put get s [] = Some []"
| "impl_run put get s (Put x # ops) =
     (case put s x of None \<Rightarrow> None
      | Some (s', b) \<Rightarrow> map_option ((#) (if b then Accepted else Rejected)) (impl_run put get s' ops))"
| "impl_run put get s (Take # ops) =
     (case get s of (d, s') \<Rightarrow>
        map_option ((#) (case d of None \<Rightarrow> Nothing | Some y \<Rightarrow> Item y)) (impl_run put get s' ops))"

fun puts :: "'x qop list \<Rightarrow> 'x list" where
  "puts [] = []"
| "puts (Put x # ops) = x # puts ops"
| "puts (Take # ops) = puts ops"

locale bounded_queue =
  fixes inv :: "'s \<Rightarrow> bool"
    and items :: "'s \<Rightarrow> 'y list"
    and bound :: "'s \<Rightarrow> nat"
    and budget :: "'s \<Rightarrow> nat"
    and fits :: "'s \<Rightarrow> 'x \<Rightarrow> bool"
    and img :: "'x \<Rightarrow> 'y"
    and put :: "'s \<Rightarrow> 'x \<Rightarrow> ('s \<times> bool) option"
    and get :: "'s \<Rightarrow> 'y option \<times> 's"
  assumes put_full: "inv s \<Longrightarrow> bound s \<le> length (items s) \<Longrightarrow> put s x = Some (s, False)"
    and put_free: "inv s \<Longrightarrow> length (items s) < bound s \<Longrightarrow> fits s x \<Longrightarrow> 0 < budget s \<Longrightarrow>
      \<exists>s'. put s x = Some (s', True) \<and> inv s' \<and> items s' = items s @ [img x] \<and>
        bound s' = bound s \<and> budget s' = budget s - 1 \<and> fits s' = fits s"
    and get_empty: "inv s \<Longrightarrow> items s = [] \<Longrightarrow> get s = (None, s)"
    and get_item: "inv s \<Longrightarrow> items s = y # ys \<Longrightarrow>
      \<exists>s'. get s = (Some y, s') \<and> inv s' \<and> items s' = ys \<and>
        bound s' = bound s \<and> budget s' = budget s \<and> fits s' = fits s"
begin

lemma run_refines:
  "inv s \<Longrightarrow> length (puts ops) \<le> budget s \<Longrightarrow> (\<forall>x\<in>set (puts ops). fits s x) \<Longrightarrow>
   impl_run put get s ops = Some (spec_run img (bound s) (items s) ops)"
proof (induction ops arbitrary: s)
  case (Cons op ops)
  show ?case
  proof (cases op)
    case (Put x)
    show ?thesis
    proof (cases "length (items s) < bound s")
      case True
      with Cons.prems Put obtain s' where s': "put s x = Some (s', True)" "inv s'"
        "items s' = items s @ [img x]" "bound s' = bound s" "budget s' = budget s - 1" "fits s' = fits s"
        using put_free [of s x] by auto
      then have "impl_run put get s' ops = Some (spec_run img (bound s') (items s') ops)"
        using Cons.prems Put by (intro Cons.IH) auto
      with s' True Put show ?thesis by simp
    next
      case False
      then have "impl_run put get s ops = Some (spec_run img (bound s) (items s) ops)"
        using Cons.prems Put by (intro Cons.IH) auto
      with False Put Cons.prems(1) put_full [of s x] show ?thesis by simp
    qed
  next
    case Take
    show ?thesis
    proof (cases "items s")
      case Nil
      have "impl_run put get s ops = Some (spec_run img (bound s) (items s) ops)"
        using Cons.prems Take by (intro Cons.IH) auto
      with Nil Take Cons.prems(1) get_empty [of s] show ?thesis by simp
    next
      case (Cons y ys)
      with Cons.prems(1) obtain s' where s': "get s = (Some y, s')" "inv s'" "items s' = ys"
        "bound s' = bound s" "budget s' = budget s" "fits s' = fits s"
        using get_item by blast
      then have "impl_run put get s' ops = Some (spec_run img (bound s') (items s') ops)"
        using Cons.prems Take by (intro Cons.IH) auto
      with s' Cons Take show ?thesis by simp
    qed
  qed
qed simp

end

text \<open>The abstract queue alone: everything taken was put, in order.\<close>

fun items_out :: "'y qout list \<Rightarrow> 'y list" where
  "items_out [] = []"
| "items_out (Item y # os) = y # items_out os"
| "items_out (_ # os) = items_out os"

fun accepted_puts :: "'x qop list \<Rightarrow> 'y qout list \<Rightarrow> 'x list" where
  "accepted_puts (Put x # ops) (Accepted # os) = x # accepted_puts ops os"
| "accepted_puts (_ # ops) (_ # os) = accepted_puts ops os"
| "accepted_puts _ _ = []"

lemma spec_run_fifo:
  "\<exists>rest. q @ map img (accepted_puts ops (spec_run img n q ops)) = items_out (spec_run img n q ops) @ rest"
proof (induction img n q ops rule: spec_run.induct)
  case (2 img n q x ops)
  then show ?case by (cases "length q < n") auto
qed (auto split: list.splits)

end
