(* ===== verification/RingQueue.thy ===== *)
theory RingQueue
  imports RingInv Queue
begin

text \<open>
  The ring as a queue. \<open>ring_put\<close> and \<open>ring_take\<close> are the two ways the engine drives a ring:
  claim then publish, and dequeue, hand the record over, release. They implement the bounded
  queue contract; the positions of a ring last for about \<open>2 ^ 64\<close> puts, which is the budget.
\<close>

section \<open>Composite operations\<close>

type_synonym rstate = "mem \<times> ring"

definition ring_put :: "rstate \<Rightarrow> entry \<Rightarrow> (rstate \<times> bool) option" where
  "ring_put s e =
     (case s of (m, r) \<Rightarrow>
      case claim m r of
        None \<Rightarrow> None
      | Some ((pos, ok), r1) \<Rightarrow>
          if \<not> ok then Some ((m, r1), False)
          else case ring_publish m r1 pos (e_ticket e) (e_key e) (e_timestamp e) (e_flags e)
                      (e_payload e) (e_checksum e)
               of (n, m', r') \<Rightarrow> Some ((m', r'), True))"

text \<open>What a handler sees of a record while it holds the cell.\<close>

definition delivered :: "mem \<Rightarrow> Record \<Rightarrow> entry" where
  "delivered m rec =
     \<lparr>e_ticket = Ticket rec, e_timestamp = Timestamp rec, e_key = Key rec, e_flags = Flags rec,
      e_checksum = Checksum rec, e_payload = slice_bytes m (Payload rec)\<rparr>"

definition ring_take :: "rstate \<Rightarrow> entry option \<times> rstate" where
  "ring_take s =
     (case s of (m, r) \<Rightarrow>
      case dequeue m r zero_Record of ((pos, ok), rec, m', r') \<Rightarrow>
        if \<not> ok then (None, (m', r')) else (Some (delivered m' rec), (release m' r' pos, r')))"

section \<open>The queue a ring represents\<close>

definition cell_entry :: "cellv \<Rightarrow> entry" where
  "cell_entry v =
     \<lparr>e_ticket = cv_ticket v, e_timestamp = cv_timestamp v, e_key = cv_key v, e_flags = cv_flags v,
      e_checksum = cv_checksum v, e_payload = take (unat (cv_length v)) (cv_payload v)\<rparr>"

definition committed_entry :: "entry \<Rightarrow> entry" where
  "committed_entry e = e\<lparr>e_flags := e_flags e OR FlagCommitted\<rparr>"

definition ring_items :: "rstate \<Rightarrow> entry list" where
  "ring_items s = (case s of (m, r) \<Rightarrow>
     map (\<lambda>p. cell_entry (read_cell m r (p mod rcap r))) [rH r..<rC r])"

definition quiet :: "rstate \<Rightarrow> bool" where
  "quiet s \<longleftrightarrow> (\<exists>L. ring_inv (fst s) (snd s) {} {} L)"

definition ring_budget :: "rstate \<Rightarrow> nat" where
  "ring_budget s = 2 ^ 64 - 1 - (rT (snd s) + rcap (snd s))"

definition ring_fits :: "rstate \<Rightarrow> entry \<Rightarrow> bool" where
  "ring_fits s e \<longleftrightarrow> length (e_payload e) \<le> unat (r_payloadCap (snd s))"

lemma holds_cell_entry: "holds r v e \<Longrightarrow> cell_entry v = committed_entry e"
proof -
  assume h: "holds r v e"
  then have "length (e_payload e) < 2 ^ 64"
    using unat_lt64 [of "r_payloadCap r"] by (simp add: holds_def)
  with h show ?thesis
    by (simp add: holds_def cell_entry_def committed_entry_def unat_of_nat64)
qed

lemma ring_items_log:
  assumes "ring_inv m r W R L"
  shows "ring_items (m, r) = map (\<lambda>p. committed_entry (L p)) [rH r..<rC r]"
proof -
  note i = ring_inv0D [OF ring_invD(1) [OF assms]]
  have "cell_entry (read_cell m r (p mod rcap r)) = committed_entry (L p)" if "rH r \<le> p" "p < rC r" for p
  proof -
    have "slot_ok m r W R L p" using that i(4,5) by (intro i(10)) auto
    moreover have "p \<notin> W" using that i(7) by auto
    ultimately show ?thesis using that(1) by (auto simp: slot_ok_def Let_def intro: holds_cell_entry)
  qed
  then show ?thesis by (simp add: ring_items_def)
qed

lemma quiet_commit: "ring_inv m r {} R L \<Longrightarrow> rC r = rT r"
  using ring_invD(2) by blast

lemma quiet_full: "ring_inv m r {} {} L \<Longrightarrow> ring_full r {} {} \<longleftrightarrow> rcap r \<le> length (ring_items (m, r))"
  using ring_inv0D(3,5) [OF ring_invD(1), of m r "{}" "{}" L] quiet_commit [of m r "{}" L]
  by (auto simp: ring_full_def ring_items_def)

lemma load_record_delivered:
  assumes "ring_geom r" "holds r (read_cell m r (rslot r pos)) e"
  shows "delivered m (load_record m r pos rec) = committed_entry e"
proof -
  let ?v = "read_cell m r (rslot r pos)"
  have len: "length (e_payload e) < 2 ^ 64"
    using assms(2) unat_lt64 [of "r_payloadCap r"] by (simp add: holds_def)
  then have "unat (cv_length ?v) = length (e_payload e)" using assms(2) by (simp add: holds_def unat_of_nat64)
  moreover have "length (e_payload e) \<le> unat (r_payloadCap r)"
    "take (length (e_payload e)) (cv_payload ?v) = e_payload e" using assms(2) by (simp_all add: holds_def)
  ultimately have "slice_bytes m (payloadSlice (cellB r (rslot r pos)) (cv_length ?v)) = e_payload e"
    by (simp add: payloadSlice_bytes)
  then show ?thesis
    using assms(2) load_record_view [OF assms(1) refl, of m pos rec]
    by (simp add: delivered_def committed_entry_def holds_def)
qed

section \<open>The ring implements the contract\<close>

lemma ring_put_full:
  "quiet s \<Longrightarrow> rcap (snd s) \<le> length (ring_items s) \<Longrightarrow> ring_put s e = Some (s, False)"
  using claim_full ring_invD(1) quiet_full
  by (cases s) (fastforce simp: quiet_def ring_put_def)

lemma ring_put_free:
  assumes q: "quiet s" and room: "length (ring_items s) < rcap (snd s)"
    and fits: "ring_fits s e" and budget: "0 < ring_budget s"
  shows "\<exists>s'. ring_put s e = Some (s', True) \<and> quiet s' \<and> ring_items s' = ring_items s @ [committed_entry e] \<and>
    rcap (snd s') = rcap (snd s) \<and> ring_budget s' = ring_budget s - 1 \<and> ring_fits s' = ring_fits s"
proof -
  obtain m r where s: "s = (m, r)" by (cases s)
  from q obtain L where inv: "ring_inv m r {} {} L" by (auto simp: quiet_def s)
  have free: "\<not> ring_full r {} {}" using quiet_full [OF inv] room by (simp add: s)
  have wide: "rT r + rcap r + 1 < 2 ^ 64" using budget by (simp add: s ring_budget_def)
  define r1 where "r1 = r\<lparr>r_tail := r_tail r + 1\<rparr>"
  have t1: "rT r1 = rT r + 1" using wide by (simp add: r1_def unat_add1)
  have inv1: "ring_inv m r1 {rT r} {} L" using claim_inv [OF inv free wide] by (simp add: r1_def)
  have len: "length (e_payload e) \<le> unat (r_payloadCap r1)" using fits by (simp add: ring_fits_def s r1_def)
  obtain m' c where pub: "ring_publish m r1 (r_tail r) (e_ticket e) (e_key e) (e_timestamp e) (e_flags e)
        (e_payload e) (e_checksum e) = (of_nat (length (e_payload e)), m', r1\<lparr>r_commit := c\<rparr>)"
    and "ring_inv m' (r1\<lparr>r_commit := c\<rparr>) ({rT r} - {unat (r_tail r)}) {}
      (L(unat (r_tail r) := entry_of (e_ticket e) (e_key e) (e_timestamp e) (e_flags e) (e_payload e) (e_checksum e)))"
    by (rule ring_publish_spec [OF inv1 singletonI len])
  then have inv2: "ring_inv m' (r1\<lparr>r_commit := c\<rparr>) {} {} (L(rT r := e))" by simp
  have put: "ring_put s e = Some ((m', r1\<lparr>r_commit := c\<rparr>), True)"
    using claim_free [OF ring_invD(1) [OF inv] free] pub by (simp add: ring_put_def s r1_def)
  have c: "unat c = rT r + 1" using quiet_commit [OF inv2] t1 by simp
  have "rH r \<le> rT r" using ring_inv0D(3,4) [OF ring_invD(1) [OF inv]] by simp
  then have "ring_items (m', r1\<lparr>r_commit := c\<rparr>) = ring_items s @ [committed_entry e]"
    using ring_items_log [OF inv2] ring_items_log [OF inv] quiet_commit [OF inv] c
    by (simp add: s r1_def)
  then show ?thesis
    using put inv2 t1 by (auto simp: quiet_def s r1_def ring_budget_def ring_fits_def)
qed

lemma ring_take_empty: "quiet s \<Longrightarrow> ring_items s = [] \<Longrightarrow> ring_take s = (None, s)"
  using dequeue_empty ring_inv0D(3) ring_invD(1)
  by (cases s) (fastforce simp: quiet_def ring_items_def ring_take_def)

lemma ring_take_item:
  assumes q: "quiet s" and items: "ring_items s = e # es"
  shows "\<exists>s'. ring_take s = (Some e, s') \<and> quiet s' \<and> ring_items s' = es \<and>
    rcap (snd s') = rcap (snd s) \<and> ring_budget s' = ring_budget s \<and> ring_fits s' = ring_fits s"
proof -
  obtain m r where s: "s = (m, r)" by (cases s)
  from q obtain L where inv: "ring_inv m r {} {} L" by (auto simp: quiet_def s)
  have lt: "rH r < rC r" using items by (cases "rH r < rC r") (auto simp: s ring_items_def)
  define r' where "r' = r\<lparr>r_head := r_head r + 1\<rparr>"
  note d = dequeue_step [OF inv lt, folded r'_def]
  have g: "ring_geom r'" using ring_inv0D(1) [OF ring_invD(1) [OF inv]] by (simp add: r'_def)
  have hd: "e = committed_entry (L (rH r))" "es = map (\<lambda>p. committed_entry (L p)) [Suc (rH r)..<rC r]"
    using items ring_items_log [OF inv] lt by (simp_all add: s upt_rec [of "rH r"])
  have "delivered m (load_record m r' (r_head r) zero_Record) = e"
    using load_record_delivered [OF g, of m "r_head r" "L (rH r)"] d(3) hd(1) by (simp add: r'_def)
  then have take: "ring_take s = (Some e, (release m r' (r_head r), r'))"
    using d(1) by (simp add: ring_take_def s)
  have inv': "ring_inv (release m r' (r_head r)) r' {} {} L"
    using release_inv [OF d(2), of "r_head r"] by simp
  have "rC r < 2 ^ 64" using unat_lt64 [of "r_commit r"] by simp
  then have "rH r' = Suc (rH r)" using lt by (simp add: r'_def unat_add1)
  then have "ring_items (release m r' (r_head r), r') = es"
    using ring_items_log [OF inv'] hd(2) by (simp add: r'_def)
  then show ?thesis
    using take inv' by (auto simp: quiet_def s r'_def ring_budget_def ring_fits_def)
qed

interpretation rq: bounded_queue quiet ring_items "\<lambda>s. rcap (snd s)" ring_budget ring_fits
  committed_entry ring_put ring_take
  by unfold_locales (fact ring_put_full ring_put_free ring_take_empty ring_take_item)+

section \<open>Threads that follow the protocol\<close>

text \<open>
  Every state a ring can be in when callers keep to the protocol: a claimed position is
  published once, a dequeued position is released once, in any order. Calls that report
  failure change nothing. The counters are followed up to their last lap before \<open>2 ^ 64\<close>.
\<close>

inductive ring_reach :: "mem \<Rightarrow> ring \<Rightarrow> nat set \<Rightarrow> nat set \<Rightarrow> (nat \<Rightarrow> entry) \<Rightarrow> bool" where
  init: "initRing m base cells payloadCap epoch = Inr (m', r) \<Longrightarrow>
    unat payloadCap + 127 < 2 ^ 64 \<Longrightarrow> unat cells * unat (cellStrideFor payloadCap) \<le> 2 ^ 64 \<Longrightarrow>
    2 \<le> unat cells \<Longrightarrow> ring_reach m' r {} {} L"
| claim: "ring_reach m r W R L \<Longrightarrow> rT r + rcap r + 1 < 2 ^ 64 \<Longrightarrow> claim m r = Some ((pos, True), r') \<Longrightarrow>
    ring_reach m r' (insert (unat pos) W) R L"
| publish: "ring_reach m r W R L \<Longrightarrow> unat pos \<in> W \<Longrightarrow> length payload \<le> unat (r_payloadCap r) \<Longrightarrow>
    ring_publish m r pos ticket key ts flags payload checksum = (n, m', r') \<Longrightarrow>
    ring_reach m' r' (W - {unat pos}) R (L(unat pos := entry_of ticket key ts flags payload checksum))"
| dequeue: "ring_reach m r W R L \<Longrightarrow> dequeue m r rec = ((pos, True), rec', m', r') \<Longrightarrow>
    ring_reach m' r' W (insert (unat pos) R) L"
| release: "ring_reach m r W R L \<Longrightarrow> unat pos \<in> R \<Longrightarrow> ring_reach (release m r pos) r W (R - {unat pos}) L"

lemma dequeue_ok_iff:
  assumes "ring_inv m r W R L"
  shows "snd (fst (dequeue m r rec)) \<longleftrightarrow> rH r < rC r"
proof (cases "rH r < rC r")
  case True
  then show ?thesis using dequeue_step(1) [OF assms] by simp
next
  case False
  then have "rH r = rC r" using ring_inv0D(3) [OF ring_invD(1) [OF assms]] by simp
  then show ?thesis using dequeue_empty [OF ring_invD(1) [OF assms]] by simp
qed

lemma dequeue_okE:
  assumes "ring_inv m r W R L" "dequeue m r rec = ((pos, True), rec', m', r')"
  shows "rH r < rC r" "pos = r_head r" "m' = m" "r' = r\<lparr>r_head := r_head r + 1\<rparr>"
    "rec' = load_record m r' pos rec" "ring_inv m' r' W (insert (unat pos) R) L"
    "holds r (read_cell m r (rslot r pos)) (L (unat pos))"
proof -
  show lt: "rH r < rC r" using dequeue_ok_iff [OF assms(1), of rec] assms(2) by simp
  from dequeue_step(1) [OF assms(1) lt, of rec] dequeue_step(2,3) [OF assms(1) lt] assms(2)
  show "pos = r_head r" "m' = m" "r' = r\<lparr>r_head := r_head r + 1\<rparr>"
    "rec' = load_record m r' pos rec" "ring_inv m' r' W (insert (unat pos) R) L"
    "holds r (read_cell m r (rslot r pos)) (L (unat pos))" by auto
qed

lemma claim_okE:
  assumes "ring_inv m r W R L" "claim m r = Some ((pos, True), r')"
  shows "\<not> ring_full r W R" "pos = r_tail r" "r' = r\<lparr>r_tail := r_tail r + 1\<rparr>"
proof -
  show free: "\<not> ring_full r W R" using claim_full [OF ring_invD(1) [OF assms(1)]] assms(2) by auto
  from claim_free [OF ring_invD(1) [OF assms(1)] free] assms(2)
  show "pos = r_tail r" "r' = r\<lparr>r_tail := r_tail r + 1\<rparr>" by auto
qed

lemma ring_publish_okE:
  assumes "ring_inv m r W R L" "unat pos \<in> W" "length payload \<le> unat (r_payloadCap r)"
    and "ring_publish m r pos ticket key ts flags payload checksum = (n, m', r')"
  shows "n = of_nat (length payload)"
    and "m' = fst (publish_stores m r pos ticket key ts flags payload checksum)"
    and "\<exists>c. r' = r\<lparr>r_commit := c\<rparr> \<and> rC r \<le> unat c"
    and "ring_inv m' r' (W - {unat pos}) R (L(unat pos := entry_of ticket key ts flags payload checksum))"
proof -
  obtain m'' c where p:
    "ring_publish m r pos ticket key ts flags payload checksum =
       (of_nat (length payload), m'', r\<lparr>r_commit := c\<rparr>)"
    "m'' = fst (publish_stores m r pos ticket key ts flags payload checksum)" "rC r \<le> unat c"
    "ring_inv m'' (r\<lparr>r_commit := c\<rparr>) (W - {unat pos}) R
       (L(unat pos := entry_of ticket key ts flags payload checksum))"
    by (rule ring_publish_spec [OF assms(1-3)])
  then show "n = of_nat (length payload)"
    and "m' = fst (publish_stores m r pos ticket key ts flags payload checksum)"
    and "\<exists>c. r' = r\<lparr>r_commit := c\<rparr> \<and> rC r \<le> unat c"
    and "ring_inv m' r' (W - {unat pos}) R (L(unat pos := entry_of ticket key ts flags payload checksum))"
    using assms(4) by auto
qed

lemma ring_reach_inv: "ring_reach m r W R L \<Longrightarrow> ring_inv m r W R L"
proof (induction rule: ring_reach.induct)
  case (init m base cells payloadCap epoch m' r L)
  then show ?case by (intro initRing_inv) auto
next
  case (claim m r W R L pos r')
  then show ?case using claim_okE [OF claim.IH claim.hyps(3)] claim_inv [OF claim.IH] by simp
next
  case (publish m r W R L pos payload ticket key ts flags checksum n m' r')
  show ?case by (rule ring_publish_okE(4) [OF publish.IH publish.hyps(2,3,4)])
next
  case (dequeue m r W R L rec pos rec' m' r')
  then show ?case using dequeue_okE(6) by blast
next
  case (release m r W R L pos)
  then show ?case by (intro release_inv)
qed

lemma ring_reach_frame:
  "ring_reach m r W R L \<Longrightarrow> finite W \<and> finite R"
  by (induction rule: ring_reach.induct) auto

end
