(* ===== verification/RingProps.thy ===== *)
theory RingProps
  imports RingQueue
begin

text \<open>
  The properties of the ring: the cursor invariant, exclusive ownership of cells, delivery of
  exactly what was published, the queue refinement, and the two corners where the protocol
  does not hold up (one cell, and the last lap of the 64-bit counters).
\<close>

section \<open>A small ring to instantiate the properties on\<close>

definition demo_init :: rstate where
  "demo_init = projr (initRing (\<lambda>_. 0) 2097152 2 64 7)"

definition demo_pub :: "u64 \<times> rstate" where
  "demo_pub = ring_publish (fst demo_init) ((snd demo_init)\<lparr>r_tail := 1\<rparr>) 0 1 42 5 0 [1, 2, 3] 0"

lemma demo_consts: "isPow2 2" "isAligned 2097152 CacheLineSize" "cellStrideFor 64 = 128"
  by (simp_all add: isPow2_def isAligned_def cellStrideFor_def alignUp_def layout_simps)

lemma demo_init_eq: "initRing (\<lambda>_. 0) 2097152 2 64 7 = Inr (fst demo_init, snd demo_init)"
  by (simp add: demo_init_def initRing_def demo_consts Let_def)

lemma demo_init_ring: "r_tail (snd demo_init) = 0" "r_commit (snd demo_init) = 0"
  "r_head (snd demo_init) = 0" "r_capacity (snd demo_init) = 2" "r_payloadCap (snd demo_init) = 64"
  by (simp_all add: demo_init_def initRing_def demo_consts Let_def)

lemma demo_reach: "ring_reach (fst demo_init) (snd demo_init) {} {} L"
  by (rule ring_reach.init [OF demo_init_eq]) (simp_all add: demo_consts)

lemma demo_claim: "claim (fst demo_init) (snd demo_init) = Some ((0, True), (snd demo_init)\<lparr>r_tail := 1\<rparr>)"
  using claim_free [OF ring_invD(1) [OF ring_reach_inv [OF demo_reach]]]
  by (simp add: demo_init_ring ring_full_def)

lemma demo_reach_claimed: "ring_reach (fst demo_init) ((snd demo_init)\<lparr>r_tail := 1\<rparr>) {0} {} L"
  using ring_reach.claim [OF demo_reach _ demo_claim] by (simp add: demo_init_ring)

lemma demo_pub_eq:
  "ring_publish (fst demo_init) ((snd demo_init)\<lparr>r_tail := 1\<rparr>) 0 1 42 5 0 [1, 2, 3] 0 =
     (fst demo_pub, fst (snd demo_pub), snd (snd demo_pub))"
  by (simp add: demo_pub_def)

lemma demo_reach_published:
  "ring_reach (fst (snd demo_pub)) (snd (snd demo_pub)) {} {} (L(0 := entry_of 1 42 5 0 [1, 2, 3] 0))"
  using ring_reach.publish [OF demo_reach_claimed _ _ demo_pub_eq] by (simp add: demo_init_ring)

lemma demo_published_ring:
  "r_tail (snd (snd demo_pub)) = 1" "r_head (snd (snd demo_pub)) = 0" "r_commit (snd (snd demo_pub)) = 1"
  "r_capacity (snd (snd demo_pub)) = 2" "r_payloadCap (snd (snd demo_pub)) = 64"
proof -
  obtain c where c: "snd (snd demo_pub) = (snd demo_init)\<lparr>r_tail := 1\<rparr>\<lparr>r_commit := c\<rparr>"
    using ring_publish_okE(3) [OF ring_reach_inv [OF demo_reach_claimed] _ _ demo_pub_eq]
    by (auto simp: demo_init_ring)
  then show "r_tail (snd (snd demo_pub)) = 1" "r_head (snd (snd demo_pub)) = 0"
    "r_capacity (snd (snd demo_pub)) = 2" "r_payloadCap (snd (snd demo_pub)) = 64"
    by (simp_all add: demo_init_ring)
  then show "r_commit (snd (snd demo_pub)) = 1"
    using quiet_commit [OF ring_reach_inv [OF demo_reach_published]] by (simp add: word_unat_eq_iff)
qed

section \<open>Cursors\<close>

text \<open>
  In every reachable state of a ring the documented invariant \<open>head \<le> commit \<le> tail\<close> holds,
  at most \<open>capacity\<close> positions are in flight, no claimed and unpublished position lies below
  the commit index, and the commit index has stopped either at the tail or at a position
  that is still being written: it is never left behind.
\<close>
theorem ring_cursor_invariant:
  assumes "ring_reach m r W R L"
  shows "r_head r \<le> r_commit r \<and> r_commit r \<le> r_tail r \<and> rT r - rH r \<le> rcap r \<and>
    (\<forall>p\<in>W. rC r \<le> p \<and> p < rT r) \<and> (r_commit r = r_tail r \<or> rC r \<in> W)"
  using ring_inv0D(3-5,7) [OF ring_invD(1) [OF ring_reach_inv [OF assms]]]
    ring_invD(2) [OF ring_reach_inv [OF assms]]
  by (auto simp: word_le_nat_alt word_unat_eq_iff)

theorem ring_cursor_invariant_witness:
  "ring_reach (fst demo_init) ((snd demo_init)\<lparr>r_tail := 1\<rparr>) {0} {} (\<lambda>_. entry_of 0 0 0 0 [] 0) \<and>
   r_commit ((snd demo_init)\<lparr>r_tail := 1\<rparr>) \<le> r_tail ((snd demo_init)\<lparr>r_tail := 1\<rparr>)"
  using ring_cursor_invariant [OF demo_reach_claimed] demo_reach_claimed by blast

text \<open>
  A successful claim hands out a cell nobody else has: its position is neither being
  written nor being read, no position in either state shares its cell, and neither does any
  record that is still waiting to be consumed.
\<close>
theorem claim_exclusive:
  assumes "ring_reach m r W R L" "claim m r = Some ((pos, True), r')"
  shows "unat pos = rT r \<and> unat pos \<notin> W \<union> R \<and>
    (\<forall>q \<in> W \<union> R \<union> {rH r..<rT r}. q mod rcap r \<noteq> unat pos mod rcap r)"
proof -
  note inv = ring_reach_inv [OF assms(1)]
  note i = ring_inv0D [OF ring_invD(1) [OF inv]]
  note c = claim_okE [OF inv assms(2)]
  have below: "q < rT r" "rT r < q + rcap r" if "q \<in> W \<union> R \<union> {rH r..<rT r}" for q
  proof -
    show lt: "q < rT r" using that i(3,4,7,8) by auto
    have le: "rT r \<le> q + rcap r" using that i(3,5,7,9) by auto
    have "rT r \<noteq> q + rcap r"
      using c(1) that i(3,7) by (fastforce simp: ring_full_def Let_def)
    with le show "rT r < q + rcap r" by simp
  qed
  then have "q mod rcap r \<noteq> rT r mod rcap r" if "q \<in> W \<union> R \<union> {rH r..<rT r}" for q
    using that mod_window_eq [of q "rcap r" "rT r"] by fastforce
  moreover have "rT r \<notin> W \<union> R" using below by blast
  ultimately show ?thesis using c(2) by simp
qed

theorem claim_exclusive_witness:
  "claim (fst demo_init) (snd demo_init) = Some ((0, True), (snd demo_init)\<lparr>r_tail := 1\<rparr>) \<and>
   unat (0 :: u64) = rT (snd demo_init)"
  using claim_exclusive [OF demo_reach demo_claim] demo_claim by blast

text \<open>
  In a reachable state \<^verbatim>\<open>claim\<close> returns, and it refuses exactly when the cell it needs still
  belongs to the previous lap: that position has not been consumed, or its reader has not
  released it. A refusal leaves the ring as it was.
\<close>
theorem claim_returns:
  assumes "ring_reach m r W R L"
  shows "claim m r = (if rcap r \<le> rT r \<and> (rH r \<le> rT r - rcap r \<or> rT r - rcap r \<in> R)
    then Some ((0, False), r) else Some ((r_tail r, True), r\<lparr>r_tail := r_tail r + 1\<rparr>))"
proof -
  note inv = ring_reach_inv [OF assms]
  note i = ring_inv0D [OF ring_invD(1) [OF inv]]
  have "ring_full r W R \<longleftrightarrow> rcap r \<le> rT r \<and> (rH r \<le> rT r - rcap r \<or> rT r - rcap r \<in> R)"
    using i(3,7) by (auto simp: ring_full_def Let_def)
  then show ?thesis
    using claim_full [OF ring_invD(1) [OF inv]] claim_free [OF ring_invD(1) [OF inv]] by simp
qed

theorem claim_returns_witness:
  "claim (fst demo_init) (snd demo_init) = Some ((0, True), (snd demo_init)\<lparr>r_tail := 1\<rparr>)"
  using claim_returns [OF demo_reach] by (simp add: demo_init_ring)

section \<open>Delivery\<close>

text \<open>
  A successful dequeue takes the oldest position, and the record it fills shows exactly the
  entry that was published there, payload bytes included, with the committed flag set: never
  a half-written cell and never another lap's record. It fails only when nothing is
  committed, so the branch of \<^verbatim>\<open>dequeue\<close> for a mismatching sequence word is never taken.
\<close>
theorem dequeue_delivers_published:
  assumes "ring_reach m r W R L" "dequeue m r rec = ((pos, ok), rec', m', r')"
  shows "ok = (r_head r < r_commit r) \<and>
    (if ok then unat pos = rH r \<and> unat pos \<notin> W \<and> delivered m' rec' = committed_entry (L (unat pos)) \<and>
       Epoch rec' = r_epoch r \<and> Flags rec' AND FlagCommitted \<noteq> 0
     else rec' = rec \<and> m' = m \<and> r' = r)"
proof -
  note inv = ring_reach_inv [OF assms(1)]
  note i = ring_inv0D [OF ring_invD(1) [OF inv]]
  have ok: "ok = (r_head r < r_commit r)"
    using dequeue_ok_iff [OF inv, of rec] assms(2) by (simp add: word_less_nat_alt)
  show ?thesis
  proof (cases ok)
    case True
    with assms(2) have "dequeue m r rec = ((pos, True), rec', m', r')" by simp
    note d = dequeue_okE [OF inv this]
    have g: "ring_geom r'" using i(1) d(4) by simp
    have h: "holds r' (read_cell m r' (rslot r' pos)) (L (unat pos))" using d(7) by (simp add: d(4))
    have "delivered m' rec' = committed_entry (L (unat pos))"
      using load_record_delivered [OF g h, of rec] d(3,5) by simp
    moreover have "Epoch rec' = r_epoch r" "Flags rec' = e_flags (L (unat pos)) OR FlagCommitted"
      using load_record_view [OF g refl, of m pos rec] h by (simp_all add: d(4,5) holds_def)
    moreover have "unat pos = rH r" "unat pos \<notin> W" using d(1,2) i(7) by auto
    ultimately show ?thesis using ok True by simp
  next
    case False
    then show ?thesis
      using ok i(3) assms(2) dequeue_empty [OF ring_invD(1) [OF inv], of rec]
      by (simp add: word_less_nat_alt)
  qed
qed

theorem dequeue_delivers_published_witness:
  "ring_reach (fst (snd demo_pub)) (snd (snd demo_pub)) {} {} (\<lambda>_. entry_of 1 42 5 0 [1, 2, 3] 0) \<and>
   (\<exists>pos rec' m' r'. dequeue (fst (snd demo_pub)) (snd (snd demo_pub)) zero_Record = ((pos, True), rec', m', r') \<and>
      delivered m' rec' = committed_entry (entry_of 1 42 5 0 [1, 2, 3] 0))"
proof -
  have r: "ring_reach (fst (snd demo_pub)) (snd (snd demo_pub)) {} {} (\<lambda>_. entry_of 1 42 5 0 [1, 2, 3] 0)"
    using demo_reach_published [of "\<lambda>_. entry_of 1 42 5 0 [1, 2, 3] 0"] by (simp add: fun_upd_def)
  obtain pos ok rec' m' r' where d: "dequeue (fst (snd demo_pub)) (snd (snd demo_pub)) zero_Record
      = ((pos, ok), rec', m', r')" by (metis prod.exhaust)
  from dequeue_delivers_published [OF r d] r d show ?thesis by (auto simp: demo_published_ring)
qed

text \<open>
  While a dequeued position has not been released, the payload bytes its record aliases stay
  the bytes that were published, whatever other claims, publications, dequeues and releases
  happen meanwhile.
\<close>
theorem reader_payload_stable:
  assumes "ring_reach m r W R L" "p \<in> R"
  shows "slice_bytes m (payloadSlice (cell r (of_nat p)) (of_nat (length (e_payload (L p))))) = e_payload (L p)"
proof -
  note i = ring_inv0D [OF ring_invD(1) [OF ring_reach_inv [OF assms(1)]]]
  have p: "p < rH r" "p < rT r" "rT r \<le> p + rcap r" using i(3,4,8,9) assms(2) by auto
  then have "p \<notin> W" using i(3,7) by auto
  then have h: "holds r (read_cell m r (p mod rcap r)) (L p)"
    using i(10) [OF p(2,3)] assms(2) by (simp add: slot_ok_def Let_def)
  have small: "p < 2 ^ 64" "length (e_payload (L p)) < 2 ^ 64"
    using p(2) i(6) h unat_lt64 [of "r_payloadCap r"] by (simp_all add: holds_def)
  then have "cell r (of_nat p) = cellB r (p mod rcap r)" by (simp add: cell_cellB [OF i(1)] unat_of_nat64)
  moreover have "unat (of_nat (length (e_payload (L p))) :: u64) = length (e_payload (L p))"
    using small(2) by (rule unat_of_nat64)
  ultimately show ?thesis
    using h payloadSlice_bytes [of "of_nat (length (e_payload (L p)))" r m "p mod rcap r"]
    by (simp add: holds_def)
qed

theorem reader_payload_stable_witness:
  "\<exists>m r. ring_reach m r {} {0} (\<lambda>_. entry_of 1 42 5 0 [1, 2, 3] 0) \<and>
     slice_bytes m (payloadSlice (cell r 0) 3) = [1, 2, 3]"
proof -
  let ?L = "\<lambda>_. entry_of 1 42 5 0 [1, 2, 3] 0"
  have r: "ring_reach (fst (snd demo_pub)) (snd (snd demo_pub)) {} {} ?L"
    using demo_reach_published [of ?L] by (simp add: fun_upd_def)
  have "dequeue (fst (snd demo_pub)) (snd (snd demo_pub)) zero_Record =
      ((0, True), load_record (fst (snd demo_pub)) ((snd (snd demo_pub))\<lparr>r_head := 1\<rparr>) 0 zero_Record,
       fst (snd demo_pub), (snd (snd demo_pub))\<lparr>r_head := 1\<rparr>)"
    using dequeue_step(1) [OF ring_reach_inv [OF r]] by (simp add: demo_published_ring)
  from ring_reach.dequeue [OF r this]
  have "ring_reach (fst (snd demo_pub)) ((snd (snd demo_pub))\<lparr>r_head := 1\<rparr>) {} {0} ?L" by simp
  with reader_payload_stable [OF this, of 0] show ?thesis by (auto simp: entry_of_def)
qed

section \<open>The ring is a queue\<close>

lemma init_quiet:
  assumes "initRing m base cells payloadCap epoch = Inr (m', r)"
    and "unat payloadCap + 127 < 2 ^ 64" "unat cells * unat (cellStrideFor payloadCap) \<le> 2 ^ 64"
    and "2 \<le> unat cells"
  shows "quiet (m', r)" "ring_items (m', r) = []" "rcap r = unat cells"
    "r_payloadCap r = payloadCap" "ring_budget (m', r) = 2 ^ 64 - 1 - unat cells"
  using initRing_inv [OF assms] initRing_geom [OF assms(1-3)]
  by (auto simp: quiet_def ring_items_def ring_budget_def)

text \<open>
  C18: A freshly initialised ring, driven by any sequence of claim-and-publish and
  dequeue-and-release calls, answers every call, and answers it as a bounded first-in
  first-out queue of \<open>cells\<close> entries does.
\<close>
theorem ring_refines_bounded_queue:
  assumes "initRing m base cells payloadCap epoch = Inr s"
    and "unat payloadCap + 127 < 2 ^ 64" "unat cells * unat (cellStrideFor payloadCap) \<le> 2 ^ 64"
    and "2 \<le> unat cells"
    and "\<forall>e\<in>set (puts ops). length (e_payload e) \<le> unat payloadCap"
    and "length (puts ops) \<le> 2 ^ 64 - 1 - unat cells"
  shows "impl_run ring_put ring_take s ops = Some (spec_run committed_entry (unat cells) [] ops)"
proof -
  obtain m' r where s: "s = (m', r)" by (cases s)
  note q = init_quiet [OF assms(1) [unfolded s] assms(2-4)]
  show ?thesis
    using rq.run_refines [of s ops] q assms(5,6) by (simp add: s ring_fits_def)
qed

theorem ring_refines_bounded_queue_witness:
  "impl_run ring_put ring_take demo_init
     [Put (entry_of 1 10 0 0 [7] 0), Put (entry_of 2 11 0 0 [8] 0), Put (entry_of 3 12 0 0 [9] 0), Take] =
   Some [Accepted, Accepted, Rejected, Item (committed_entry (entry_of 1 10 0 0 [7] 0))]"
  using ring_refines_bounded_queue [of "\<lambda>_. 0" 2097152 2 64 7 demo_init
      "[Put (entry_of 1 10 0 0 [7] 0), Put (entry_of 2 11 0 0 [8] 0), Put (entry_of 3 12 0 0 [9] 0), Take]"]
    demo_init_eq
  by (simp add: demo_consts entry_of_def)

text \<open>
  Nothing is lost, duplicated or reordered: what a run of the ring delivers is a prefix of
  the entries it accepted, in the order in which it accepted them.
\<close>
theorem ring_delivers_prefix:
  assumes "initRing m base cells payloadCap epoch = Inr s"
    and "unat payloadCap + 127 < 2 ^ 64" "unat cells * unat (cellStrideFor payloadCap) \<le> 2 ^ 64"
    and "2 \<le> unat cells"
    and "\<forall>e\<in>set (puts ops). length (e_payload e) \<le> unat payloadCap"
    and "length (puts ops) \<le> 2 ^ 64 - 1 - unat cells"
  shows "\<exists>out rest. impl_run ring_put ring_take s ops = Some out \<and>
    map committed_entry (accepted_puts ops out) = items_out out @ rest"
proof -
  obtain m' r where s: "s = (m', r)" by (cases s)
  note q = init_quiet [OF assms(1) [unfolded s] assms(2-4)]
  have "impl_run ring_put ring_take s ops = Some (spec_run committed_entry (unat cells) [] ops)"
    using rq.run_refines [of s ops] q assms(5,6) by (simp add: s ring_fits_def)
  then show ?thesis
    using spec_run_fifo [of "[]" committed_entry ops "unat cells"] by auto
qed

theorem ring_delivers_prefix_witness:
  "\<exists>out rest. impl_run ring_put ring_take demo_init [Put (entry_of 1 10 0 0 [7] 0), Take] = Some out \<and>
     map committed_entry (accepted_puts [Put (entry_of 1 10 0 0 [7] 0), Take] out) = items_out out @ rest"
  using ring_delivers_prefix [of "\<lambda>_. 0" 2097152 2 64 7 demo_init "[Put (entry_of 1 10 0 0 [7] 0), Take]"]
    demo_init_eq
  by (simp add: demo_consts entry_of_def)

section \<open>Occupancy\<close>

lemma pending_unat: "rH r \<le> rT r \<Longrightarrow> unat (pending r) = rT r - rH r"
  by (simp add: pending_def Let_def word_less_nat_alt unat_sub word_le_nat_alt)

lemma committed_unat: "rH r \<le> rC r \<Longrightarrow> unat (committed r) = rC r - rH r"
  by (simp add: committed_def Let_def word_less_nat_alt unat_sub word_le_nat_alt)

lemma occupancy_unat:
  assumes "rH r \<le> rT r" "(rT r - rH r) * 100 < 2 ^ 64"
  shows "unat (occupancyPct r) = (rT r - rH r) * 100 div rcap r"
  using assms by (simp add: occupancyPct_def unat_div pending_unat unat_mult64)

text \<open>
  In a reachable state with a payload capacity of at least one byte, \<^verbatim>\<open>pending\<close>, \<^verbatim>\<open>committed\<close>
  and \<^verbatim>\<open>occupancyPct\<close> are exact: no subtraction underflows, the multiplication by 100 does not
  overflow, and the percentage stays within 0..100.
\<close>
theorem occupancy_exact:
  assumes "ring_reach m r W R L" "r_payloadCap r \<noteq> 0"
  shows "unat (pending r) = rT r - rH r \<and> unat (committed r) = rC r - rH r \<and>
    committed r \<le> pending r \<and> unat (occupancyPct r) = (rT r - rH r) * 100 div rcap r \<and>
    occupancyPct r \<le> 100"
proof -
  note i = ring_inv0D [OF ring_invD(1) [OF ring_reach_inv [OF assms(1)]]]
  have "1 \<le> unat (r_payloadCap r)" using assms(2) by (simp add: unat_gt_0 Suc_le_eq)
  then have "65 \<le> unat (r_stride r)"
    using i(1) cellStrideFor_bounds(1) [of "r_payloadCap r"] by (simp add: ring_geom_def)
  moreover have "2 ^ 6 dvd unat (r_stride r)"
    using i(1) cellStrideFor_aligned [of "r_payloadCap r"] isAligned_iff [of 6] by (simp add: ring_geom_def)
  ultimately have "128 \<le> unat (r_stride r)" by (auto elim!: dvdE)
  then have "rcap r * 128 \<le> rcap r * unat (r_stride r)" by (rule mult_le_mono2)
  also have "\<dots> \<le> 2 ^ 64" using i(1) by (rule ring_geom_fits)
  finally have cap: "rcap r * 100 < 2 ^ 64" using ring_geom_pos [OF i(1)] by simp
  moreover have n: "rT r - rH r \<le> rcap r" "rH r \<le> rT r" using i(3,4,5) by auto
  ultimately have small: "(rT r - rH r) * 100 < 2 ^ 64" by linarith
  have "(rT r - rH r) * 100 div rcap r \<le> rcap r * 100 div rcap r" using n by (intro div_le_mono) simp
  also have "\<dots> = 100" using ring_geom_pos [OF i(1)] by simp
  finally have "occupancyPct r \<le> 100"
    using occupancy_unat [OF n(2) small] by (simp add: word_le_nat_alt)
  then show ?thesis
    using occupancy_unat [OF n(2) small] pending_unat [OF n(2)] committed_unat [OF i(3)] i(4)
    by (simp add: word_le_nat_alt)
qed

theorem occupancy_exact_witness: "unat (occupancyPct (snd (snd demo_pub))) = 50"
  using occupancy_exact [OF demo_reach_published] by (simp add: demo_published_ring)

section \<open>Where the protocol stops holding\<close>

lemma advanceCommit_one:
  assumes "r_commit r = c" "r_tail r = c + 1" "ptrLoad64 m (fieldAt (cell r c) offSeq) = c + 1"
  shows "advanceCommit m r = r\<lparr>r_commit := c + 1\<rparr>"
proof -
  have "advanceCommit m r = advanceCommit m (r\<lparr>r_commit := c + 1\<rparr>)"
    using assms by (subst advanceCommit.simps) (simp add: Let_def)
  also have "\<dots> = r\<lparr>r_commit := c + 1\<rparr>"
    using assms(2) by (subst advanceCommit.simps) (simp add: Let_def)
  finally show ?thesis .
qed

text \<open>With a single cell every position lives in slot 0, and the two meanings of the sequence
  word, published (\<open>pos + 1\<close>) and free for the next lap (\<open>pos + capacity\<close>), coincide.\<close>

lemma single_put:
  assumes g: "ring_geom r" "rcap r = 1" and seq: "cv_seq (read_cell m r 0) = r_tail r"
    and commit: "r_commit r = r_tail r" and len: "length (e_payload e) \<le> unat (r_payloadCap r)"
  shows "\<exists>m'. ring_put (m, r) e = Some ((m', r\<lparr>r_tail := r_tail r + 1, r_commit := r_tail r + 1\<rparr>), True) \<and>
    cv_seq (read_cell m' r 0) = r_tail r + 1"
proof -
  let ?r = "r\<lparr>r_tail := r_tail r + 1\<rparr>"
  define m' where "m' = fst (publish_stores m ?r (r_tail r) (e_ticket e) (e_key e) (e_timestamp e)
      (e_flags e) (e_payload e) (e_checksum e))"
  have cell: "cell r' pos = cellB r 0" if "r' \<in> {r, ?r, ?r\<lparr>r_commit := r_tail r + 1\<rparr>}" for r' pos
    using that g cell_cellB [of r' pos] by (auto simp: cellB_def)
  have claim: "claim m r = Some ((r_tail r, True), ?r)"
    by (subst claim.simps) (simp add: Let_def cell seq read_cell_loads)
  have seq': "cv_seq (read_cell m' r 0) = r_tail r + 1"
    using publish_stores_view(1) [of ?r 0 "e_payload e" m] g len by (simp add: m'_def)
  have "advanceCommit m' ?r = ?r\<lparr>r_commit := r_tail r + 1\<rparr>"
    using commit seq' by (intro advanceCommit_one) (simp_all add: cell read_cell_loads)
  then have "ring_put (m, r) e = Some ((m', r\<lparr>r_tail := r_tail r + 1, r_commit := r_tail r + 1\<rparr>), True)"
    using claim by (simp add: ring_put_def ring_publish_def m'_def case_prod_beta)
  with seq' show ?thesis by blast
qed

lemma single_take:
  assumes g: "ring_geom r" "rcap r = 1" and lt: "r_head r < r_commit r"
    and seq: "cv_seq (read_cell m r 0) \<noteq> r_head r + 1"
  shows "ring_take (m, r) = (None, release m (r\<lparr>r_head := r_head r + 1\<rparr>) (r_head r), r\<lparr>r_head := r_head r + 1\<rparr>)"
    and "cv_seq (read_cell (release m (r\<lparr>r_head := r_head r + 1\<rparr>) (r_head r)) r 0) = r_head r + 1"
proof -
  let ?r = "r\<lparr>r_head := r_head r + 1\<rparr>"
  have "cell ?r (r_head r) = cellB r 0" using g cell_cellB [of ?r "r_head r"] by (simp add: cellB_def)
  moreover have "\<not> r_commit r \<le> r_head r" using lt by (simp add: not_le)
  ultimately have "dequeue m r zero_Record = ((0, False), zero_Record, release m ?r (r_head r), ?r)"
    using seq by (subst dequeue.simps) (simp add: Let_def read_cell_loads)
  then show "ring_take (m, r) = (None, release m ?r (r_head r), ?r)" by (simp add: ring_take_def)
  have "r_capacity r = 1" using g(2) by (simp add: word_unat_eq_iff)
  then show "cv_seq (read_cell (release m ?r (r_head r)) r 0) = r_head r + 1"
    using release_view [of ?r 0 m "r_head r"] g by simp
qed

text \<open>
  A ring of one cell, which \<^verbatim>\<open>initRing\<close> accepts, loses records. Two puts in a row are both
  accepted although nothing has been consumed, the second overwrites the first, and both
  dequeues that follow take the branch documented as unreachable: neither record is ever
  delivered.
\<close>
theorem single_cell_ring_loses_records:
  assumes init: "initRing m base 1 payloadCap epoch = Inr (m0, r0)"
    and fits: "unat payloadCap + 127 < 2 ^ 64"
    and len: "length (e_payload a) \<le> unat payloadCap" "length (e_payload b) \<le> unat payloadCap"
  shows "impl_run ring_put ring_take (m0, r0) [Put a, Put b, Take, Take, Take] =
    Some [Accepted, Accepted, Nothing, Nothing, Nothing]"
proof -
  have "unat (1 :: u64) * unat (cellStrideFor payloadCap) \<le> 2 ^ 64"
    using unat_lt64 [of "cellStrideFor payloadCap"] by simp
  note g = initRing_geom [OF init fits this]
  define at where "at = (\<lambda>t h. r0\<lparr>r_tail := t, r_commit := t, r_head := h\<rparr>)"
  have r0: "at 0 0 = r0" using g by (simp add: at_def)
  have geom: "ring_geom (at t h)" "rcap (at t h) = 1" for t h using g by (simp_all add: at_def)
  have sel: "r_tail (at t h) = t" "r_commit (at t h) = t" "r_head (at t h) = h"
    "r_payloadCap (at t h) = payloadCap" "read_cell m' (at t h) = read_cell m' r0" for t h m'
    using g by (simp_all add: at_def)
  have upd: "(at t h)\<lparr>r_tail := t', r_commit := t'\<rparr> = at t' h" "(at t h)\<lparr>r_head := h'\<rparr> = at t h'" for t h t' h'
    by (simp_all add: at_def)
  note put = single_put [OF geom, unfolded sel upd, OF _ refl]
  note get = single_take [OF geom, unfolded sel upd]
  have "cv_seq (read_cell m0 r0 0) = 0" using init_cells_view [OF g(1) order_refl, of 0 epoch m] g by simp
  from put [OF this len(1)] obtain m1
    where p1: "ring_put (m0, at 0 0) a = Some ((m1, at 1 0), True)" "cv_seq (read_cell m1 r0 0) = 1"
    by auto
  from put [OF p1(2) len(2)] obtain m2
    where p2: "ring_put (m1, at 1 0) b = Some ((m2, at 2 0), True)" "cv_seq (read_cell m2 r0 0) = 2"
    by auto
  define m3 where "m3 = release m2 (at 2 1) 0"
  have t1: "ring_take (m2, at 2 0) = (None, m3, at 2 1)" "cv_seq (read_cell m3 r0 0) = 1"
    using get [of 0 2 m2] p2(2) by (simp_all add: m3_def)
  define m4 where "m4 = release m3 (at 2 2) 1"
  have t2: "ring_take (m3, at 2 1) = (None, m4, at 2 2)"
    using get(1) [of 1 2 m3] t1(2) by (simp add: m4_def)
  have t3: "ring_take (m4, at 2 2) = (None, m4, at 2 2)"
    by (simp add: ring_take_def dequeue.simps Let_def sel)
  have "impl_run ring_put ring_take (m0, at 0 0) [Put a, Put b, Take, Take, Take] =
      Some [Accepted, Accepted, Nothing, Nothing, Nothing]"
    using p1(1) p2(1) t1(1) t2 t3 by simp
  then show ?thesis by (simp only: r0)
qed

theorem single_cell_ring_loses_records_witness:
  "\<exists>m0 r0. initRing (\<lambda>_. 0) 2097152 1 64 7 = Inr (m0, r0) \<and>
     impl_run ring_put ring_take (m0, r0)
       [Put (entry_of 1 10 0 0 [7] 0), Put (entry_of 2 11 0 0 [8] 0), Take, Take, Take] =
     Some [Accepted, Accepted, Nothing, Nothing, Nothing]"
proof -
  obtain m0 r0 where i: "initRing (\<lambda>_. 0) 2097152 1 64 7 = Inr (m0, r0)"
    by (simp add: initRing_def isPow2_def demo_consts Let_def)
  from single_cell_ring_loses_records [OF i, of "entry_of 1 10 0 0 [7] 0" "entry_of 2 11 0 0 [8] 0"] i
  show ?thesis by (auto simp: entry_of_def)
qed

text \<open>
  The consumer side does not survive the wrap-around of the 64-bit counters that the
  comment in \<^verbatim>\<open>claim\<close> declares harmless. When the position \<open>2 ^ 64 - 1\<close> is claimed and
  published, the commit index becomes 0; the unsigned comparison in \<^verbatim>\<open>dequeue\<close> then reports an
  empty ring, and \<^verbatim>\<open>pending\<close> reports 0, while the accepted record sits in its cell.
\<close>
theorem dequeue_stalls_at_wraparound:
  assumes g: "ring_geom r" and cursors: "r_tail r = - 1" "r_commit r = - 1" "r_head r = - 1"
    and free: "cv_seq (read_cell m r (rslot r (- 1))) = - 1"
    and len: "length (e_payload e) \<le> unat (r_payloadCap r)"
  shows "\<exists>m' r'. ring_put (m, r) e = Some ((m', r'), True) \<and>
    holds r' (read_cell m' r' (rslot r' (- 1))) e \<and> ring_take (m', r') = (None, m', r') \<and>
    pending r' = 0 \<and> committed r' = 0"
proof -
  let ?r = "r\<lparr>r_tail := 0\<rparr>" let ?r' = "r\<lparr>r_tail := 0, r_commit := 0\<rparr>"
  define m' where "m' = fst (publish_stores m ?r (- 1) (e_ticket e) (e_key e) (e_timestamp e)
      (e_flags e) (e_payload e) (e_checksum e))"
  note view = publish_stores_view(1) [of ?r "rslot r (- 1)" "e_payload e" m "- 1"]
  have cell: "cell r' (- 1) = cellB r (rslot r (- 1))" if "r' \<in> {r, ?r}" for r'
    using that g cell_cellB [of r' "- 1"] by (auto simp: cellB_def)
  have claim: "claim m r = Some ((- 1, True), ?r)"
    by (subst claim.simps) (simp add: Let_def cursors cell free read_cell_loads)
  have seq: "cv_seq (read_cell m' r (rslot r (- 1))) = 0"
    using view g len by (simp add: m'_def)
  have "advanceCommit m' ?r = ?r'"
    using advanceCommit_one [of ?r "- 1" m'] seq cursors by (simp add: cell read_cell_loads)
  then have "ring_put (m, r) e = Some ((m', ?r'), True)"
    using claim by (simp add: ring_put_def ring_publish_def m'_def case_prod_beta)
  moreover have "holds ?r' (read_cell m' ?r' (rslot ?r' (- 1))) e"
    using view g len by (simp add: m'_def holds_def)
  moreover have "ring_take (m', ?r') = (None, m', ?r')"
    by (simp add: ring_take_def dequeue.simps Let_def)
  moreover have "pending ?r' = 0" "committed ?r' = 0" using word_neq_0_conv [of "- 1 :: u64"] by (simp_all add: pending_def committed_def cursors Let_def)
  ultimately show ?thesis by blast
qed

theorem dequeue_stalls_at_wraparound_witness:
  "\<exists>m r m' r'. r_head r = - 1 \<and> ring_put (m, r) (entry_of 1 10 0 0 [7] 0) = Some ((m', r'), True) \<and>
     ring_take (m', r') = (None, m', r')"
proof -
  let ?r = "(snd demo_init)\<lparr>r_tail := - 1, r_commit := - 1, r_head := - 1\<rparr>"
  let ?m = "ptrStore64 (fst demo_init) (fieldAt (cellB ?r 1) offSeq) (- 1)"
  have g: "ring_geom ?r" using ring_inv0D(1) [OF ring_invD(1) [OF ring_reach_inv [OF demo_reach]]] by simp
  have u: "unat (- 1 :: u64) mod 2 = 1" by (simp add: unsigned_minus_1_eq_mask mask_eq_exp_minus_1)
  have "cv_seq (read_cell ?m ?r (rslot ?r (- 1))) = - 1"
    using read_cell_stores(1) [OF g, of 1 1 "fst demo_init" "- 1"] u by (simp add: demo_init_ring)
  from dequeue_stalls_at_wraparound [OF g _ _ _ this, of "entry_of 1 10 0 0 [7] 0"]
  obtain m' r' where "ring_put (?m, ?r) (entry_of 1 10 0 0 [7] 0) = Some ((m', r'), True)"
    "ring_take (m', r') = (None, m', r')" by (auto simp: demo_init_ring entry_of_def)
  moreover have "r_head ?r = - 1" by simp
  ultimately show ?thesis by blast
qed

end
