(* ===== verification/LayoutProps.thy ===== *)
theory LayoutProps
  imports RingProps
begin

text \<open>
  Properties of the physical layout: what \<^verbatim>\<open>alignUp\<close> computes, that every atomic access to a
  cell header is aligned and stays on one cache line, that cells never overlap, and the
  layouts the compile-time assertions pin down.
\<close>

text \<open>
  For a power-of-two alignment, and as long as adding \<open>align - 1\<close> does not overflow,
  \<^verbatim>\<open>alignUp\<close> returns the least multiple of the alignment that is not below its argument.
\<close>
theorem alignUp_least_multiple:
  assumes "isPow2 align" "unat n + unat align - 1 < 2 ^ 64"
  shows "isAligned (alignUp n align) align \<and> n \<le> alignUp n align \<and>
    (\<forall>x. isAligned x align \<and> n \<le> x \<longrightarrow> alignUp n align \<le> x)"
proof -
  obtain k where k: "k < 64" "align = 2 ^ k" using assms(1) by (auto simp: isPow2_iff)
  have "unat n + 2 ^ k - 1 < 2 ^ 64" using assms(2) k by (simp add: unat_pow2)
  note b = alignUp_bounds [OF k(1) this]
  have "unat (alignUp n align) \<le> unat x" if "2 ^ k dvd unat x" "unat n \<le> unat x" for x
  proof (rule ccontr)
    assume "\<not> unat (alignUp n align) \<le> unat x"
    then have "unat x + 2 ^ k \<le> unat (alignUp n align)"
      using that(1) b(1) k(2) by (intro dvd_gap) auto
    with b(3) that(2) k(2) show False by simp
  qed
  with b k show ?thesis by (auto simp: isAligned_iff word_le_nat_alt)
qed

theorem alignUp_least_multiple_witness: "isAligned (alignUp 100 64) 64 \<and> alignUp 100 64 = 128"
  using alignUp_least_multiple [of 64 100] by (simp add: isPow2_def alignUp_def)

text \<open>
  If the first cell is cache-line aligned, then in every cell, at any index, the nine header
  fields are aligned to their own width and lie on the single cache line that the cell
  begins with; the payload begins on the next one.
\<close>
theorem header_on_one_line:
  assumes "isAligned base CacheLineSize"
    and "(off, w) \<in> {(offSeq, 8), (offTicket, 8), (offTimestamp, 8), (offKey, 8), (offLength, 8),
      (offEpoch, 8), (offChecksum, 4), (offFlags, 4), (offReserved, 8)}"
  shows "let c = cellAt base idx (cellStrideFor p) in
    isAligned c CacheLineSize \<and> isAligned (fieldAt c off) w \<and>
    unat (fieldAt c off) div 64 = unat c div 64 \<and> (unat (fieldAt c off) + unat w - 1) div 64 = unat c div 64 \<and>
    isAligned (payloadAt c) CacheLineSize"
proof -
  define c where "c = cellAt base idx (cellStrideFor p)"
  have c: "isAligned c (2 ^ 6)"
    using assms(1) cellStrideFor_aligned [of p] isAligned_add [of 6] isAligned_mult [of 6]
    by (simp add: c_def cellAt_def CacheLineSize_def)
  then have "64 dvd unat c" using isAligned_iff [of 6 c] by simp
  then obtain q where q: "unat c = 64 * q" by (rule dvdE)
  have lt: "unat c + 64 \<le> 2 ^ 64" using q unat_lt64 [of c] by simp
  have off: "unat off + unat w \<le> 64" "unat w dvd unat off" "0 < unat w" "w = 8 \<or> w = 4"
    using assms(2) by auto
  then have f: "unat (fieldAt c off) = 64 * q + unat off"
    using lt q by (simp add: fieldAt_def unat_word_ariths)
  have "unat w dvd 64 * q" using off(4) by (auto intro: dvd_mult2)
  then have "unat w dvd unat (fieldAt c off)" using f off(2) by simp
  then have "isAligned (fieldAt c off) w"
    using off(4) isAligned_iff [of 3 "fieldAt c off"] isAligned_iff [of 2 "fieldAt c off"] by auto
  moreover have "isAligned (payloadAt c) (2 ^ 6)"
    using c isAligned_add [of 6 c HeaderSize] by (simp add: payloadAt_def HeaderSize_def isAligned_def)
  ultimately show ?thesis
    using c f off q by (simp add: c_def [symmetric] CacheLineSize_def Let_def)
qed

theorem header_on_one_line_witness:
  "isAligned 2097152 CacheLineSize \<and> isAligned (fieldAt (cellAt 2097152 5 (cellStrideFor 448)) offFlags) 4"
  using header_on_one_line [of 2097152 offFlags 4 5 448] by (simp add: isAligned_def CacheLineSize_def Let_def)

text \<open>
  The cells of a ring tile its region: each lies inside the \<^verbatim>\<open>ringBytes\<close> bytes from the base
  (when that product does not overflow), and no byte belongs to two cells.
\<close>
theorem cells_tile_region:
  assumes "ring_geom r" "i < rcap r" "j < rcap r" "i \<noteq> j"
    and "rcap r * unat (r_stride r) < 2 ^ 64"
  shows "apart (cellB r i) (unat (r_stride r)) (cellB r j) (unat (r_stride r)) \<and>
    unat (cellB r i - r_base r) + unat (r_stride r) \<le> unat (ringBytes (r_capacity r) (r_payloadCap r))"
proof -
  have pos: "0 < unat (r_stride r)"
    using assms(1) cellStrideFor_bounds(1) [of "r_payloadCap r"] by (auto simp: ring_geom_def)
  have bytes: "unat (ringBytes (r_capacity r) (r_payloadCap r)) = rcap r * unat (r_stride r)"
    using assms(1,5) by (simp add: ringBytes_def ring_geom_def unat_mult64)
  have "i * unat (r_stride r) + unat (r_stride r) \<le> rcap r * unat (r_stride r)"
    using assms(2) by (metis Suc_leI add.commute mult_Suc mult_le_mono1)
  moreover from this have "unat (cellB r i - r_base r) = i * unat (r_stride r)"
    using assms(5) cellB_offset [of r i 0] unat_diff_of_nat [of 0 "i * unat (r_stride r)" "r_base r"]
    by simp
  ultimately have "unat (cellB r i - r_base r) + unat (r_stride r) \<le> rcap r * unat (r_stride r)" by simp
  with cell_apart [OF assms(1-3), of 0 "unat (r_stride r)" 0 "unat (r_stride r)"] pos assms(4) bytes
  show ?thesis by simp
qed

theorem cells_tile_region_witness:
  "apart (cellB (snd demo_init) 0) 128 (cellB (snd demo_init) 1) 128"
proof -
  have g: "ring_geom (snd demo_init)" using ring_inv0D(1) [OF ring_invD(1) [OF ring_reach_inv [OF demo_reach]]] .
  then have "r_stride (snd demo_init) = 128" by (simp add: ring_geom_def demo_init_ring demo_consts)
  with cells_tile_region [OF g, of 0 1] show ?thesis by (simp add: demo_init_ring)
qed

end
