(* ===== verification/Index.thy ===== *)
theory Index
  imports Cells
begin

text \<open>
  \<^verbatim>\<open>index.go\<close>: the open-addressed key index, translated statement by statement over byte
  memory, each operation run without interference. Probe loops run over the probe numbers
  \<open>0..<maxProbe\<close>; a compare-and-swap whose failure the code handles keeps its failure branch.
\<close>

definition IndexBucketSize :: u64 where [layout_simps]: "IndexBucketSize = 32"
definition offIdxKey :: u64 where [layout_simps]: "offIdxKey = 0"
definition offIdxTicket :: u64 where [layout_simps]: "offIdxTicket = 8"
definition offIdxSlot :: u64 where [layout_simps]: "offIdxSlot = 16"
definition offIdxPad :: u64 where [layout_simps]: "offIdxPad = 24"
definition maxProbe :: nat where "maxProbe = 16"

definition indexBucket_t :: gotype where
  "indexBucket_t = GStruct [GUint64, GUint64, GUint64, GUint64]"

record keyIndex =
  x_base :: u64
  x_buckets :: u64
  x_mask :: u64
  x_live :: padU64
  x_collides :: padU64
  x_overflows :: padU64
  x_reclaims :: padU64

definition keyIndex_t :: gotype where
  "keyIndex_t = GStruct [GPointer, GUint64, GUint64, GArray (unat (CoherenceStride - 24)) GByte,
     padU64_t, padU64_t, padU64_t, padU64_t]"

definition indexBytes :: "u64 \<Rightarrow> u64" where
  "indexBytes buckets = buckets * IndexBucketSize"

definition bucketAt :: "u64 \<Rightarrow> u64 \<Rightarrow> u64" where
  [layout_simps]: "bucketAt base i = base + i * IndexBucketSize"

definition bucket :: "keyIndex \<Rightarrow> u64 \<Rightarrow> u64" where
  "bucket x i = bucketAt (x_base x) i"

definition init_bucket :: "u64 \<Rightarrow> nat \<Rightarrow> mem \<Rightarrow> mem" where
  "init_bucket base i m0 =
     (let b = bucketAt base (of_nat i);
          m1 = ptrStore64 m0 (fieldAt b offIdxKey) 0;
          m2 = ptrStore64 m1 (fieldAt b offIdxTicket) 0;
          m3 = ptrStore64 m2 (fieldAt b offIdxSlot) 0
      in ptrStore64 m3 (fieldAt b offIdxPad) 0)"

definition initIndex :: "mem \<Rightarrow> u64 \<Rightarrow> u64 \<Rightarrow> error + mem \<times> keyIndex" where
  "initIndex m base buckets =
     (if buckets = 0 \<or> \<not> isPow2 buckets then Inl ErrConfig
      else if \<not> isAligned base CacheLineSize then Inl ErrConfig
      else Inr (fold (init_bucket base) [0..<unat buckets] m,
        \<lparr>x_base = base, x_buckets = buckets, x_mask = buckets - 1,
         x_live = 0, x_collides = 0, x_overflows = 0, x_reclaims = 0\<rparr>))"

definition hashKey :: "u64 \<Rightarrow> u64" where
  "hashKey k0 =
     (let k1 = k0 XOR drop_bit 30 k0;
          k2 = k1 * 0xbf58476d1ce4e5b9;
          k3 = k2 XOR drop_bit 27 k2;
          k4 = k3 * 0x94d049bb133111eb
      in k4 XOR drop_bit 31 k4)"

function updateMonotonic :: "mem \<Rightarrow> u64 \<Rightarrow> u64 \<Rightarrow> u64 \<Rightarrow> mem" where
  "updateMonotonic m b ticket slot =
     (let tw = fieldAt b offIdxTicket; cur = ptrLoad64 m tw in
      if cur \<ge> ticket then m
      else case ptrCAS64 m tw cur ticket of (m', ok) \<Rightarrow>
        if ok then ptrStore64 m' (fieldAt b offIdxSlot) slot
        else updateMonotonic m' b ticket slot)"
  by pat_completeness auto
termination
  by (relation "{}") (auto simp: ptrCAS64_def)

declare updateMonotonic.simps [simp del]

definition isDead :: "mem \<Rightarrow> u64 \<Rightarrow> u64 \<Rightarrow> ring \<Rightarrow> bool" where
  "isDead m b entryKey r =
     (let slot = ptrLoad64 m (fieldAt b offIdxSlot) in
      if slot \<ge> r_capacity r then True
      else let c = cellAt (r_base r) slot (r_stride r)
           in ptrLoad64 m (fieldAt c offKey) \<noteq> entryKey)"

text \<open>The bucket of the given probe number.\<close>

definition probeBucket :: "keyIndex \<Rightarrow> u64 \<Rightarrow> nat \<Rightarrow> u64" where
  "probeBucket x h probe = bucket x ((h + of_nat probe) AND x_mask x)"

definition add_collides :: "keyIndex \<Rightarrow> nat \<Rightarrow> keyIndex" where
  "add_collides x probe =
     (if probe > 0 then x\<lparr>x_collides := fst (atomicAdd64 (x_collides x) (of_nat probe))\<rparr> else x)"

text \<open>Pass 1 of \<^verbatim>\<open>upsert\<close>: find the key or an empty bucket. \<open>None\<close> falls out of the loop.\<close>

fun upsert_pass1 :: "nat list \<Rightarrow> mem \<Rightarrow> keyIndex \<Rightarrow> u64 \<Rightarrow> u64 \<Rightarrow> u64 \<Rightarrow> u64 \<Rightarrow> (mem \<times> keyIndex) option" where
  "upsert_pass1 [] m x h key ticket slot = None"
| "upsert_pass1 (probe # ps) m x h key ticket slot =
     (let b = probeBucket x h probe;
          kw = fieldAt b offIdxKey;
          cur = ptrLoad64 m kw;
          (m1, won) = (if cur = 0 then ptrCAS64 m kw 0 key else (m, False))
      in if won then
           (let m2 = ptrStore64 m1 (fieldAt b offIdxSlot) slot;
                m3 = ptrStore64 m2 (fieldAt b offIdxTicket) ticket;
                x1 = x\<lparr>x_live := fst (atomicAdd64 (x_live x) 1)\<rparr>
            in Some (m3, add_collides x1 probe))
         else (let cur' = (if cur = 0 then ptrLoad64 m1 kw else cur) in
               if cur' = key then Some (updateMonotonic m1 b ticket slot, add_collides x probe)
               else upsert_pass1 ps m1 x h key ticket slot))"

text \<open>Pass 2: recycle the first dead bucket of a full chain.\<close>

datatype pass2 = Reclaimed mem keyIndex | Retry mem | Exhausted mem

fun upsert_pass2 :: "nat list \<Rightarrow> mem \<Rightarrow> keyIndex \<Rightarrow> u64 \<Rightarrow> u64 \<Rightarrow> u64 \<Rightarrow> u64 \<Rightarrow> ring \<Rightarrow> pass2" where
  "upsert_pass2 [] m x h key ticket slot r = Exhausted m"
| "upsert_pass2 (probe # ps) m x h key ticket slot r =
     (let b = probeBucket x h probe;
          kw = fieldAt b offIdxKey;
          cur = ptrLoad64 m kw
      in if cur = 0 \<or> cur = key then Retry m
         else if \<not> isDead m b cur r then upsert_pass2 ps m x h key ticket slot r
         else case ptrCAS64 m kw cur key of (m1, ok) \<Rightarrow>
           if ok then
             (let m2 = ptrStore64 m1 (fieldAt b offIdxSlot) slot;
                  m3 = ptrStore64 m2 (fieldAt b offIdxTicket) ticket
              in Reclaimed m3 (x\<lparr>x_reclaims := fst (atomicAdd64 (x_reclaims x) 1)\<rparr>))
           else upsert_pass2 ps m1 x h key ticket slot r)"

fun upsert_attempts :: "nat \<Rightarrow> mem \<Rightarrow> keyIndex \<Rightarrow> u64 \<Rightarrow> u64 \<Rightarrow> u64 \<Rightarrow> u64 \<Rightarrow> ring
    \<Rightarrow> mem \<times> keyIndex \<times> error option" where
  "upsert_attempts 0 m x h key ticket slot r =
     (m, x\<lparr>x_overflows := fst (atomicAdd64 (x_overflows x) 1)\<rparr>, Some ErrIndexFull)"
| "upsert_attempts (Suc n) m x h key ticket slot r =
     (case upsert_pass1 [0..<maxProbe] m x h key ticket slot of
        Some (m', x') \<Rightarrow> (m', x', None)
      | None \<Rightarrow>
          (case upsert_pass2 [0..<maxProbe] m x h key ticket slot r of
             Reclaimed m' x' \<Rightarrow> (m', x', None)
           | Retry m' \<Rightarrow> upsert_attempts n m' x h key ticket slot r
           | Exhausted m' \<Rightarrow>
               (m', x\<lparr>x_overflows := fst (atomicAdd64 (x_overflows x) 1)\<rparr>, Some ErrIndexFull)))"

definition upsert :: "mem \<Rightarrow> keyIndex \<Rightarrow> u64 \<Rightarrow> u64 \<Rightarrow> u64 \<Rightarrow> ring \<Rightarrow> mem \<times> keyIndex \<times> error option" where
  "upsert m x key ticket slot r =
     (if key = 0 then (m, x, Some ErrConfig)
      else let h = hashKey key AND x_mask x in upsert_attempts 2 m x h key ticket slot r)"

text \<open>The body of \<^verbatim>\<open>lookup\<close> once the bucket of the key is found.\<close>

definition lookup_bucket :: "mem \<Rightarrow> u64 \<Rightarrow> u64 \<Rightarrow> ring \<Rightarrow> Record \<Rightarrow> error + Record" where
  "lookup_bucket m b key r rec =
     (let ticket = ptrLoad64 m (fieldAt b offIdxTicket) in
      if ticket = 0 then Inl ErrNotFound
      else let slot = ptrLoad64 m (fieldAt b offIdxSlot) in
      if slot \<ge> r_capacity r then Inl ErrNotFound
      else let c = cellAt (r_base r) slot (r_stride r) in
      if ptrLoad64 m (fieldAt c offKey) \<noteq> key then Inl ErrNotFound
      else if ptrLoad32 m (fieldAt c offFlags) AND FlagCommitted = 0 then Inl ErrNotFound
      else let n = ptrLoad64 m (fieldAt c offLength) in
      if n > r_payloadCap r then Inl ErrNotFound
      else let rec' = rec\<lparr>Ticket := ptrLoad64 m (fieldAt c offTicket),
                          Timestamp := ptrLoad64 m (fieldAt c offTimestamp),
                          Key := key,
                          Epoch := ptrLoad64 m (fieldAt c offEpoch),
                          Checksum := ptrLoad32 m (fieldAt c offChecksum),
                          Flags := ptrLoad32 m (fieldAt c offFlags),
                          Slot := slot,
                          Payload := payloadSlice c n\<rparr>
      in if ptrLoad64 m (fieldAt c offKey) \<noteq> key then Inl ErrNotFound else Inr rec')"

fun lookup_probes :: "nat list \<Rightarrow> mem \<Rightarrow> keyIndex \<Rightarrow> u64 \<Rightarrow> u64 \<Rightarrow> ring \<Rightarrow> Record \<Rightarrow> error + Record" where
  "lookup_probes [] m x h key r rec = Inl ErrNotFound"
| "lookup_probes (probe # ps) m x h key r rec =
     (let b = probeBucket x h probe; cur = ptrLoad64 m (fieldAt b offIdxKey) in
      if cur = 0 then Inl ErrNotFound
      else if cur \<noteq> key then lookup_probes ps m x h key r rec
      else lookup_bucket m b key r rec)"

definition index_lookup :: "mem \<Rightarrow> keyIndex \<Rightarrow> u64 \<Rightarrow> ring \<Rightarrow> Record \<Rightarrow> error + Record" where
  "index_lookup m x key r rec =
     (if key = 0 then Inl ErrConfig
      else let h = hashKey key AND x_mask x in lookup_probes [0..<maxProbe] m x h key r rec)"

record IndexStats =
  Buckets :: u64
  Live :: u64
  LoadPct :: u64
  ProbeSteps :: u64
  Overflows :: u64
  Reclaims :: u64

definition index_stats :: "keyIndex \<Rightarrow> IndexStats" where
  "index_stats x =
     (let live = x_live x in
      \<lparr>Buckets = x_buckets x, Live = live, LoadPct = live * 100 div x_buckets x,
       ProbeSteps = x_collides x, Overflows = x_overflows x, Reclaims = x_reclaims x\<rparr>)"

section \<open>The hash is a bijection\<close>

lemma xorshift_inverse:
  assumes "64 \<le> 3 * s"
  shows "(x XOR drop_bit s x) XOR drop_bit s (x XOR drop_bit s x) XOR drop_bit (2 * s) (x XOR drop_bit s x)
    = (x :: u64)"
proof (rule bit_word_eqI)
  fix n
  assume "n < LENGTH(64)"
  then have "\<not> bit x (n + (s + 2 * s))" using assms by (auto dest: bit_imp_le_length)
  then show "bit ((x XOR drop_bit s x) XOR drop_bit s (x XOR drop_bit s x) XOR
      drop_bit (2 * s) (x XOR drop_bit s x)) n = bit x n"
    by (auto simp: bit_simps ac_simps simp flip: mult_2_right)
qed

lemma xorshift_inverse':
  assumes "64 \<le> 3 * s"
  shows "(y XOR drop_bit s y XOR drop_bit (2 * s) y) XOR drop_bit s (y XOR drop_bit s y XOR drop_bit (2 * s) y)
    = (y :: u64)"
proof (rule bit_word_eqI)
  fix n
  assume "n < LENGTH(64)"
  then have "\<not> bit y (n + (s + 2 * s))" using assms by (auto dest: bit_imp_le_length)
  then show "bit ((y XOR drop_bit s y XOR drop_bit (2 * s) y) XOR
      drop_bit s (y XOR drop_bit s y XOR drop_bit (2 * s) y)) n = bit y n"
    by (auto simp: bit_simps ac_simps simp flip: mult_2_right)
qed

text \<open>The inverse of the SplitMix64 finalizer, as a reference.\<close>

definition unhashKey :: "u64 \<Rightarrow> u64" where
  "unhashKey k5 =
     (let k4 = k5 XOR drop_bit 31 k5 XOR drop_bit 62 k5;
          k3 = k4 * 3573116690164977347;
          k2 = k3 XOR drop_bit 27 k3 XOR drop_bit 54 k3;
          k1 = k2 * 10871156337175269513
      in k1 XOR drop_bit 30 k1 XOR drop_bit 60 k1)"

lemma mult_inverse_cancel: "a * b = 1 \<Longrightarrow> x * a * b = x" for a b x :: u64
  by (simp only: mult.assoc mult_1_right)

lemma hash_multipliers:
  "(0xbf58476d1ce4e5b9 :: u64) * 10871156337175269513 = 1"
  "(10871156337175269513 :: u64) * 0xbf58476d1ce4e5b9 = 1"
  "(0x94d049bb133111eb :: u64) * 3573116690164977347 = 1"
  "(3573116690164977347 :: u64) * 0x94d049bb133111eb = 1"
  by simp_all

lemma unhash_hash: "unhashKey (hashKey k) = k"
  unfolding unhashKey_def hashKey_def Let_def
  using xorshift_inverse [of 31] xorshift_inverse [of 27] xorshift_inverse [of 30]
  by (simp add: mult_inverse_cancel hash_multipliers)

lemma hash_unhash: "hashKey (unhashKey k) = k"
  unfolding unhashKey_def hashKey_def Let_def
  using xorshift_inverse' [of 31] xorshift_inverse' [of 27] xorshift_inverse' [of 30]
  by (simp add: mult_inverse_cancel hash_multipliers)

text \<open>
  \<^verbatim>\<open>hashKey\<close> is a bijection on 64-bit keys, with an explicit inverse: no two keys share a
  full hash, and only the masking to the table size and to the shard count makes keys meet.
\<close>
theorem hashKey_bijective: "unhashKey (hashKey k) = k \<and> hashKey (unhashKey k) = k \<and> bij hashKey"
  using unhash_hash hash_unhash by (metis bij_iff)

end
