(* ===== verification/Buckets.thy ===== *)
theory Buckets
  imports Index RingInv
begin

text \<open>
  What an index bucket holds, and how the ring cells and the index buckets of one shard share
  its arena. \<open>ring_region\<close> and \<open>index_region\<close> are the bytes of the two structures: an operation
  on one of them leaves the bytes of the other alone, and the views depend on nothing else.
\<close>

section \<open>Views of buckets\<close>

record bucketv =
  bv_key :: u64
  bv_ticket :: u64
  bv_slot :: u64

abbreviation xcap :: "keyIndex \<Rightarrow> nat" where
  "xcap x \<equiv> unat (x_buckets x)"

definition index_geom :: "keyIndex \<Rightarrow> bool" where
  "index_geom x \<longleftrightarrow> isPow2 (x_buckets x) \<and> x_mask x = x_buckets x - 1 \<and>
     isAligned (x_base x) 64 \<and> xcap x * 32 \<le> 2 ^ 64"

definition bucketB :: "keyIndex \<Rightarrow> nat \<Rightarrow> u64" where
  "bucketB x i = bucketAt (x_base x) (of_nat i)"

definition read_bucket :: "mem \<Rightarrow> keyIndex \<Rightarrow> nat \<Rightarrow> bucketv" where
  "read_bucket m x i =
     (let b = bucketB x i in
      \<lparr>bv_key = ptrLoad64 m (fieldAt b offIdxKey), bv_ticket = ptrLoad64 m (fieldAt b offIdxTicket),
       bv_slot = ptrLoad64 m (fieldAt b offIdxSlot)\<rparr>)"

lemma read_bucket_loads:
  "ptrLoad64 m (fieldAt (bucketB x i) offIdxKey) = bv_key (read_bucket m x i)"
  "ptrLoad64 m (fieldAt (bucketB x i) offIdxTicket) = bv_ticket (read_bucket m x i)"
  "ptrLoad64 m (fieldAt (bucketB x i) offIdxSlot) = bv_slot (read_bucket m x i)"
  by (simp_all add: read_bucket_def Let_def)

lemma unat_idx_offsets [simp]:
  "unat offIdxKey = 0" "unat offIdxTicket = 8" "unat offIdxSlot = 16" "unat offIdxPad = 24"
  by (simp_all add: layout_simps)

lemma bucketB_offset: "bucketB x i + of_nat off = x_base x + of_nat (i * 32 + off)"
  by (simp add: bucketB_def layout_simps)

lemma field_bucketB: "fieldAt (bucketB x i) off = x_base x + of_nat (i * 32 + unat off)"
  using bucketB_offset [of x i "unat off"] by (simp add: fieldAt_def)

lemma bucket_apart:
  assumes g: "index_geom x" and ij: "i < xcap x" "j < xcap x"
    and off: "unat off + 8 \<le> 32" "unat off' + 8 \<le> 32"
    and ne: "i \<noteq> j \<or> unat off + 8 \<le> unat off' \<or> unat off' + 8 \<le> unat off"
  shows "apart (fieldAt (bucketB x i) off) 8 (fieldAt (bucketB x j) off') 8"
proof -
  have fits: "xcap x * 32 \<le> 2 ^ 64" using g by (simp add: index_geom_def)
  have ends: "i * 32 + unat off + 8 \<le> 2 ^ 64" "j * 32 + unat off' + 8 \<le> 2 ^ 64"
    using fits ij off by linarith+
  have "i * 32 + unat off + 8 \<le> j * 32 + unat off' \<or> j * 32 + unat off' + 8 \<le> i * 32 + unat off"
    using ne off by (cases i j rule: linorder_cases) auto
  then show ?thesis
    unfolding field_bucketB
    using ends apart_offsets [of "i * 32 + unat off" 8 "j * 32 + unat off'" 8 "x_base x"]
      apart_offsets [of "j * 32 + unat off'" 8 "i * 32 + unat off" 8 "x_base x"]
    by (meson zero_less_numeral)
qed

lemma read_bucket_stores [mem_simps]:
  assumes "index_geom x" "i < xcap x" "j < xcap x"
  shows
  "read_bucket (ptrStore64 m (fieldAt (bucketB x i) offIdxKey) v) x j =
     (if j = i then (read_bucket m x i)\<lparr>bv_key := v\<rparr> else read_bucket m x j)"
  "read_bucket (ptrStore64 m (fieldAt (bucketB x i) offIdxTicket) v) x j =
     (if j = i then (read_bucket m x i)\<lparr>bv_ticket := v\<rparr> else read_bucket m x j)"
  "read_bucket (ptrStore64 m (fieldAt (bucketB x i) offIdxSlot) v) x j =
     (if j = i then (read_bucket m x i)\<lparr>bv_slot := v\<rparr> else read_bucket m x j)"
  "read_bucket (ptrStore64 m (fieldAt (bucketB x i) offIdxPad) v) x j = read_bucket m x j"
  using assms
  by (simp_all add: read_bucket_def Let_def load64_store64_same loads_store_apart(1) bucket_apart)

section \<open>The two regions of a shard\<close>

definition ring_region :: "mem \<Rightarrow> ring \<Rightarrow> u8 list" where
  "ring_region m r = load_bytes m (r_base r) (rcap r * unat (r_stride r))"

definition index_region :: "mem \<Rightarrow> keyIndex \<Rightarrow> u8 list" where
  "index_region m x = load_bytes m (x_base x) (xcap x * 32)"

definition shard_geom :: "ring \<Rightarrow> keyIndex \<Rightarrow> bool" where
  "shard_geom r x \<longleftrightarrow> ring_geom r \<and> index_geom x \<and>
     x_base x = r_base r + of_nat (rcap r * unat (r_stride r)) \<and>
     rcap r * unat (r_stride r) + xcap x * 32 \<le> 2 ^ 64"

lemma shard_geomD: "shard_geom r x \<Longrightarrow> ring_geom r" "shard_geom r x \<Longrightarrow> index_geom x"
  by (auto simp: shard_geom_def)

lemma load_bytes_sub:
  assumes "load_bytes m p n = load_bytes m' p n" "off + k \<le> n"
  shows "load_bytes m (p + of_nat off) k = load_bytes m' (p + of_nat off) k"
proof -
  have "m (p + of_nat i) = m' (p + of_nat i)" if "i < n" for i
    using assms(1) that by (auto simp: load_bytes_def)
  from this [of "off + i" for i] show ?thesis
    using assms(2) by (auto simp: load_bytes_def add.assoc)
qed

lemma read_cell_cong:
  assumes "ring_geom r" "ring_region m r = ring_region m' r" "i < rcap r"
  shows "read_cell m r i = read_cell m' r i"
proof -
  let ?S = "unat (r_stride r)"
  have S: "unat (r_payloadCap r) + 64 \<le> ?S"
    using assms(1) cellStrideFor_bounds(1) [of "r_payloadCap r"] by (simp add: ring_geom_def)
  have "(i + 1) * ?S \<le> rcap r * ?S" using assms(3) by (intro mult_le_mono1) simp
  then have sub: "load_bytes m (cellB r i + of_nat off) k = load_bytes m' (cellB r i + of_nat off) k"
    if "off + k \<le> ?S" for off k
    unfolding cellB_offset using that assms(2)
    by (intro load_bytes_sub) (auto simp: ring_region_def)
  have hdr: "load_bytes m (fieldAt (cellB r i) off) k = load_bytes m' (fieldAt (cellB r i) off) k"
    if "unat off + k \<le> 64" for off k
    using sub [of "unat off" k] that S by (simp add: fieldAt_def)
  have "load_bytes m (payloadAt (cellB r i)) (unat (r_payloadCap r)) =
      load_bytes m' (payloadAt (cellB r i)) (unat (r_payloadCap r))"
    using sub [of 64 "unat (r_payloadCap r)"] S by (simp add: payloadAt_def HeaderSize_def)
  then show ?thesis by (simp add: read_cell_def Let_def ptrLoad64_def ptrLoad32_def hdr)
qed

lemma read_bucket_cong:
  assumes "index_region m x = index_region m' x" "i < xcap x"
  shows "read_bucket m x i = read_bucket m' x i"
proof -
  have "load_bytes m (fieldAt (bucketB x i) off) 8 = load_bytes m' (fieldAt (bucketB x i) off) 8"
    if "unat off + 8 \<le> 32" for off
    unfolding field_bucketB using assms that
    by (intro load_bytes_sub) (auto simp: index_region_def)
  then show ?thesis by (simp add: read_bucket_def Let_def ptrLoad64_def)
qed

lemma slot_ok_cong:
  assumes "\<And>i. i < rcap r \<Longrightarrow> read_cell m r i = read_cell m' r i" "ring_geom r"
  shows "slot_ok m r W R L p = slot_ok m' r W R L p"
  using assms(1) [of "p mod rcap r"] ring_geom_pos [OF assms(2)] by (simp add: slot_ok_def)

lemma ring_inv_cong:
  assumes "ring_region m r = ring_region m' r" "ring_inv m r W R L"
  shows "ring_inv m' r W R L"
proof -
  note i = ring_inv0D [OF ring_invD(1) [OF assms(2)]]
  have eq: "read_cell m' r i = read_cell m r i" if "i < rcap r" for i
    using read_cell_cong [OF i(1) assms(1) that] by simp
  then show ?thesis
    using ring_invD(2) [OF assms(2)] i slot_ok_cong [OF eq i(1)]
    by (simp add: ring_inv_def ring_inv0_def)
qed

lemma cell_index_apart:
  assumes g: "shard_geom r x" and i: "i < rcap r" and off: "off + n \<le> unat (r_stride r)" "0 < n"
  shows "apart (cellB r i + of_nat off) n (x_base x) (xcap x * 32)"
proof -
  let ?S = "unat (r_stride r)"
  have "(i + 1) * ?S \<le> rcap r * ?S" using i by (intro mult_le_mono1) simp
  then have "i * ?S + off + n \<le> rcap r * ?S" using off by simp
  moreover have "0 < xcap x" using g by (auto simp: shard_geom_def index_geom_def isPow2_def unat_gt_0)
  ultimately have "apart (r_base r + of_nat (i * ?S + off)) n (r_base r + of_nat (rcap r * ?S)) (xcap x * 32)"
    using g off by (intro apart_offsets(1)) (auto simp: shard_geom_def)
  moreover have "x_base x = r_base r + of_nat (rcap r * ?S)" using g by (simp only: shard_geom_def)
  ultimately show ?thesis by (simp only: cellB_offset)
qed

lemma cell_store_frame:
  assumes "shard_geom r x" "i < rcap r" "unat off + 8 \<le> 64"
  shows "index_region (ptrStore64 m (fieldAt (cellB r i) off) v) x = index_region m x"
    "index_region (ptrStore32 m (fieldAt (cellB r i) off) w) x = index_region m x"
proof -
  have "64 \<le> unat (r_stride r)"
    using assms(1) cellStrideFor_bounds(1) [of "r_payloadCap r"] by (simp add: shard_geom_def ring_geom_def)
  then have "apart (fieldAt (cellB r i) off) n (x_base x) (xcap x * 32)" if "n \<le> 8" "0 < n" for n
    using cell_index_apart [OF assms(1,2), of "unat off" n] assms(3) that by (simp add: fieldAt_def)
  then show "index_region (ptrStore64 m (fieldAt (cellB r i) off) v) x = index_region m x"
    "index_region (ptrStore32 m (fieldAt (cellB r i) off) w) x = index_region m x"
    by (simp_all add: index_region_def loads_store_apart)
qed

lemma copy_frame:
  assumes "shard_geom r x" "i < rcap r" "length src \<le> unat (r_payloadCap r)"
  shows "index_region (fst (copyIntoPayload m (cellB r i) src)) x = index_region m x"
proof (cases "src = []")
  case False
  have "unat (r_payloadCap r) + 64 \<le> unat (r_stride r)"
    using assms(1) cellStrideFor_bounds(1) [of "r_payloadCap r"] by (simp add: shard_geom_def ring_geom_def)
  with assms(3) False have "apart (cellB r i + of_nat 64) (length src) (x_base x) (xcap x * 32)"
    by (intro cell_index_apart [OF assms(1,2)]) auto
  with False show ?thesis
    by (simp add: copyIntoPayload_def index_region_def load_store_apart payloadAt_def HeaderSize_def)
qed (simp add: copyIntoPayload_def)

lemma publish_frame:
  assumes "shard_geom r x" "length payload \<le> unat (r_payloadCap r)"
  shows "index_region (fst (publish_stores m r pos ticket key ts flags payload checksum)) x = index_region m x"
  using assms shard_geomD(1) [OF assms(1)]
  by (simp add: publish_stores_def Let_def case_prod_beta cell_cellB cell_store_frame copy_frame)

lemma release_frame:
  "shard_geom r x \<Longrightarrow> index_region (release m r pos) x = index_region m x"
  using shard_geomD(1) by (simp add: release_def cell_cellB cell_store_frame)

lemma bucket_store_frame:
  assumes g: "shard_geom r x" and i: "i < xcap x" and off: "unat off + 8 \<le> 32"
  shows "ring_region (ptrStore64 m (fieldAt (bucketB x i) off) v) r = ring_region m r"
proof -
  let ?n = "rcap r * unat (r_stride r)"
  have "0 < rcap r" "64 \<le> unat (r_stride r)"
    using g ring_geom_pos cellStrideFor_bounds(1) [of "r_payloadCap r"]
    by (auto simp: shard_geom_def ring_geom_def)
  then have "0 < ?n" by simp
  have "fieldAt (bucketB x i) off = r_base r + of_nat (?n + (i * 32 + unat off))"
    using g by (simp add: field_bucketB shard_geom_def)
  moreover have "apart (r_base r + of_nat (?n + (i * 32 + unat off))) 8 (r_base r + of_nat 0) ?n"
    using g i off \<open>0 < ?n\<close> by (intro apart_offsets(2)) (auto simp: shard_geom_def)
  ultimately show ?thesis by (simp add: ring_region_def loads_store_apart(5))
qed

end
