(* ===== verification/IndexInv.thy ===== *)
theory IndexInv
  imports Buckets
begin

text \<open>
  The key index as a finite map. The table invariant is the one of linear probing without
  deletion: keys are distinct, and every key sits within \<^verbatim>\<open>maxProbe\<close> steps of its home bucket
  with no empty bucket in between. \<open>idx_map\<close> reads the table as a partial map from keys to
  (ticket, slot) hints; \<^verbatim>\<open>upsert\<close> and \<^verbatim>\<open>lookup\<close> are characterised on that map.
\<close>

section \<open>Probe sequences\<close>

definition probe_ix :: "keyIndex \<Rightarrow> u64 \<Rightarrow> nat \<Rightarrow> nat" where
  "probe_ix x key p = (unat (hashKey key) + p) mod xcap x"

lemma index_geom_pos: "index_geom x \<Longrightarrow> 0 < xcap x"
  by (auto simp: index_geom_def isPow2_def unat_gt_0)

lemma probe_ix_less [simp]: "index_geom x \<Longrightarrow> probe_ix x key p < xcap x"
  by (simp add: probe_ix_def index_geom_pos)

lemma probeBucket_view:
  assumes "index_geom x"
  shows "probeBucket x (hashKey key AND x_mask x) p = bucketB x (probe_ix x key p)"
proof -
  from assms obtain k where k: "k < 64" "x_buckets x = 2 ^ k"
    by (auto simp: index_geom_def isPow2_iff)
  then have n: "xcap x = 2 ^ k" by (simp add: unat_pow2)
  have msk: "unat (w AND x_mask x) = unat w mod 2 ^ k" for w
    using assms k by (simp add: index_geom_def and_mask_mod)
  have "(2::nat) ^ k dvd 2 ^ 64" using k by (intro le_imp_power_dvd) simp
  then have "unat (a + of_nat p :: u64) mod 2 ^ k = (unat a + p) mod 2 ^ k" for a
    by (simp add: unat_word_ariths unat_of_nat mod_mod_cancel mod_simps)
  then have "unat ((hashKey key AND x_mask x) + of_nat p AND x_mask x) = probe_ix x key p"
    by (simp add: msk probe_ix_def n mod_simps)
  then have "(hashKey key AND x_mask x) + of_nat p AND x_mask x = of_nat (probe_ix x key p)"
    by (metis of_nat_unat ucast_id)
  then show ?thesis by (simp add: probeBucket_def bucket_def bucketB_def)
qed

section \<open>The operations on views\<close>

text \<open>The key stored in the bucket that probe \<open>p\<close> of \<open>key\<close> visits.\<close>

definition probe_key :: "mem \<Rightarrow> keyIndex \<Rightarrow> u64 \<Rightarrow> nat \<Rightarrow> u64" where
  "probe_key m x key p = bv_key (read_bucket m x (probe_ix x key p))"

definition entry_dead :: "mem \<Rightarrow> ring \<Rightarrow> bucketv \<Rightarrow> bool" where
  "entry_dead m r v \<longleftrightarrow> (if bv_slot v < r_capacity r
     then cv_key (read_cell m r (unat (bv_slot v))) \<noteq> bv_key v else True)"

definition set_bucket :: "mem \<Rightarrow> u64 \<Rightarrow> u64 \<Rightarrow> u64 \<Rightarrow> u64 \<Rightarrow> mem" where
  "set_bucket m b key ticket slot =
     ptrStore64 (ptrStore64 (ptrStore64 m (fieldAt b offIdxKey) key) (fieldAt b offIdxSlot) slot)
       (fieldAt b offIdxTicket) ticket"

definition bump_bucket :: "mem \<Rightarrow> u64 \<Rightarrow> u64 \<Rightarrow> u64 \<Rightarrow> mem" where
  "bump_bucket m b ticket slot =
     ptrStore64 (ptrStore64 m (fieldAt b offIdxTicket) ticket) (fieldAt b offIdxSlot) slot"

lemma updateMonotonic_eq:
  "updateMonotonic m b ticket slot =
     (if ptrLoad64 m (fieldAt b offIdxTicket) \<ge> ticket then m else bump_bucket m b ticket slot)"
  by (subst updateMonotonic.simps) (simp add: Let_def ptrCAS64_def bump_bucket_def)

lemma isDead_view:
  assumes "ring_geom r"
  shows "isDead m (bucketB x i) (bv_key (read_bucket m x i)) r \<longleftrightarrow> entry_dead m r (read_bucket m x i)"
proof -
  have "cellAt (r_base r) s (r_stride r) = cellB r (unat s)" for s
    by (simp add: cellB_def)
  then show ?thesis
    by (auto simp: isDead_def Let_def entry_dead_def read_bucket_loads read_cell_loads)
qed

lemma pass1_view:
  assumes "index_geom x" "key \<noteq> 0"
  shows "upsert_pass1 ps m x (hashKey key AND x_mask x) key ticket slot =
    (case find (\<lambda>p. probe_key m x key p \<in> {0, key}) ps of
       None \<Rightarrow> None
     | Some p \<Rightarrow>
         let b = bucketB x (probe_ix x key p) in
         if probe_key m x key p = 0
         then Some (set_bucket m b key ticket slot, add_collides (x\<lparr>x_live := x_live x + 1\<rparr>) p)
         else Some (updateMonotonic m b ticket slot, add_collides x p))"
proof (induction ps)
  case (Cons p ps)
  then show ?case
    using assms
    by (simp add: probeBucket_view read_bucket_loads probe_key_def Let_def ptrCAS64_def set_bucket_def
        atomicAdd64_def)
qed simp

lemma pass2_view:
  assumes "index_geom x" "ring_geom r" "\<forall>p\<in>set ps. probe_key m x key p \<notin> {0, key}"
  shows "upsert_pass2 ps m x (hashKey key AND x_mask x) key ticket slot r =
    (case find (\<lambda>p. entry_dead m r (read_bucket m x (probe_ix x key p))) ps of
       None \<Rightarrow> Exhausted m
     | Some p \<Rightarrow> Reclaimed (set_bucket m (bucketB x (probe_ix x key p)) key ticket slot)
                   (x\<lparr>x_reclaims := x_reclaims x + 1\<rparr>))"
  using assms(3)
proof (induction ps)
  case (Cons p ps)
  then show ?case
    using assms(1,2)
    by (simp add: probeBucket_view read_bucket_loads isDead_view probe_key_def Let_def ptrCAS64_def
        set_bucket_def atomicAdd64_def)
qed simp

text \<open>A lone \<^verbatim>\<open>upsert\<close> never retries: it updates its key, takes the first empty bucket,
  recycles the first dead one, or gives up.\<close>

lemma upsert_view:
  assumes "index_geom x" "ring_geom r" "key \<noteq> 0"
  shows "upsert m x key ticket slot r =
    (case find (\<lambda>p. probe_key m x key p \<in> {0, key}) [0..<maxProbe] of
       Some p \<Rightarrow>
         let b = bucketB x (probe_ix x key p) in
         if probe_key m x key p = 0
         then (set_bucket m b key ticket slot, add_collides (x\<lparr>x_live := x_live x + 1\<rparr>) p, None)
         else (updateMonotonic m b ticket slot, add_collides x p, None)
     | None \<Rightarrow>
         (case find (\<lambda>p. entry_dead m r (read_bucket m x (probe_ix x key p))) [0..<maxProbe] of
            Some p \<Rightarrow> (set_bucket m (bucketB x (probe_ix x key p)) key ticket slot,
                       x\<lparr>x_reclaims := x_reclaims x + 1\<rparr>, None)
          | None \<Rightarrow> (m, x\<lparr>x_overflows := x_overflows x + 1\<rparr>, Some ErrIndexFull)))"
proof (cases "find (\<lambda>p. probe_key m x key p \<in> {0, key}) [0..<maxProbe]")
  case None
  then have "\<forall>p\<in>set [0..<maxProbe]. probe_key m x key p \<notin> {0, key}"
    unfolding find_None_iff by blast
  from pass2_view [OF assms(1,2) this] None assms show ?thesis
    by (simp add: upsert_def numeral_2_eq_2 pass1_view atomicAdd64_def split: option.split)
next
  case (Some p)
  with assms show ?thesis
    by (simp add: upsert_def numeral_2_eq_2 pass1_view Let_def)
qed

lemma lookup_probes_view:
  assumes "index_geom x" "key \<noteq> 0"
  shows "lookup_probes ps m x (hashKey key AND x_mask x) key r rec =
    (case find (\<lambda>p. probe_key m x key p \<in> {0, key}) ps of
       None \<Rightarrow> Inl ErrNotFound
     | Some p \<Rightarrow> if probe_key m x key p = 0 then Inl ErrNotFound
                 else lookup_bucket m (bucketB x (probe_ix x key p)) key r rec)"
proof (induction ps)
  case (Cons p ps)
  then show ?case
    using assms by (simp add: probeBucket_view read_bucket_loads probe_key_def Let_def)
qed simp

section \<open>The table invariant and the map it represents\<close>

abbreviation bkey :: "mem \<Rightarrow> keyIndex \<Rightarrow> nat \<Rightarrow> u64" where
  "bkey m x i \<equiv> bv_key (read_bucket m x i)"

definition hint :: "bucketv \<Rightarrow> u64 \<times> u64" where
  "hint v = (bv_ticket v, bv_slot v)"

definition index_inv :: "mem \<Rightarrow> keyIndex \<Rightarrow> bool" where
  "index_inv m x \<longleftrightarrow> index_geom x \<and>
     (\<forall>i<xcap x. \<forall>j<xcap x. bkey m x i = bkey m x j \<longrightarrow> bkey m x i \<noteq> 0 \<longrightarrow> i = j) \<and>
     (\<forall>i<xcap x. bkey m x i \<noteq> 0 \<longrightarrow> (\<exists>p<maxProbe. probe_ix x (bkey m x i) p = i \<and>
        (\<forall>q<p. probe_key m x (bkey m x i) q \<noteq> 0)))"

definition idx_map :: "mem \<Rightarrow> keyIndex \<Rightarrow> u64 \<Rightarrow> (u64 \<times> u64) option" where
  "idx_map m x key =
     (if key = 0 then None
      else map_option (\<lambda>i. hint (read_bucket m x i)) (find (\<lambda>i. bkey m x i = key) [0..<xcap x]))"

definition occupied :: "mem \<Rightarrow> keyIndex \<Rightarrow> nat" where
  "occupied m x = card {i. i < xcap x \<and> bkey m x i \<noteq> 0}"

lemma index_invD:
  assumes "index_inv m x"
  shows "index_geom x"
    "\<And>i j. i < xcap x \<Longrightarrow> j < xcap x \<Longrightarrow> bkey m x i = bkey m x j \<Longrightarrow> bkey m x i \<noteq> 0 \<Longrightarrow> i = j"
    "\<And>i. i < xcap x \<Longrightarrow> bkey m x i \<noteq> 0 \<Longrightarrow> \<exists>p<maxProbe. probe_ix x (bkey m x i) p = i \<and>
        (\<forall>q<p. probe_key m x (bkey m x i) q \<noteq> 0)"
  using assms unfolding index_inv_def by blast+

lemma idx_map_at:
  assumes "index_inv m x" "i < xcap x" "bkey m x i = key" "key \<noteq> 0"
  shows "idx_map m x key = Some (hint (read_bucket m x i))"
proof (cases "find (\<lambda>i. bkey m x i = key) [0..<xcap x]")
  case None
  then show ?thesis using assms by (simp add: find_None_iff)
next
  case (Some j)
  then have "j < xcap x" "bkey m x j = key" by (auto simp: find_Some_iff)
  then have "j = i" using index_invD(2) [OF assms(1), of j i] assms by simp
  with Some assms show ?thesis by (simp add: idx_map_def)
qed

lemma idx_map_None:
  "idx_map m x key = None \<longleftrightarrow> key = 0 \<or> (\<forall>i<xcap x. bkey m x i \<noteq> key)"
  by (auto simp: idx_map_def find_None_iff)

lemma idx_map_SomeE:
  assumes "idx_map m x key = Some h"
  obtains i where "i < xcap x" "bkey m x i = key" "key \<noteq> 0" "h = hint (read_bucket m x i)"
  using assms that by (auto simp: idx_map_def find_Some_iff split: if_splits)

lemma idx_map_iff:
  assumes "index_inv m x"
  shows "idx_map m x key = Some h \<longleftrightarrow>
    key \<noteq> 0 \<and> (\<exists>i<xcap x. bkey m x i = key \<and> hint (read_bucket m x i) = h)"
  using idx_map_at [OF assms] by (metis idx_map_SomeE option.inject)

text \<open>The first probe that meets the key or an empty bucket decides whether the key is there.\<close>

lemma find_upt_SomeD:
  assumes "find P [0..<n] = Some p"
  shows "p < n" "P p" "\<And>q. q < p \<Longrightarrow> \<not> P q"
  using assms by (auto simp: find_Some_iff)

lemma probe_present:
  assumes inv: "index_inv m x" and "idx_map m x key = Some h"
  obtains p where "find (\<lambda>p. probe_key m x key p \<in> {0, key}) [0..<maxProbe] = Some p"
    "probe_key m x key p = key" "h = hint (read_bucket m x (probe_ix x key p))"
proof -
  from assms(2) obtain i where i: "i < xcap x" "bkey m x i = key" "key \<noteq> 0" "h = hint (read_bucket m x i)"
    by (rule idx_map_SomeE)
  obtain p0 where p0: "p0 < maxProbe" "probe_ix x key p0 = i" "\<forall>q<p0. probe_key m x key q \<noteq> 0"
    using index_invD(3) [OF inv i(1)] i(2,3) by auto
  then have hit: "probe_key m x key p0 = key" using i(2) by (simp add: probe_key_def)
  then obtain p where p: "find (\<lambda>p. probe_key m x key p \<in> {0, key}) [0..<maxProbe] = Some p"
    using p0(1) by (cases "find (\<lambda>p. probe_key m x key p \<in> {0, key}) [0..<maxProbe]")
      (auto simp: find_None_iff)
  note P = find_upt_SomeD [OF p]
  have "\<not> p0 < p" using P(3) hit by blast
  then have "probe_key m x key p = key" using P(2) p0(3) hit by (cases "p = p0") auto
  moreover have "probe_ix x key p = i"
    using calculation index_invD(1,2) [OF inv] i by (simp add: probe_key_def)
  ultimately show thesis using that p i(4) by blast
qed

lemma probe_absent:
  assumes inv: "index_inv m x" and "idx_map m x key = None" "key \<noteq> 0"
    and "find (\<lambda>p. probe_key m x key p \<in> {0, key}) [0..<maxProbe] = Some p"
  shows "probe_key m x key p = 0"
  using find_upt_SomeD(2) [OF assms(4)] assms(2,3) index_invD(1) [OF inv]
  by (auto simp: idx_map_None probe_key_def)

lemma probe_find_map:
  assumes "index_inv m x" "find (\<lambda>p. probe_key m x key p \<in> {0, key}) [0..<maxProbe] = Some p"
    "probe_key m x key p \<noteq> 0"
  shows "idx_map m x key = Some (hint (read_bucket m x (probe_ix x key p)))" "probe_key m x key p = key"
proof -
  show k: "probe_key m x key p = key" using find_upt_SomeD(2) [OF assms(2)] assms(3) by simp
  then show "idx_map m x key = Some (hint (read_bucket m x (probe_ix x key p)))"
    using idx_map_at [OF assms(1)] index_invD(1) [OF assms(1)] assms(3) by (simp add: probe_key_def)
qed

section \<open>Writing a bucket\<close>

lemma set_bucket_view:
  assumes "index_geom x" "i < xcap x" "j < xcap x"
  shows "read_bucket (set_bucket m (bucketB x i) key ticket slot) x j =
    (if j = i then \<lparr>bv_key = key, bv_ticket = ticket, bv_slot = slot\<rparr> else read_bucket m x j)"
  using assms by (simp add: set_bucket_def mem_simps)

lemma bump_bucket_view:
  assumes "index_geom x" "i < xcap x" "j < xcap x"
  shows "read_bucket (bump_bucket m (bucketB x i) ticket slot) x j =
    (if j = i then \<lparr>bv_key = bkey m x i, bv_ticket = ticket, bv_slot = slot\<rparr> else read_bucket m x j)"
  using assms by (simp add: bump_bucket_def mem_simps)

lemma set_bucket_frame:
  "shard_geom r x \<Longrightarrow> i < xcap x \<Longrightarrow> ring_region (set_bucket m (bucketB x i) key ticket slot) r = ring_region m r"
  by (simp add: set_bucket_def bucket_store_frame)

lemma bump_bucket_frame:
  "shard_geom r x \<Longrightarrow> i < xcap x \<Longrightarrow> ring_region (bump_bucket m (bucketB x i) ticket slot) r = ring_region m r"
  by (simp add: bump_bucket_def bucket_store_frame)

text \<open>Replacing the entry of one bucket of the probe sequence of an absent key.\<close>

lemma set_bucket_inv:
  fixes ticket slot :: u64
  assumes inv: "index_inv m x" and absent: "idx_map m x key = None" "key \<noteq> 0"
    and p: "p < maxProbe" "\<And>q. q < p \<Longrightarrow> probe_key m x key q \<noteq> 0"
  defines "i \<equiv> probe_ix x key p"
  defines "m' \<equiv> set_bucket m (bucketB x i) key ticket slot"
  shows "index_inv m' x"
    and "idx_map m' x = (idx_map m x)(bkey m x i := None, key \<mapsto> (ticket, slot))"
proof -
  note I = index_invD [OF inv]
  have i: "i < xcap x" using I(1) by (simp add: i_def)
  note view = set_bucket_view [OF I(1) i, where m = m and key = key and ticket = ticket and slot = slot,
      folded m'_def]
  have nokey: "bkey m x j \<noteq> key" if "j < xcap x" for j using absent that by (auto simp: idx_map_None)
  have grow: "probe_key m' x k q \<noteq> 0" if "probe_key m x k q \<noteq> 0" for k q
    using that I(1) absent(2) by (simp add: probe_key_def view)
  have distinct: "j = k" if "j < xcap x" "k < xcap x" "bkey m' x j = bkey m' x k" "bkey m' x j \<noteq> 0" for j k
    using that nokey I(2) by (auto simp: view split: if_splits)
  have reach: "\<exists>p<maxProbe. probe_ix x (bkey m' x j) p = j \<and> (\<forall>q<p. probe_key m' x (bkey m' x j) q \<noteq> 0)"
    if j: "j < xcap x" "bkey m' x j \<noteq> 0" for j
  proof (cases "j = i")
    case True
    then show ?thesis using p grow i by (auto simp: view i_def)
  next
    case False
    then have "bkey m' x j = bkey m x j" using j by (simp add: view)
    then show ?thesis using I(3) [OF j(1)] j(2) grow by metis
  qed
  show inv': "index_inv m' x" unfolding index_inv_def using I(1) distinct reach by blast
  have "idx_map m' x k = Some h \<longleftrightarrow>
      ((idx_map m x)(bkey m x i := None, key \<mapsto> (ticket, slot))) k = Some h" for k h
  proof (cases "k = key")
    case True
    have "bkey m' x i = key" using i by (simp add: view)
    from idx_map_at [OF inv' i this absent(2)] show ?thesis using True i by (simp add: view hint_def)
  next
    case False
    have "(\<exists>j<xcap x. bkey m' x j = k \<and> hint (read_bucket m' x j) = h) \<longleftrightarrow>
        (\<exists>j<xcap x. j \<noteq> i \<and> bkey m x j = k \<and> hint (read_bucket m x j) = h)"
      using False view by auto
    moreover have "j \<noteq> i" if "j < xcap x" "bkey m x j = k" "k \<noteq> bkey m x i" for j using that by auto
    moreover have "j = i" if "j < xcap x" "bkey m x j = k" "k = bkey m x i" "k \<noteq> 0" for j
      using that I(2) [of j i] i by simp
    ultimately show ?thesis
      using False idx_map_iff [OF inv', of k h] idx_map_iff [OF inv, of k h] by auto
  qed
  then show "idx_map m' x = (idx_map m x)(bkey m x i := None, key \<mapsto> (ticket, slot))"
    by (rule map_eqI)
qed

lemma bump_bucket_inv:
  fixes ticket slot :: u64
  assumes inv: "index_inv m x" and i: "i < xcap x" and key: "bkey m x i = key" "key \<noteq> 0"
  defines "m' \<equiv> bump_bucket m (bucketB x i) ticket slot"
  shows "index_inv m' x" and "idx_map m' x = (idx_map m x)(key \<mapsto> (ticket, slot))"
proof -
  note I = index_invD [OF inv]
  note view = bump_bucket_view [OF I(1) i, where m = m and ticket = ticket and slot = slot, folded m'_def]
  have same: "bkey m' x j = bkey m x j" if "j < xcap x" for j using that by (simp add: view)
  have pk: "probe_key m' x k q = probe_key m x k q" for k q using I(1) by (simp add: probe_key_def same)
  show inv': "index_inv m' x"
    unfolding index_inv_def pk using inv same by (simp add: index_inv_def)
  show "idx_map m' x = (idx_map m x)(key \<mapsto> (ticket, slot))"
  proof
    fix k
    show "idx_map m' x k = ((idx_map m x)(key \<mapsto> (ticket, slot))) k"
    proof (cases "k = key")
      case True
      then show ?thesis using idx_map_at [OF inv' i] key i by (simp add: view hint_def)
    next
      case False
      have "find (\<lambda>j. bkey m' x j = k) [0..<xcap x] = find (\<lambda>j. bkey m x j = k) [0..<xcap x]"
        by (rule find_cong) (simp_all add: same)
      moreover have "hint (read_bucket m' x j) = hint (read_bucket m x j)"
        if "find (\<lambda>j. bkey m x j = k) [0..<xcap x] = Some j" for j
        using find_upt_SomeD [OF that] False key by (auto simp: view)
      ultimately show ?thesis
        using False by (cases "find (\<lambda>j. bkey m x j = k) [0..<xcap x]") (simp_all add: idx_map_def)
    qed
  qed
qed

lemma occupied_set:
  assumes "index_geom x" "i < xcap x" "key \<noteq> 0"
  shows "occupied (set_bucket m (bucketB x i) key ticket slot) x =
    (if bkey m x i = 0 then occupied m x + 1 else occupied m x)"
proof -
  let ?A = "{j. j < xcap x \<and> bkey m x j \<noteq> 0}"
  have "{j. j < xcap x \<and> bkey (set_bucket m (bucketB x i) key ticket slot) x j \<noteq> 0} = insert i ?A"
    using assms by (auto simp: set_bucket_view split: if_splits)
  moreover have "finite ?A" by simp
  ultimately show ?thesis
    using assms(2) by (simp add: occupied_def insert_absorb card_insert_if)
qed

lemma occupied_bump:
  assumes "index_geom x" "i < xcap x"
  shows "occupied (bump_bucket m (bucketB x i) ticket slot) x = occupied m x"
  unfolding occupied_def
  by (rule arg_cong [where f = card]) (use assms in \<open>auto simp: bump_bucket_view split: if_splits\<close>)

end
