(* ===== verification/HintTable.thy ===== *)
theory HintTable
  imports Prelude
begin

text \<open>
  The contract between the engine and its key index. The index is a hint: a put may lose the
  entry of any key, its own included, but it never invents one, and it never lets an older
  stamp replace a newer one. \<open>env\<close> is what the rest of the shard does between two puts. The
  client lemma is what a lookup rests on: a hint, when there is one, is the newest one given.
\<close>

text \<open>Every hint is the newest entry of its key in the log, which is kept newest first.\<close>

definition hints_newest :: "('k \<rightharpoonup> 'v) \<Rightarrow> ('k \<times> 'v) list \<Rightarrow> bool" where
  "hints_newest M log \<longleftrightarrow> (\<forall>k v. M k = Some v \<longrightarrow> map_of log k = Some v)"

locale hint_table =
  fixes inv :: "'s \<Rightarrow> bool"
    and hints :: "'s \<Rightarrow> 'k \<rightharpoonup> 'v"
    and stamp :: "'v \<Rightarrow> nat"
    and put :: "'s \<Rightarrow> 'k \<Rightarrow> 'v \<Rightarrow> 's"
    and env :: "'s \<Rightarrow> 's \<Rightarrow> bool"
  assumes put_inv: "inv s \<Longrightarrow> inv (put s k v)"
    and put_self: "inv s \<Longrightarrow> (\<And>w. hints s k = Some w \<Longrightarrow> stamp w < stamp v) \<Longrightarrow>
      hints (put s k v) k = None \<or> hints (put s k v) k = Some v"
    and put_other: "inv s \<Longrightarrow> k' \<noteq> k \<Longrightarrow>
      hints (put s k v) k' = None \<or> hints (put s k v) k' = hints s k'"
    and env_inv: "inv s \<Longrightarrow> env s s' \<Longrightarrow> inv s'"
    and env_hints: "inv s \<Longrightarrow> env s s' \<Longrightarrow> hints s' = hints s"
begin

lemma put_newest:
  assumes "inv s" "hints_newest (hints s) log" "\<And>k' w. (k', w) \<in> set log \<Longrightarrow> stamp w < stamp v"
  shows "hints_newest (hints (put s k v)) ((k, v) # log)"
proof -
  have old: "stamp w < stamp v" if "hints s k = Some w" for w
    using assms(2,3) that by (metis hints_newest_def map_of_SomeD)
  have "map_of ((k, v) # log) k' = Some w" if w: "hints (put s k v) k' = Some w" for k' w
  proof (cases "k' = k")
    case True
    then show ?thesis using put_self [of s k v, OF assms(1) old] w by auto
  next
    case False
    then have "hints s k' = Some w" using put_other [OF assms(1) False, of v] w by simp
    then show ?thesis using assms(2) False by (simp add: hints_newest_def)
  qed
  then show ?thesis by (simp add: hints_newest_def)
qed

lemma env_newest: "inv s \<Longrightarrow> env s s' \<Longrightarrow> hints_newest (hints s) log \<Longrightarrow> hints_newest (hints s') log"
  by (simp add: env_hints)

end

end
