(* ===== verification/IndexProps.thy ===== *)
theory IndexProps
  imports IndexInv HintTable
begin

text \<open>
  The index against its contract: \<^verbatim>\<open>upsert\<close> refines an abstract update of a partial map,
  \<^verbatim>\<open>lookup\<close> is a read of that map checked against the cell it points at, and together they are
  the hint table the engine relies on.
\<close>

section \<open>Counters do not matter to the table\<close>

lemma read_bucket_counters [simp]:
  "read_bucket m (x\<lparr>x_live := v\<rparr>) = read_bucket m x"
  "read_bucket m (x\<lparr>x_collides := v\<rparr>) = read_bucket m x"
  "read_bucket m (x\<lparr>x_overflows := v\<rparr>) = read_bucket m x"
  "read_bucket m (x\<lparr>x_reclaims := v\<rparr>) = read_bucket m x"
  by (simp_all add: read_bucket_def bucketB_def fun_eq_iff)

lemma index_inv_counters [simp]:
  "index_inv m (x\<lparr>x_live := v\<rparr>) = index_inv m x"
  "index_inv m (x\<lparr>x_collides := v\<rparr>) = index_inv m x"
  "index_inv m (x\<lparr>x_overflows := v\<rparr>) = index_inv m x"
  "index_inv m (x\<lparr>x_reclaims := v\<rparr>) = index_inv m x"
  by (simp_all add: index_inv_def index_geom_def probe_key_def probe_ix_def)

lemma idx_map_counters [simp]:
  "idx_map m (x\<lparr>x_live := v\<rparr>) = idx_map m x"
  "idx_map m (x\<lparr>x_collides := v\<rparr>) = idx_map m x"
  "idx_map m (x\<lparr>x_overflows := v\<rparr>) = idx_map m x"
  "idx_map m (x\<lparr>x_reclaims := v\<rparr>) = idx_map m x"
  by (simp_all add: idx_map_def fun_eq_iff)

lemma occupied_counters [simp]:
  "occupied m (x\<lparr>x_live := v\<rparr>) = occupied m x"
  "occupied m (x\<lparr>x_collides := v\<rparr>) = occupied m x"
  "occupied m (x\<lparr>x_overflows := v\<rparr>) = occupied m x"
  "occupied m (x\<lparr>x_reclaims := v\<rparr>) = occupied m x"
  by (simp_all add: occupied_def)

lemma add_collides_facts [simp]:
  "index_inv m (add_collides x p) = index_inv m x" "idx_map m (add_collides x p) = idx_map m x"
  "occupied m (add_collides x p) = occupied m x" "x_live (add_collides x p) = x_live x"
  "x_base (add_collides x p) = x_base x" "x_buckets (add_collides x p) = x_buckets x"
  "x_mask (add_collides x p) = x_mask x"
  by (simp_all add: add_collides_def)

definition same_table :: "keyIndex \<Rightarrow> keyIndex \<Rightarrow> bool" where
  "same_table x x' \<longleftrightarrow> x_base x' = x_base x \<and> x_buckets x' = x_buckets x \<and> x_mask x' = x_mask x"

lemma same_table_geom: "same_table x x' \<Longrightarrow> shard_geom r x' = shard_geom r x"
  by (simp add: same_table_def shard_geom_def index_geom_def)

section \<open>Updates\<close>

text \<open>A hint is stale when the cell it names no longer holds its key.\<close>

definition stale :: "mem \<Rightarrow> ring \<Rightarrow> u64 \<Rightarrow> u64 \<times> u64 \<Rightarrow> bool" where
  "stale m r k h \<longleftrightarrow> entry_dead m r \<lparr>bv_key = k, bv_ticket = fst h, bv_slot = snd h\<rparr>"

inductive index_upd :: "(u64 \<Rightarrow> u64 \<times> u64 \<Rightarrow> bool) \<Rightarrow> (u64 \<rightharpoonup> u64 \<times> u64) \<Rightarrow> u64 \<Rightarrow> u64 \<Rightarrow> u64 \<Rightarrow>
    (u64 \<rightharpoonup> u64 \<times> u64) \<Rightarrow> error option \<Rightarrow> bool" for dead M where
  reserved: "index_upd dead M 0 t s M (Some ErrConfig)"
| newer: "M k = Some (t0, s0) \<Longrightarrow> t0 < t \<Longrightarrow> index_upd dead M k t s (M(k \<mapsto> (t, s))) None"
| older: "M k = Some (t0, s0) \<Longrightarrow> t \<le> t0 \<Longrightarrow> index_upd dead M k t s M None"
| fresh: "k \<noteq> 0 \<Longrightarrow> M k = None \<Longrightarrow> index_upd dead M k t s (M(k \<mapsto> (t, s))) None"
| reclaim: "k \<noteq> 0 \<Longrightarrow> M k = None \<Longrightarrow> M d = Some h \<Longrightarrow> dead d h \<Longrightarrow>
    index_upd dead M k t s (M(d := None, k \<mapsto> (t, s))) None"
| full: "k \<noteq> 0 \<Longrightarrow> M k = None \<Longrightarrow> index_upd dead M k t s M (Some ErrIndexFull)"

inductive_cases index_updE: "index_upd dead M k t s M' e"

text \<open>What one \<^verbatim>\<open>upsert\<close> establishes, gathered once for the properties below.\<close>

definition upsert_post :: "mem \<Rightarrow> keyIndex \<Rightarrow> ring \<Rightarrow> u64 \<Rightarrow> u64 \<Rightarrow> u64 \<Rightarrow> mem \<times> keyIndex \<times> error option \<Rightarrow> bool" where
  "upsert_post m x r key ticket slot res = (case res of (m', x', e) \<Rightarrow>
     index_inv m' x' \<and> same_table x x' \<and> ring_region m' r = ring_region m r \<and>
     index_upd (stale m r) (idx_map m x) key ticket slot (idx_map m' x') e \<and>
     (x_live x = of_nat (occupied m x) \<longrightarrow> x_live x' = of_nat (occupied m' x')))"

lemma upsert_post_update:
  assumes inv: "index_inv m x" and g: "shard_geom r x" and i: "i < xcap x"
    and key: "bkey m x i = key" "key \<noteq> 0"
  shows "upsert_post m x r key ticket slot (updateMonotonic m (bucketB x i) ticket slot, add_collides x p, None)"
proof -
  have old: "idx_map m x key = Some (bv_ticket (read_bucket m x i), bv_slot (read_bucket m x i))"
    using idx_map_at [OF inv i key] by (simp add: hint_def)
  show ?thesis
  proof (cases "bv_ticket (read_bucket m x i) \<ge> ticket")
    case True
    then show ?thesis
      using inv old index_upd.older [where M = "idx_map m x", OF old True]
      by (simp add: upsert_post_def updateMonotonic_eq read_bucket_loads same_table_def)
  next
    case False
    then have lt: "bv_ticket (read_bucket m x i) < ticket" by simp
    then show ?thesis
      using False bump_bucket_inv [OF inv i key, of ticket slot] bump_bucket_frame [OF g i] occupied_bump [OF _ i]
        shard_geomD(2) [OF g] index_upd.newer [where M = "idx_map m x", OF old lt]
      by (simp add: upsert_post_def updateMonotonic_eq read_bucket_loads same_table_def)
  qed
qed

lemma upsert_post_insert:
  assumes inv: "index_inv m x" and g: "shard_geom r x" and absent: "idx_map m x key = None" "key \<noteq> 0"
    and p: "p < maxProbe" "\<And>q. q < p \<Longrightarrow> probe_key m x key q \<noteq> 0" "probe_key m x key p = 0"
  shows "upsert_post m x r key ticket slot (set_bucket m (bucketB x (probe_ix x key p)) key ticket slot,
     add_collides (x\<lparr>x_live := x_live x + 1\<rparr>) p, None)"
proof -
  have i: "probe_ix x key p < xcap x" using shard_geomD(2) [OF g] by simp
  have "(idx_map m x)(0 := None) = idx_map m x" by (simp add: idx_map_def fun_eq_iff)
  then show ?thesis
    using set_bucket_inv [OF inv absent p(1,2), of ticket slot] set_bucket_frame [OF g i]
      occupied_set [OF shard_geomD(2) [OF g] i absent(2)] p(3) index_upd.fresh [where M = "idx_map m x", OF absent(2,1)]
    by (simp add: upsert_post_def probe_key_def same_table_def add.commute)
qed

lemma upsert_post_reclaim:
  assumes inv: "index_inv m x" and g: "shard_geom r x" and absent: "idx_map m x key = None" "key \<noteq> 0"
    and p: "p < maxProbe" "\<And>q. q < maxProbe \<Longrightarrow> probe_key m x key q \<noteq> 0"
    and dead: "entry_dead m r (read_bucket m x (probe_ix x key p))"
  shows "upsert_post m x r key ticket slot (set_bucket m (bucketB x (probe_ix x key p)) key ticket slot,
     x\<lparr>x_reclaims := x_reclaims x + 1\<rparr>, None)"
proof -
  let ?v = "read_bucket m x (probe_ix x key p)"
  have i: "probe_ix x key p < xcap x" using shard_geomD(2) [OF g] by simp
  have nz: "bv_key ?v \<noteq> 0" using p by (simp add: probe_key_def)
  then have "idx_map m x (bv_key ?v) = Some (hint ?v)" using idx_map_at [OF inv i] by simp
  moreover have "stale m r (bv_key ?v) (hint ?v)" using dead by (simp add: stale_def hint_def entry_dead_def)
  ultimately have "index_upd (stale m r) (idx_map m x) key ticket slot
      ((idx_map m x)(bv_key ?v := None, key \<mapsto> (ticket, slot))) None"
    by (rule index_upd.reclaim [where M = "idx_map m x", OF absent(2,1)])
  then show ?thesis
    using set_bucket_inv [OF inv absent p(1), of ticket slot] p set_bucket_frame [OF g i]
      occupied_set [OF shard_geomD(2) [OF g] i absent(2)] nz
    by (simp add: upsert_post_def same_table_def)
qed

lemma upsert_correct:
  assumes inv: "index_inv m x" and g: "shard_geom r x"
  shows "upsert_post m x r key ticket slot (upsert m x key ticket slot r)"
proof (cases "key = 0")
  case True
  then show ?thesis
    using inv by (simp add: upsert_def upsert_post_def same_table_def index_upd.reserved)
next
  case nz: False
  note view = upsert_view [OF shard_geomD(2) [OF g] shard_geomD(1) [OF g] nz, of m ticket slot]
  show ?thesis
  proof (cases "find (\<lambda>p. probe_key m x key p \<in> {0, key}) [0..<maxProbe]")
    case (Some p)
    note P = find_upt_SomeD [OF Some]
    show ?thesis
    proof (cases "probe_key m x key p = 0")
      case True
      have "idx_map m x key = None"
      proof (rule ccontr)
        assume "idx_map m x key \<noteq> None"
        then obtain h where "idx_map m x key = Some h" by blast
        from probe_present [OF inv this] Some True nz show False by auto
      qed
      from upsert_post_insert [OF inv g this nz P(1) _ True] P(3) show ?thesis
        using Some True view by simp
    next
      case False
      then have "bkey m x (probe_ix x key p) = key" using P(2) by (simp add: probe_key_def)
      from upsert_post_update [OF inv g _ this nz] show ?thesis
        using Some False view shard_geomD(2) [OF g] by simp
    qed
  next
    case None
    then have miss: "probe_key m x key q \<notin> {0, key}" if "q < maxProbe" for q
      using that unfolding find_None_iff by auto
    have absent: "idx_map m x key = None"
    proof (rule ccontr)
      assume "idx_map m x key \<noteq> None"
      then obtain h where "idx_map m x key = Some h" by blast
      from probe_present [OF inv this] None show False by auto
    qed
    show ?thesis
    proof (cases "find (\<lambda>p. entry_dead m r (read_bucket m x (probe_ix x key p))) [0..<maxProbe]")
      case (Some p)
      note P = find_upt_SomeD [OF Some]
      from upsert_post_reclaim [OF inv g absent nz P(1) _ P(2)] miss show ?thesis
        using \<open>find _ _ = None\<close> Some view by simp
    next
      case None
      then show ?thesis
        using \<open>find (\<lambda>p. probe_key m x key p \<in> {0, key}) _ = None\<close> view inv index_upd.full [where M = "idx_map m x", OF nz absent]
        by (simp add: upsert_post_def same_table_def)
    qed
  qed
qed

section \<open>Lookups\<close>

text \<open>The record a lookup fills in from the view of the cell it was pointed at.\<close>

definition cell_record :: "ring \<Rightarrow> u64 \<Rightarrow> u64 \<Rightarrow> cellv \<Rightarrow> Record \<Rightarrow> Record" where
  "cell_record r key slot v rec =
     rec\<lparr>Ticket := cv_ticket v, Timestamp := cv_timestamp v, Key := key, Epoch := cv_epoch v,
         Checksum := cv_checksum v, Flags := cv_flags v, Slot := slot,
         Payload := payloadSlice (cellB r (unat slot)) (cv_length v)\<rparr>"

text \<open>The authority check: what the cell must say for a hint to be believed.\<close>

definition cell_confirms :: "ring \<Rightarrow> u64 \<Rightarrow> u64 \<times> u64 \<Rightarrow> cellv \<Rightarrow> bool" where
  "cell_confirms r key h v \<longleftrightarrow> fst h \<noteq> 0 \<and> snd h < r_capacity r \<and> cv_key v = key \<and>
     cv_flags v AND FlagCommitted \<noteq> 0 \<and> cv_length v \<le> r_payloadCap r"

lemma lookup_bucket_view:
  assumes "v = read_cell m r (unat (bv_slot (read_bucket m x i)))"
  shows "lookup_bucket m (bucketB x i) key r rec =
    (if cell_confirms r key (hint (read_bucket m x i)) v
     then Inr (cell_record r key (bv_slot (read_bucket m x i)) v rec) else Inl ErrNotFound)"
proof -
  have "cellAt (r_base r) s (r_stride r) = cellB r (unat s)" for s by (simp add: cellB_def)
  then show ?thesis
    unfolding assms lookup_bucket_def Let_def cell_confirms_def cell_record_def hint_def
    by (simp only: read_bucket_loads read_cell_loads fst_conv snd_conv) (simp add: linorder_not_le linorder_not_less)
qed

lemma index_lookup_eq:
  assumes inv: "index_inv m x"
  shows "index_lookup m x key r rec =
    (if key = 0 then Inl ErrConfig
     else case idx_map m x key of
       None \<Rightarrow> Inl ErrNotFound
     | Some h \<Rightarrow> let v = read_cell m r (unat (snd h)) in
         if cell_confirms r key h v then Inr (cell_record r key (snd h) v rec) else Inl ErrNotFound)"
proof (cases "key = 0")
  case nz: False
  note view = lookup_probes_view [OF index_invD(1) [OF inv] nz, of "[0..<maxProbe]" m r rec]
  show ?thesis
  proof (cases "idx_map m x key")
    case None
    show ?thesis
    proof (cases "find (\<lambda>p. probe_key m x key p \<in> {0, key}) [0..<maxProbe]")
      case (Some p)
      from probe_absent [OF inv None nz Some] have "probe_key m x key p = 0" .
      with Some show ?thesis using None nz view by (simp add: index_lookup_def)
    qed (use None nz view in \<open>simp add: index_lookup_def\<close>)
  next
    case (Some h)
    then obtain p where "find (\<lambda>p. probe_key m x key p \<in> {0, key}) [0..<maxProbe] = Some p"
      "probe_key m x key p = key" "h = hint (read_bucket m x (probe_ix x key p))"
      by (rule probe_present [OF inv])
    then show ?thesis using Some nz view
      by (simp add: index_lookup_def Let_def lookup_bucket_view [OF refl] hint_def)
  qed
qed (simp add: index_lookup_def)

section \<open>The empty table\<close>

lemma init_bucket_view:
  assumes "index_geom x" "i < xcap x" "j < xcap x"
  shows "read_bucket (init_bucket (x_base x) i m) x j =
    (if j = i then \<lparr>bv_key = 0, bv_ticket = 0, bv_slot = 0\<rparr> else read_bucket m x j)"
  using assms by (simp add: init_bucket_def Let_def bucketB_def [symmetric] mem_simps)

lemma init_buckets_view:
  assumes "index_geom x" "n \<le> xcap x" "j < xcap x"
  shows "read_bucket (fold (init_bucket (x_base x)) [0..<n] m) x j =
    (if j < n then \<lparr>bv_key = 0, bv_ticket = 0, bv_slot = 0\<rparr> else read_bucket m x j)"
  using assms(2)
proof (induction n)
  case (Suc n)
  then show ?case using assms(1,3) by (auto simp: init_bucket_view)
qed simp

lemma init_buckets_frame:
  assumes "shard_geom r x" "n \<le> xcap x"
  shows "ring_region (fold (init_bucket (x_base x)) [0..<n] m) r = ring_region m r"
  using assms(2)
proof (induction n)
  case (Suc n)
  then show ?case
    using assms(1)
    by (simp add: init_bucket_def Let_def bucketB_def [symmetric] bucket_store_frame)
qed simp

lemma initIndex_okD:
  assumes "initIndex m base buckets = Inr (m', x)" "unat buckets * 32 \<le> 2 ^ 64"
  shows "index_geom x" "x_base x = base" "x_buckets x = buckets"
    "m' = fold (init_bucket (x_base x)) [0..<xcap x] m"
    "x_live x = 0" "x_collides x = 0" "x_overflows x = 0" "x_reclaims x = 0"
  using assms by (auto simp: initIndex_def index_geom_def CacheLineSize_def split: if_splits)

lemma initIndex_empty:
  assumes "initIndex m base buckets = Inr (m', x)" "unat buckets * 32 \<le> 2 ^ 64"
  shows "index_inv m' x" "idx_map m' x = Map.empty" "x_live x = of_nat (occupied m' x)"
proof -
  note i = initIndex_okD [OF assms]
  have z: "bkey m' x j = 0" if "j < xcap x" for j
    using init_buckets_view [OF i(1) order_refl that] that i(4) by simp
  then show "index_inv m' x" using i(1) by (simp add: index_inv_def)
  show "idx_map m' x = Map.empty" by (rule ext) (auto simp: idx_map_None z)
  have "{j. j < xcap x \<and> bkey m' x j \<noteq> 0} = {}" using z by auto
  then have "occupied m' x = 0" by (simp only: occupied_def card.empty)
  then show "x_live x = of_nat (occupied m' x)" using i(5) by simp
qed

section \<open>The index is a hint table\<close>

type_synonym xstate = "mem \<times> keyIndex \<times> ring"

definition xinv :: "xstate \<Rightarrow> bool" where
  "xinv s = (case s of (m, x, r) \<Rightarrow> index_inv m x \<and> shard_geom r x)"

definition xhints :: "xstate \<Rightarrow> u64 \<rightharpoonup> u64 \<times> u64" where
  "xhints s = (case s of (m, x, r) \<Rightarrow> idx_map m x)"

definition xput :: "xstate \<Rightarrow> u64 \<Rightarrow> u64 \<times> u64 \<Rightarrow> xstate" where
  "xput s k h = (case s of (m, x, r) \<Rightarrow> case upsert m x k (fst h) (snd h) r of (m', x', e) \<Rightarrow> (m', x', r))"

definition xenv :: "xstate \<Rightarrow> xstate \<Rightarrow> bool" where
  "xenv s s' = (case s of (m, x, r) \<Rightarrow> case s' of (m', x', r') \<Rightarrow>
     x' = x \<and> shard_geom r' x \<and> index_region m' x = index_region m x)"

lemma index_region_cong:
  assumes "index_geom x" "index_region m' x = index_region m x"
  shows "index_inv m' x = index_inv m x" "idx_map m' x = idx_map m x" "occupied m' x = occupied m x"
proof -
  have same: "read_bucket m' x j = read_bucket m x j" if "j < xcap x" for j
    by (rule read_bucket_cong [OF assms(2) that])
  then have pk: "probe_key m' x = probe_key m x" using assms(1) by (simp add: probe_key_def fun_eq_iff)
  show "index_inv m' x = index_inv m x" unfolding index_inv_def pk using same by simp
  show "idx_map m' x = idx_map m x"
  proof
    fix k
    have "find (\<lambda>i. bkey m' x i = k) [0..<xcap x] = find (\<lambda>i. bkey m x i = k) [0..<xcap x]"
      by (rule find_cong) (simp_all add: same)
    moreover have "read_bucket m' x j = read_bucket m x j"
      if "find (\<lambda>i. bkey m x i = k) [0..<xcap x] = Some j" for j
      using find_upt_SomeD(1) [OF that] same by blast
    ultimately show "idx_map m' x k = idx_map m x k"
      by (cases "find (\<lambda>i. bkey m x i = k) [0..<xcap x]") (simp_all add: idx_map_def)
  qed
  show "occupied m' x = occupied m x" unfolding occupied_def
    by (rule arg_cong [where f = card]) (auto simp: same)
qed

lemma index_upd_keys:
  assumes "index_upd dead M k t s M' e" "\<And>t0 s0. M k = Some (t0, s0) \<Longrightarrow> t0 < t"
  shows "M' k = (if e = None then Some (t, s) else M k)" "k' \<noteq> k \<Longrightarrow> M' k' = None \<or> M' k' = M k'"
  using assms by (auto elim!: index_updE dest: leD)

lemma index_upd_other: "index_upd dead M k t s M' e \<Longrightarrow> k' \<noteq> k \<Longrightarrow> M' k' = None \<or> M' k' = M k'"
  by (auto elim!: index_updE)

lemma index_upd_error: "index_upd dead M k t s M' (Some e) \<Longrightarrow> M' = M \<and> (M k = None \<or> k = 0)"
  by (auto elim!: index_updE)

lemma xput_facts:
  assumes "xinv s"
  shows "xinv (xput s k h)" "\<exists>dead e. index_upd dead (xhints s) k (fst h) (snd h) (xhints (xput s k h)) e"
proof -
  obtain m x r where s: "s = (m, x, r)" by (cases s)
  obtain m' x' e where u: "upsert m x k (fst h) (snd h) r = (m', x', e)"
    by (cases "upsert m x k (fst h) (snd h) r")
  have "upsert_post m x r k (fst h) (snd h) (m', x', e)"
    using upsert_correct [of m x r k "fst h" "snd h"] assms by (simp add: s xinv_def u)
  then show "xinv (xput s k h)" "\<exists>dead e. index_upd dead (xhints s) k (fst h) (snd h) (xhints (xput s k h)) e"
    using assms by (auto simp: s xinv_def xput_def xhints_def u upsert_post_def same_table_geom)
qed

lemma xhints_zero [simp]: "xhints s 0 = None"
  by (cases s) (simp add: xhints_def idx_map_def)

lemma xput_self:
  assumes "xinv s" "\<And>w. xhints s k = Some w \<Longrightarrow> unat (fst w) < unat (fst h)"
  shows "xhints (xput s k h) k = None \<or> xhints (xput s k h) k = Some h"
proof -
  obtain dead e where upd: "index_upd dead (xhints s) k (fst h) (snd h) (xhints (xput s k h)) e"
    using xput_facts(2) [OF assms(1)] by blast
  have old: "t0 < fst h" if "xhints s k = Some (t0, s0)" for t0 s0
    using assms(2) [OF that] by (simp add: word_less_nat_alt)
  have self: "xhints (xput s k h) k = (if e = None then Some (fst h, snd h) else xhints s k)"
    by (rule index_upd_keys(1) [OF upd old])
  show ?thesis
  proof (cases e)
    case (Some err)
    then have "xhints s k = None" using index_upd_error upd xhints_zero by metis
    then show ?thesis using self Some by simp
  qed (simp add: self)
qed

lemma xenv_facts:
  assumes "xinv s" "xenv s s'"
  shows "xinv s'" "xhints s' = xhints s"
proof -
  obtain m x r m' r' where s: "s = (m, x, r)" "s' = (m', x, r')"
    using assms(2) by (cases s; cases s') (auto simp: xenv_def)
  then have e: "index_region m' x = index_region m x" "shard_geom r' x" "index_inv m x"
    using assms by (simp_all add: xenv_def xinv_def)
  note c = index_region_cong [OF index_invD(1) [OF e(3)] e(1)]
  show "xinv s'" "xhints s' = xhints s" using e c s by (simp_all add: xinv_def xhints_def)
qed

interpretation ht: hint_table xinv xhints "\<lambda>h. unat (fst h)" xput xenv
proof unfold_locales
  show "xhints (xput s k v) k' = None \<or> xhints (xput s k v) k' = xhints s k'"
    if "xinv s" "k' \<noteq> k" for s k v k'
    using xput_facts(2) [OF that(1)] index_upd_other that(2) by blast
qed (fact xput_facts(1) xput_self xenv_facts)+

end
