(* ===== verification/IndexThms.thy ===== *)
theory IndexThms
  imports IndexProps RingProps
begin

text \<open>The properties of the key index, each instantiated on a four-bucket table behind the
  two-cell ring of the ring properties.\<close>

section \<open>A small shard to instantiate the properties on\<close>

definition demo_index :: "mem \<times> keyIndex" where
  "demo_index = projr (initIndex (fst (snd demo_pub)) 2097408 4)"

abbreviation "demo_m \<equiv> fst demo_index"
abbreviation "demo_x \<equiv> snd demo_index"
abbreviation "demo_r \<equiv> snd (snd demo_pub)"

lemma demo_index_eq: "initIndex (fst (snd demo_pub)) 2097408 4 = Inr (demo_m, demo_x)"
  by (simp add: demo_index_def initIndex_def isPow2_def isAligned_def layout_simps)

lemma demo_ring_shape: "r_base demo_r = 2097152" "r_stride demo_r = 128"
proof -
  obtain c where "demo_r = (snd demo_init)\<lparr>r_tail := 1\<rparr>\<lparr>r_commit := c\<rparr>"
    using ring_publish_okE(3) [OF ring_reach_inv [OF demo_reach_claimed] _ _ demo_pub_eq]
    by (auto simp: demo_init_ring)
  then show "r_base demo_r = 2097152" "r_stride demo_r = 128"
    by (simp_all add: demo_init_def initRing_def demo_consts Let_def)
qed

lemma demo_inv: "index_inv demo_m demo_x" "idx_map demo_m demo_x = Map.empty"
  "x_live demo_x = of_nat (occupied demo_m demo_x)"
  by (rule initIndex_empty [OF demo_index_eq], simp)+

lemma demo_shard: "shard_geom demo_r demo_x"
  using ring_inv0D(1) [OF ring_invD(1) [OF ring_reach_inv [OF demo_reach_published]]]
    initIndex_okD(1-3) [OF demo_index_eq]
  by (simp add: shard_geom_def demo_ring_shape demo_published_ring)

lemma demo_cell: "holds demo_r (read_cell demo_m demo_r 0) (entry_of 1 42 5 0 [1, 2, 3] 0)"
proof -
  have inv: "ring_inv (fst (snd demo_pub)) demo_r {} {} ((\<lambda>_. undefined)(0 := entry_of 1 42 5 0 [1, 2, 3] 0))"
    by (rule ring_reach_inv [OF demo_reach_published])
  have "ring_region demo_m demo_r = ring_region (fst (snd demo_pub)) demo_r"
    using init_buckets_frame [OF demo_shard order_refl] initIndex_okD(4) [OF demo_index_eq] by simp
  then have "read_cell demo_m demo_r 0 = read_cell (fst (snd demo_pub)) demo_r 0"
    using shard_geomD(1) [OF demo_shard] by (intro read_cell_cong) (simp_all add: demo_published_ring)
  then show ?thesis
    using dequeue_step(3) [OF inv] by (simp add: demo_published_ring)
qed

lemma demo_view:
  "cv_key (read_cell demo_m demo_r 0) = 42" "cv_length (read_cell demo_m demo_r 0) = 3"
  "cv_flags (read_cell demo_m demo_r 0) AND FlagCommitted \<noteq> 0" "cv_ticket (read_cell demo_m demo_r 0) = 1"
  using demo_cell by (simp_all add: holds_def entry_of_def FlagCommitted_set)

section \<open>Properties\<close>

text \<open>
  C26: \<^verbatim>\<open>upsert\<close> keeps the table well formed and implements the abstract update of a map from
  keys to (ticket, slot): key 0 is refused, a present key only moves to a newer ticket, an
  absent key takes an empty bucket or replaces one hint whose cell was recycled, or nothing
  changes and \<^verbatim>\<open>ErrIndexFull\<close> is returned. No other key's hint changes, no byte of a ring cell
  changes, and the live counter stays the number of occupied buckets.
\<close>
theorem upsert_refines_map:
  assumes "index_inv m x" "shard_geom r x" "x_live x = of_nat (occupied m x)"
    and "upsert m x key ticket slot r = (m', x', e)"
  shows "index_inv m' x' \<and> index_upd (stale m r) (idx_map m x) key ticket slot (idx_map m' x') e \<and>
    ring_region m' r = ring_region m r \<and> x_live x' = of_nat (occupied m' x')"
  using upsert_correct [OF assms(1,2), of key ticket slot] assms(3,4) by (simp add: upsert_post_def)

theorem upsert_refines_map_witness:
  "\<exists>m' x' e. upsert demo_m demo_x 42 1 0 demo_r = (m', x', e) \<and>
     index_upd (stale demo_m demo_r) Map.empty 42 1 0 (idx_map m' x') e"
proof -
  obtain m' x' e where "upsert demo_m demo_x 42 1 0 demo_r = (m', x', e)"
    by (cases "upsert demo_m demo_x 42 1 0 demo_r")
  from upsert_refines_map [OF demo_inv(1) demo_shard demo_inv(3) this] this show ?thesis
    by (auto simp: demo_inv(2))
qed

text \<open>
  For a non-zero key \<^verbatim>\<open>upsert\<close> fails exactly when all sixteen probed buckets hold other keys
  and every one of those keys is still in the cell its bucket names; the failure changes no
  memory and counts one overflow.
\<close>
theorem upsert_full_exact:
  assumes "index_geom x" "ring_geom r" "key \<noteq> 0" "upsert m x key ticket slot r = (m', x', e)"
  shows "(e \<noteq> None \<longleftrightarrow> (\<forall>p<maxProbe. probe_key m x key p \<notin> {0, key} \<and>
      \<not> entry_dead m r (read_bucket m x (probe_ix x key p)))) \<and>
    (e \<noteq> None \<longrightarrow> e = Some ErrIndexFull \<and> m' = m \<and> x' = x\<lparr>x_overflows := x_overflows x + 1\<rparr>)"
proof (cases "find (\<lambda>p. probe_key m x key p \<in> {0, key}) [0..<maxProbe]")
  case (Some p)
  note P = find_upt_SomeD(1,2) [OF Some]
  have "e = None"
    using upsert_view [OF assms(1-3), of m ticket slot] Some assms(4) by (auto simp: Let_def split: if_splits)
  with P show ?thesis by blast
next
  case None
  then have miss: "\<forall>p<maxProbe. probe_key m x key p \<notin> {0, key}" unfolding find_None_iff by auto
  show ?thesis
  proof (cases "find (\<lambda>p. entry_dead m r (read_bucket m x (probe_ix x key p))) [0..<maxProbe]")
    case (Some p)
    note P = find_upt_SomeD(1,2) [OF Some]
    have "e = None" using upsert_view [OF assms(1-3), of m ticket slot] None Some assms(4) by simp
    with P show ?thesis by blast
  next
    case free: None
    then have live: "\<forall>p<maxProbe. \<not> entry_dead m r (read_bucket m x (probe_ix x key p))"
      unfolding find_None_iff by auto
    have "(m', x', e) = (m, x\<lparr>x_overflows := x_overflows x + 1\<rparr>, Some ErrIndexFull)"
      using upsert_view [OF assms(1-3), of m ticket slot] None free assms(4) by simp
    with miss live show ?thesis by blast
  qed
qed

theorem upsert_full_exact_witness:
  "snd (snd (upsert demo_m demo_x 42 1 0 demo_r)) = None"
proof -
  note g = shard_geomD [OF demo_shard]
  obtain m' x' e where u: "upsert demo_m demo_x 42 1 0 demo_r = (m', x', e)"
    by (cases "upsert demo_m demo_x 42 1 0 demo_r")
  have "bkey demo_m demo_x (probe_ix demo_x 42 0) = 0"
    using demo_inv(1,2) idx_map_at [OF demo_inv(1), of "probe_ix demo_x 42 0"] g(2) by fastforce
  then have "probe_key demo_m demo_x 42 0 = 0" by (simp add: probe_key_def)
  moreover have "0 < maxProbe" by (simp add: maxProbe_def)
  ultimately show ?thesis using upsert_full_exact [OF g(2,1) _ u] u by auto
qed

text \<open>
  On a well-formed table \<^verbatim>\<open>lookup\<close> reads the map: key 0 is \<^verbatim>\<open>ErrConfig\<close>, an absent key is
  \<^verbatim>\<open>ErrNotFound\<close>, and a present hint is believed exactly when its ticket is set and the cell it
  names is in range, holds the key, is committed and has a plausible length; the record is
  then filled from that cell.
\<close>
theorem lookup_reads_map:
  assumes "index_inv m x"
  shows "index_lookup m x key r rec =
    (if key = 0 then Inl ErrConfig
     else case idx_map m x key of
       None \<Rightarrow> Inl ErrNotFound
     | Some h \<Rightarrow> let v = read_cell m r (unat (snd h)) in
         if cell_confirms r key h v then Inr (cell_record r key (snd h) v rec) else Inl ErrNotFound)"
  by (rule index_lookup_eq [OF assms])

theorem lookup_reads_map_witness:
  "index_lookup demo_m demo_x 42 demo_r zero_Record = Inl ErrNotFound"
  using lookup_reads_map [OF demo_inv(1), of 42 demo_r zero_Record] by (simp add: demo_inv(2))

lemma lookup_bucket_authority:
  assumes "lookup_bucket m b key r rec = Inr rec'"
  shows "Key rec' = key \<and> Slot rec' < r_capacity r \<and>
    cv_key (read_cell m r (unat (Slot rec'))) = key \<and>
    cv_flags (read_cell m r (unat (Slot rec'))) AND FlagCommitted \<noteq> 0 \<and>
    Ticket rec' = cv_ticket (read_cell m r (unat (Slot rec'))) \<and>
    sl_len (Payload rec') \<le> unat (r_payloadCap r)"
proof -
  have "cellAt (r_base r) s (r_stride r) = cellB r (unat s)" for s by (simp add: cellB_def)
  then show ?thesis
    using assms
    by (auto simp: lookup_bucket_def Let_def read_cell_loads payloadSlice_def nil_slice_def
        word_le_nat_alt word_less_nat_alt not_le split: if_splits)
qed

text \<open>
  Authority. Whatever the bytes of the table and of the cells, even ones no sequence of
  operations could leave there, a successful \<^verbatim>\<open>lookup\<close> returns the record of a cell in range
  that holds the key asked for and is marked committed, with a payload no longer than a cell
  payload: a wrong or outdated hint becomes a miss and never another key's data.
\<close>
theorem lookup_authority:
  assumes "index_lookup m x key r rec = Inr rec'"
  shows "Key rec' = key \<and> Slot rec' < r_capacity r \<and>
    cv_key (read_cell m r (unat (Slot rec'))) = key \<and>
    cv_flags (read_cell m r (unat (Slot rec'))) AND FlagCommitted \<noteq> 0 \<and>
    Ticket rec' = cv_ticket (read_cell m r (unat (Slot rec'))) \<and>
    sl_len (Payload rec') \<le> unat (r_payloadCap r)"
proof -
  have "\<exists>b. lookup_bucket m b key r rec = Inr rec'"
    if "lookup_probes ps m x h key r rec = Inr rec'" for ps h
    using that by (induction ps) (auto simp: Let_def split: if_splits)
  moreover have "lookup_probes [0..<maxProbe] m x (hashKey key AND x_mask x) key r rec = Inr rec'"
    using assms by (simp add: index_lookup_def Let_def split: if_splits)
  ultimately obtain b where "lookup_bucket m b key r rec = Inr rec'" by blast
  then show ?thesis by (rule lookup_bucket_authority)
qed

lemma upsert_then_lookup_gen:
  assumes inv: "index_inv m x" and g: "shard_geom r x" and up: "upsert m x key ticket slot r = (m', x', None)"
    and old: "\<And>t s. idx_map m x key = Some (t, s) \<Longrightarrow> t < ticket"
    and cell: "cell_confirms r key (ticket, slot) (read_cell m r (unat slot))"
  shows "index_lookup m' x' key r rec = Inr (cell_record r key slot (read_cell m r (unat slot)) rec)"
proof -
  have post: "index_inv m' x'" "ring_region m' r = ring_region m r"
    "index_upd (stale m r) (idx_map m x) key ticket slot (idx_map m' x') None"
    using upsert_correct [OF inv g, of key ticket slot] up by (simp_all add: upsert_post_def)
  have map: "idx_map m' x' key = Some (ticket, slot)"
    using index_upd_keys(1) [OF post(3) old] by simp
  have "unat slot < rcap r" using cell by (simp add: cell_confirms_def word_less_nat_alt)
  then have "read_cell m' r (unat slot) = read_cell m r (unat slot)"
    by (rule read_cell_cong [OF shard_geomD(1) [OF g] post(2)])
  moreover have "key \<noteq> 0" using up by (auto simp: upsert_def)
  ultimately show ?thesis using index_lookup_eq [OF post(1)] map cell by simp
qed

text \<open>
  Round trip. When \<^verbatim>\<open>upsert\<close> of a newer ticket succeeds for a key whose record sits committed
  in the named cell, \<^verbatim>\<open>lookup\<close> of that key returns exactly the header fields and the payload
  slice of that cell.
\<close>
theorem upsert_then_lookup:
  assumes "index_inv m x" "shard_geom r x" "upsert m x key ticket slot r = (m', x', None)"
    and "\<forall>t s. idx_map m x key = Some (t, s) \<longrightarrow> t < ticket"
    and "cell_confirms r key (ticket, slot) (read_cell m r (unat slot))"
  shows "index_lookup m' x' key r rec = Inr (cell_record r key slot (read_cell m r (unat slot)) rec)"
  using upsert_then_lookup_gen [OF assms(1-3) _ assms(5)] assms(4) by blast

text \<open>The upsert of the published record of the small shard succeeds.\<close>

lemma demo_upsert: "\<exists>m' x'. upsert demo_m demo_x 42 1 0 demo_r = (m', x', None)"
proof -
  note g = shard_geomD [OF demo_shard]
  have empty: "probe_key demo_m demo_x 42 p = 0" for p
    using demo_inv(2) idx_map_at [OF demo_inv(1), of "probe_ix demo_x 42 p"] g(2)
    by (fastforce simp: probe_key_def)
  have "find (\<lambda>p. probe_key demo_m demo_x 42 p \<in> {0, 42}) [0..<maxProbe] = Some 0"
    by (simp add: empty maxProbe_def upt_rec)
  then show ?thesis using upsert_view [OF g(2,1), of 42 demo_m 1 0] empty by simp
qed

theorem upsert_then_lookup_witness:
  "\<exists>m' x' rec. upsert demo_m demo_x 42 1 0 demo_r = (m', x', None) \<and>
     index_lookup m' x' 42 demo_r zero_Record = Inr rec \<and> Ticket rec = 1"
proof -
  obtain m' x' where u: "upsert demo_m demo_x 42 1 0 demo_r = (m', x', None)"
    using demo_upsert by blast
  have "cell_confirms demo_r 42 (1, 0) (read_cell demo_m demo_r (unat 0))"
    by (simp add: cell_confirms_def demo_view demo_published_ring)
  from upsert_then_lookup [OF demo_inv(1) demo_shard u _ this, of zero_Record] demo_inv(2) u
  show ?thesis by (auto simp: cell_record_def demo_view)
qed

text \<open>The lookup of the small shard finds its record.\<close>

lemma demo_lookup:
  "\<exists>m' x' rec. index_lookup m' x' 42 demo_r zero_Record = Inr rec"
proof -
  obtain m' x' where u: "upsert demo_m demo_x 42 1 0 demo_r = (m', x', None)"
    using demo_upsert by blast
  have "cell_confirms demo_r 42 (1, 0) (read_cell demo_m demo_r (unat 0))"
    by (simp add: cell_confirms_def demo_view demo_published_ring)
  from upsert_then_lookup_gen [OF demo_inv(1) demo_shard u _ this] demo_inv(2) show ?thesis by auto
qed

theorem lookup_authority_witness:
  "\<exists>m x rec. index_lookup m x 42 demo_r zero_Record = Inr rec \<and> Key rec = 42 \<and>
     Slot rec < r_capacity demo_r"
proof -
  obtain m x rec where l: "index_lookup m x 42 demo_r zero_Record = Inr rec" using demo_lookup by blast
  from lookup_authority [OF l] l show ?thesis by blast
qed

end
