(* ===== verification/ShardInv.thy ===== *)
theory ShardInv
  imports IndexProps RingQueue
begin

text \<open>
  One shard: a ring and an index in one arena. \<open>shard_inv\<close> joins their invariants and ties both to
  the history of the shard: \<open>L\<close> maps every position ever used to the entry published there. It
  says where each entry of the last lap still is, and that an index hint is never out of date.
\<close>

section \<open>Writes stay inside the arena\<close>

definition writes_within :: "u64 \<Rightarrow> nat \<Rightarrow> mem \<Rightarrow> mem \<Rightarrow> bool" where
  "writes_within p n m m' \<longleftrightarrow> (\<forall>a. n \<le> unat (a - p) \<longrightarrow> m' a = m a)"

lemma writes_within_refl [simp]: "writes_within p n m m"
  by (simp add: writes_within_def)

lemma writes_within_trans: "writes_within p n m m1 \<Longrightarrow> writes_within p n m1 m2 \<Longrightarrow> writes_within p n m m2"
  by (simp add: writes_within_def)

lemma store_within:
  assumes "off + length bs \<le> n" "n \<le> 2 ^ 64"
  shows "writes_within p n m (store_bytes m (p + of_nat off) bs)"
  unfolding writes_within_def
proof (intro allI impI)
  fix a
  assume a: "n \<le> unat (a - p)"
  have "length bs \<le> unat (a - (p + of_nat off)) \<or> bs = []"
  proof (rule ccontr)
    assume neg: "\<not> ?thesis"
    have "unat (a - p) = unat ((a - (p + of_nat off)) + of_nat off)" by simp
    also have "\<dots> \<le> unat (a - (p + of_nat off)) + off"
      using unat_add_le [of "a - (p + of_nat off)" "of_nat off"] unat_of_nat_le [of off] by linarith
    finally have "unat (a - p) \<le> unat (a - (p + of_nat off)) + off" .
    then show False using neg a assms(1) by auto
  qed
  then show "store_bytes m (p + of_nat off) bs a = m a" by (auto simp: store_bytes_def)
qed

lemma load_outside:
  assumes "writes_within p n m m'" "apart p n q k"
  shows "load_bytes m' q k = load_bytes m q k"
proof -
  have "m' (q + of_nat i) = m (q + of_nat i)" if "i < k" for i
  proof -
    have "store_bytes (\<lambda>_. 1) p (replicate n 0) (q + of_nat i) = (1 :: u8)"
      using store_bytes_other [of p "replicate n 0" q k i "\<lambda>_. 1"] assms(2) that by simp
    then have "n \<le> unat (q + of_nat i - p)"
      by (auto simp: store_bytes_def split: if_splits)
    then show ?thesis using assms(1) by (simp add: writes_within_def)
  qed
  then show ?thesis by (simp add: load_bytes_def)
qed

abbreviation shard_span :: "ring \<Rightarrow> keyIndex \<Rightarrow> nat" where
  "shard_span r x \<equiv> rcap r * unat (r_stride r) + xcap x * 32"

lemma cell_store_within:
  assumes g: "shard_geom r x" and i: "i < rcap r"
  shows "unat off + 8 \<le> 64 \<Longrightarrow>
      writes_within (r_base r) (shard_span r x) m (ptrStore64 m (fieldAt (cellB r i) off) v)"
    "unat off + 8 \<le> 64 \<Longrightarrow>
      writes_within (r_base r) (shard_span r x) m (ptrStore32 m (fieldAt (cellB r i) off) w)"
    "length src \<le> unat (r_payloadCap r) \<Longrightarrow>
      writes_within (r_base r) (shard_span r x) m (fst (copyIntoPayload m (cellB r i) src))"
proof -
  let ?S = "unat (r_stride r)"
  have S: "unat (r_payloadCap r) + 64 \<le> ?S"
    using g cellStrideFor_bounds(1) [of "r_payloadCap r"] by (simp add: shard_geom_def ring_geom_def)
  have "(i + 1) * ?S \<le> rcap r * ?S" using i by (intro mult_le_mono1) simp
  then have put: "writes_within (r_base r) (shard_span r x) m (store_bytes m (cellB r i + of_nat off) bs)"
    if "off + length bs \<le> ?S" for off bs
    unfolding cellB_offset using that g by (intro store_within) (auto simp: shard_geom_def)
  have fld: "fieldAt (cellB r i) off = cellB r i + of_nat (unat off)" for off
    by (simp add: fieldAt_def)
  show "writes_within (r_base r) (shard_span r x) m (ptrStore64 m (fieldAt (cellB r i) off) v)"
    "writes_within (r_base r) (shard_span r x) m (ptrStore32 m (fieldAt (cellB r i) off) w)"
    if "unat off + 8 \<le> 64"
    unfolding ptrStore64_def ptrStore32_def fld by (rule put; use that S in simp)+
  show "writes_within (r_base r) (shard_span r x) m (fst (copyIntoPayload m (cellB r i) src))"
    if "length src \<le> unat (r_payloadCap r)"
    using put [of 64 src] that S by (simp add: copyIntoPayload_def payloadAt_def HeaderSize_def)
qed

lemma bucket_store_within:
  assumes g: "shard_geom r x" and i: "i < xcap x" and off: "unat off + 8 \<le> 32"
  shows "writes_within (r_base r) (shard_span r x) m (ptrStore64 m (fieldAt (bucketB x i) off) v)"
proof -
  have "fieldAt (bucketB x i) off = r_base r + of_nat (rcap r * unat (r_stride r) + (i * 32 + unat off))"
    using g by (simp add: field_bucketB shard_geom_def)
  moreover have "writes_within (r_base r) (shard_span r x) m
      (store_bytes m (r_base r + of_nat (rcap r * unat (r_stride r) + (i * 32 + unat off))) (bytes_of 8 v))"
    using g i off by (intro store_within) (auto simp: shard_geom_def)
  ultimately show ?thesis by (simp add: ptrStore64_def)
qed

lemma publish_within:
  assumes g: "shard_geom r x" and len: "length payload \<le> unat (r_payloadCap r)"
  shows "writes_within (r_base r) (shard_span r x) m
    (fst (publish_stores m r pos ticket key ts flags payload checksum))"
proof -
  note W = cell_store_within [OF g rslot_less [OF shard_geomD(1) [OF g], of pos]]
  note step = writes_within_trans [OF _ W(1)] writes_within_trans [OF _ W(2)]
  show ?thesis
    unfolding publish_stores_def Let_def case_prod_beta fst_conv cell_cellB [OF shard_geomD(1) [OF g]]
    by (rule step W(3) [OF len] | simp)+
qed

lemma release_within: "shard_geom r x \<Longrightarrow> writes_within (r_base r) (shard_span r x) m (release m r pos)"
  unfolding release_def using cell_cellB [OF shard_geomD(1)] rslot_less [OF shard_geomD(1)]
  by (simp add: cell_store_within(1))

lemma set_bucket_within:
  assumes "shard_geom r x" "i < xcap x"
  shows "writes_within (r_base r) (shard_span r x) m (set_bucket m (bucketB x i) key ticket slot)"
    "writes_within (r_base r) (shard_span r x) m (bump_bucket m (bucketB x i) ticket slot)"
  unfolding set_bucket_def bump_bucket_def
  by (rule writes_within_trans [OF _ bucket_store_within [OF assms]] bucket_store_within [OF assms] | simp)+

lemma upsert_within:
  assumes g: "shard_geom r x"
  shows "writes_within (r_base r) (shard_span r x) m (fst (upsert m x key ticket slot r))"
proof (cases "key = 0")
  case False
  then show ?thesis
    using upsert_view [OF shard_geomD(2) [OF g] shard_geomD(1) [OF g] False, of m ticket slot]
      set_bucket_within [OF g probe_ix_less [OF shard_geomD(2) [OF g]]]
    by (auto simp: Let_def updateMonotonic_eq split: option.splits)
qed (simp add: upsert_def)

section \<open>The shard invariant\<close>

text \<open>Until its cell is rewritten, an entry stays readable there, consumed or not.\<close>

definition kept :: "mem \<Rightarrow> ring \<Rightarrow> (nat \<Rightarrow> entry) \<Rightarrow> bool" where
  "kept m r L \<longleftrightarrow> (\<forall>p. p < rT r \<longrightarrow> rT r \<le> p + rcap r \<longrightarrow> holds r (read_cell m r (p mod rcap r)) (L p))"

definition tickets_inc :: "ring \<Rightarrow> (nat \<Rightarrow> entry) \<Rightarrow> bool" where
  "tickets_inc r L \<longleftrightarrow> (\<forall>p<rT r. e_ticket (L p) \<noteq> 0) \<and>
     (\<forall>p q. p < q \<longrightarrow> q < rT r \<longrightarrow> unat (e_ticket (L p)) < unat (e_ticket (L q)))"

text \<open>The index log of a shard, newest first: each entry's key with its ticket and slot.\<close>

definition klog :: "nat \<Rightarrow> (nat \<Rightarrow> entry) \<Rightarrow> nat \<Rightarrow> (u64 \<times> u64 \<times> u64) list" where
  "klog n L t = rev (map (\<lambda>p. (e_key (L p), e_ticket (L p), of_nat (p mod n))) [0..<t])"

definition shard_inv :: "mem \<Rightarrow> ring \<Rightarrow> keyIndex \<Rightarrow> (nat \<Rightarrow> entry) \<Rightarrow> bool" where
  "shard_inv m r x L \<longleftrightarrow> shard_geom r x \<and> ring_inv m r {} {} L \<and> index_inv m x \<and>
     x_live x = of_nat (occupied m x) \<and> kept m r L \<and> tickets_inc r L \<and>
     hints_newest (idx_map m x) (klog (rcap r) L (rT r))"

lemma shard_invD:
  assumes "shard_inv m r x L"
  shows "shard_geom r x" "ring_inv m r {} {} L" "index_inv m x" "x_live x = of_nat (occupied m x)"
    "kept m r L" "tickets_inc r L" "hints_newest (idx_map m x) (klog (rcap r) L (rT r))"
  using assms by (simp_all add: shard_inv_def)

lemma holds_seq [simp]: "holds r (v\<lparr>cv_seq := s\<rparr>) e = holds r v e"
  by (simp add: holds_def)

lemma klog_Suc: "klog n L (Suc t) = (e_key (L t), e_ticket (L t), of_nat (t mod n)) # klog n L t"
  by (simp add: klog_def)

lemma klog_upd: "t \<le> p \<Longrightarrow> klog n (L(p := e)) t = klog n L t"
  by (simp add: klog_def)

lemma set_klog: "(k, h) \<in> set (klog n L t) \<longleftrightarrow> (\<exists>p<t. k = e_key (L p) \<and> h = (e_ticket (L p), of_nat (p mod n)))"
  by (auto simp: klog_def)

text \<open>The newest hint of a key is its latest position.\<close>

lemma map_of_klog:
  "map_of (klog n L t) k = Some h \<Longrightarrow>
   \<exists>p<t. e_key (L p) = k \<and> h = (e_ticket (L p), of_nat (p mod n)) \<and> (\<forall>q. p < q \<longrightarrow> q < t \<longrightarrow> e_key (L q) \<noteq> k)"
proof (induction t)
  case (Suc t)
  show ?case
  proof (cases "e_key (L t) = k")
    case True
    then show ?thesis using Suc.prems by (intro exI [of _ t]) (auto simp: klog_Suc)
  next
    case False
    then have "map_of (klog n L t) k = Some h" using Suc.prems by (simp add: klog_Suc)
    with Suc.IH False show ?thesis by (metis less_Suc_eq)
  qed
qed (simp add: klog_def)

section \<open>Consuming keeps the shard invariant\<close>

lemma shard_geom_cursors [simp]:
  "shard_geom (r\<lparr>r_tail := t\<rparr>) x = shard_geom r x"
  "shard_geom (r\<lparr>r_commit := t\<rparr>) x = shard_geom r x"
  "shard_geom (r\<lparr>r_head := t\<rparr>) x = shard_geom r x"
  by (simp_all add: shard_geom_def)

text \<open>What a change of memory outside the index, or of the ring cursors, leaves of the index part.\<close>

lemma index_part_frame:
  assumes "shard_inv m r x L" "index_region m' x = index_region m x"
  shows "index_inv m' x" "x_live x = of_nat (occupied m' x)" "idx_map m' x = idx_map m x"
  using index_region_cong [OF index_invD(1) [OF shard_invD(3) [OF assms(1)]] assms(2)]
    shard_invD(3,4) [OF assms(1)] by simp_all

lemma shard_take:
  assumes inv: "shard_inv m r x L" and lt: "rH r < rC r"
  defines "r' \<equiv> r\<lparr>r_head := r_head r + 1\<rparr>"
  shows "dequeue m r rec = ((r_head r, True), load_record m r' (r_head r) rec, m, r')"
    and "shard_inv (release m r' (r_head r)) r' x L"
    and "delivered m (load_record m r' (r_head r) rec) = committed_entry (L (rH r))"
    and "rH r' = rH r + 1" "rT r' = rT r" "rC r' = rC r"
    and "writes_within (r_base r) (shard_span r x) m (release m r' (r_head r))"
proof -
  note I = shard_invD [OF inv]
  note d = dequeue_step [OF I(2) lt, folded r'_def]
  show "dequeue m r rec = ((r_head r, True), load_record m r' (r_head r) rec, m, r')" by (rule d(1))
  have g: "ring_geom r'" "shard_geom r' x" using I(1) shard_geomD(1) [OF I(1)] by (simp_all add: r'_def)
  show "delivered m (load_record m r' (r_head r) rec) = committed_entry (L (rH r))"
    by (rule load_record_delivered [OF g(1)]) (use d(3) in \<open>simp add: r'_def\<close>)
  show "rH r' = rH r + 1"
    unfolding r'_def using lt unat_lt64 [of "r_commit r"] by (simp add: unat_add1)
  show "rT r' = rT r" "rC r' = rC r" by (simp_all add: r'_def)
  have rinv: "ring_inv (release m r' (r_head r)) r' {} {} L"
    using release_inv [OF d(2), of "r_head r"] by simp
  have keep: "kept (release m r' (r_head r)) r' L"
    unfolding kept_def
  proof (intro allI impI)
    fix p
    assume p: "p < rT r'" "rT r' \<le> p + rcap r'"
    have "holds r (read_cell m r (p mod rcap r)) (L p)" using I(5) p by (simp add: kept_def r'_def)
    then show "holds r' (read_cell (release m r' (r_head r)) r' (p mod rcap r')) (L p)"
      using release_view [OF g(1), of "p mod rcap r'" m "r_head r"] ring_geom_pos [OF g(1)]
      by (cases "p mod rcap r = rH r mod rcap r") (simp_all add: r'_def)
  qed
  note ix = index_part_frame [OF inv release_frame [OF g(2), of m "r_head r"]]
  show "shard_inv (release m r' (r_head r)) r' x L"
    unfolding shard_inv_def using g(2) rinv keep ix I(6,7) by (simp add: r'_def tickets_inc_def)
  show "writes_within (r_base r) (shard_span r x) m (release m r' (r_head r))"
    using release_within [OF g(2), of m "r_head r"] by (simp add: r'_def)
qed

section \<open>Publishing keeps the shard invariant\<close>

lemma kept_publish:
  assumes g: "ring_geom r" and keep: "kept m r L" and t: "rT r' = rT r + 1" "r' = r\<lparr>r_tail := a, r_commit := b\<rparr>"
    and len: "length payload \<le> unat (r_payloadCap r)" and that: "r1 = r\<lparr>r_tail := a\<rparr>"
  shows "kept (fst (publish_stores m r1 (r_tail r) ticket key ts flags payload checksum)) r'
    (L(rT r := entry_of ticket key ts flags payload checksum))"
  unfolding kept_def
proof (intro allI impI)
  fix p
  assume p: "p < rT r'" "rT r' \<le> p + rcap r'"
  have g1: "ring_geom r1" "p mod rcap r < rcap r1"
    using g that ring_geom_pos [OF g] by simp_all
  have eq: "read_cell m' r' = read_cell m' r1" "holds r' = holds r1" "rcap r' = rcap r" "rcap r1 = rcap r" for m'
    using t(2) that by (simp_all add: fun_eq_iff holds_def read_cell_def cellB_def)
  note view = publish_stores_view(1) [OF g1, of payload m "r_tail r" ticket key ts flags checksum]
  show "holds r' (read_cell (fst (publish_stores m r1 (r_tail r) ticket key ts flags payload checksum)) r' (p mod rcap r'))
      ((L(rT r := entry_of ticket key ts flags payload checksum)) p)"
  proof (cases "p = rT r")
    case True
    then show ?thesis using view len that by (simp add: eq holds_def entry_of_def)
  next
    case False
    then have lt: "p < rT r" "rT r \<le> p + rcap r" "rT r < p + rcap r" using p t by auto
    then have "p mod rcap r \<noteq> rT r mod rcap r" using mod_window_eq [of p "rcap r" "rT r"] by auto
    moreover have "holds r (read_cell m r (p mod rcap r)) (L p)" using keep lt by (simp add: kept_def)
    ultimately show ?thesis using view len False that by (simp add: eq)
  qed
qed

lemma tickets_publish:
  assumes "tickets_inc r L" "rT r' = rT r + 1" "ticket \<noteq> 0" "\<And>p. p < rT r \<Longrightarrow> unat (e_ticket (L p)) < unat ticket"
    and "e_ticket e = ticket"
  shows "tickets_inc r' (L(rT r := e))"
  using assms by (auto simp: tickets_inc_def less_Suc_eq)

text \<open>The overflow counter of the index tells whether an entry was recorded.\<close>

lemma upsert_overflows:
  assumes "shard_geom r x" "key \<noteq> 0" "upsert m x key ticket slot r = (m', x', err)"
  shows "x_overflows x' = x_overflows x + (if err = None then 0 else 1)"
  using assms(3) upsert_view [OF shard_geomD(2) [OF assms(1)] shard_geomD(1) [OF assms(1)] assms(2), of m ticket slot]
  by (auto simp: Let_def add_collides_def split: option.splits if_splits)

text \<open>A key that is in the table or has an empty bucket to go to is recorded.\<close>

definition index_room :: "mem \<Rightarrow> keyIndex \<Rightarrow> u64 \<Rightarrow> bool" where
  "index_room m x key \<longleftrightarrow> (\<exists>p<maxProbe. probe_key m x key p \<in> {0, key})"

lemma upsert_room:
  assumes "shard_geom r x" "key \<noteq> 0" "index_room m x key"
  shows "x_overflows (fst (snd (upsert m x key ticket slot r))) = x_overflows x"
proof -
  obtain p where "find (\<lambda>p. probe_key m x key p \<in> {0, key}) [0..<maxProbe] = Some p"
    using assms(3) by (cases "find (\<lambda>p. probe_key m x key p \<in> {0, key}) [0..<maxProbe]")
      (auto simp: index_room_def find_None_iff)
  then show ?thesis
    using upsert_view [OF shard_geomD(2) [OF assms(1)] shard_geomD(1) [OF assms(1)] assms(2), of m ticket slot]
    by (simp add: Let_def add_collides_def)
qed

lemma index_room_cong:
  assumes "index_geom x" "index_region m' x = index_region m x"
  shows "index_room m' x key = index_room m x key"
  using read_bucket_cong [OF assms(2) probe_ix_less [OF assms(1)]] by (simp add: index_room_def probe_key_def)

lemma shard_publish:
  fixes key ts :: u64 and flags checksum :: u32
  assumes inv: "shard_inv m r x L" and free: "\<not> ring_full r {} {}" and room: "rT r + rcap r + 1 < 2 ^ 64"
    and len: "length payload \<le> unat (r_payloadCap r)"
    and tick: "ticket \<noteq> 0" "\<And>p. p < rT r \<Longrightarrow> unat (e_ticket (L p)) < unat ticket"
  defines "e \<equiv> entry_of ticket key ts flags payload checksum"
  shows "\<exists>r1 m1 r2 m2 x2 err.
    claim m r = Some ((r_tail r, True), r1) \<and>
    ring_publish m r1 (r_tail r) ticket key ts flags payload checksum = (of_nat (length payload), m1, r2) \<and>
    upsert m1 x key ticket (r_tail r AND r_mask r2) r2 = (m2, x2, err) \<and>
    r2 = r\<lparr>r_tail := r_tail r + 1, r_commit := r_tail r + 1\<rparr> \<and>
    rT r2 = rT r + 1 \<and> shard_inv m2 r2 x2 (L(rT r := e)) \<and> same_table x x2 \<and>
    writes_within (r_base r) (shard_span r x) m m2 \<and>
    (key \<noteq> 0 \<longrightarrow> x_overflows x2 = x_overflows x \<longrightarrow> idx_map m2 x2 key = Some (ticket, of_nat (rT r mod rcap r))) \<and>
    (key \<noteq> 0 \<longrightarrow> index_room m x key \<longrightarrow> x_overflows x2 = x_overflows x)"
proof -
  note I = shard_invD [OF inv]
  note g = shard_geomD [OF I(1)]
  define r1 where "r1 = r\<lparr>r_tail := r_tail r + 1\<rparr>"
  have c: "claim m r = Some ((r_tail r, True), r1)"
    using claim_free [OF ring_invD(1) [OF I(2)] free] by (simp add: r1_def)
  have inv1: "ring_inv m r1 {rT r} {} L" using claim_inv [OF I(2) free room] by (simp add: r1_def)
  have len1: "length payload \<le> unat (r_payloadCap r1)" using len by (simp add: r1_def)
  obtain m1 cm where pub: "ring_publish m r1 (r_tail r) ticket key ts flags payload checksum =
        (of_nat (length payload), m1, r1\<lparr>r_commit := cm\<rparr>)"
    and m1: "m1 = fst (publish_stores m r1 (r_tail r) ticket key ts flags payload checksum)"
    and inv2': "ring_inv m1 (r1\<lparr>r_commit := cm\<rparr>) ({rT r} - {unat (r_tail r)}) {} (L(unat (r_tail r) := e))"
    by (rule ring_publish_spec [OF inv1 singletonI len1, of ticket key ts flags checksum, folded e_def])
  have tail: "unat (r_tail r + 1) = rT r + 1" using room by (simp add: unat_add1)
  have "cm = r_tail r + 1"
    using quiet_commit [of m1 "r1\<lparr>r_commit := cm\<rparr>" "{}"] inv2' tail by (simp add: r1_def word_unat_eq_iff)
  then have r2: "r1\<lparr>r_commit := cm\<rparr> = r\<lparr>r_tail := r_tail r + 1, r_commit := r_tail r + 1\<rparr>" (is "_ = ?r2")
    by (simp add: r1_def)
  have inv2: "ring_inv m1 ?r2 {} {} (L(rT r := e))" using inv2' r2 by simp
  have g2: "shard_geom ?r2 x" "shard_geom r1 x" using I(1) by (simp_all add: r1_def)
  note ix = index_part_frame [OF inv publish_frame [OF g2(2) len1], of "r_tail r" ticket key ts flags checksum,
      folded m1]
  have keep1: "kept m1 ?r2 (L(rT r := e))"
    unfolding m1 e_def by (rule kept_publish [OF g(1) I(5) _ refl len r1_def]) (simp add: tail)
  have tick1: "tickets_inc ?r2 (L(rT r := e))"
    by (rule tickets_publish [OF I(6) _ tick]) (simp_all add: tail e_def entry_of_def)
  let ?slot = "r_tail r AND r_mask ?r2"
  obtain m2 x2 err where up: "upsert m1 x key ticket ?slot ?r2 = (m2, x2, err)"
    by (cases "upsert m1 x key ticket ?slot ?r2")
  have post: "index_inv m2 x2" "same_table x x2" "ring_region m2 ?r2 = ring_region m1 ?r2"
    "index_upd (stale m1 ?r2) (idx_map m1 x) key ticket ?slot (idx_map m2 x2) err"
    "x_live x2 = of_nat (occupied m2 x2)"
    using upsert_correct [OF ix(1) g2(1), of key ticket ?slot] up ix(2) by (simp_all add: upsert_post_def)
  have slot: "?slot = of_nat (rT r mod rcap r)"
  proof -
    from g(1) obtain k where "k < 64" "r_capacity r = 2 ^ k" by (auto simp: ring_geom_def isPow2_iff)
    then have "unat ?slot = rT r mod rcap r" using g(1) by (simp add: ring_geom_def and_mask_mod unat_pow2)
    then show ?thesis by (metis of_nat_unat ucast_id)
  qed
  have inv3: "ring_inv m2 ?r2 {} {} (L(rT r := e))"
    by (rule ring_inv_cong [OF post(3) [symmetric] inv2])
  have "read_cell m2 ?r2 i = read_cell m1 ?r2 i" if "i < rcap r" for i
    using read_cell_cong [OF shard_geomD(1) [OF g2(1)] post(3)] that by simp
  then have keep2: "kept m2 ?r2 (L(rT r := e))"
    using keep1 ring_geom_pos [OF g(1)] by (simp add: kept_def)
  have old: "unat t0 < unat ticket" if "idx_map m1 x k = Some (t0, s0)" for k t0 s0
    using I(7) that tick(2) unfolding ix(3) hints_newest_def
    by (fastforce dest: map_of_SomeD simp: set_klog)
  have "hints_newest (idx_map m2 x2) ((key, ticket, ?slot) # klog (rcap r) L (rT r))"
  proof -
    have x: "xinv (m1, x, ?r2)" "xhints (m1, x, ?r2) = idx_map m1 x" "xput (m1, x, ?r2) key (ticket, ?slot) = (m2, x2, ?r2)"
      using ix(1) g2(1) up by (simp_all add: xinv_def xhints_def xput_def)
    have "hints_newest (xhints (xput (m1, x, ?r2) key (ticket, ?slot))) ((key, ticket, ?slot) # klog (rcap r) L (rT r))"
      by (rule ht.put_newest) (use x I(7) ix(3) tick(2) in \<open>auto simp: set_klog\<close>)
    then show ?thesis using x(3) by (simp add: xhints_def)
  qed
  then have newest: "hints_newest (idx_map m2 x2) (klog (rcap r) (L(rT r := e)) (rT r + 1))"
    using slot by (simp add: klog_Suc klog_upd e_def entry_of_def)
  have own: "idx_map m2 x2 key = Some (ticket, of_nat (rT r mod rcap r))" if "key \<noteq> 0" "x_overflows x2 = x_overflows x"
    using index_upd_keys(1) [OF post(4)] old that slot upsert_overflows [OF g2(1) that(1) up]
    by (simp add: word_less_nat_alt split: if_splits)
  have iroom: "x_overflows x2 = x_overflows x" if "key \<noteq> 0" "index_room m x key"
    using upsert_room [OF g2(1) that(1), of m1 ticket ?slot] up that(2)
      index_room_cong [OF g(2) publish_frame [OF g2(2) len1], of m "r_tail r" ticket key ts flags checksum key, folded m1]
    by simp
  have w1: "writes_within (r_base r) (shard_span r x) m m1"
    using publish_within [OF g2(2) len1] unfolding m1 by (simp add: r1_def)
  have w2: "writes_within (r_base r) (shard_span r x) m1 m2"
    using upsert_within [OF g2(1), of m1 key ticket ?slot] up by simp
  have sinv: "shard_inv m2 ?r2 x2 (L(rT r := e))"
    unfolding shard_inv_def
    using same_table_geom [OF post(2)] g2(1) inv3 post(1,5) keep2 tick1 newest tail by simp
  show ?thesis
    using c pub r2 up sinv post(2) writes_within_trans [OF w1 w2] own iroom tail by (auto simp: r1_def)
qed

lemma empty_index_room:
  assumes "shard_inv m r x L" "rT r = 0"
  shows "index_room m x key"
proof -
  note I = shard_invD [OF assms(1)]
  have i: "probe_ix x key 0 < xcap x" by (rule probe_ix_less [OF shard_geomD(2) [OF I(1)]])
  have "idx_map m x k = None" for k
    using I(7) assms(2) by (cases "idx_map m x k") (auto simp: hints_newest_def klog_def)
  then have "bkey m x (probe_ix x key 0) = 0" using idx_map_at [OF I(3) i refl] by force
  then show ?thesis by (auto simp: index_room_def probe_key_def maxProbe_def intro: exI [of _ 0])
qed

section \<open>Looking up\<close>

lemma cell_record_delivered:
  assumes "holds r v e" "v = read_cell m r (unat slot)" "e_key e = key"
  shows "delivered m (cell_record r key slot v rec) = committed_entry e"
proof -
  have len: "length (e_payload e) < 2 ^ 64" "length (e_payload e) \<le> unat (r_payloadCap r)"
    "take (length (e_payload e)) (cv_payload v) = e_payload e" "cv_length v = of_nat (length (e_payload e))"
    using assms(1) unat_lt64 [of "r_payloadCap r"] by (simp_all add: holds_def)
  then have "slice_bytes m (payloadSlice (cellB r (unat slot)) (cv_length v)) = e_payload e"
    using payloadSlice_bytes [of "cv_length v" r m "unat slot"] assms(2) by (simp add: unat_of_nat64)
  then show ?thesis
    using assms(1,3) by (simp add: delivered_def cell_record_def committed_entry_def holds_def)
qed

text \<open>A position that has left the window shares its cell with a later one that is still in it.\<close>

lemma window_successor:
  assumes "p + n < t" "0 < (n::nat)"
  obtains q where "p < q" "q < t" "t \<le> q + n" "q mod n = p mod n"
proof
  let ?d = "(t - 1 - p) div n"
  have d: "?d * n \<le> t - 1 - p" "t - 1 - p < n + ?d * n"
    using div_times_less_eq_dividend dividend_less_div_times [OF assms(2)] by blast+
  have "0 < ?d" using assms by (simp add: div_greater_zero_iff)
  then have "0 < ?d * n" using assms(2) by simp
  then show "p < p + ?d * n" by simp
  show "p + ?d * n < t" "t \<le> p + ?d * n + n" using d assms(1) by linarith+
  show "(p + ?d * n) mod n = p mod n" by simp
qed

lemma shard_lookup_latest:
  assumes inv: "shard_inv m r x L" and found: "index_lookup m x key r rec = Inr rec'"
  obtains p where "p < rT r" "e_key (L p) = key" "\<And>q. p < q \<Longrightarrow> q < rT r \<Longrightarrow> e_key (L q) \<noteq> key"
    "delivered m rec' = committed_entry (L p)"
proof -
  note I = shard_invD [OF inv]
  note g = shard_geomD(1) [OF I(1)]
  obtain h where h: "idx_map m x key = Some h" "cell_confirms r key h (read_cell m r (unat (snd h)))"
    "rec' = cell_record r key (snd h) (read_cell m r (unat (snd h))) rec"
    using found by (auto simp: index_lookup_eq [OF I(3)] Let_def split: if_splits option.splits)
  have "map_of (klog (rcap r) L (rT r)) key = Some h" using I(7) h(1) unfolding hints_newest_def by blast
  then obtain p where p: "p < rT r" "e_key (L p) = key" "h = (e_ticket (L p), of_nat (p mod rcap r))"
    "\<And>q. p < q \<Longrightarrow> q < rT r \<Longrightarrow> e_key (L q) \<noteq> key" using map_of_klog by blast
  have "p mod rcap r < rcap r" using ring_geom_pos [OF g] by simp
  then have slot: "unat (snd h) = p mod rcap r"
    using p(3) unat_lt64 [of "r_capacity r"] by (simp add: unat_of_nat64)
  have ckey: "cv_key (read_cell m r (p mod rcap r)) = key" using h(2) slot by (simp add: cell_confirms_def)
  have "rT r \<le> p + rcap r"
  proof (rule ccontr)
    assume "\<not> ?thesis"
    then obtain q where q: "p < q" "q < rT r" "rT r \<le> q + rcap r" "q mod rcap r = p mod rcap r"
      using window_successor [of p "rcap r" "rT r"] ring_geom_pos [OF g] by auto
    then have "holds r (read_cell m r (p mod rcap r)) (L q)" using I(5) by (metis kept_def)
    then have "e_key (L q) = key" using ckey by (simp add: holds_def)
    then show False using p(4) q by blast
  qed
  then have "holds r (read_cell m r (p mod rcap r)) (L p)" using I(5) p(1) by (simp add: kept_def)
  then have "delivered m rec' = committed_entry (L p)"
    using cell_record_delivered [of r _ "L p" m "snd h" key rec] slot h(3) p(2) by simp
  then show thesis using that p by blast
qed

text \<open>The newest entry of a key is found as long as its hint is there and its cell not reused.\<close>

lemma shard_lookup_finds:
  assumes inv: "shard_inv m r x L" and p: "p < rT r" "rT r \<le> p + rcap r" "e_key (L p) = key" "key \<noteq> 0"
    and hint: "idx_map m x key = Some (e_ticket (L p), of_nat (p mod rcap r))"
  shows "\<exists>rec'. index_lookup m x key r rec = Inr rec' \<and> delivered m rec' = committed_entry (L p)"
proof -
  note I = shard_invD [OF inv]
  note g = shard_geomD(1) [OF I(1)]
  let ?v = "read_cell m r (p mod rcap r)"
  have hold: "holds r ?v (L p)" using I(5) p by (simp add: kept_def)
  have "p mod rcap r < rcap r" using ring_geom_pos [OF g] by simp
  then have slot: "unat (of_nat (p mod rcap r) :: u64) = p mod rcap r"
    using unat_lt64 [of "r_capacity r"] by (simp add: unat_of_nat64)
  have len: "length (e_payload (L p)) \<le> unat (r_payloadCap r)" using hold by (simp add: holds_def)
  then have "length (e_payload (L p)) < 2 ^ 64" using unat_lt64 [of "r_payloadCap r"] by simp
  then have "cell_confirms r key (e_ticket (L p), of_nat (p mod rcap r)) ?v"
    using hold p(3) I(6) p(1) slot len \<open>p mod rcap r < rcap r\<close>
    by (simp add: cell_confirms_def holds_def tickets_inc_def FlagCommitted_set word_less_nat_alt word_le_nat_alt
        unat_of_nat64)
  then show ?thesis
    using index_lookup_eq [OF I(3), of key r rec] hint p(4) slot
      cell_record_delivered [OF hold _ p(3), of m "of_nat (p mod rcap r)" rec] by simp
qed

section \<open>Other shards are not disturbed\<close>

lemma span_regions:
  assumes "shard_geom r x" "writes_within q n m m'" "apart q n (r_base r) (shard_span r x)"
  shows "ring_region m' r = ring_region m r" "index_region m' x = index_region m x"
proof -
  have span: "load_bytes m' (r_base r) (shard_span r x) = load_bytes m (r_base r) (shard_span r x)"
    by (rule load_outside [OF assms(2,3)])
  show "ring_region m' r = ring_region m r"
    using load_bytes_sub [OF span, of 0 "rcap r * unat (r_stride r)"] by (simp add: ring_region_def)
  show "index_region m' x = index_region m x"
    using load_bytes_sub [OF span, of "rcap r * unat (r_stride r)" "xcap x * 32"] assms(1)
    by (simp add: index_region_def shard_geom_def)
qed

lemma shard_frame:
  assumes inv: "shard_inv m r x L" and w: "writes_within q n m m'" and ap: "apart q n (r_base r) (shard_span r x)"
  shows "shard_inv m' r x L"
proof -
  note I = shard_invD [OF inv]
  note reg = span_regions(1) [OF I(1) w ap] and ireg = span_regions(2) [OF I(1) w ap]
  note ix = index_part_frame [OF inv ireg]
  have "read_cell m' r i = read_cell m r i" if "i < rcap r" for i
    by (rule read_cell_cong [OF shard_geomD(1) [OF I(1)] reg that])
  then have "kept m' r L" using I(5) ring_geom_pos [OF shard_geomD(1) [OF I(1)]] by (simp add: kept_def)
  then show ?thesis
    unfolding shard_inv_def using I ix ring_inv_cong [OF reg [symmetric] I(2)] by simp
qed

section \<open>A new shard\<close>

lemma shard_init:
  assumes ring: "initRing m base cells payloadCap epoch = Inr (m1, r)"
    and idx: "initIndex m1 (base + ringBytes cells payloadCap) buckets = Inr (m2, x)"
    and fits: "unat payloadCap + 127 < 2 ^ 64" "2 \<le> unat cells"
      "unat cells * unat (cellStrideFor payloadCap) + unat buckets * 32 \<le> 2 ^ 64"
  shows "shard_inv m2 r x L" "rT r = 0" "rH r = 0" "r_payloadCap r = payloadCap" "r_base r = base"
    "shard_span r x = unat cells * unat (cellStrideFor payloadCap) + unat buckets * 32" "rcap r = unat cells"
    "writes_within base (unat cells * unat (cellStrideFor payloadCap) + unat buckets * 32) m m2"
proof -
  have ringfit: "unat cells * unat (cellStrideFor payloadCap) \<le> 2 ^ 64" using fits(3) by simp
  note R = initRing_geom [OF ring fits(1) ringfit]
  have S: "r_stride r = cellStrideFor payloadCap" using R(1,3) by (simp add: ring_geom_def)
  have bfit: "unat buckets * 32 \<le> 2 ^ 64" using fits(3) by simp
  note X = initIndex_okD [OF idx bfit]
  note E = initIndex_empty [OF idx bfit]
  have rb: "ringBytes cells payloadCap = of_nat (rcap r * unat (r_stride r))"
    using R(2) S by (simp add: ringBytes_def)
  have g: "shard_geom r x" using R X S rb fits(3) by (simp add: shard_geom_def)
  have rinv: "ring_inv m1 r {} {} L" by (rule initRing_inv [OF ring fits(1) ringfit fits(2)])
  have "ring_region m2 r = ring_region m1 r" using init_buckets_frame [OF g order_refl] X(4) by simp
  from ring_inv_cong [OF this [symmetric] rinv] g E R(5)
  show "shard_inv m2 r x L"
    by (simp add: shard_inv_def kept_def tickets_inc_def hints_newest_def)
  show "rT r = 0" "rH r = 0" "r_payloadCap r = payloadCap" "r_base r = base" "rcap r = unat cells"
    using R by simp_all
  show span: "shard_span r x = unat cells * unat (cellStrideFor payloadCap) + unat buckets * 32"
    using R(2) S X(3) by simp
  have w1: "writes_within (r_base r) (shard_span r x) m (fold (init_cell (r_base r) (r_stride r) epoch) [0..<n] m)"
    if "n \<le> rcap r" for n
    using that
  proof (induction n)
    case (Suc n)
    note W = cell_store_within [OF g, of n]
    have "writes_within (r_base r) (shard_span r x) m'' (init_cell (r_base r) (r_stride r) epoch n m'')" for m''
      unfolding init_cell_def Let_def cellB_def [symmetric]
      by (rule writes_within_trans [OF _ W(1)] writes_within_trans [OF _ W(2)] W(1) | use Suc.prems in simp)+
    with Suc show ?case by (auto intro: writes_within_trans)
  qed simp
  have w2: "writes_within (r_base r) (shard_span r x) m1 (fold (init_bucket (x_base x)) [0..<n] m1)"
    if "n \<le> xcap x" for n
    using that
  proof (induction n)
    case (Suc n)
    note W = bucket_store_within [OF g, of n]
    have "writes_within (r_base r) (shard_span r x) m'' (init_bucket (x_base x) n m'')" for m''
      unfolding init_bucket_def Let_def bucketB_def [symmetric]
      by (rule writes_within_trans [OF _ W] W | use Suc.prems in simp)+
    with Suc show ?case by (auto intro: writes_within_trans)
  qed simp
  show "writes_within base (unat cells * unat (cellStrideFor payloadCap) + unat buckets * 32) m m2"
    using writes_within_trans [OF w1 [OF order_refl] w2 [OF order_refl, unfolded R(9)]] R(4,9) X(4) span by simp
qed

end
