(* ===== verification/Gate.thy ===== *)
theory Gate
  imports Memory
begin

text \<open>\<^verbatim>\<open>gate.go\<close>: the backpressure valve, a latch with two states and three counters.\<close>

definition gateOpen :: u64 where "gateOpen = 0"
definition gateClosed :: u64 where "gateClosed = 1"

record gate =
  g_state :: padU64
  g_closes :: padU64
  g_opens :: padU64
  g_rejects :: padU64
  g_highPct :: u64
  g_lowPct :: u64

definition zero_gate :: gate where
  "zero_gate = \<lparr>g_state = 0, g_closes = 0, g_opens = 0, g_rejects = 0, g_highPct = 0, g_lowPct = 0\<rparr>"

definition initGate :: "gate \<Rightarrow> u64 \<Rightarrow> u64 \<Rightarrow> error + gate" where
  "initGate g highPct lowPct =
     (if highPct = 0 \<or> highPct > 100 \<or> lowPct \<ge> highPct then Inl ErrConfig
      else Inr (g\<lparr>g_highPct := highPct, g_lowPct := lowPct, g_state := gateOpen\<rparr>))"

definition isClosed :: "gate \<Rightarrow> bool" where
  "isClosed g \<longleftrightarrow> g_state g = gateClosed"

definition reject :: "gate \<Rightarrow> gate" where
  "reject g = g\<lparr>g_rejects := fst (atomicAdd64 (g_rejects g) 1)\<rparr>"

definition shut :: "gate \<Rightarrow> gate \<times> bool" where
  "shut g =
     (case atomicCAS64 (g_state g) gateOpen gateClosed of (s, ok) \<Rightarrow>
        if ok then (g\<lparr>g_state := s, g_closes := fst (atomicAdd64 (g_closes g) 1)\<rparr>, True)
        else (g\<lparr>g_state := s\<rparr>, False))"

definition gate_release :: "gate \<Rightarrow> gate \<times> bool" where
  "gate_release g =
     (case atomicCAS64 (g_state g) gateClosed gateOpen of (s, ok) \<Rightarrow>
        if ok then (g\<lparr>g_state := s, g_opens := fst (atomicAdd64 (g_opens g) 1)\<rparr>, True)
        else (g\<lparr>g_state := s\<rparr>, False))"

definition forceOpen :: "gate \<Rightarrow> gate" where
  "forceOpen g = g\<lparr>g_state := gateOpen\<rparr>"

record GateStats =
  Closed :: bool
  CloseCount :: u64
  OpenCount :: u64
  RejectedCount :: u64
  HighWaterPct :: u64
  LowWaterPct :: u64

definition gate_stats :: "gate \<Rightarrow> GateStats" where
  "gate_stats g = \<lparr>Closed = isClosed g, CloseCount = g_closes g, OpenCount = g_opens g,
     RejectedCount = g_rejects g, HighWaterPct = g_highPct g, LowWaterPct = g_lowPct g\<rparr>"

lemmas gate_defs = gateOpen_def gateClosed_def isClosed_def reject_def shut_def gate_release_def
  forceOpen_def atomicCAS64_def atomicAdd64_def

section \<open>Transitions\<close>

datatype gate_op = Shut | Release | Reject

fun gate_step :: "gate \<Rightarrow> gate_op \<Rightarrow> gate \<times> bool" where
  "gate_step g Shut = shut g"
| "gate_step g Release = gate_release g"
| "gate_step g Reject = (reject g, False)"

fun gate_run :: "gate \<Rightarrow> gate_op list \<Rightarrow> gate \<times> bool list" where
  "gate_run g [] = (g, [])"
| "gate_run g (op # ops) =
     (case gate_step g op of (g', b) \<Rightarrow> case gate_run g' ops of (g'', bs) \<Rightarrow> (g'', b # bs))"

definition gate_ok :: "gate \<Rightarrow> bool" where
  "gate_ok g \<longleftrightarrow> g_state g \<in> {gateOpen, gateClosed} \<and>
     g_closes g = g_opens g + (if isClosed g then 1 else 0)"

lemma gate_step_ok: "gate_ok g \<Longrightarrow> gate_ok (fst (gate_step g op))"
  by (cases op) (auto simp: gate_ok_def gate_defs)

lemma gate_run_ok: "gate_ok g \<Longrightarrow> gate_ok (fst (gate_run g ops))"
proof (induction g ops rule: gate_run.induct)
  case (2 g op ops)
  then show ?case using gate_step_ok [of g op] by (auto split: prod.splits)
qed simp

text \<open>The number of calls of one kind that report having moved the latch.\<close>

definition moved :: "gate_op \<Rightarrow> gate_op list \<Rightarrow> bool list \<Rightarrow> nat" where
  "moved k ops bs = length (filter (\<lambda>(op, b). op = k \<and> b) (zip ops bs))"

lemma gate_run_counts:
  "gate_run g ops = (g', bs) \<Longrightarrow>
   g_closes g' = g_closes g + of_nat (moved Shut ops bs) \<and>
   g_opens g' = g_opens g + of_nat (moved Release ops bs)"
proof (induction g ops arbitrary: g' bs rule: gate_run.induct)
  case (2 g op ops)
  obtain g1 b where s: "gate_step g op = (g1, b)" by (cases "gate_step g op")
  obtain g2 bs2 where r: "gate_run g1 ops = (g2, bs2)" by (cases "gate_run g1 ops")
  have "g' = g2" "bs = b # bs2" using "2.prems" s r by simp_all
  with "2.IH" [OF s [symmetric] r] s show ?case
    by (cases op) (auto simp: moved_def gate_defs split: if_splits)
qed (simp add: moved_def)

text \<open>
  From construction on, whatever the order in which \<^verbatim>\<open>shut\<close>, \<^verbatim>\<open>release\<close> and \<^verbatim>\<open>reject\<close> are called,
  the latch is open or closed, the two transition counters count exactly the calls that
  reported a transition, and the transitions alternate: the number of closings exceeds the
  number of openings by one while the gate is shut and equals it while the gate is open.
\<close>
theorem gate_transitions_exact:
  assumes "initGate zero_gate high low = Inr g0" "gate_run g0 ops = (g, bs)"
  shows "g_state g \<in> {gateOpen, gateClosed} \<and>
    g_closes g = of_nat (moved Shut ops bs) \<and> g_opens g = of_nat (moved Release ops bs) \<and>
    g_closes g = g_opens g + (if isClosed g then 1 else 0)"
proof -
  have z: "g_closes g0 = 0" "g_opens g0 = 0" "g_state g0 = gateOpen"
    using assms(1) by (auto simp: initGate_def zero_gate_def split: if_splits)
  then have "gate_ok g0" by (simp add: gate_ok_def gate_defs)
  from gate_run_ok [OF this, of ops] gate_run_counts [OF assms(2)] z assms(2)
  show ?thesis by (simp add: gate_ok_def)
qed

theorem gate_transitions_exact_witness:
  "\<exists>g. gate_run (zero_gate\<lparr>g_highPct := 90, g_lowPct := 70\<rparr>) [Shut, Shut, Reject, Release, Release] =
     (g, [True, False, False, True, False]) \<and> g_closes g = g_opens g"
proof -
  have i: "initGate zero_gate 90 70 = Inr (zero_gate\<lparr>g_highPct := 90, g_lowPct := 70\<rparr>)"
    by (simp add: initGate_def zero_gate_def gate_defs)
  obtain g where r: "gate_run (zero_gate\<lparr>g_highPct := 90, g_lowPct := 70\<rparr>)
      [Shut, Shut, Reject, Release, Release] = (g, [True, False, False, True, False])"
    by (simp add: zero_gate_def gate_defs)
  from gate_transitions_exact [OF i r] have "g_closes g = g_opens g"
    using r by (auto simp: zero_gate_def gate_defs)
  with r show ?thesis by blast
qed

end
