(* ===== verification/Arena.thy ===== *)
theory Arena
  imports Memory
begin

text \<open>
  \<^verbatim>\<open>arena.go\<close> and its platform files. The kernel is a parameter: a record of the system calls
  the sources issue, each a function on a kernel state. The \<^verbatim>\<open>sys*\<close> functions of each platform
  are built from it, and \<^verbatim>\<open>NewArena\<close>, \<^verbatim>\<open>prefault\<close>, \<^verbatim>\<open>Zero\<close>, \<^verbatim>\<open>Stats\<close> and \<^verbatim>\<open>Close\<close> from those.
\<close>

section \<open>System calls\<close>

text \<open>Raw system calls give a result word and an errno, zero for success.\<close>

record 'k kernel =
  k_mmap :: "u64 \<Rightarrow> u64 \<Rightarrow> u64 \<Rightarrow> 'k \<Rightarrow> (u64 \<times> u64) \<times> 'k"
  k_munmap :: "u64 \<Rightarrow> u64 \<Rightarrow> 'k \<Rightarrow> u64 \<times> 'k"
  k_madvise :: "u64 \<Rightarrow> u64 \<Rightarrow> u64 \<Rightarrow> 'k \<Rightarrow> u64 \<times> 'k"
  k_mlock :: "u64 \<Rightarrow> u64 \<Rightarrow> 'k \<Rightarrow> u64 \<times> 'k"
  k_munlock :: "u64 \<Rightarrow> u64 \<Rightarrow> 'k \<Rightarrow> u64 \<times> 'k"
  k_setaffinity :: "u64 list \<Rightarrow> 'k \<Rightarrow> u64 \<times> 'k"
  k_pagesize :: u64

text \<open>The functions a platform file provides to \<^verbatim>\<open>arena.go\<close> and \<^verbatim>\<open>fabric.go\<close>.\<close>

record 'k sys =
  sysMapAnon :: "u64 \<Rightarrow> 'k \<Rightarrow> (error + u64) \<times> 'k"
  sysMapHuge :: "u64 \<Rightarrow> 'k \<Rightarrow> (error + u64) \<times> 'k"
  sysUnmap :: "u64 \<Rightarrow> u64 \<Rightarrow> 'k \<Rightarrow> error option \<times> 'k"
  sysAdviseHuge :: "u64 \<Rightarrow> u64 \<Rightarrow> 'k \<Rightarrow> error option \<times> 'k"
  sysPin :: "u64 \<Rightarrow> u64 \<Rightarrow> 'k \<Rightarrow> error option \<times> 'k"
  sysUnpin :: "u64 \<Rightarrow> u64 \<Rightarrow> 'k \<Rightarrow> error option \<times> 'k"
  sysPinThreadToCore :: "int \<Rightarrow> 'k \<Rightarrow> error option \<times> 'k"
  sysPageSize :: u64

definition HugePageSize :: u64 where "HugePageSize = push_bit 20 2"

definition errno_result :: "u64 \<times> 'k \<Rightarrow> error option \<times> 'k" where
  "errno_result res = (case res of (errno, k) \<Rightarrow> (if errno \<noteq> 0 then Some (Errno errno) else None, k))"

definition mmap_result :: "(u64 \<times> u64) \<times> 'k \<Rightarrow> (error + u64) \<times> 'k" where
  "mmap_result res = (case res of ((r, errno), k) \<Rightarrow> (if errno \<noteq> 0 then Inl (Errno errno) else Inr r, k))"

subsection \<open>Linux\<close>

definition sysMapHugetlb :: u64 where "sysMapHugetlb = 0x40000"
definition sysMapHugeShift :: nat where "sysMapHugeShift = 26"
definition sysMapHuge2MB :: u64 where "sysMapHuge2MB = push_bit sysMapHugeShift 21"
definition sysMadvHugepage :: u64 where "sysMadvHugepage = 14"
definition sysMadvDontFork :: u64 where "sysMadvDontFork = 10"

text \<open>\<^verbatim>\<open>MAP_PRIVATE|MAP_ANONYMOUS\<close> of the Linux and of the Darwin headers.\<close>

definition linux_private_anon :: u64 where "linux_private_anon = 0x22"
definition darwin_private_anon :: u64 where "darwin_private_anon = 0x1002"

definition linux_sysMapAnon :: "'k kernel \<Rightarrow> u64 \<Rightarrow> 'k \<Rightarrow> (error + u64) \<times> 'k" where
  "linux_sysMapAnon K len k = mmap_result (k_mmap K len linux_private_anon (NOT 0) k)"

definition linux_sysMapHuge :: "'k kernel \<Rightarrow> u64 \<Rightarrow> 'k \<Rightarrow> (error + u64) \<times> 'k" where
  "linux_sysMapHuge K len k =
     (if len mod HugePageSize \<noteq> 0 then (Inl ErrConfig, k)
      else mmap_result (k_mmap K len (linux_private_anon OR sysMapHugetlb OR sysMapHuge2MB) (NOT 0) k))"

definition linux_sysUnmap :: "'k kernel \<Rightarrow> u64 \<Rightarrow> u64 \<Rightarrow> 'k \<Rightarrow> error option \<times> 'k" where
  "linux_sysUnmap K p len k =
     (if p = 0 \<or> len = 0 then (None, k) else errno_result (k_munmap K p len k))"

definition linux_sysAdviseHuge :: "'k kernel \<Rightarrow> u64 \<Rightarrow> u64 \<Rightarrow> 'k \<Rightarrow> error option \<times> 'k" where
  "linux_sysAdviseHuge K p len k =
     (case k_madvise K p len sysMadvHugepage k of (errno, k1) \<Rightarrow>
        if errno \<noteq> 0 then (Some (Errno errno), k1)
        else (None, snd (k_madvise K p len sysMadvDontFork k1)))"

definition linux_sysPin :: "'k kernel \<Rightarrow> u64 \<Rightarrow> u64 \<Rightarrow> 'k \<Rightarrow> error option \<times> 'k" where
  "linux_sysPin K p len k = errno_result (k_mlock K p len k)"

definition linux_sysUnpin :: "'k kernel \<Rightarrow> u64 \<Rightarrow> u64 \<Rightarrow> 'k \<Rightarrow> error option \<times> 'k" where
  "linux_sysUnpin K p len k = errno_result (k_munlock K p len k)"

definition linux_sysPinThreadToCore :: "'k kernel \<Rightarrow> int \<Rightarrow> 'k \<Rightarrow> error option \<times> 'k" where
  "linux_sysPinThreadToCore K core k =
     (let setWords = 1024 div 64; set = replicate setWords (0 :: u64) in
      if core < 0 \<or> core \<ge> 1024 then (Some ErrConfig, k)
      else let w = nat core div 64;
               set' = set[w := set ! w OR push_bit (nat core mod 64) 1]
           in errno_result (k_setaffinity K set' k))"

definition linux_sys :: "'k kernel \<Rightarrow> 'k sys" where
  "linux_sys K = \<lparr>sysMapAnon = linux_sysMapAnon K, sysMapHuge = linux_sysMapHuge K,
     sysUnmap = linux_sysUnmap K, sysAdviseHuge = linux_sysAdviseHuge K, sysPin = linux_sysPin K,
     sysUnpin = linux_sysUnpin K, sysPinThreadToCore = linux_sysPinThreadToCore K,
     sysPageSize = k_pagesize K\<rparr>"

subsection \<open>Darwin\<close>

definition sysVMFlagsSuperpage2MB :: u64 where "sysVMFlagsSuperpage2MB = push_bit 16 2"
definition sysMadvWillNeed :: u64 where "sysMadvWillNeed = 3"

definition darwin_sysMapAnon :: "'k kernel \<Rightarrow> u64 \<Rightarrow> 'k \<Rightarrow> (error + u64) \<times> 'k" where
  "darwin_sysMapAnon K len k = mmap_result (k_mmap K len darwin_private_anon (NOT 0) k)"

definition darwin_sysMapHuge :: "'k kernel \<Rightarrow> u64 \<Rightarrow> 'k \<Rightarrow> (error + u64) \<times> 'k" where
  "darwin_sysMapHuge K len k =
     (if len mod HugePageSize \<noteq> 0 then (Inl ErrConfig, k)
      else mmap_result (k_mmap K len darwin_private_anon sysVMFlagsSuperpage2MB k))"

definition darwin_sysUnmap :: "'k kernel \<Rightarrow> u64 \<Rightarrow> u64 \<Rightarrow> 'k \<Rightarrow> error option \<times> 'k" where
  "darwin_sysUnmap K p len k =
     (if p = 0 \<or> len = 0 then (None, k) else errno_result (k_munmap K p len k))"

definition darwin_sysAdviseHuge :: "'k kernel \<Rightarrow> u64 \<Rightarrow> u64 \<Rightarrow> 'k \<Rightarrow> error option \<times> 'k" where
  "darwin_sysAdviseHuge K p len k =
     (case k_madvise K p len sysMadvWillNeed k of (errno, k1) \<Rightarrow>
        if errno \<noteq> 0 then (Some (Errno errno), k1) else (Some ErrUnsupportedPlatform, k1))"

definition darwin_sysPin :: "'k kernel \<Rightarrow> u64 \<Rightarrow> u64 \<Rightarrow> 'k \<Rightarrow> error option \<times> 'k" where
  "darwin_sysPin K p len k = errno_result (k_mlock K p len k)"

definition darwin_sysUnpin :: "'k kernel \<Rightarrow> u64 \<Rightarrow> u64 \<Rightarrow> 'k \<Rightarrow> error option \<times> 'k" where
  "darwin_sysUnpin K p len k = errno_result (k_munlock K p len k)"

definition darwin_sysPinThreadToCore :: "int \<Rightarrow> 'k \<Rightarrow> error option \<times> 'k" where
  "darwin_sysPinThreadToCore core k = (Some ErrUnsupportedPlatform, k)"

definition darwin_sys :: "'k kernel \<Rightarrow> 'k sys" where
  "darwin_sys K = \<lparr>sysMapAnon = darwin_sysMapAnon K, sysMapHuge = darwin_sysMapHuge K,
     sysUnmap = darwin_sysUnmap K, sysAdviseHuge = darwin_sysAdviseHuge K, sysPin = darwin_sysPin K,
     sysUnpin = darwin_sysUnpin K, sysPinThreadToCore = darwin_sysPinThreadToCore,
     sysPageSize = k_pagesize K\<rparr>"

subsection \<open>Other platforms\<close>

definition unsupported_map :: "u64 \<Rightarrow> 'k \<Rightarrow> (error + u64) \<times> 'k" where
  "unsupported_map len k = (Inl ErrUnsupportedPlatform, k)"

definition unsupported_call :: "u64 \<Rightarrow> u64 \<Rightarrow> 'k \<Rightarrow> error option \<times> 'k" where
  "unsupported_call p len k = (Some ErrUnsupportedPlatform, k)"

definition unsupported_sysPinThreadToCore :: "int \<Rightarrow> 'k \<Rightarrow> error option \<times> 'k" where
  "unsupported_sysPinThreadToCore core k = (Some ErrUnsupportedPlatform, k)"

definition unsupported_sys :: "u64 \<Rightarrow> 'k sys" where
  "unsupported_sys pagesize = \<lparr>sysMapAnon = unsupported_map, sysMapHuge = unsupported_map,
     sysUnmap = unsupported_call, sysAdviseHuge = unsupported_call, sysPin = unsupported_call,
     sysUnpin = unsupported_call, sysPinThreadToCore = unsupported_sysPinThreadToCore,
     sysPageSize = pagesize\<rparr>"

section \<open>Arenas\<close>

record Arena =
  a_base :: u64
  a_size :: u64
  a_raw :: u64
  a_rawSize :: u64
  a_pageSize :: u64
  a_hugeNative :: bool
  a_hugeAdvised :: bool
  a_pinned :: bool

record ArenaStats =
  as_Base :: u64
  as_Size :: u64
  as_MappedSize :: u64
  as_PageSize :: u64
  as_HugePageAligned :: bool
  as_HugePagesNative :: bool
  as_HugePagesAdvise :: bool
  as_Pinned :: bool

text \<open>The touching loop of \<^verbatim>\<open>prefault\<close>; \<open>None\<close> would be a loop that never ends.\<close>

partial_function (option) prefault_from :: "u64 \<Rightarrow> u64 \<Rightarrow> u64 \<Rightarrow> u64 \<Rightarrow> mem \<Rightarrow> mem option" where
  "prefault_from base sz stride off m =
     (if off < sz then prefault_from base sz stride (off + stride) (m(base + off := 0)) else Some m)"

definition prefault_stride :: "Arena \<Rightarrow> u64" where
  "prefault_stride a = (if a_hugeNative a \<or> a_hugeAdvised a then HugePageSize else a_pageSize a)"

definition prefault :: "mem \<Rightarrow> Arena \<Rightarrow> mem option" where
  "prefault m a = prefault_from (a_base a) (a_size a) (prefault_stride a) 0 m"

text \<open>Tier 2 of \<^verbatim>\<open>NewArena\<close>: map one huge page more than needed, round up, give back the slack.
  \<open>trim_window\<close> is the part after the address arithmetic.\<close>

definition trim_window :: "'k sys \<Rightarrow> Arena \<Rightarrow> bool \<Rightarrow> u64 \<Rightarrow> u64 \<Rightarrow> u64 \<Rightarrow> u64 \<Rightarrow> 'k \<Rightarrow> (error + Arena) \<times> 'k" where
  "trim_window S a requireHuge p rawSize headSlack tailSlack k1 =
     (let sz = a_size a in
      case (if headSlack > 0 then sysUnmap S p headSlack k1 else (None, k1)) of
        (Some err, k2) \<Rightarrow> (Inl err, snd (sysUnmap S p rawSize k2))
      | (None, k2) \<Rightarrow>
          (case (if tailSlack > 0 then sysUnmap S (p + (headSlack + sz)) tailSlack k2 else (None, k2)) of
             (Some err, k3) \<Rightarrow> (Inl err, snd (sysUnmap S (p + headSlack) sz k3))
           | (None, k3) \<Rightarrow>
               (let a1 = a\<lparr>a_base := p + headSlack, a_raw := p + headSlack, a_rawSize := sz\<rparr> in
                case sysAdviseHuge S (a_base a1) sz k3 of
                  (None, k4) \<Rightarrow> (Inr (a1\<lparr>a_hugeAdvised := True\<rparr>), k4)
                | (Some err, k4) \<Rightarrow>
                    if requireHuge then (Inl err, snd (sysUnmap S (a_base a1) sz k4))
                    else (Inr a1, k4))))"

definition map_trim :: "'k sys \<Rightarrow> Arena \<Rightarrow> bool \<Rightarrow> 'k \<Rightarrow> (error + Arena) \<times> 'k" where
  "map_trim S a requireHuge k =
     (let sz = a_size a; rawSize = sz + HugePageSize in
      case sysMapAnon S rawSize k of
        (Inl err, k1) \<Rightarrow> (Inl err, k1)
      | (Inr p, k1) \<Rightarrow>
          (let rawAddr = p;
               baseAddr = alignUp rawAddr HugePageSize;
               headSlack = baseAddr - rawAddr;
               tailSlack = rawSize - headSlack - sz
           in trim_window S a requireHuge p rawSize headSlack tailSlack k1))"

text \<open>The two tiers of \<^verbatim>\<open>NewArena\<close>.\<close>

definition map_span :: "'k sys \<Rightarrow> Arena \<Rightarrow> bool \<Rightarrow> 'k \<Rightarrow> (error + Arena) \<times> 'k" where
  "map_span S a requireHuge k =
     (case sysMapHuge S (a_size a) k of
        (Inr p, k1) \<Rightarrow>
          (Inr (a\<lparr>a_raw := p, a_rawSize := a_size a, a_base := p, a_hugeNative := True\<rparr>), k1)
      | (Inl err, k1) \<Rightarrow> if requireHuge then (Inl err, k1) else map_trim S a requireHuge k1)"

definition zero_Arena :: Arena where
  "zero_Arena = \<lparr>a_base = 0, a_size = 0, a_raw = 0, a_rawSize = 0, a_pageSize = 0,
     a_hugeNative = False, a_hugeAdvised = False, a_pinned = False\<rparr>"

definition NewArena :: "'k sys \<Rightarrow> u64 \<Rightarrow> bool \<Rightarrow> bool \<Rightarrow> mem \<Rightarrow> 'k \<Rightarrow> ((error + Arena) \<times> mem \<times> 'k) option" where
  "NewArena S request requireHuge requirePinned m k =
     (if request = 0 then Some (Inl ErrConfig, m, k)
      else let pageSize = sysPageSize S in
      if \<not> isPow2 pageSize then Some (Inl ErrConfig, m, k)
      else let sz = alignUp request HugePageSize in
      case map_span S (zero_Arena\<lparr>a_size := sz, a_pageSize := pageSize\<rparr>) requireHuge k of
        (Inl err, k1) \<Rightarrow> Some (Inl err, m, k1)
      | (Inr a, k1) \<Rightarrow>
          if \<not> isAligned (a_base a) HugePageSize
          then Some (Inl ErrConfig, m, snd (sysUnmap S (a_raw a) (a_rawSize a) k1))
          else (case prefault m a of
              None \<Rightarrow> None
            | Some m1 \<Rightarrow>
                (case sysPin S (a_base a) (a_size a) k1 of
                   (None, k2) \<Rightarrow> Some (Inr (a\<lparr>a_pinned := True\<rparr>), m1, k2)
                 | (Some _, k2) \<Rightarrow>
                     if requirePinned
                     then Some (Inl ErrPinFailed, m1, snd (sysUnmap S (a_raw a) (a_rawSize a) k2))
                     else Some (Inr a, m1, k2))))"

definition arena_At :: "Arena \<Rightarrow> u64 \<Rightarrow> u64" where
  "arena_At a off = a_base a + off"

text \<open>\<^verbatim>\<open>Bytes\<close> is the whole span as a slice; \<^verbatim>\<open>Zero\<close> clears it.\<close>

definition arena_Bytes :: "Arena \<Rightarrow> slice" where
  "arena_Bytes a = \<lparr>sl_ptr = a_base a, sl_len = unat (a_size a)\<rparr>"

definition arena_Zero :: "mem \<Rightarrow> Arena \<Rightarrow> mem" where
  "arena_Zero m a = store_bytes m (sl_ptr (arena_Bytes a)) (replicate (sl_len (arena_Bytes a)) 0)"

definition arena_Stats :: "Arena \<Rightarrow> ArenaStats" where
  "arena_Stats a = \<lparr>as_Base = a_base a, as_Size = a_size a, as_MappedSize = a_rawSize a,
     as_PageSize = a_pageSize a, as_HugePageAligned = isAligned (a_base a) HugePageSize,
     as_HugePagesNative = a_hugeNative a, as_HugePagesAdvise = a_hugeAdvised a, as_Pinned = a_pinned a\<rparr>"

definition arena_Close :: "'k sys \<Rightarrow> Arena \<Rightarrow> 'k \<Rightarrow> error option \<times> Arena \<times> 'k" where
  "arena_Close S a k =
     (if a_base a = 0 then (None, a, k)
      else let (a1, k1) = (if a_pinned a then (a\<lparr>a_pinned := False\<rparr>, snd (sysUnpin S (a_base a) (a_size a) k))
                           else (a, k));
               (err, k2) = sysUnmap S (a_raw a1) (a_rawSize a1) k1
           in (err, a1\<lparr>a_base := 0, a_raw := 0, a_size := 0, a_rawSize := 0\<rparr>, k2))"

end
