(* ===== verification/Fabric.thy ===== *)
theory Fabric
  imports Index Gate Arena
begin

text \<open>
  \<^verbatim>\<open>fabric.go\<close>: the engine. An engine is one record; the control blocks that the sources keep in
  the control arena are typed Go structs and are modelled by their values, the data arenas by
  byte memory. Calls are translated as a thread runs them without interference; \<open>outcome\<close>
  makes a fault through a cleared control pointer and a call that never returns visible. The clock reading of
  \<^verbatim>\<open>time.Now\<close>, the processor count and the system calls are parameters. A handler reads memory
  and a record and updates a state of its own.
\<close>

datatype 'a outcome = Returned 'a | NilDeref | Hangs

type_synonym 'h handler = "mem \<Rightarrow> Record \<Rightarrow> 'h \<Rightarrow> 'h"

section \<open>Configuration\<close>

text \<open>\<^verbatim>\<open>Shards\<close>, \<^verbatim>\<open>PayloadCapacity\<close> and \<^verbatim>\<open>CoarseClock\<close> are signed 64-bit integers, read with
  \<open>sint\<close>. \<open>c_Consumer\<close> says whether \<^verbatim>\<open>Consumer\<close> is non-nil.\<close>

record Config =
  c_Shards :: u64
  c_CellsPerShard :: u64
  c_PayloadCapacity :: u64
  c_HighWaterPct :: u64
  c_LowWaterPct :: u64
  c_IndexBucketsPerCell :: u64
  c_RequireHugePages :: bool
  c_RequirePinned :: bool
  c_Checksums :: bool
  c_PinWorkerThreads :: bool
  c_CoarseClock :: u64
  c_Consumer :: bool

definition DefaultConfig :: "u64 \<Rightarrow> Config" where
  "DefaultConfig gomaxprocs = \<lparr>c_Shards = gomaxprocs, c_CellsPerShard = push_bit 16 1, c_PayloadCapacity = 448,
     c_HighWaterPct = 90, c_LowWaterPct = 70, c_IndexBucketsPerCell = 2, c_RequireHugePages = False,
     c_RequirePinned = False, c_Checksums = True, c_PinWorkerThreads = True, c_CoarseClock = 0,
     c_Consumer = False\<rparr>"

text \<open>The rounding loop of \<^verbatim>\<open>normalize\<close>.\<close>

partial_function (option) round_shards :: "u64 \<Rightarrow> u64 \<Rightarrow> u64 option" where
  "round_shards shards n = (if sint n < sint shards then round_shards shards (push_bit 1 n) else Some n)"

text \<open>\<^verbatim>\<open>normalize\<close> after the shard count: defaults and validation.\<close>

definition normalize_rest :: "Config \<Rightarrow> error + Config" where
  "normalize_rest c0 =
     (let c1 = (if c_CellsPerShard c0 = 0 then c0\<lparr>c_CellsPerShard := push_bit 16 1\<rparr> else c0) in
      if \<not> isPow2 (c_CellsPerShard c1) then Inl ErrConfig
      else if sint (c_PayloadCapacity c1) < 0 then Inl ErrConfig
      else let c2 = (if c_PayloadCapacity c1 = 0 then c1\<lparr>c_PayloadCapacity := 448\<rparr> else c1);
               c3 = (if c_HighWaterPct c2 = 0 then c2\<lparr>c_HighWaterPct := 90\<rparr> else c2);
               c4 = (if c_LowWaterPct c3 = 0 then c3\<lparr>c_LowWaterPct := 70\<rparr> else c3);
               c5 = (if c_IndexBucketsPerCell c4 = 0 then c4\<lparr>c_IndexBucketsPerCell := 2\<rparr> else c4) in
      if \<not> isPow2 (c_IndexBucketsPerCell c5) then Inl ErrConfig
      else if c_HighWaterPct c5 > 100 \<or> c_LowWaterPct c5 \<ge> c_HighWaterPct c5 then Inl ErrConfig
      else Inr c5)"

definition normalize :: "u64 \<Rightarrow> Config \<Rightarrow> (error + Config) option" where
  "normalize gomaxprocs c =
     (let shards = (if sint (c_Shards c) \<le> 0 then gomaxprocs else c_Shards c) in
      case round_shards shards 1 of
        None \<Rightarrow> None
      | Some n \<Rightarrow> Some (normalize_rest (c\<lparr>c_Shards := n\<rparr>)))"

section \<open>The control plane\<close>

record globalCtl =
  ctl_ticket :: padU64
  ctl_running :: padU64
  ctl_epoch :: padU64
  ctl_dropped :: padU64
  ctl_saturated :: padU64
  ctl_clock :: padU64

definition globalCtl_t :: gotype where
  "globalCtl_t = GStruct (replicate 6 padU64_t)"

record shard =
  sh_ring :: ring
  sh_index :: keyIndex
  sh_arenaBase :: u64
  sh_arenaSize :: u64
  sh_id :: u64
  sh_hot :: padU64
  sh_ingested :: padU64
  sh_consumed :: padU64
  sh_rejected :: padU64

definition shard_t :: gotype where
  "shard_t = GStruct [ring_t, keyIndex_t, GPointer, GUint64, GUint64,
     GArray (unat (CoherenceStride - 24)) GByte, padU64_t, padU64_t, padU64_t, padU64_t]"

definition shardStride :: u64 where
  "shardStride = alignUp (of_nat (sizeof shard_t)) CoherenceStride"

definition ctlHeader :: u64 where
  "ctlHeader = alignUp (of_nat (sizeof globalCtl_t)) CoherenceStride"

text \<open>\<open>v_nil\<close> is true once \<^verbatim>\<open>Close\<close> has cleared the control pointers; until then \<open>v_ctl\<close> and
  \<open>v_shards\<close> are what they point at.\<close>

record Vaultage =
  v_cfg :: Config
  v_ctlArena :: Arena
  v_nil :: bool
  v_ctl :: globalCtl
  v_shards :: "shard list"
  v_shardN :: u64
  v_shardMsk :: u64
  v_arenas :: "Arena list"
  v_valve :: gate
  v_payloadCap :: u64
  v_cellStride :: u64
  v_coarseClock :: bool
  v_closed :: bool

abbreviation upd_shard :: "nat \<Rightarrow> (shard \<Rightarrow> shard) \<Rightarrow> Vaultage \<Rightarrow> Vaultage" where
  "upd_shard i f v \<equiv> v\<lparr>v_shards := (v_shards v)[i := f (v_shards v ! i)]\<rparr>"

definition route :: "Vaultage \<Rightarrow> u64 \<Rightarrow> u64" where
  "route v key = hashKey key AND v_shardMsk v"

definition now_ts :: "Vaultage \<Rightarrow> u64 \<Rightarrow> u64" where
  "now_ts v unixnano = (if v_coarseClock v then ctl_clock (v_ctl v) else unixnano)"

text \<open>One tick of the clock thread.\<close>

definition clockTick :: "Vaultage \<Rightarrow> u64 \<Rightarrow> Vaultage" where
  "clockTick v unixnano = v\<lparr>v_ctl := (v_ctl v)\<lparr>ctl_clock := unixnano\<rparr>\<rparr>"

section \<open>Backpressure\<close>

definition markSaturated :: "Vaultage \<Rightarrow> nat \<Rightarrow> Vaultage" where
  "markSaturated v i =
     (case atomicCAS64 (sh_hot (v_shards v ! i)) 0 1 of (hot, ok) \<Rightarrow>
        let v1 = upd_shard i (sh_hot_update (\<lambda>_. hot)) v in
        if ok then
          (let v2 = v1\<lparr>v_ctl := (v_ctl v1)\<lparr>ctl_saturated := fst (atomicAdd64 (ctl_saturated (v_ctl v1)) 1)\<rparr>\<rparr>
           in v2\<lparr>v_valve := fst (shut (v_valve v2))\<rparr>)
        else v1)"

definition markDrained :: "Vaultage \<Rightarrow> nat \<Rightarrow> Vaultage" where
  "markDrained v i =
     (let sh = v_shards v ! i in
      if sh_hot sh = 0 then v
      else if occupancyPct (sh_ring sh) > c_LowWaterPct (v_cfg v) then v
      else case atomicCAS64 (sh_hot sh) 1 0 of (hot, ok) \<Rightarrow>
        let v1 = upd_shard i (sh_hot_update (\<lambda>_. hot)) v in
        if \<not> ok then v1
        else case atomicAdd64 (ctl_saturated (v_ctl v1)) (NOT 0) of (s, new) \<Rightarrow>
          let v2 = v1\<lparr>v_ctl := (v_ctl v1)\<lparr>ctl_saturated := s\<rparr>\<rparr> in
          if new = 0 then
            (let v3 = v2\<lparr>v_valve := fst (gate_release (v_valve v2))\<rparr> in
             if ctl_saturated (v_ctl v3) \<noteq> 0 then v3\<lparr>v_valve := fst (shut (v_valve v3))\<rparr> else v3)
          else v2)"

text \<open>\<^verbatim>\<open>saturation\<close>: aggregate and worst-shard occupancy.\<close>

fun saturation_loop :: "shard list \<Rightarrow> u64 \<times> u64 \<times> u64 \<Rightarrow> u64 \<times> u64 \<times> u64" where
  "saturation_loop [] acc = acc"
| "saturation_loop (sh # shs) (pend, capacity, maxPct) =
     (let p = pending (sh_ring sh);
          pct = p * 100 div r_capacity (sh_ring sh)
      in saturation_loop shs (pend + p, capacity + r_capacity (sh_ring sh), if pct > maxPct then pct else maxPct))"

definition saturation :: "Vaultage \<Rightarrow> u64 \<times> u64" where
  "saturation v =
     (case saturation_loop (map (\<lambda>i. v_shards v ! i) [0..<unat (v_shardN v)]) (0, 0, 0) of (pend, capacity, maxPct) \<Rightarrow>
        if capacity = 0 then (0, 0) else (pend * 100 div capacity, maxPct))"

section \<open>Ingestion and lookup\<close>

text \<open>\<^verbatim>\<open>publish\<close> from the successful claim on.\<close>

definition publish_claimed :: "mem \<Rightarrow> Vaultage \<Rightarrow> nat \<Rightarrow> u64 \<Rightarrow> u64 \<Rightarrow> u64 \<Rightarrow> u8 list \<Rightarrow> u32 \<Rightarrow> u64
    \<Rightarrow> (error + u64) \<times> mem \<times> Vaultage" where
  "publish_claimed m v i pos ticket key payload flags unixnano =
     (let sh = v_shards v ! i;
          sum = (if c_Checksums (v_cfg v) then checksum32 payload else 0);
          (n, m1, r1) = ring_publish m (sh_ring sh) pos ticket key (now_ts v unixnano) flags payload sum;
          v1 = upd_shard i (\<lambda>s. s\<lparr>sh_ring := r1, sh_ingested := fst (atomicAdd64 (sh_ingested s) 1)\<rparr>) v;
          (m2, x2, err) = upsert m1 (sh_index sh) key ticket (pos AND r_mask r1) r1;
          v2 = upd_shard i (sh_index_update (\<lambda>_. x2)) v1;
          v3 = (if occupancyPct r1 \<ge> c_HighWaterPct (v_cfg v2) then markSaturated v2 i else v2)
      in (Inr ticket, m2, v3))"

definition publish :: "mem \<Rightarrow> Vaultage \<Rightarrow> u64 \<Rightarrow> u8 list \<Rightarrow> u32 \<Rightarrow> u64 \<Rightarrow> ((error + u64) \<times> mem \<times> Vaultage) outcome" where
  "publish m v key payload flags unixnano =
     (if key = 0 then Returned (Inl ErrConfig, m, v)
      else if length payload > unat (v_payloadCap v) then Returned (Inl ErrPayloadTooLarge, m, v)
      else if v_nil v then NilDeref
      else if ctl_running (v_ctl v) = 0 then Returned (Inl ErrClosed, m, v)
      else if isClosed (v_valve v) then Returned (Inl ErrBackpressure, m, v\<lparr>v_valve := reject (v_valve v)\<rparr>)
      else let i = unat (route v key) in
      case atomicAdd64 (ctl_ticket (v_ctl v)) 1 of (t, ticket) \<Rightarrow>
        let v1 = v\<lparr>v_ctl := (v_ctl v)\<lparr>ctl_ticket := t\<rparr>\<rparr> in
        case claim m (sh_ring (v_shards v1 ! i)) of
          None \<Rightarrow> Hangs
        | Some ((pos, ok), r1) \<Rightarrow>
            let v2 = upd_shard i (sh_ring_update (\<lambda>_. r1)) v1 in
            if \<not> ok then
              (let v3 = upd_shard i (\<lambda>s. s\<lparr>sh_rejected := fst (atomicAdd64 (sh_rejected s) 1)\<rparr>) v2;
                   v4 = v3\<lparr>v_ctl := (v_ctl v3)\<lparr>ctl_dropped := fst (atomicAdd64 (ctl_dropped (v_ctl v3)) 1)\<rparr>\<rparr>
               in Returned (Inl ErrShardFull, m, markSaturated v4 i))
            else Returned (publish_claimed m v2 i pos ticket key payload flags unixnano))"

definition Publish :: "mem \<Rightarrow> Vaultage \<Rightarrow> u64 \<Rightarrow> u8 list \<Rightarrow> u64 \<Rightarrow> ((error + u64) \<times> mem \<times> Vaultage) outcome" where
  "Publish m v key payload unixnano = publish m v key payload 0 unixnano"

definition PublishTombstone :: "mem \<Rightarrow> Vaultage \<Rightarrow> u64 \<Rightarrow> u64 \<Rightarrow> ((error + u64) \<times> mem \<times> Vaultage) outcome" where
  "PublishTombstone m v key unixnano = publish m v key [] FlagTombstone unixnano"

text \<open>After \<^verbatim>\<open>Close\<close> the base of the shard blocks is nil; \<open>NilDeref\<close> stands for the fault of the access, at nil for the first shard and
  at the shard's offset from nil for the others.\<close>

definition Lookup :: "mem \<Rightarrow> Vaultage \<Rightarrow> u64 \<Rightarrow> Record \<Rightarrow> (error + Record) outcome" where
  "Lookup m v key rec =
     (if key = 0 then Returned (Inl ErrConfig)
      else if v_nil v then NilDeref
      else let sid = route v key; sh = v_shards v ! unat sid in
      case index_lookup m (sh_index sh) key (sh_ring sh) rec of
        Inl err \<Rightarrow> Returned (Inl err)
      | Inr rec' \<Rightarrow> Returned (Inr (rec'\<lparr>Shard := sint sid\<rparr>)))"

section \<open>Consumption\<close>

lemma dequeue_progress:
  assumes "dequeue m r rec = ((pos, True), rec', m', r')"
  shows "unat (r_commit r') - unat (r_head r') < unat (r_commit r) - unat (r_head r)"
proof -
  have "r_head r < r_commit r" "r' = r\<lparr>r_head := r_head r + 1\<rparr>"
    using assms by (subst (asm) dequeue.simps, auto simp: Let_def not_le split: if_splits)+
  moreover from this have "unat (r_head r + 1) = unat (r_head r) + 1"
    using unat_lt64 [of "r_commit r"] by (intro unat_add1) (simp add: word_less_nat_alt)
  ultimately show ?thesis by (simp add: word_less_nat_alt)
qed

text \<open>The inner loop of \<^verbatim>\<open>Drain\<close>, and of \<^verbatim>\<open>worker\<close> with its batch as the limit.\<close>

function drain_shard :: "'h handler option \<Rightarrow> int \<Rightarrow> int \<Rightarrow> mem \<Rightarrow> shard \<Rightarrow> Record \<Rightarrow> int \<Rightarrow> 'h
    \<Rightarrow> mem \<times> shard \<times> Record \<times> int \<times> 'h" where
  "drain_shard h mx i m sh rec tot s =
     (if mx \<le> 0 \<or> tot < mx then
        (case dequeue m (sh_ring sh) rec of ((pos, ok), rec1, m1, r1) \<Rightarrow>
           if \<not> ok then (m1, sh\<lparr>sh_ring := r1\<rparr>, rec1, tot, s)
           else let rec2 = rec1\<lparr>Shard := i\<rparr>;
                    s1 = (case h of None \<Rightarrow> s | Some f \<Rightarrow> f m1 rec2 s);
                    m2 = release m1 r1 pos;
                    sh2 = sh\<lparr>sh_ring := r1, sh_consumed := fst (atomicAdd64 (sh_consumed sh) 1)\<rparr>
                in drain_shard h mx i m2 sh2 rec2 (tot + 1) s1)
      else (m, sh, rec, tot, s))"
  by pat_completeness auto
termination
  by (relation "measure (\<lambda>(h, mx, i, m, sh, rec, tot, s).
      unat (r_commit (sh_ring sh)) - unat (r_head (sh_ring sh)))")
    (auto intro: dequeue_progress [OF sym])

declare drain_shard.simps [simp del]

text \<open>\<^verbatim>\<open>Drain\<close>: every shard in turn. The scratch record comes out of a pool with whatever it last
  held.\<close>

fun drain_shards :: "'h handler option \<Rightarrow> int \<Rightarrow> nat list \<Rightarrow> mem \<Rightarrow> Vaultage \<Rightarrow> Record \<Rightarrow> int \<Rightarrow> 'h
    \<Rightarrow> mem \<times> Vaultage \<times> int \<times> 'h" where
  "drain_shards h mx [] m v rec tot s = (m, v, tot, s)"
| "drain_shards h mx (i # is) m v rec tot s =
     (case drain_shard h mx (int i) m (v_shards v ! i) rec tot s of (m1, sh1, rec1, tot1, s1) \<Rightarrow>
        drain_shards h mx is m1 (markDrained (upd_shard i (\<lambda>_. sh1) v) i) rec1 tot1 s1)"

definition Drain :: "'h handler option \<Rightarrow> int \<Rightarrow> Record \<Rightarrow> mem \<Rightarrow> Vaultage \<Rightarrow> 'h \<Rightarrow> (int \<times> mem \<times> Vaultage \<times> 'h) outcome" where
  "Drain h mx rec m v s =
     (if v_nil v then NilDeref
      else case drain_shards h mx [0..<unat (v_shardN v)] m v rec 0 s of
        (m1, v1, tot, s1) \<Rightarrow> Returned (tot, m1, v1, s1))"

definition drainBatch :: int where "drainBatch = 256"

definition backoff :: "int \<Rightarrow> int" where
  "backoff idle =
     (if idle < 32 then idle + 1 else if idle < 1024 then idle + 1 else if idle < 4096 then idle + 1 else idle)"

text \<open>One turn of the \<^verbatim>\<open>worker\<close> loop; the flag says that the thread returns.\<close>

definition worker_turn :: "'h handler \<Rightarrow> nat \<Rightarrow> mem \<Rightarrow> Vaultage \<Rightarrow> Record \<Rightarrow> int \<Rightarrow> 'h
    \<Rightarrow> bool \<times> mem \<times> Vaultage \<times> Record \<times> int \<times> 'h" where
  "worker_turn h i m v rec idle s =
     (case drain_shard (Some h) drainBatch (int i) m (v_shards v ! i) rec 0 s of (m1, sh1, rec1, n, s1) \<Rightarrow>
        let v1 = upd_shard i (\<lambda>_. sh1) v in
        if n > 0 then (False, m1, markDrained v1 i, rec1, 0, s1)
        else if ctl_running (v_ctl v1) = 0 \<and> pending (sh_ring sh1) = 0 then (True, m1, v1, rec1, idle, s1)
        else (False, m1, v1, rec1, backoff idle, s1))"

partial_function (option) worker_run :: "'h handler \<Rightarrow> nat \<Rightarrow> mem \<Rightarrow> Vaultage \<Rightarrow> Record \<Rightarrow> int \<Rightarrow> 'h
    \<Rightarrow> (mem \<times> Vaultage \<times> 'h) option" where
  "worker_run h i m v rec idle s =
     (case worker_turn h i m v rec idle s of (done, m1, v1, rec1, idle1, s1) \<Rightarrow>
        if done then Some (m1, v1, s1) else worker_run h i m1 v1 rec1 idle1 s1)"

definition worker :: "'k sys \<Rightarrow> int \<Rightarrow> 'h handler \<Rightarrow> nat \<Rightarrow> mem \<Rightarrow> Vaultage \<Rightarrow> 'h \<Rightarrow> 'k
    \<Rightarrow> (mem \<times> Vaultage \<times> 'h \<times> 'k) option" where
  "worker S numCPU h i m v s k =
     (let k1 = (if c_PinWorkerThreads (v_cfg v) then snd (sysPinThreadToCore S (int i mod numCPU) k) else k) in
      case worker_run h i m v (zero_Record\<lparr>Shard := int i\<rparr>) 0 s of
        None \<Rightarrow> None
      | Some (m1, v1, s1) \<Rightarrow> Some (m1, v1, s1, k1))"

section \<open>Construction and shutdown\<close>

fun teardownArenas :: "'k sys \<Rightarrow> Arena list \<Rightarrow> 'k \<Rightarrow> 'k" where
  "teardownArenas S [] k = k"
| "teardownArenas S (a # as) k = teardownArenas S as (snd (snd (arena_Close S a k)))"

text \<open>The loop of \<^verbatim>\<open>New\<close> over the shards. An error has already torn down what was mapped.\<close>

fun new_shards :: "'k sys \<Rightarrow> Config \<Rightarrow> u64 \<Rightarrow> u64 \<Rightarrow> Arena \<Rightarrow> nat list \<Rightarrow> Arena list \<Rightarrow> shard list \<Rightarrow> mem \<Rightarrow> 'k
    \<Rightarrow> ((error + Arena list \<times> shard list) \<times> mem \<times> 'k) option" where
  "new_shards S cfg payloadCap epoch ctlArena [] arenas shards m k = Some (Inr (arenas, shards), m, k)"
| "new_shards S cfg payloadCap epoch ctlArena (i # is) arenas shards m k =
     (let cells = c_CellsPerShard cfg;
          buckets = cells * c_IndexBucketsPerCell cfg;
          rb = ringBytes cells payloadCap;
          ib = indexBytes buckets in
      case NewArena S (rb + ib) (c_RequireHugePages cfg) (c_RequirePinned cfg) m k of
        None \<Rightarrow> None
      | Some (Inl err, m1, k1) \<Rightarrow>
          Some (Inl err, m1, snd (snd (arena_Close S ctlArena (teardownArenas S arenas k1))))
      | Some (Inr a, m1, k1) \<Rightarrow>
          let arenas1 = arenas @ [a];
              fail = (\<lambda>err m. Some (Inl err, m, snd (snd (arena_Close S ctlArena (teardownArenas S arenas1 k1))))) in
          (case initRing m1 (arena_At a 0) cells payloadCap epoch of
             Inl err \<Rightarrow> fail err m1
           | Inr (m2, r) \<Rightarrow>
               (case initIndex m2 (arena_At a rb) buckets of
                  Inl err \<Rightarrow> fail err m2
                | Inr (m3, x) \<Rightarrow>
                    new_shards S cfg payloadCap epoch ctlArena is arenas1
                      (shards @ [\<lparr>sh_ring = r, sh_index = x, sh_arenaBase = a_base a, sh_arenaSize = a_size a,
                         sh_id = of_nat i, sh_hot = 0, sh_ingested = 0, sh_consumed = 0, sh_rejected = 0\<rparr>]) m3 k1)))"

text \<open>\<^verbatim>\<open>New\<close>, with the two clock readings it takes. Starting the worker and clock threads changes
  no state of the engine.\<close>

definition New :: "'k sys \<Rightarrow> u64 \<Rightarrow> u64 \<Rightarrow> u64 \<Rightarrow> Config \<Rightarrow> mem \<Rightarrow> 'k \<Rightarrow> ((error + Vaultage) \<times> mem \<times> 'k) option" where
  "New S gomaxprocs t1 t2 cfg0 m k =
     (case normalize gomaxprocs cfg0 of
        None \<Rightarrow> None
      | Some (Inl err) \<Rightarrow> Some (Inl err, m, k)
      | Some (Inr cfg) \<Rightarrow>
          (case initGate zero_gate (c_HighWaterPct cfg) (c_LowWaterPct cfg) of
             Inl err \<Rightarrow> Some (Inl err, m, k)
           | Inr valve \<Rightarrow>
               let ctlBytes = ctlHeader + shardStride * c_Shards cfg in
               (case NewArena S ctlBytes False (c_RequirePinned cfg) m k of
                  None \<Rightarrow> None
                | Some (Inl err, m1, k1) \<Rightarrow> Some (Inl err, m1, k1)
                | Some (Inr ctlArena, m1, k1) \<Rightarrow>
                    let ctl = \<lparr>ctl_ticket = 0, ctl_running = 1, ctl_epoch = t1, ctl_dropped = 0,
                               ctl_saturated = 0, ctl_clock = t2\<rparr> in
                    (case new_shards S cfg (c_PayloadCapacity cfg) (ctl_epoch ctl) ctlArena
                            [0..<unat (c_Shards cfg)] [] [] m1 k1 of
                       None \<Rightarrow> None
                     | Some (Inl err, m2, k2) \<Rightarrow> Some (Inl err, m2, k2)
                     | Some (Inr (arenas, shards), m2, k2) \<Rightarrow>
                         Some (Inr \<lparr>v_cfg = cfg, v_ctlArena = ctlArena, v_nil = False, v_ctl = ctl,
                           v_shards = shards, v_shardN = c_Shards cfg, v_shardMsk = c_Shards cfg - 1,
                           v_arenas = arenas, v_valve = valve, v_payloadCap = c_PayloadCapacity cfg,
                           v_cellStride = cellStrideFor (c_PayloadCapacity cfg),
                           v_coarseClock = (sint (c_CoarseClock cfg) > 0), v_closed = False\<rparr>, m2, k2)))))"

text \<open>\<^verbatim>\<open>wg.Wait\<close>: every worker thread runs to its end. Their shards are separate, so the order
  does not matter.\<close>

fun wait_workers :: "'h handler \<Rightarrow> nat list \<Rightarrow> mem \<Rightarrow> Vaultage \<Rightarrow> 'h \<Rightarrow> (mem \<times> Vaultage \<times> 'h) option" where
  "wait_workers h [] m v s = Some (m, v, s)"
| "wait_workers h (i # is) m v s =
     (case worker_run h i m v (zero_Record\<lparr>Shard := int i\<rparr>) 0 s of
        None \<Rightarrow> None
      | Some (m1, v1, s1) \<Rightarrow> wait_workers h is m1 v1 s1)"

fun close_arenas :: "'k sys \<Rightarrow> Arena list \<Rightarrow> error option \<Rightarrow> 'k \<Rightarrow> error option \<times> 'k" where
  "close_arenas S [] firstErr k = (firstErr, k)"
| "close_arenas S (a # as) firstErr k =
     (case arena_Close S a k of (err, a', k1) \<Rightarrow>
        close_arenas S as (if err \<noteq> None \<and> firstErr = None then err else firstErr) k1)"

definition Close :: "'k sys \<Rightarrow> 'h handler \<Rightarrow> mem \<Rightarrow> Vaultage \<Rightarrow> 'h \<Rightarrow> 'k
    \<Rightarrow> (error option \<times> mem \<times> Vaultage \<times> 'h \<times> 'k) outcome" where
  "Close S h m v s k =
     (if v_closed v then Returned (None, m, v, s, k)
      else let v1 = v\<lparr>v_closed := True, v_ctl := (v_ctl v)\<lparr>ctl_running := 0\<rparr>, v_valve := forceOpen (v_valve v)\<rparr> in
      case (if c_Consumer (v_cfg v1) then wait_workers h [0..<unat (v_shardN v1)] m v1 s else Some (m, v1, s)) of
        None \<Rightarrow> Hangs
      | Some (m2, v2, s2) \<Rightarrow>
          (case close_arenas S (v_arenas v2) None k of (err1, k1) \<Rightarrow>
             case arena_Close S (v_ctlArena v2) k1 of (err, ca, k2) \<Rightarrow>
               Returned (if err \<noteq> None \<and> err1 = None then err else err1, m2,
                 v2\<lparr>v_arenas := [], v_ctlArena := zero_Arena, v_nil := True\<rparr>, s2, k2)))"

end
