(* ===== verification/Latch.thy ===== *)
theory Latch
  imports Fabric
begin

text \<open>
  The saturation latch: one hot flag per shard, their count, and the gate. \<open>valve\<close> is what
  \<^verbatim>\<open>markSaturated\<close> and \<^verbatim>\<open>markDrained\<close> rely on about the gate; the latch invariant, that the gate is
  shut exactly while some shard is hot, is proved once on that contract.
\<close>

section \<open>The contract of the gate\<close>

lemma count_list_set:
  assumes "i < length xs" "xs ! i \<noteq> v"
  shows "count_list (xs[i := v]) v = count_list xs v + 1"
  using assms by (induction xs arbitrary: i) (auto simp: nth_Cons split: nat.splits)

lemma count_list_clear:
  assumes "i < length xs" "xs ! i = v" "w \<noteq> v"
  shows "count_list (xs[i := w]) v + 1 = count_list xs v"
  using assms by (induction xs arbitrary: i) (auto simp: nth_Cons split: nat.splits)

lemma count_list_pos: "count_list xs v = 0 \<longleftrightarrow> v \<notin> set xs"
  by (auto simp: count_list_0_iff)

locale valve =
  fixes ok :: "'g \<Rightarrow> bool"
    and closed :: "'g \<Rightarrow> bool"
    and close_op :: "'g \<Rightarrow> 'g"
    and open_op :: "'g \<Rightarrow> 'g"
  assumes close_ok: "ok g \<Longrightarrow> ok (close_op g) \<and> closed (close_op g)"
    and open_ok: "ok g \<Longrightarrow> ok (open_op g) \<and> \<not> closed (open_op g)"
begin

text \<open>The valve follows a list of flags: it is closed exactly while a flag is set.\<close>

definition follows :: "u64 list \<Rightarrow> 'g \<Rightarrow> bool" where
  "follows hots g \<longleftrightarrow> ok g \<and> (closed g \<longleftrightarrow> 1 \<in> set hots)"

lemma set_flag: "follows hots g \<Longrightarrow> i < length hots \<Longrightarrow> follows (hots[i := 1]) (close_op g)"
  using close_ok by (auto simp: follows_def set_update_memI)

lemma clear_flag:
  assumes "follows hots g" "i < length hots" "hots ! i = 1"
  shows "follows (hots[i := 0]) (if count_list (hots[i := 0]) 1 = 0 then open_op g else g)"
proof -
  have "1 \<in> set hots" using assms(2,3) by (metis nth_mem)
  then show ?thesis using assms(1) open_ok by (auto simp: follows_def count_list_pos)
qed

end

definition gate_wf :: "gate \<Rightarrow> bool" where
  "gate_wf g \<longleftrightarrow> g_state g \<in> {gateOpen, gateClosed}"

interpretation gv: valve gate_wf isClosed "\<lambda>g. fst (shut g)" "\<lambda>g. fst (gate_release g)"
  by unfold_locales (auto simp: gate_wf_def gate_defs)

section \<open>The latch of an engine\<close>

definition hots :: "Vaultage \<Rightarrow> u64 list" where
  "hots v = map sh_hot (v_shards v)"

definition latch_ok :: "Vaultage \<Rightarrow> bool" where
  "latch_ok v \<longleftrightarrow> set (hots v) \<subseteq> {0, 1} \<and> length (hots v) < 2 ^ 64 \<and>
     ctl_saturated (v_ctl v) = of_nat (count_list (hots v) 1) \<and>
     gate_wf (v_valve v) \<and> (isClosed (v_valve v) \<longleftrightarrow> 1 \<in> set (hots v))"

lemma length_hots [simp]: "length (hots v) = length (v_shards v)"
  by (simp add: hots_def)

lemma hots_nth: "i < length (v_shards v) \<Longrightarrow> hots v ! i = sh_hot (v_shards v ! i)"
  by (simp add: hots_def)

lemma hots_upd: "map sh_hot ((v_shards v)[i := sh]) = (hots v)[i := sh_hot sh]"
  by (simp add: hots_def map_update)

lemma latch_flag: "latch_ok v \<Longrightarrow> i < length (v_shards v) \<Longrightarrow> hots v ! i \<in> {0, 1}"
  unfolding latch_ok_def using nth_mem [of i "hots v"] by (metis length_hots subsetD)

text \<open>Everything but the latch is left alone.\<close>

definition same_but_latch :: "Vaultage \<Rightarrow> Vaultage \<Rightarrow> bool" where
  "same_but_latch v v' \<longleftrightarrow>
     v' = v\<lparr>v_shards := map2 (\<lambda>sh h. sh\<lparr>sh_hot := h\<rparr>) (v_shards v) (hots v'),
            v_ctl := (v_ctl v)\<lparr>ctl_saturated := ctl_saturated (v_ctl v')\<rparr>, v_valve := v_valve v'\<rparr> \<and>
     length (v_shards v') = length (v_shards v)"

lemma shards_of_hots:
  assumes "length shs' = length shs" "\<And>i. i < length shs \<Longrightarrow> shs' ! i = (shs ! i)\<lparr>sh_hot := sh_hot (shs' ! i)\<rparr>"
  shows "shs' = map2 (\<lambda>sh h. sh\<lparr>sh_hot := h\<rparr>) shs (map sh_hot shs')"
  using assms by (auto intro: nth_equalityI)

lemma same_but_latch_valve: "same_but_latch v (v\<lparr>v_valve := g\<rparr>)"
proof -
  have "v_shards v = map2 (\<lambda>sh h. sh\<lparr>sh_hot := h\<rparr>) (v_shards v) (map sh_hot (v_shards v))"
    by (rule shards_of_hots) simp_all
  then show ?thesis by (simp add: same_but_latch_def hots_def)
qed

lemma markSaturated_same:
  assumes "i < length (v_shards v)"
  shows "same_but_latch v (markSaturated v i)"
proof -
  let ?v = "markSaturated v i"
  have "v_shards ?v = map2 (\<lambda>sh h. sh\<lparr>sh_hot := h\<rparr>) (v_shards v) (map sh_hot (v_shards ?v))"
    using assms
    by (intro shards_of_hots)
      (auto simp: markSaturated_def Let_def nth_list_update atomicCAS64_def split: prod.splits)
  moreover have "?v = v\<lparr>v_shards := v_shards ?v,
      v_ctl := (v_ctl v)\<lparr>ctl_saturated := ctl_saturated (v_ctl ?v)\<rparr>, v_valve := v_valve ?v\<rparr>"
    by (simp add: markSaturated_def Let_def split: prod.splits)
  moreover have "length (v_shards ?v) = length (v_shards v)"
    by (simp add: markSaturated_def Let_def split: prod.splits)
  ultimately show ?thesis unfolding same_but_latch_def hots_def by metis
qed

lemma markDrained_same:
  assumes "i < length (v_shards v)"
  shows "same_but_latch v (markDrained v i)"
proof -
  let ?v = "markDrained v i"
  have "v_shards ?v = map2 (\<lambda>sh h. sh\<lparr>sh_hot := h\<rparr>) (v_shards v) (map sh_hot (v_shards ?v))"
    using assms
    by (intro shards_of_hots)
      (auto simp: markDrained_def Let_def nth_list_update atomicCAS64_def atomicAdd64_def split: prod.splits)
  moreover have "?v = v\<lparr>v_shards := v_shards ?v,
      v_ctl := (v_ctl v)\<lparr>ctl_saturated := ctl_saturated (v_ctl ?v)\<rparr>, v_valve := v_valve ?v\<rparr>"
    by (simp add: markDrained_def Let_def split: prod.splits)
  moreover have "length (v_shards ?v) = length (v_shards v)"
    by (simp add: markDrained_def Let_def split: prod.splits)
  ultimately show ?thesis unfolding same_but_latch_def hots_def by metis
qed

lemma markSaturated_latch:
  assumes ok: "latch_ok v" and i: "i < length (v_shards v)"
  shows "latch_ok (markSaturated v i)" "hots (markSaturated v i) = (hots v)[i := 1]"
    "isClosed (v_valve (markSaturated v i))"
proof -
  note h = latch_flag [OF assms]
  have all: "latch_ok (markSaturated v i) \<and> hots (markSaturated v i) = (hots v)[i := 1] \<and>
      isClosed (v_valve (markSaturated v i))"
  proof (cases "hots v ! i = 0")
    case True
    then have hot: "sh_hot (v_shards v ! i) = 0" using i by (simp add: hots_nth)
    have H: "hots (markSaturated v i) = (hots v)[i := 1]"
      using hot i by (simp add: markSaturated_def Let_def atomicCAS64_def hots_def map_update)
    have g: "v_valve (markSaturated v i) = fst (shut (v_valve v))"
      "ctl_saturated (v_ctl (markSaturated v i)) = ctl_saturated (v_ctl v) + 1"
      using hot by (simp_all add: markSaturated_def Let_def atomicCAS64_def atomicAdd64_def)
    have "gv.follows (hots v) (v_valve v)" using ok by (simp add: gv.follows_def latch_ok_def)
    from gv.set_flag [OF this, of i] i have f: "gv.follows ((hots v)[i := 1]) (fst (shut (v_valve v)))" by simp
    have c: "count_list ((hots v)[i := 1]) 1 = count_list (hots v) 1 + 1"
      using True i by (intro count_list_set) simp_all
    have "set ((hots v)[i := 1]) \<subseteq> {0, 1}" using ok set_update_subset_insert [of "hots v" i 1]
      by (auto simp: latch_ok_def)
    moreover have "1 \<in> set ((hots v)[i := 1])" using i by (simp add: set_update_memI)
    ultimately show ?thesis using f c H g ok i by (simp add: latch_ok_def gv.follows_def)
  next
    case False
    with h have one: "hots v ! i = 1" by simp
    then have hot: "sh_hot (v_shards v ! i) = 1" using i by (simp add: hots_nth)
    then have "(v_shards v ! i)\<lparr>sh_hot := 1\<rparr> = v_shards v ! i" by (cases "v_shards v ! i") simp
    then have "(v_shards v)[i := (v_shards v ! i)\<lparr>sh_hot := 1\<rparr>] = v_shards v" by (simp only: list_update_id)
    then have "markSaturated v i = v" using hot by (simp add: markSaturated_def Let_def atomicCAS64_def)
    moreover have "(hots v)[i := 1] = hots v" using one by (metis list_update_id)
    moreover have "1 \<in> set (hots v)" using one i by (metis length_hots nth_mem)
    ultimately show ?thesis using ok by (simp add: latch_ok_def)
  qed
  then show "latch_ok (markSaturated v i)" "hots (markSaturated v i) = (hots v)[i := 1]"
    "isClosed (v_valve (markSaturated v i))" by simp_all
qed

lemma markDrained_latch:
  assumes ok: "latch_ok v" and i: "i < length (v_shards v)"
  shows "latch_ok (markDrained v i)"
    "hots (markDrained v i) = (if occupancyPct (sh_ring (v_shards v ! i)) \<le> c_LowWaterPct (v_cfg v)
       then (hots v)[i := 0] else hots v)"
proof -
  let ?low = "occupancyPct (sh_ring (v_shards v ! i)) \<le> c_LowWaterPct (v_cfg v)"
  note h = latch_flag [OF assms]
  have "latch_ok (markDrained v i) \<and> hots (markDrained v i) = (if ?low then (hots v)[i := 0] else hots v)"
  proof (cases "hots v ! i = 1 \<and> ?low")
    case True
    then have hot: "sh_hot (v_shards v ! i) = 1" using i by (simp add: hots_nth)
    have nl: "\<not> occupancyPct (sh_ring (v_shards v ! i)) > c_LowWaterPct (v_cfg v)"
      using True by (simp add: not_less)
    let ?H = "(hots v)[i := 0]"
    have c: "count_list ?H 1 + 1 = count_list (hots v) 1" using True i by (intro count_list_clear) simp_all
    have sat: "ctl_saturated (v_ctl v) + NOT 0 = of_nat (count_list ?H 1)"
    proof -
      have "ctl_saturated (v_ctl v) = of_nat (count_list ?H 1 + 1)" using ok c by (simp add: latch_ok_def)
      then show ?thesis by simp
    qed
    have "count_list ?H 1 \<le> length ?H" by (rule count_le_length)
    then have zero: "of_nat (count_list ?H 1) = (0 :: u64) \<longleftrightarrow> count_list ?H 1 = 0"
      using ok of_nat_eq64 [of "count_list ?H 1" 0] by (simp add: latch_ok_def)
    have H: "hots (markDrained v i) = ?H"
      using hot nl i
      by (simp add: markDrained_def Let_def atomicCAS64_def atomicAdd64_def hots_def map_update)
    have g: "v_valve (markDrained v i) = (if count_list ?H 1 = 0 then fst (gate_release (v_valve v)) else v_valve v)"
      "ctl_saturated (v_ctl (markDrained v i)) = of_nat (count_list ?H 1)"
      using hot nl sat zero
      by (auto simp: markDrained_def Let_def atomicCAS64_def atomicAdd64_def)
    have "gv.follows (hots v) (v_valve v)" using ok by (simp add: gv.follows_def latch_ok_def)
    from gv.clear_flag [OF this, of i] i True
    have f: "gv.follows ?H (if count_list ?H 1 = 0 then fst (gate_release (v_valve v)) else v_valve v)" by simp
    have "set ?H \<subseteq> {0, 1}" using ok set_update_subset_insert [of "hots v" i 0] by (auto simp: latch_ok_def)
    then show ?thesis using f H g ok True by (simp add: latch_ok_def gv.follows_def)
  next
    case False
    then have "markDrained v i = v" using h i by (auto simp: markDrained_def Let_def hots_nth not_le)
    moreover have "(hots v)[i := 0] = hots v" if "hots v ! i \<noteq> 1" using that h by (metis insertE list_update_id singletonD)
    ultimately show ?thesis using ok False by auto
  qed
  then show "latch_ok (markDrained v i)"
    "hots (markDrained v i) = (if ?low then (hots v)[i := 0] else hots v)" by simp_all
qed

end
