(* ===== verification/FabricInv.thy ===== *)
theory FabricInv
  imports ShardInv Latch
begin

text \<open>
  The engine invariant. Every shard satisfies its own invariant with its own history \<open>G i\<close>, the
  arenas of different shards do not meet, every entry sits in the shard its key routes to, the
  ticket counter is the number of committed entries plus the number of dropped tickets, and the
  latch is consistent. Each call of the engine keeps it.
\<close>

abbreviation nsh :: "Vaultage \<Rightarrow> nat" where "nsh v \<equiv> length (v_shards v)"
abbreviation rg :: "Vaultage \<Rightarrow> nat \<Rightarrow> ring" where "rg v i \<equiv> sh_ring (v_shards v ! i)"
abbreviation ix :: "Vaultage \<Rightarrow> nat \<Rightarrow> keyIndex" where "ix v i \<equiv> sh_index (v_shards v ! i)"

definition shard_of :: "Vaultage \<Rightarrow> u64 \<Rightarrow> nat" where
  "shard_of v key = unat (route v key)"

definition engine_core :: "mem \<Rightarrow> Vaultage \<Rightarrow> (nat \<Rightarrow> nat \<Rightarrow> entry) \<Rightarrow> bool" where
  "engine_core m v G \<longleftrightarrow> \<not> v_nil v \<and> nsh v = unat (v_shardN v) \<and> isPow2 (v_shardN v) \<and>
     v_shardMsk v = v_shardN v - 1 \<and>
     (\<forall>i<nsh v. shard_inv m (rg v i) (ix v i) (G i) \<and> r_payloadCap (rg v i) = v_payloadCap v \<and>
        sh_ingested (v_shards v ! i) = r_tail (rg v i) \<and> sh_consumed (v_shards v ! i) = r_head (rg v i)) \<and>
     (\<forall>i<nsh v. \<forall>j<nsh v. i \<noteq> j \<longrightarrow>
        apart (r_base (rg v i)) (shard_span (rg v i) (ix v i)) (r_base (rg v j)) (shard_span (rg v j) (ix v j))) \<and>
     (\<forall>i<nsh v. \<forall>p<rT (rg v i). unat (e_ticket (G i p)) \<le> unat (ctl_ticket (v_ctl v)) \<and>
        shard_of v (e_key (G i p)) = i) \<and>
     unat (ctl_ticket (v_ctl v)) = (\<Sum>i<nsh v. rT (rg v i)) + unat (ctl_dropped (v_ctl v))"

definition engine_inv :: "mem \<Rightarrow> Vaultage \<Rightarrow> (nat \<Rightarrow> nat \<Rightarrow> entry) \<Rightarrow> bool" where
  "engine_inv m v G \<longleftrightarrow> engine_core m v G \<and> latch_ok v"

lemma engine_coreD:
  assumes "engine_core m v G"
  shows "\<not> v_nil v" "nsh v = unat (v_shardN v)" "isPow2 (v_shardN v)" "v_shardMsk v = v_shardN v - 1"
    "\<And>i. i < nsh v \<Longrightarrow> shard_inv m (rg v i) (ix v i) (G i)"
    "\<And>i. i < nsh v \<Longrightarrow> r_payloadCap (rg v i) = v_payloadCap v"
    "\<And>i. i < nsh v \<Longrightarrow> sh_ingested (v_shards v ! i) = r_tail (rg v i)"
    "\<And>i. i < nsh v \<Longrightarrow> sh_consumed (v_shards v ! i) = r_head (rg v i)"
    "\<And>i j. i < nsh v \<Longrightarrow> j < nsh v \<Longrightarrow> i \<noteq> j \<Longrightarrow>
        apart (r_base (rg v i)) (shard_span (rg v i) (ix v i)) (r_base (rg v j)) (shard_span (rg v j) (ix v j))"
    "\<And>i p. i < nsh v \<Longrightarrow> p < rT (rg v i) \<Longrightarrow> unat (e_ticket (G i p)) \<le> unat (ctl_ticket (v_ctl v))"
    "\<And>i p. i < nsh v \<Longrightarrow> p < rT (rg v i) \<Longrightarrow> shard_of v (e_key (G i p)) = i"
    "unat (ctl_ticket (v_ctl v)) = (\<Sum>i<nsh v. rT (rg v i)) + unat (ctl_dropped (v_ctl v))"
  using assms unfolding engine_core_def by blast+

lemma engine_invD: "engine_inv m v G \<Longrightarrow> engine_core m v G" "engine_inv m v G \<Longrightarrow> latch_ok v"
  by (simp_all add: engine_inv_def)

lemma route_less:
  assumes "nsh v = unat (v_shardN v)" "isPow2 (v_shardN v)" "v_shardMsk v = v_shardN v - 1"
  shows "shard_of v key < nsh v"
proof -
  obtain k where k: "k < 64" "v_shardN v = 2 ^ k" using assms(2) by (auto simp: isPow2_iff)
  then have "unat (route v key) = unat (hashKey key) mod 2 ^ k" using assms(3) by (simp add: route_def and_mask_mod)
  moreover have "unat (v_shardN v) = 2 ^ k" using k by (simp add: unat_pow2)
  ultimately show ?thesis using assms(1) by (simp add: shard_of_def)
qed

lemma shard_of_less: "engine_core m v G \<Longrightarrow> shard_of v key < nsh v"
  using engine_coreD(2-4) route_less by blast

lemma shard_tail_le_ticket:
  assumes "engine_core m v G" "i < nsh v"
  shows "rT (rg v i) \<le> unat (ctl_ticket (v_ctl v))"
proof -
  have "rT (rg v i) \<le> (\<Sum>i<nsh v. rT (rg v i))" using assms(2) by (intro member_le_sum) auto
  then show ?thesis using engine_coreD(12) [OF assms(1)] by simp
qed

section \<open>The latch is a separate matter\<close>

lemma same_but_latchD:
  assumes "same_but_latch v v'"
  shows "nsh v' = nsh v" "\<And>i. i < nsh v \<Longrightarrow> rg v' i = rg v i" "\<And>i. i < nsh v \<Longrightarrow> ix v' i = ix v i"
    "\<And>i. i < nsh v \<Longrightarrow> sh_ingested (v_shards v' ! i) = sh_ingested (v_shards v ! i)"
    "\<And>i. i < nsh v \<Longrightarrow> sh_consumed (v_shards v' ! i) = sh_consumed (v_shards v ! i)"
    "v_cfg v' = v_cfg v" "v_nil v' = v_nil v" "v_shardN v' = v_shardN v" "v_shardMsk v' = v_shardMsk v"
    "v_payloadCap v' = v_payloadCap v" "v_coarseClock v' = v_coarseClock v" "v_closed v' = v_closed v"
    "v_arenas v' = v_arenas v" "v_ctlArena v' = v_ctlArena v"
    "ctl_ticket (v_ctl v') = ctl_ticket (v_ctl v)" "ctl_dropped (v_ctl v') = ctl_dropped (v_ctl v)"
    "ctl_running (v_ctl v') = ctl_running (v_ctl v)" "ctl_clock (v_ctl v') = ctl_clock (v_ctl v)"
    "\<And>i. i < nsh v \<Longrightarrow> sh_rejected (v_shards v' ! i) = sh_rejected (v_shards v ! i)"
proof -
  define H where "H = hots v'"
  define s g where "s = ctl_saturated (v_ctl v')" and "g = v_valve v'"
  have eq: "v' = v\<lparr>v_shards := map2 (\<lambda>sh h. sh\<lparr>sh_hot := h\<rparr>) (v_shards v) H,
      v_ctl := (v_ctl v)\<lparr>ctl_saturated := s\<rparr>, v_valve := g\<rparr>" and len: "nsh v' = nsh v"
    using assms by (simp_all add: same_but_latch_def H_def s_def g_def)
  have "length H = nsh v" using len by (simp add: H_def)
  then show "nsh v' = nsh v" "\<And>i. i < nsh v \<Longrightarrow> rg v' i = rg v i" "\<And>i. i < nsh v \<Longrightarrow> ix v' i = ix v i"
    "\<And>i. i < nsh v \<Longrightarrow> sh_ingested (v_shards v' ! i) = sh_ingested (v_shards v ! i)"
    "\<And>i. i < nsh v \<Longrightarrow> sh_consumed (v_shards v' ! i) = sh_consumed (v_shards v ! i)"
    "v_cfg v' = v_cfg v" "v_nil v' = v_nil v" "v_shardN v' = v_shardN v" "v_shardMsk v' = v_shardMsk v"
    "v_payloadCap v' = v_payloadCap v" "v_coarseClock v' = v_coarseClock v" "v_closed v' = v_closed v"
    "v_arenas v' = v_arenas v" "v_ctlArena v' = v_ctlArena v"
    "ctl_ticket (v_ctl v') = ctl_ticket (v_ctl v)" "ctl_dropped (v_ctl v') = ctl_dropped (v_ctl v)"
    "ctl_running (v_ctl v') = ctl_running (v_ctl v)" "ctl_clock (v_ctl v') = ctl_clock (v_ctl v)"
    "\<And>i. i < nsh v \<Longrightarrow> sh_rejected (v_shards v' ! i) = sh_rejected (v_shards v ! i)"
    unfolding eq by simp_all
qed

lemma engine_core_latch:
  assumes "same_but_latch v v'"
  shows "engine_core m v' G = engine_core m v G"
proof -
  note S = same_but_latchD [OF assms]
  have "shard_of v' = shard_of v" using S(9) by (simp add: shard_of_def route_def fun_eq_iff)
  moreover have "(\<Sum>i<nsh v. rT (rg v' i)) = (\<Sum>i<nsh v. rT (rg v i))" using S(2) by (intro sum.cong) auto
  ultimately show ?thesis unfolding engine_core_def using S by (simp cong: conj_cong)
qed

lemma markSaturated_inv: "engine_inv m v G \<Longrightarrow> i < nsh v \<Longrightarrow> engine_inv m (markSaturated v i) G"
  using engine_core_latch [OF markSaturated_same] markSaturated_latch(1) by (simp add: engine_inv_def)

lemma markDrained_inv: "engine_inv m v G \<Longrightarrow> i < nsh v \<Longrightarrow> engine_inv m (markDrained v i) G"
  using engine_core_latch [OF markDrained_same] markDrained_latch(1) by (simp add: engine_inv_def)

section \<open>One shard moves, the others stay\<close>

lemma sum_upd:
  fixes f :: "nat \<Rightarrow> nat"
  assumes "i < n" "\<And>j. j < n \<Longrightarrow> j \<noteq> i \<Longrightarrow> g j = f j"
  shows "(\<Sum>j<n. g j) + f i = (\<Sum>j<n. f j) + g i"
proof -
  have "(\<Sum>j<n. g j) = g i + (\<Sum>j\<in>{..<n} - {i}. g j)" "(\<Sum>j<n. f j) = f i + (\<Sum>j\<in>{..<n} - {i}. f j)"
    using assms(1) by (simp_all add: sum.remove)
  moreover have "(\<Sum>j\<in>{..<n} - {i}. g j) = (\<Sum>j\<in>{..<n} - {i}. f j)" using assms(2) by (intro sum.cong) auto
  ultimately show ?thesis by simp
qed

lemma shard_step:
  assumes core: "engine_core m v G" and i: "i < nsh v"
    and inv: "shard_inv m' (sh_ring sh) (sh_index sh) L"
    and same: "r_payloadCap (sh_ring sh) = r_payloadCap (rg v i)" "r_base (sh_ring sh) = r_base (rg v i)"
      "shard_span (sh_ring sh) (sh_index sh) = shard_span (rg v i) (ix v i)"
    and cnt: "sh_ingested sh = r_tail (sh_ring sh)" "sh_consumed sh = r_head (sh_ring sh)"
    and w: "writes_within (r_base (rg v i)) (shard_span (rg v i) (ix v i)) m m'"
    and ent: "\<And>p. p < rT (sh_ring sh) \<Longrightarrow> unat (e_ticket (L p)) \<le> unat (ctl_ticket ctl)"
      "\<And>p. p < rT (sh_ring sh) \<Longrightarrow> shard_of v (e_key (L p)) = i"
    and tick: "unat (ctl_ticket (v_ctl v)) \<le> unat (ctl_ticket ctl)"
      "unat (ctl_ticket ctl) + rT (rg v i) + unat (ctl_dropped (v_ctl v)) =
       unat (ctl_ticket (v_ctl v)) + rT (sh_ring sh) + unat (ctl_dropped ctl)"
  shows "engine_core m' (v\<lparr>v_ctl := ctl, v_shards := (v_shards v)[i := sh]\<rparr>) (G(i := L))"
proof -
  note E = engine_coreD [OF core]
  let ?v = "v\<lparr>v_ctl := ctl, v_shards := (v_shards v)[i := sh]\<rparr>"
  have sh: "v_shards ?v ! j = (if j = i then sh else v_shards v ! j)" if "j < nsh v" for j
    using that i by simp
  have others: "shard_inv m' (rg v j) (ix v j) (G j)" if "j < nsh v" "j \<noteq> i" for j
    using shard_frame [OF E(5) [OF that(1)] w] E(9) [OF i that(1)] that(2) by simp
  have so: "shard_of ?v = shard_of v" by (simp add: shard_of_def route_def fun_eq_iff)
  have sum: "unat (ctl_ticket ctl) = (\<Sum>j<nsh v. rT (rg ?v j)) + unat (ctl_dropped ctl)"
    using sum_upd [of i "nsh v" "\<lambda>j. rT (rg ?v j)" "\<lambda>j. rT (rg v j)"] i sh tick(2) E(12) by simp
  have A: "\<forall>j<nsh ?v. shard_inv m' (rg ?v j) (ix ?v j) ((G(i := L)) j) \<and> r_payloadCap (rg ?v j) = v_payloadCap ?v \<and>
      sh_ingested (v_shards ?v ! j) = r_tail (rg ?v j) \<and> sh_consumed (v_shards ?v ! j) = r_head (rg ?v j)"
    using E(6-8) sh others inv same(1) cnt i by simp
  have geo: "r_base (rg ?v j) = r_base (rg v j)" "shard_span (rg ?v j) (ix ?v j) = shard_span (rg v j) (ix v j)"
    if "j < nsh v" for j using sh [OF that] same(2,3) by simp_all
  have B: "\<forall>a<nsh ?v. \<forall>b<nsh ?v. a \<noteq> b \<longrightarrow>
      apart (r_base (rg ?v a)) (shard_span (rg ?v a) (ix ?v a)) (r_base (rg ?v b)) (shard_span (rg ?v b) (ix ?v b))"
  proof (intro allI impI)
    fix a b
    assume "a < nsh ?v" "b < nsh ?v" "a \<noteq> b"
    then have "a < nsh v" "b < nsh v" "a \<noteq> b" by simp_all
    with E(9) geo show "apart (r_base (rg ?v a)) (shard_span (rg ?v a) (ix ?v a)) (r_base (rg ?v b))
        (shard_span (rg ?v b) (ix ?v b))" by presburger
  qed
  have "unat (e_ticket (G j p)) \<le> unat (ctl_ticket ctl)" if "j < nsh v" "p < rT (rg v j)" for j p
    using E(10) [OF that] tick(1) by simp
  then have C: "\<forall>j<nsh ?v. \<forall>p<rT (rg ?v j). unat (e_ticket ((G(i := L)) j p)) \<le> unat (ctl_ticket (v_ctl ?v)) \<and>
      shard_of v (e_key ((G(i := L)) j p)) = j"
    using sh ent E(11) by simp
  have D: "unat (ctl_ticket (v_ctl ?v)) = (\<Sum>j<nsh ?v. rT (rg ?v j)) + unat (ctl_dropped (v_ctl ?v))"
    using sum by simp
  have "\<not> v_nil ?v" "nsh ?v = unat (v_shardN ?v)" "isPow2 (v_shardN ?v)" "v_shardMsk ?v = v_shardN ?v - 1"
    using E(1-4) by simp_all
  then show ?thesis unfolding engine_core_def so using A B C D by blast
qed

section \<open>Publishing\<close>

text \<open>No counter is about to wrap: true for some \<open>2 ^ 63\<close> publications from the start on.\<close>

definition engine_room :: "Vaultage \<Rightarrow> bool" where
  "engine_room v \<longleftrightarrow> (\<forall>i<nsh v. unat (ctl_ticket (v_ctl v)) + rcap (rg v i) + 1 < 2 ^ 64)"

lemma room_ticket:
  assumes "engine_room v" "i < nsh v"
  shows "unat (ctl_ticket (v_ctl v) + 1) = unat (ctl_ticket (v_ctl v)) + 1"
proof -
  have "unat (ctl_ticket (v_ctl v)) + rcap (rg v i) + 1 < 2 ^ 64" using assms unfolding engine_room_def by blast
  then show ?thesis by (intro unat_add1) simp
qed

definition digest :: "Vaultage \<Rightarrow> u8 list \<Rightarrow> u32" where
  "digest v payload = (if c_Checksums (v_cfg v) then checksum32 payload else 0)"

text \<open>The conditions under which \<^verbatim>\<open>publish\<close> gets as far as issuing a ticket.\<close>

definition admits :: "Vaultage \<Rightarrow> u64 \<Rightarrow> u8 list \<Rightarrow> bool" where
  "admits v key payload \<longleftrightarrow> key \<noteq> 0 \<and> length payload \<le> unat (v_payloadCap v) \<and> \<not> v_nil v \<and>
     ctl_running (v_ctl v) \<noteq> 0 \<and> \<not> isClosed (v_valve v)"

abbreviation shard_full :: "Vaultage \<Rightarrow> nat \<Rightarrow> bool" where
  "shard_full v i \<equiv> ring_full (rg v i) {} {}"

text \<open>The engine after the ticket, the stores and the index update, before the saturation test.\<close>

definition after_publish :: "Vaultage \<Rightarrow> nat \<Rightarrow> ring \<Rightarrow> keyIndex \<Rightarrow> Vaultage" where
  "after_publish v i r x =
     v\<lparr>v_ctl := (v_ctl v)\<lparr>ctl_ticket := ctl_ticket (v_ctl v) + 1\<rparr>,
       v_shards := (v_shards v)[i := (v_shards v ! i)\<lparr>sh_ring := r,
         sh_ingested := sh_ingested (v_shards v ! i) + 1, sh_index := x\<rparr>]\<rparr>"

lemma now_ts_ticket: "now_ts (v\<lparr>v_ctl := (v_ctl v)\<lparr>ctl_ticket := t\<rparr>, v_shards := s\<rparr>) u = now_ts v u"
  by (simp add: now_ts_def)

lemma publish_accepts:
  fixes flags :: u32 and unixnano :: u64
  assumes inv: "engine_inv m v G" and room: "engine_room v" and adm: "admits v key payload"
    and free: "\<not> shard_full v (shard_of v key)"
  defines "i \<equiv> shard_of v key" and "ticket \<equiv> ctl_ticket (v_ctl v) + 1"
  defines "e \<equiv> entry_of ticket key (now_ts v unixnano) flags payload (digest v payload)"
  shows "\<exists>m' r' x' v'. publish m v key payload flags unixnano = Returned (Inr ticket, m', v') \<and>
    v' = (if occupancyPct r' \<ge> c_HighWaterPct (v_cfg v) then markSaturated (after_publish v i r' x') i
          else after_publish v i r' x') \<and>
    r' = (rg v i)\<lparr>r_tail := r_tail (rg v i) + 1, r_commit := r_tail (rg v i) + 1\<rparr> \<and>
    rT r' = rT (rg v i) + 1 \<and>
    engine_inv m' (after_publish v i r' x') (G(i := (G i)(rT (rg v i) := e))) \<and>
    (x_overflows x' = x_overflows (ix v i) \<longrightarrow> idx_map m' x' key = Some (ticket, of_nat (rT (rg v i) mod rcap (rg v i)))) \<and>
    (index_room m (ix v i) key \<longrightarrow> x_overflows x' = x_overflows (ix v i))"
proof -
  note E = engine_coreD [OF engine_invD(1) [OF inv]]
  have i: "i < nsh v" using shard_of_less [OF engine_invD(1) [OF inv]] by (simp add: i_def)
  let ?r = "rg v i" and ?x = "ix v i" and ?sum = "digest v payload" and ?ts = "now_ts v unixnano"
  have t: "unat ticket = unat (ctl_ticket (v_ctl v)) + 1"
    using room_ticket [OF room i] by (simp add: ticket_def)
  have tl: "rT ?r \<le> unat (ctl_ticket (v_ctl v))" by (rule shard_tail_le_ticket [OF engine_invD(1) [OF inv] i])
  have rm: "rT ?r + rcap ?r + 1 < 2 ^ 64" using tl room i by (fastforce simp: engine_room_def)
  have len: "length payload \<le> unat (r_payloadCap ?r)" using adm E(6) [OF i] by (simp add: admits_def)
  have tk: "ticket \<noteq> 0" using t by auto
  have lt: "unat (e_ticket (G i p)) < unat ticket" if "p < rT ?r" for p using E(10) [OF i that] t by simp
  obtain r1 m1 r2 m2 x2 err where
    c: "claim m ?r = Some ((r_tail ?r, True), r1)"
    and p: "ring_publish m r1 (r_tail ?r) ticket key ?ts flags payload ?sum = (of_nat (length payload), m1, r2)"
    and u: "upsert m1 ?x key ticket (r_tail ?r AND r_mask r2) r2 = (m2, x2, err)"
    and r2: "r2 = ?r\<lparr>r_tail := r_tail ?r + 1, r_commit := r_tail ?r + 1\<rparr>" "rT r2 = rT ?r + 1"
    and s: "shard_inv m2 r2 x2 ((G i)(rT ?r := e))" "same_table ?x x2"
    and w: "writes_within (r_base ?r) (shard_span ?r ?x) m m2"
    and own: "key \<noteq> 0 \<longrightarrow> x_overflows x2 = x_overflows ?x \<longrightarrow> idx_map m2 x2 key = Some (ticket, of_nat (rT ?r mod rcap ?r))"
      "key \<noteq> 0 \<longrightarrow> index_room m ?x key \<longrightarrow> x_overflows x2 = x_overflows ?x"
    using shard_publish [OF E(5) [OF i] free [folded i_def] rm len tk lt, of key ?ts flags ?sum, folded e_def]
    by blast
  let ?v = "after_publish v i r2 x2"
  have pub: "publish m v key payload flags unixnano = Returned (Inr ticket, m2,
      if occupancyPct r2 \<ge> c_HighWaterPct (v_cfg v) then markSaturated ?v i else ?v)"
    using adm c p u i
    by (simp add: publish_def admits_def Let_def atomicAdd64_def publish_claimed_def shard_of_def [symmetric]
        i_def [symmetric] ticket_def [symmetric] now_ts_ticket digest_def after_publish_def not_less)
  let ?sh = "(v_shards v ! i)\<lparr>sh_ring := r2, sh_ingested := sh_ingested (v_shards v ! i) + 1, sh_index := x2\<rparr>"
  have core: "engine_core m2 ?v (G(i := (G i)(rT ?r := e)))"
    unfolding after_publish_def ticket_def [symmetric]
  proof (rule shard_step [OF engine_invD(1) [OF inv] i _ _ _ _ _ _ w])
    show "shard_inv m2 (sh_ring ?sh) (sh_index ?sh) ((G i)(rT ?r := e))" using s(1) by simp
    show "unat (e_ticket (((G i)(rT ?r := e)) p)) \<le> unat (ctl_ticket ((v_ctl v)\<lparr>ctl_ticket := ticket\<rparr>))"
      "shard_of v (e_key (((G i)(rT ?r := e)) p)) = i" if "p < rT (sh_ring ?sh)" for p
      using that r2(2) lt [of p] E(11) [OF i, of p] by (auto simp: e_def entry_of_def i_def less_Suc_eq)
  qed (use E(7,8) [OF i] r2 s(2) t in \<open>simp_all add: same_table_def\<close>)
  have "hots ?v = hots v"
    using i by (simp add: after_publish_def hots_def map_update) (metis hots_def hots_nth list_update_id)
  then have "latch_ok ?v"
    using engine_invD(2) [OF inv] by (simp add: latch_ok_def) (simp add: after_publish_def)
  with core have "engine_inv m2 ?v (G(i := (G i)(rT ?r := e)))" by (simp add: engine_inv_def)
  with pub r2 own adm show ?thesis by (auto simp: admits_def)
qed

text \<open>The engine after a ticket was issued for a shard that turned out to be full.\<close>

definition after_drop :: "Vaultage \<Rightarrow> nat \<Rightarrow> Vaultage" where
  "after_drop v i =
     v\<lparr>v_shards := (v_shards v)[i := (v_shards v ! i)\<lparr>sh_rejected := sh_rejected (v_shards v ! i) + 1\<rparr>],
       v_ctl := (v_ctl v)\<lparr>ctl_ticket := ctl_ticket (v_ctl v) + 1, ctl_dropped := ctl_dropped (v_ctl v) + 1\<rparr>\<rparr>"

lemma publish_drops:
  assumes inv: "engine_inv m v G" and room: "engine_room v" and adm: "admits v key payload"
    and full: "shard_full v (shard_of v key)"
  defines "i \<equiv> shard_of v key"
  shows "publish m v key payload flags unixnano = Returned (Inl ErrShardFull, m, markSaturated (after_drop v i) i)"
    and "engine_inv m (markSaturated (after_drop v i) i) G"
proof -
  note E = engine_coreD [OF engine_invD(1) [OF inv]]
  have i: "i < nsh v" using shard_of_less [OF engine_invD(1) [OF inv]] by (simp add: i_def)
  let ?r = "rg v i"
  have c: "claim m ?r = Some ((0, False), ?r)"
    using claim_full [OF ring_invD(1) [OF shard_invD(2) [OF E(5) [OF i]]]] full by (simp add: i_def)
  have id: "(v_shards v)[i := (v_shards v ! i)\<lparr>sh_ring := ?r\<rparr>] = v_shards v" by simp
  show "publish m v key payload flags unixnano = Returned (Inl ErrShardFull, m, markSaturated (after_drop v i) i)"
    using adm c i
    by (simp add: publish_def admits_def Let_def atomicAdd64_def shard_of_def [symmetric] i_def [symmetric]
        after_drop_def not_less)
  note t = room_ticket [OF room i]
  have "unat (ctl_dropped (v_ctl v)) + 1 < 2 ^ 64"
    using E(12) room i by (fastforce simp: engine_room_def)
  then have d: "unat (ctl_dropped (v_ctl v) + 1) = unat (ctl_dropped (v_ctl v)) + 1" by (simp add: unat_add1)
  have eq: "after_drop v i = v\<lparr>v_ctl := (v_ctl v)\<lparr>ctl_ticket := ctl_ticket (v_ctl v) + 1,
        ctl_dropped := ctl_dropped (v_ctl v) + 1\<rparr>,
      v_shards := (v_shards v)[i := (v_shards v ! i)\<lparr>sh_rejected := sh_rejected (v_shards v ! i) + 1\<rparr>]\<rparr>"
    by (simp add: after_drop_def)
  have "engine_core m (after_drop v i) (G(i := G i))"
    unfolding eq
    by (rule shard_step [OF engine_invD(1) [OF inv] i])
      (use E(5,7,8,10,11) [OF i] t d in \<open>auto intro: le_SucI\<close>)
  moreover have "hots (after_drop v i) = hots v"
    using i by (simp add: after_drop_def hots_def map_update) (metis hots_def hots_nth list_update_id)
  then have "latch_ok (after_drop v i)"
    using engine_invD(2) [OF inv] by (simp add: latch_ok_def) (simp add: after_drop_def)
  ultimately have "engine_inv m (after_drop v i) G" by (simp add: engine_inv_def)
  then show "engine_inv m (markSaturated (after_drop v i) i) G"
    by (rule markSaturated_inv) (simp add: after_drop_def i)
qed

lemma publish_rejects:
  assumes "\<not> admits v key payload"
  shows "publish m v key payload flags unixnano =
    (if key = 0 then Returned (Inl ErrConfig, m, v)
     else if length payload > unat (v_payloadCap v) then Returned (Inl ErrPayloadTooLarge, m, v)
     else if v_nil v then NilDeref
     else if ctl_running (v_ctl v) = 0 then Returned (Inl ErrClosed, m, v)
     else Returned (Inl ErrBackpressure, m, v\<lparr>v_valve := reject (v_valve v)\<rparr>))"
  using assms by (auto simp: publish_def admits_def)

lemma reject_inv: "engine_inv m v G \<Longrightarrow> engine_inv m (v\<lparr>v_valve := reject (v_valve v)\<rparr>) G"
proof -
  assume inv: "engine_inv m v G"
  let ?v = "v\<lparr>v_valve := reject (v_valve v)\<rparr>"
  have "engine_core m ?v G" using engine_core_latch [OF same_but_latch_valve] engine_invD(1) [OF inv] by blast
  moreover have "latch_ok ?v"
    using engine_invD(2) [OF inv] by (auto simp: latch_ok_def hots_def gate_wf_def reject_def isClosed_def)
  ultimately show ?thesis by (simp add: engine_inv_def)
qed

section \<open>Draining\<close>

text \<open>A handler that looks at the shard number and at what the record shows while it is held.\<close>

definition observer :: "(int \<Rightarrow> entry \<Rightarrow> 'h \<Rightarrow> 'h) \<Rightarrow> 'h handler" where
  "observer f = (\<lambda>m rec. f (Shard rec) (delivered m rec))"

text \<open>How many records one pass over a shard takes.\<close>

definition batch :: "int \<Rightarrow> int \<Rightarrow> nat \<Rightarrow> nat" where
  "batch mx tot avail = (if mx \<le> 0 then avail else min avail (nat (mx - tot)))"

lemma delivered_Shard [simp]: "delivered m (rec\<lparr>Shard := i\<rparr>) = delivered m rec"
  by (simp add: delivered_def)

lemma batch_stop: "\<not> (mx \<le> 0 \<or> tot < mx) \<Longrightarrow> batch mx tot n = 0" "batch mx tot 0 = 0"
  by (auto simp: batch_def)

lemma batch_step: "mx \<le> 0 \<or> tot < mx \<Longrightarrow> batch mx tot (Suc n) = Suc (batch mx (tot + 1) n)"
  by (auto simp: batch_def min_def nat_diff_distrib' split: if_splits)

lemma shard_quiet: "shard_inv m r x L \<Longrightarrow> rC r = rT r" "shard_inv m r x L \<Longrightarrow> rH r \<le> rT r"
  using quiet_commit [OF shard_invD(2)] ring_inv0D(3) [OF ring_invD(1) [OF shard_invD(2)]] by auto

definition drained :: "shard \<Rightarrow> nat \<Rightarrow> shard" where
  "drained sh k = sh\<lparr>sh_ring := (sh_ring sh)\<lparr>r_head := r_head (sh_ring sh) + of_nat k\<rparr>,
     sh_consumed := sh_consumed sh + of_nat k\<rparr>"

lemma drained_0 [simp]: "drained sh 0 = sh"
  by (simp add: drained_def)

lemma drained_Suc: "drained (sh\<lparr>sh_ring := (sh_ring sh)\<lparr>r_head := r_head (sh_ring sh) + 1\<rparr>,
    sh_consumed := sh_consumed sh + 1\<rparr>) k = drained sh (Suc k)"
  by (simp add: drained_def add.assoc)

lemma drain_shard_spec:
  assumes "shard_inv m (sh_ring sh) x L" "k = batch mx tot (rT (sh_ring sh) - rH (sh_ring sh))"
  shows "\<exists>m' rec'. drain_shard (Some (observer f)) mx i m sh rec tot s =
      (m', drained sh k, rec', tot + int k, fold (\<lambda>p. f i (committed_entry (L p))) [rH (sh_ring sh)..<rH (sh_ring sh) + k] s) \<and>
    k \<le> rT (sh_ring sh) - rH (sh_ring sh) \<and> rH (sh_ring (drained sh k)) = rH (sh_ring sh) + k \<and>
    shard_inv m' (sh_ring (drained sh k)) x L \<and>
    writes_within (r_base (sh_ring sh)) (shard_span (sh_ring sh) x) m m'"
  using assms
proof (induction "rT (sh_ring sh) - rH (sh_ring sh)" arbitrary: m sh rec tot s k)
  case 0
  note q = shard_quiet [OF 0(2)]
  have "dequeue m (sh_ring sh) rec = ((0, False), rec, m, sh_ring sh)"
    using dequeue_empty [OF ring_invD(1) [OF shard_invD(2) [OF 0(2)]]] q 0(1) by simp
  then have "drain_shard (Some (observer f)) mx i m sh rec tot s = (m, sh, rec, tot, s)"
    by (subst drain_shard.simps) simp
  moreover have "k = 0" using 0 batch_stop(2) by metis
  ultimately show ?case using 0 by simp
next
  case (Suc n)
  note q = shard_quiet [OF Suc.prems(1)]
  let ?r = "sh_ring sh"
  show ?case
  proof (cases "mx \<le> 0 \<or> tot < mx")
    case False
    then have "k = 0" using Suc.prems(2) batch_stop(1) [OF False] by simp
    moreover have "drain_shard (Some (observer f)) mx i m sh rec tot s = (m, sh, rec, tot, s)"
      using False by (subst drain_shard.simps) simp
    ultimately show ?thesis using Suc.prems(1) by simp
  next
    case True
    have lt: "rH ?r < rC ?r" using Suc.hyps(2) q(1) by simp
    note T = shard_take [OF Suc.prems(1) lt]
    define r1 where "r1 = ?r\<lparr>r_head := r_head ?r + 1\<rparr>"
    note T' = T [folded r1_def]
    define m1 where "m1 = release m r1 (r_head ?r)"
    define sh1 where "sh1 = sh\<lparr>sh_ring := r1, sh_consumed := sh_consumed sh + 1\<rparr>"
    define rec1 where "rec1 = (load_record m r1 (r_head ?r) rec)\<lparr>Shard := i\<rparr>"
    define s1 where "s1 = f i (committed_entry (L (rH ?r))) s"
    have ring1: "sh_ring sh1 = r1" by (simp add: sh1_def)
    have step: "drain_shard (Some (observer f)) mx i m sh rec tot s =
        drain_shard (Some (observer f)) mx i m1 sh1 rec1 (tot + 1) s1"
      using True T'(1) T'(3) [of rec]
      by (subst drain_shard.simps)
        (simp add: Let_def atomicAdd64_def m1_def sh1_def rec1_def s1_def observer_def)
    define k1 where "k1 = batch mx (tot + 1) (rT (sh_ring sh1) - rH (sh_ring sh1))"
    have n: "n = rT (sh_ring sh1) - rH (sh_ring sh1)" using Suc.hyps(2) T'(4,5) ring1 by simp
    have k: "k = Suc k1"
      using Suc.prems(2) batch_step [OF True, of n] Suc.hyps(2) n by (simp add: k1_def)
    have inv1: "shard_inv m1 (sh_ring sh1) x L" using T'(2) ring1 by (simp add: m1_def)
    obtain m' rec' where ih: "drain_shard (Some (observer f)) mx i m1 sh1 rec1 (tot + 1) s1 =
        (m', drained sh1 k1, rec', tot + 1 + int k1,
         fold (\<lambda>p. f i (committed_entry (L p))) [rH (sh_ring sh1)..<rH (sh_ring sh1) + k1] s1)"
      "k1 \<le> rT (sh_ring sh1) - rH (sh_ring sh1)" "rH (sh_ring (drained sh1 k1)) = rH (sh_ring sh1) + k1"
      "shard_inv m' (sh_ring (drained sh1 k1)) x L"
      "writes_within (r_base (sh_ring sh1)) (shard_span (sh_ring sh1) x) m1 m'"
      using Suc.hyps(1) [OF n inv1 k1_def, of rec1 s1] by blast
    have dr: "drained sh1 k1 = drained sh k" using drained_Suc [of sh k1] k by (simp add: sh1_def r1_def)
    have h1: "rH (sh_ring sh1) = rH ?r + 1" using T'(4) ring1 by simp
    have fold: "fold (\<lambda>p. f i (committed_entry (L p))) [rH ?r..<rH ?r + k] s =
        fold (\<lambda>p. f i (committed_entry (L p))) [rH (sh_ring sh1)..<rH (sh_ring sh1) + k1] s1"
      unfolding k h1 s1_def by (simp add: upt_conv_Cons del: upt_Suc)
    have w: "writes_within (r_base ?r) (shard_span ?r x) m m'"
      using writes_within_trans [OF T'(7)] ih(5) ring1 by (simp add: m1_def r1_def)
    have "k \<le> rT ?r - rH ?r" using ih(2) n Suc.hyps(2) k by simp
    then show ?thesis
      using step ih(1,3,4) dr h1 fold w k by simp
  qed
qed

lemma drained_ring:
  "r_tail (sh_ring (drained sh k)) = r_tail (sh_ring sh)" "sh_index (drained sh k) = sh_index sh"
  "r_base (sh_ring (drained sh k)) = r_base (sh_ring sh)" "r_capacity (sh_ring (drained sh k)) = r_capacity (sh_ring sh)"
  "r_stride (sh_ring (drained sh k)) = r_stride (sh_ring sh)" "r_payloadCap (sh_ring (drained sh k)) = r_payloadCap (sh_ring sh)"
  "sh_hot (drained sh k) = sh_hot sh" "sh_ingested (drained sh k) = sh_ingested sh"
  "sh_consumed (drained sh k) = sh_consumed sh + of_nat k"
  "r_head (sh_ring (drained sh k)) = r_head (sh_ring sh) + of_nat k"
  by (simp_all add: drained_def)

lemma core_drained:
  assumes core: "engine_core m v G" and i: "i < nsh v"
    and s: "shard_inv m' (sh_ring (drained (v_shards v ! i) k)) (ix v i) (G i)"
    and w: "writes_within (r_base (rg v i)) (shard_span (rg v i) (ix v i)) m m'"
  shows "engine_core m' (upd_shard i (\<lambda>_. drained (v_shards v ! i) k) v) G"
proof -
  note E = engine_coreD [OF core]
  have "engine_core m' (v\<lparr>v_ctl := v_ctl v, v_shards := (v_shards v)[i := drained (v_shards v ! i) k]\<rparr>) (G(i := G i))"
    by (rule shard_step [OF core i _ _ _ _ _ _ w])
      (use E(7,8,10,11) [OF i] s in \<open>simp_all add: drained_ring\<close>)
  then show ?thesis by simp
qed

lemma hots_drained:
  assumes "i < nsh v"
  shows "hots (upd_shard i (\<lambda>_. drained (v_shards v ! i) k) v) = hots v"
  using assms by (simp add: hots_def map_update drained_ring) (metis hots_def hots_nth list_update_id)

text \<open>The deliveries of a pass, shard by shard.\<close>

definition deliveries :: "Vaultage \<Rightarrow> Vaultage \<Rightarrow> nat list \<Rightarrow> (nat \<times> nat) list" where
  "deliveries v v' is = concat (map (\<lambda>i. map (Pair i) [rH (rg v i)..<rH (rg v' i)]) is)"

text \<open>What consuming leaves of an engine.\<close>

definition only_heads :: "Vaultage \<Rightarrow> Vaultage \<Rightarrow> bool" where
  "only_heads v v' \<longleftrightarrow> nsh v' = nsh v \<and> v_cfg v' = v_cfg v \<and> v_shardMsk v' = v_shardMsk v \<and>
     v_coarseClock v' = v_coarseClock v \<and> v_closed v' = v_closed v \<and> v_arenas v' = v_arenas v \<and>
     v_ctlArena v' = v_ctlArena v \<and> v_shardN v' = v_shardN v \<and> v_payloadCap v' = v_payloadCap v \<and>
     ctl_running (v_ctl v') = ctl_running (v_ctl v) \<and> ctl_ticket (v_ctl v') = ctl_ticket (v_ctl v) \<and>
     ctl_dropped (v_ctl v') = ctl_dropped (v_ctl v) \<and> ctl_clock (v_ctl v') = ctl_clock (v_ctl v) \<and>
     (\<forall>j<nsh v. ix v' j = ix v j \<and> r_tail (rg v' j) = r_tail (rg v j) \<and>
        r_capacity (rg v' j) = r_capacity (rg v j) \<and> rH (rg v j) \<le> rH (rg v' j))"

lemma only_heads_refl [simp]: "only_heads v v"
  by (simp add: only_heads_def)

lemma only_heads_trans: "only_heads u v \<Longrightarrow> only_heads v w \<Longrightarrow> only_heads u w"
  unfolding only_heads_def by (auto intro: order_trans)

lemma only_heads_latch: "same_but_latch v v' \<Longrightarrow> only_heads v v'"
  unfolding only_heads_def using same_but_latchD by simp

text \<open>One pass over one shard, as \<^verbatim>\<open>Drain\<close> and \<^verbatim>\<open>worker\<close> make it.\<close>

lemma drain_core:
  fixes f :: "int \<Rightarrow> entry \<Rightarrow> 'h \<Rightarrow> 'h" and mx tot :: int
  assumes core: "engine_core m v G" and i: "i < nsh v"
  defines "k \<equiv> batch mx tot (rT (rg v i) - rH (rg v i))"
  shows "\<exists>m' rec' v'. drain_shard (Some (observer f)) mx (int i) m (v_shards v ! i) rec tot s =
      (m', drained (v_shards v ! i) k, rec', tot + int k,
       fold (\<lambda>p. f (int i) (committed_entry (G i p))) [rH (rg v i)..<rH (rg v i) + k] s) \<and>
    v' = upd_shard i (\<lambda>_. drained (v_shards v ! i) k) v \<and> engine_core m' v' G \<and> only_heads v v' \<and>
    hots v' = hots v \<and> rH (rg v' i) = rH (rg v i) + k \<and> (\<forall>j<nsh v. j \<noteq> i \<longrightarrow> rg v' j = rg v j) \<and>
    k \<le> rT (rg v i) - rH (rg v i)"
proof -
  obtain m' rec' where d: "drain_shard (Some (observer f)) mx (int i) m (v_shards v ! i) rec tot s =
      (m', drained (v_shards v ! i) k, rec', tot + int k,
       fold (\<lambda>p. f (int i) (committed_entry (G i p))) [rH (rg v i)..<rH (rg v i) + k] s)"
    "k \<le> rT (rg v i) - rH (rg v i)" "rH (sh_ring (drained (v_shards v ! i) k)) = rH (rg v i) + k"
    "shard_inv m' (sh_ring (drained (v_shards v ! i) k)) (ix v i) (G i)"
    "writes_within (r_base (rg v i)) (shard_span (rg v i) (ix v i)) m m'"
    using drain_shard_spec [OF engine_coreD(5) [OF core i] refl, where f = f and i = "int i" and mx = mx and tot = tot
        and rec = rec and s = s, folded k_def] by blast
  let ?v = "upd_shard i (\<lambda>_. drained (v_shards v ! i) k) v"
  have "engine_core m' ?v G" by (rule core_drained [OF core i d(4,5)])
  moreover have "only_heads v ?v" using i d(3) by (auto simp: only_heads_def nth_list_update drained_ring)
  ultimately show ?thesis using d(1-3) hots_drained [OF i, of k] i by auto
qed

lemma drain_one:
  fixes f :: "int \<Rightarrow> entry \<Rightarrow> 'h \<Rightarrow> 'h" and mx tot :: int
  assumes inv: "engine_inv m v G" and i: "i < nsh v"
  defines "k \<equiv> batch mx tot (rT (rg v i) - rH (rg v i))"
  shows "\<exists>m' rec' v'. drain_shard (Some (observer f)) mx (int i) m (v_shards v ! i) rec tot s =
      (m', drained (v_shards v ! i) k, rec', tot + int k,
       fold (\<lambda>p. f (int i) (committed_entry (G i p))) [rH (rg v i)..<rH (rg v i) + k] s) \<and>
    v' = upd_shard i (\<lambda>_. drained (v_shards v ! i) k) v \<and> engine_inv m' v' G \<and> only_heads v v' \<and>
    hots v' = hots v \<and> rH (rg v' i) = rH (rg v i) + k \<and> (\<forall>j<nsh v. j \<noteq> i \<longrightarrow> rg v' j = rg v j) \<and>
    k \<le> rT (rg v i) - rH (rg v i)"
proof -
  have "latch_ok v' \<longleftrightarrow> latch_ok v" if "v' = upd_shard i (\<lambda>_. drained (v_shards v ! i) k) v" for v'
    using hots_drained [OF i, of k] unfolding that by (simp add: latch_ok_def)
  then show ?thesis
    using drain_core [OF engine_invD(1) [OF inv] i, of f mx rec tot s, folded k_def] engine_invD(2) [OF inv]
    unfolding engine_inv_def by metis
qed

lemma drain_shards_spec:
  fixes f :: "int \<Rightarrow> entry \<Rightarrow> 'h \<Rightarrow> 'h"
  assumes "engine_inv m v G" "distinct is" "set is \<subseteq> {..<nsh v}"
  shows "\<exists>m' v' n. drain_shards (Some (observer f)) mx is m v rec tot s =
      (m', v', tot + int n, fold (\<lambda>(i, p). f (int i) (committed_entry (G i p))) (deliveries v v' is) s) \<and>
    engine_inv m' v' G \<and> only_heads v v' \<and> n = length (deliveries v v' is) \<and>
    (\<forall>j<nsh v. j \<notin> set is \<longrightarrow> rg v' j = rg v j \<and> hots v' ! j = hots v ! j) \<and>
    (mx \<le> 0 \<or> tot + int n < mx \<longrightarrow> (\<forall>j\<in>set is. rH (rg v' j) = rT (rg v j) \<and> hots v' ! j = 0)) \<and>
    (0 < mx \<longrightarrow> tot \<le> mx \<longrightarrow> tot + int n \<le> mx)"
  using assms
proof (induction "is" arbitrary: m v rec tot s)
  case Nil
  then show ?case by (simp add: deliveries_def)
next
  case (Cons i "is")
  then have i: "i < nsh v" "i \<notin> set is" by auto
  define k where "k = batch mx tot (rT (rg v i) - rH (rg v i))"
  obtain m1 rec1 v1 where d: "drain_shard (Some (observer f)) mx (int i) m (v_shards v ! i) rec tot s =
      (m1, drained (v_shards v ! i) k, rec1, tot + int k,
       fold (\<lambda>p. f (int i) (committed_entry (G i p))) [rH (rg v i)..<rH (rg v i) + k] s)"
    "v1 = upd_shard i (\<lambda>_. drained (v_shards v ! i) k) v" "engine_inv m1 v1 G" "only_heads v v1" "hots v1 = hots v"
    "rH (rg v1 i) = rH (rg v i) + k" "\<forall>j<nsh v. j \<noteq> i \<longrightarrow> rg v1 j = rg v j" "k \<le> rT (rg v i) - rH (rg v i)"
    using drain_one [OF Cons.prems(1) i(1), of f mx rec tot s, folded k_def] by blast
  define v2 where "v2 = markDrained v1 i"
  have n1: "nsh v1 = nsh v" using d(4) by (simp add: only_heads_def)
  have i1: "i < nsh v1" using i n1 by simp
  have same: "same_but_latch v1 v2" unfolding v2_def by (rule markDrained_same [OF i1])
  note S = same_but_latchD [OF same]
  have inv2: "engine_inv m1 v2 G" unfolding v2_def by (rule markDrained_inv [OF d(3) i1])
  have oh: "only_heads v v2" by (rule only_heads_trans [OF d(4) only_heads_latch [OF same]])
  have h2: "hots v2 = (if occupancyPct (rg v1 i) \<le> c_LowWaterPct (v_cfg v1) then (hots v)[i := 0] else hots v)"
    unfolding v2_def using markDrained_latch(2) [OF engine_invD(2) [OF d(3)] i1] d(5) by simp
  define s1 where "s1 = fold (\<lambda>p. f (int i) (committed_entry (G i p))) [rH (rg v i)..<rH (rg v i) + k] s"
  have "distinct is" "set is \<subseteq> {..<nsh v2}" using Cons.prems S(1) n1 by auto
  from Cons.IH [OF inv2 this, of rec1 "tot + int k" s1] obtain m' v' n where ih:
    "drain_shards (Some (observer f)) mx is m1 v2 rec1 (tot + int k) s1 =
      (m', v', tot + int k + int n, fold (\<lambda>(i, p). f (int i) (committed_entry (G i p))) (deliveries v2 v' is) s1)"
    "engine_inv m' v' G" "only_heads v2 v'" "n = length (deliveries v2 v' is)"
    "\<forall>j<nsh v2. j \<notin> set is \<longrightarrow> rg v' j = rg v2 j \<and> hots v' ! j = hots v2 ! j"
    "mx \<le> 0 \<or> tot + int k + int n < mx \<longrightarrow> (\<forall>j\<in>set is. rH (rg v' j) = rT (rg v2 j) \<and> hots v' ! j = 0)"
    "0 < mx \<longrightarrow> tot + int k \<le> mx \<longrightarrow> tot + int k + int n \<le> mx"
    by blast
  have ri: "rg v' i = rg v1 i" using ih(5) i S(1,2) n1 by simp
  have rj: "rg v2 j = rg v j" if "j < nsh v" "j \<noteq> i" for j using that d(7) S(2) n1 by simp
  have rjs: "rg v2 j = rg v j" if "j \<in> set is" for j
    using rj [of j] that i Cons.prems(3) by auto
  then have "deliveries v2 v' is = deliveries v v' is" by (simp add: deliveries_def cong: map_cong)
  then have del: "deliveries v v' (i # is) = map (Pair i) [rH (rg v i)..<rH (rg v i) + k] @ deliveries v2 v' is"
    using ri d(6) by (simp add: deliveries_def)
  have run: "drain_shards (Some (observer f)) mx (i # is) m v rec tot s =
      (m', v', tot + int (length (deliveries v v' (i # is))),
       fold (\<lambda>(i, p). f (int i) (committed_entry (G i p))) (deliveries v v' (i # is)) s)"
    using d(1,2) ih(1,4) unfolding del by (simp add: v2_def s1_def fold_map comp_def algebra_simps)
  have cnt: "length (deliveries v v' (i # is)) = k + n" using ih(4) del by simp
  have empty: "rH (rg v' i) = rT (rg v i) \<and> hots v' ! i = 0" if "mx \<le> 0 \<or> tot + int (k + n) < mx"
  proof -
    have k: "k = rT (rg v i) - rH (rg v i)" using that by (auto simp: k_def batch_def min_def split: if_splits)
    have "rH (rg v i) \<le> rT (rg v i)"
      by (rule shard_quiet(2) [OF engine_coreD(5) [OF engine_invD(1) [OF Cons.prems(1)] i(1)]])
    then have H: "rH (rg v1 i) = rT (rg v i)" using d(6) k by simp
    have T1: "r_tail (rg v1 i) = r_tail (rg v i)" using d(4) i by (simp add: only_heads_def)
    then have "r_head (rg v1 i) = r_tail (rg v1 i)" using H by (simp add: word_unat_eq_iff)
    then have "occupancyPct (rg v1 i) = 0" by (simp add: occupancyPct_def pending_def Let_def)
    then have "hots v2 ! i = 0" using h2 i by simp
    then show ?thesis using ri H ih(5) i S(1) n1 by simp
  qed
  have others: "rg v' j = rg v j \<and> hots v' ! j = hots v ! j" if "j < nsh v" "j \<notin> set (i # is)" for j
    using that ih(5) rj S(1) n1 h2 by (auto simp: nth_list_update)
  have tails: "rT (rg v2 j) = rT (rg v j)" if "j \<in> set is" for j
    using that oh Cons.prems(3) by (auto simp: only_heads_def)
  have lim: "tot + int (length (deliveries v v' (i # is))) \<le> mx" if "0 < mx" "tot \<le> mx"
  proof -
    have "tot + int k \<le> mx" using that by (auto simp: k_def batch_def min_def)
    then show ?thesis using ih(4,7) that del by simp
  qed
  have all: "\<forall>j\<in>set (i # is). rH (rg v' j) = rT (rg v j) \<and> hots v' ! j = 0" if "mx \<le> 0 \<or> tot + int (k + n) < mx"
    using empty [OF that] ih(6) that tails by auto
  show ?case
    by (intro exI [of _ m'] exI [of _ v'] exI [of _ "k + n"] conjI impI)
      (use run [unfolded cnt] ih(2) only_heads_trans [OF oh ih(3)] cnt others all lim [unfolded cnt] in \<open>assumption | simp\<close>)+
qed

end
