(* ===== verification/ArenaProps.thy ===== *)
theory ArenaProps
  imports Arena
begin

text \<open>
  The arena against the contract of the operating system. \<open>os_memory\<close> is what \<^verbatim>\<open>arena.go\<close>
  relies on: a successful map adds fresh bytes to the mapped set, a successful unmap removes
  exactly its range, a failed call and the advisory calls leave the set alone. The platform
  functions meet it whenever the kernel's own calls do (\<open>vm_laws\<close>).
\<close>

section \<open>Byte ranges\<close>

definition region :: "u64 \<Rightarrow> u64 \<Rightarrow> u64 set" where
  "region p n = {a. unat (a - p) < unat n}"

lemma region_interval:
  assumes "unat p + unat n \<le> 2 ^ 64"
  shows "a \<in> region p n \<longleftrightarrow> unat p \<le> unat a \<and> unat a < unat p + unat n"
  using assms unat_lt64 [of a] unat_lt64 [of p] by (auto simp: region_def unat_sub_if')

lemma region_zero [simp]: "region p 0 = {}"
  by (simp add: region_def)

lemma HugePageSize_pow2: "HugePageSize = 2 ^ 21"
  by (simp add: HugePageSize_def)

lemma unat_HugePageSize [simp]: "unat HugePageSize = 2097152"
  by (simp add: HugePageSize_def)

lemma alignUp_huge:
  assumes "unat n + 2097151 < 2 ^ 64"
  shows "unat n \<le> unat (alignUp n HugePageSize)" "unat (alignUp n HugePageSize) < unat n + 2097152"
    "isAligned (alignUp n HugePageSize) HugePageSize"
  using alignUp_bounds [of 21 n] isAligned_iff [of 21 "alignUp n HugePageSize"] assms
  by (simp_all add: HugePageSize_pow2)

section \<open>The contract\<close>

locale os_memory =
  fixes S :: "'k sys"
    and mapped :: "'k \<Rightarrow> u64 set"
  assumes map_ok: "sysMapAnon S n k = (Inr p, k') \<or> sysMapHuge S n k = (Inr p, k') \<Longrightarrow>
      p \<noteq> 0 \<and> unat p + unat n \<le> 2 ^ 64 \<and> region p n \<inter> mapped k = {} \<and> mapped k' = mapped k \<union> region p n"
    and map_err: "sysMapAnon S n k = (Inl e, k') \<or> sysMapHuge S n k = (Inl e, k') \<Longrightarrow> mapped k' = mapped k"
    and unmap_ok: "sysUnmap S p n k = (None, k') \<Longrightarrow> p \<noteq> 0 \<Longrightarrow> mapped k' = mapped k - region p n"
    and unmap_err: "sysUnmap S p n k = (Some e, k') \<Longrightarrow> mapped k' = mapped k"
    and advise: "mapped (snd (sysAdviseHuge S p n k)) = mapped k"
    and pin: "mapped (snd (sysPin S p n k)) = mapped k"
    and unpin: "mapped (snd (sysUnpin S p n k)) = mapped k"
begin

text \<open>What the two tiers hand to the rest of \<^verbatim>\<open>NewArena\<close>.\<close>

definition span_ok :: "Arena \<Rightarrow> 'k \<Rightarrow> 'k \<Rightarrow> bool" where
  "span_ok a k k' \<longleftrightarrow> a_base a \<noteq> 0 \<and> a_raw a = a_base a \<and> a_rawSize a = a_size a \<and>
     unat (a_base a) + unat (a_size a) \<le> 2 ^ 64 \<and>
     region (a_base a) (a_size a) \<inter> mapped k = {} \<and> mapped k' = mapped k \<union> region (a_base a) (a_size a)"

text \<open>The aligned window left after trimming: the slack on both sides goes, the window stays.\<close>

lemma trim_regions:
  fixes p n :: u64
  assumes fit: "unat p + unat (n + HugePageSize) \<le> 2 ^ 64" "unat n + 2097152 < 2 ^ 64"
  defines "h \<equiv> alignUp p HugePageSize - p"
  shows "h < HugePageSize" "unat (p + h) = unat p + unat h" "isAligned (p + h) HugePageSize"
    "unat (p + h) + unat n \<le> 2 ^ 64" "n + HugePageSize - h - n = HugePageSize - h"
    "region p (n + HugePageSize) - region p h - region (p + (h + n)) (n + HugePageSize - h - n) = region (p + h) n"
    "region (p + h) n \<subseteq> region p (n + HugePageSize)" "region p h \<subseteq> region p (n + HugePageSize)"
    "region (p + (h + n)) (n + HugePageSize - h - n) \<subseteq> region p (n + HugePageSize)"
proof -
  have raw: "unat (n + HugePageSize) = unat n + 2097152" using fit(2) by (simp add: unat_add64)
  then have up: "unat p \<le> unat (alignUp p HugePageSize)"
    "unat (alignUp p HugePageSize) < unat p + 2097152" "isAligned (alignUp p HugePageSize) HugePageSize"
    using alignUp_huge [of p] fit(1) by auto
  have ph: "p + h = alignUp p HugePageSize" by (simp add: h_def)
  have h: "unat h = unat (alignUp p HugePageSize) - unat p"
    using up(1) by (simp add: h_def unat_sub_if')
  then show lt: "h < HugePageSize" using up by (simp add: word_less_nat_alt)
  show uph: "unat (p + h) = unat p + unat h" using up(1) h ph by simp
  show "isAligned (p + h) HugePageSize" using up(3) ph by simp
  have hb: "unat h < 2097152" using lt by (simp add: word_less_nat_alt)
  then show "unat (p + h) + unat n \<le> 2 ^ 64" using uph fit(1) raw by simp
  show tail: "n + HugePageSize - h - n = HugePageSize - h" by (simp add: algebra_simps)
  have ut: "unat (HugePageSize - h) = 2097152 - unat h" using hb by (simp add: unat_sub_if')
  have hn: "unat (h + n) = unat h + unat n" using hb fit(2) by (simp add: unat_add64)
  have "unat p + unat (h + n) < 2 ^ 64" using hn fit(1) raw hb by simp
  then have phn: "unat (p + (h + n)) = unat p + unat h + unat n" using hn by (simp add: unat_add64)
  have "unat p + unat h \<le> 2 ^ 64" "unat (p + (h + n)) + unat (HugePageSize - h) \<le> 2 ^ 64"
    using fit(1) raw hb ut phn by simp_all
  note iv = region_interval [OF fit(1)] region_interval [OF this(1)]
    region_interval [OF this(2)] region_interval [OF \<open>unat (p + h) + unat n \<le> 2 ^ 64\<close>]
  show "region p (n + HugePageSize) - region p h - region (p + (h + n)) (n + HugePageSize - h - n) = region (p + h) n"
    unfolding tail using hb by (auto simp: set_eq_iff iv raw uph phn ut)
  show "region (p + h) n \<subseteq> region p (n + HugePageSize)" "region p h \<subseteq> region p (n + HugePageSize)"
    "region (p + (h + n)) (n + HugePageSize - h - n) \<subseteq> region p (n + HugePageSize)"
    unfolding tail using hb by (auto simp: iv raw uph phn ut)
qed

text \<open>Unmapping a slack that may be empty.\<close>

lemma unmap_slack:
  assumes "(if n > 0 then sysUnmap S p n k else (None, k)) = (None, k')" "p \<noteq> 0"
  shows "mapped k' = mapped k - region p n"
  using assms unmap_ok [of p n k k'] by (cases "n = 0") (auto simp: word_neq_0_conv)

lemma trim_window_okD:
  assumes "trim_window S a rh p raw h t k1 = (Inr a', k')"
  obtains k2 k3 where
    "(if h > 0 then sysUnmap S p h k1 else (None, k1)) = (None, k2)"
    "(if t > 0 then sysUnmap S (p + (h + a_size a)) t k2 else (None, k2)) = (None, k3)"
    "k' = snd (sysAdviseHuge S (p + h) (a_size a) k3)"
    "a_base a' = p + h" "a_raw a' = p + h" "a_rawSize a' = a_size a" "a_size a' = a_size a"
    "a_pageSize a' = a_pageSize a" "a_hugeNative a' = a_hugeNative a" "a_pinned a' = a_pinned a"
  using assms by (auto simp: trim_window_def Let_def split: prod.splits option.splits if_split_asm)

lemma map_trim_ok:
  assumes trim: "map_trim S a rh k = (Inr a', k')" and fit: "unat (a_size a) + 2097152 < 2 ^ 64"
  shows "span_ok a' k k' \<and> isAligned (a_base a') HugePageSize \<and> a_size a' = a_size a \<and>
    a_pageSize a' = a_pageSize a \<and> a_hugeNative a' = a_hugeNative a \<and> a_pinned a' = a_pinned a"
proof -
  let ?n = "a_size a"
  obtain p k1 where m: "sysMapAnon S (?n + HugePageSize) k = (Inr p, k1)"
    using trim by (auto simp: map_trim_def Let_def split: prod.splits sum.splits)
  define h where "h = alignUp p HugePageSize - p"
  define t where "t = ?n + HugePageSize - h - ?n"
  from trim m have "trim_window S a rh p (?n + HugePageSize) h t k1 = (Inr a', k')"
    unfolding h_def t_def map_trim_def Let_def by (simp only: prod.case sum.case)
  then obtain k2 k3 where u1: "(if h > 0 then sysUnmap S p h k1 else (None, k1)) = (None, k2)"
    and u2: "(if t > 0 then sysUnmap S (p + (h + ?n)) t k2 else (None, k2)) = (None, k3)"
    and k': "k' = snd (sysAdviseHuge S (p + h) ?n k3)"
    and a': "a_base a' = p + h" "a_raw a' = p + h" "a_rawSize a' = ?n" "a_size a' = ?n"
      "a_pageSize a' = a_pageSize a" "a_hugeNative a' = a_hugeNative a" "a_pinned a' = a_pinned a"
    by (rule trim_window_okD)
  note M = map_ok [OF disjI1, OF m]
  note T = trim_regions [of p ?n, folded h_def, folded t_def, OF _ fit]
  have wrap: "unat p + unat (?n + HugePageSize) \<le> 2 ^ 64" using M by blast
  have nz: "p + h \<noteq> 0" "p + (h + ?n) \<noteq> 0"
  proof -
    have "0 < unat p" using M by (simp add: unat_gt_0)
    then show "p + h \<noteq> 0" using T(2) [OF wrap] by (metis add_gr_0 unat_0 less_numeral_extra(3))
    have "unat (p + (h + ?n)) = unat (p + h) + unat ?n"
    proof -
      have "unat (p + h) + unat ?n < 2 ^ 64"
        using T(1,2) [OF wrap] wrap fit by (simp add: unat_add64 word_less_nat_alt)
      then show ?thesis by (simp add: unat_add64 flip: add.assoc)
    qed
    then show "p + (h + ?n) \<noteq> 0" using \<open>0 < unat p\<close> T(2) [OF wrap]
      by (metis add_gr_0 unat_0 less_numeral_extra(3))
  qed
  have "mapped k3 = mapped k1 - region p h - region (p + (h + ?n)) t"
    using unmap_slack [OF u1] unmap_slack [OF u2 nz(2)] M by simp
  also have "\<dots> = mapped k \<union> region (p + h) ?n"
    using M T(6-9) [OF wrap] by blast
  finally have "mapped k' = mapped k \<union> region (p + h) ?n" using k' advise by simp
  moreover have "region (p + h) ?n \<inter> mapped k = {}" using M T(7) [OF wrap] by blast
  ultimately show ?thesis using a' nz(1) T(3,4) [OF wrap] by (simp add: span_ok_def)
qed

lemma map_span_ok:
  assumes "map_span S a rh k = (Inr a', k')" "unat (a_size a) + 2097152 < 2 ^ 64"
  shows "span_ok a' k k' \<and> a_size a' = a_size a \<and> a_pageSize a' = a_pageSize a \<and>
    (rh \<longrightarrow> a_hugeNative a') \<and> a_pinned a' = a_pinned a"
proof (cases "sysMapHuge S (a_size a) k")
  case (Pair res k1)
  show ?thesis
  proof (cases res)
    case (Inr p)
    then have a': "a' = a\<lparr>a_raw := p, a_rawSize := a_size a, a_base := p, a_hugeNative := True\<rparr>" "k' = k1"
      using assms(1) Pair by (simp_all add: map_span_def)
    from map_ok [OF disjI2, of "a_size a" k p k1] Pair Inr show ?thesis by (simp add: a' span_ok_def)
  next
    case (Inl e)
    then have trim: "\<not> rh" "map_trim S a rh k1 = (Inr a', k')"
      using assms(1) Pair by (auto simp: map_span_def split: if_splits)
    have "mapped k1 = mapped k" using map_err [OF disjI2] Pair Inl by blast
    with map_trim_ok [OF trim(2) assms(2)] trim(1) show ?thesis by (auto simp: span_ok_def)
  qed
qed

text \<open>An unmap of the whole span undoes the mapping.\<close>

lemma unmap_span:
  assumes "span_ok a k k'" "\<And>q n i. fst (sysUnmap S q n i) = None" "mapped k'' = mapped k'"
  shows "mapped (snd (sysUnmap S (a_raw a) (a_rawSize a) k'')) = mapped k"
proof -
  obtain k3 where "sysUnmap S (a_base a) (a_size a) k'' = (None, k3)"
    using assms(2) [of "a_base a" "a_size a" k''] by (metis prod.collapse)
  with unmap_ok [OF this] assms(1,3) show ?thesis by (auto simp: span_ok_def)
qed

lemma map_span_err:
  assumes "map_span S a rh k = (Inl e, k')" "\<And>q n i. fst (sysUnmap S q n i) = None"
  shows "mapped k' = mapped k"
proof (cases "sysMapHuge S (a_size a) k")
  case (Pair res k1)
  then obtain e1 where r: "res = Inl e1" using assms(1) by (cases res) (simp_all add: map_span_def)
  have k1: "mapped k1 = mapped k" using map_err [OF disjI2] Pair r by blast
  have never: "sysUnmap S q n i \<noteq> (Some e2, i')" for q n i e2 i' using assms(2) [of q n i] by auto
  show ?thesis
  proof (cases rh)
    case True
    then show ?thesis using assms(1) Pair r k1 by (simp add: map_span_def)
  next
    case False
    then have trim: "map_trim S a False k1 = (Inl e, k')" using assms(1) Pair r by (simp add: map_span_def)
    then have "sysMapAnon S (a_size a + HugePageSize) k1 = (Inl e, k')"
      using never
      by (auto simp: map_trim_def trim_window_def Let_def split: prod.splits sum.splits option.splits if_splits)
    then show ?thesis using map_err [OF disjI1] k1 by blast
  qed
qed

lemma NewArena_ok:
  assumes new: "NewArena S request rh rp m k = Some (Inr a, m', k')"
    and fit: "unat request + 4194304 \<le> 2 ^ 64"
  shows "span_ok a k k' \<and> isAligned (a_base a) HugePageSize \<and>
    a_size a = alignUp request HugePageSize \<and> (rh \<longrightarrow> a_hugeNative a) \<and> (rp \<longrightarrow> a_pinned a)"
proof -
  let ?n = "alignUp request HugePageSize"
  let ?a0 = "zero_Arena\<lparr>a_size := ?n, a_pageSize := sysPageSize S\<rparr>"
  obtain a1 k1 where sp: "map_span S ?a0 rh k = (Inr a1, k1)" and al: "isAligned (a_base a1) HugePageSize"
    using new by (auto simp: NewArena_def Let_def split: prod.splits sum.splits if_splits)
  obtain res k2 where pin': "sysPin S (a_base a1) (a_size a1) k1 = (res, k2)"
    by (cases "sysPin S (a_base a1) (a_size a1) k1")
  have a: "k' = k2 \<and> (res = None \<and> a = a1\<lparr>a_pinned := True\<rparr> \<or> \<not> rp \<and> a = a1)"
    using new sp al pin'
    by (auto simp: NewArena_def Let_def split: prod.splits sum.splits option.splits if_splits)
  have "unat ?n + 2097152 < 2 ^ 64" using alignUp_huge [of request] fit by simp
  from map_span_ok [OF sp] this have s: "span_ok a1 k k1" "a_size a1 = ?n" "rh \<longrightarrow> a_hugeNative a1"
    by simp_all
  moreover have "mapped k2 = mapped k1" using pin [of "a_base a1" "a_size a1" k1] pin' by simp
  ultimately show ?thesis using a al by (auto simp: span_ok_def)
qed

lemma NewArena_err:
  assumes new: "NewArena S request rh rp m k = Some (Inl e, m', k')"
    and fit: "unat request + 4194304 \<le> 2 ^ 64" and never: "\<And>q n i. fst (sysUnmap S q n i) = None"
  shows "mapped k' = mapped k"
proof (cases "request = 0 \<or> \<not> isPow2 (sysPageSize S)")
  case True
  then show ?thesis using new by (auto simp: NewArena_def Let_def split: if_splits)
next
  case False
  let ?n = "alignUp request HugePageSize"
  let ?a0 = "zero_Arena\<lparr>a_size := ?n, a_pageSize := sysPageSize S\<rparr>"
  obtain res k1 where sp: "map_span S ?a0 rh k = (res, k1)" by (cases "map_span S ?a0 rh k")
  show ?thesis
  proof (cases res)
    case (Inl e1)
    then have "k' = k1" using new False sp by (simp add: NewArena_def Let_def)
    then show ?thesis using map_span_err [OF _ never] sp Inl by blast
  next
    case (Inr a1)
    have "unat ?n + 2097152 < 2 ^ 64" using alignUp_huge [of request] fit by simp
    then have s: "span_ok a1 k k1" using map_span_ok sp Inr by force
    obtain pr k2 where pin': "sysPin S (a_base a1) (a_size a1) k1 = (pr, k2)"
      by (cases "sysPin S (a_base a1) (a_size a1) k1")
    have "mapped k2 = mapped k1" using pin [of "a_base a1" "a_size a1" k1] pin' by simp
    moreover have "k' = snd (sysUnmap S (a_raw a1) (a_rawSize a1) k1) \<or>
        k' = snd (sysUnmap S (a_raw a1) (a_rawSize a1) k2)"
      using new False sp Inr pin'
      by (auto simp: NewArena_def Let_def split: option.splits if_splits)
    ultimately show ?thesis using unmap_span [OF s never] by auto
  qed
qed

lemma arena_Close_unmaps:
  assumes base: "a_base a \<noteq> 0" "a_raw a = a_base a" "a_rawSize a = a_size a"
    and "arena_Close S a k = (err, a', k')" "\<And>q n i. fst (sysUnmap S q n i) = None"
  shows "err = None \<and> mapped k' = mapped k - region (a_base a) (a_size a) \<and> a_base a' = 0 \<and>
    arena_Close S a' k' = (None, a', k')"
proof -
  define k1 where "k1 = (if a_pinned a then snd (sysUnpin S (a_base a) (a_size a) k) else k)"
  have m1: "mapped k1 = mapped k" using unpin by (simp add: k1_def)
  obtain k2 where u: "sysUnmap S (a_base a) (a_size a) k1 = (None, k2)"
    using assms(5) [of "a_base a" "a_size a" k1] by (metis prod.collapse)
  have c: "err = None" "k' = k2" "a_base a' = 0"
    using assms(4) base u by (auto simp: arena_Close_def Let_def k1_def split: if_splits)
  moreover have "mapped k2 = mapped k - region (a_base a) (a_size a)" using unmap_ok [OF u base(1)] m1 by simp
  ultimately show ?thesis by (simp add: arena_Close_def)
qed

end

end
