(* ===== verification/ArenaThms.thy ===== *)
theory ArenaThms
  imports ArenaProps
begin

text \<open>The properties of arenas on the three platforms, with a small kernel to instantiate them on.\<close>

section \<open>The platforms meet the contract\<close>

text \<open>The documented behaviour of \<^verbatim>\<open>mmap\<close>, \<^verbatim>\<open>munmap\<close>, \<^verbatim>\<open>madvise\<close>, \<^verbatim>\<open>mlock\<close> and \<^verbatim>\<open>munlock\<close> as far as
  the sources rely on it. \<open>mapped\<close> is the set of bytes the process has mapped.\<close>

definition vm_laws :: "'k kernel \<Rightarrow> ('k \<Rightarrow> u64 set) \<Rightarrow> bool" where
  "vm_laws K mapped \<longleftrightarrow>
     (\<forall>n flags fd k r e k'. k_mmap K n flags fd k = ((r, e), k') \<longrightarrow>
        (if e = 0 then r \<noteq> 0 \<and> unat r + unat n \<le> 2 ^ 64 \<and> region r n \<inter> mapped k = {} \<and>
                       mapped k' = mapped k \<union> region r n
         else mapped k' = mapped k)) \<and>
     (\<forall>p n k e k'. k_munmap K p n k = (e, k') \<longrightarrow>
        mapped k' = (if e = 0 then mapped k - region p n else mapped k)) \<and>
     (\<forall>p n adv k. mapped (snd (k_madvise K p n adv k)) = mapped k) \<and>
     (\<forall>p n k. mapped (snd (k_mlock K p n k)) = mapped k) \<and>
     (\<forall>p n k. mapped (snd (k_munlock K p n k)) = mapped k)"

text \<open>Unmapping a range of one's own mappings does not fail.\<close>

definition munmap_succeeds :: "'k kernel \<Rightarrow> bool" where
  "munmap_succeeds K \<longleftrightarrow> (\<forall>p n k. fst (k_munmap K p n k) = 0)"

lemma mmap_result_law:
  assumes "vm_laws K mapped" "mmap_result (k_mmap K n flags fd k) = (res, k')"
  shows "case res of
      Inr p \<Rightarrow> p \<noteq> 0 \<and> unat p + unat n \<le> 2 ^ 64 \<and> region p n \<inter> mapped k = {} \<and> mapped k' = mapped k \<union> region p n
    | Inl e \<Rightarrow> mapped k' = mapped k"
proof -
  obtain r e k2 where m: "k_mmap K n flags fd k = ((r, e), k2)"
    by (metis prod.exhaust)
  have "if e = 0 then r \<noteq> 0 \<and> unat r + unat n \<le> 2 ^ 64 \<and> region r n \<inter> mapped k = {} \<and>
      mapped k2 = mapped k \<union> region r n else mapped k2 = mapped k"
    using assms(1) [unfolded vm_laws_def, THEN conjunct1, rule_format, OF m] .
  then show ?thesis using assms(2) m by (auto simp: mmap_result_def split: if_splits)
qed

lemma munmap_law: "vm_laws K mapped \<Longrightarrow> k_munmap K p n k = (e, k') \<Longrightarrow>
    mapped k' = (if e = 0 then mapped k - region p n else mapped k)"
  unfolding vm_laws_def by blast

lemma advisory_laws:
  assumes "vm_laws K mapped"
  shows "mapped (snd (k_madvise K p n adv k)) = mapped k"
    "mapped (snd (k_mlock K p n k)) = mapped k" "mapped (snd (k_munlock K p n k)) = mapped k"
  using assms unfolding vm_laws_def by blast+

lemma errno_result_snd: "snd (errno_result res) = snd res"
  by (simp add: errno_result_def split: prod.splits)

text \<open>Both backends wrap the raw calls the same way.\<close>

lemma posix_os:
  assumes vm: "vm_laws K mapped"
    and map: "\<And>n k. \<exists>fl fd. sysMapAnon S n k = mmap_result (k_mmap K n fl fd k)"
    and huge: "\<And>n k. (\<exists>fl fd. sysMapHuge S n k = mmap_result (k_mmap K n fl fd k)) \<or> (\<exists>e. sysMapHuge S n k = (Inl e, k))"
    and unmap: "\<And>p n k. sysUnmap S p n k = (if p = 0 \<or> n = 0 then (None, k) else errno_result (k_munmap K p n k))"
    and adv: "\<And>p n k. mapped (snd (sysAdviseHuge S p n k)) = mapped k"
    and pins: "\<And>p n k. sysPin S p n k = errno_result (k_mlock K p n k)"
      "\<And>p n k. sysUnpin S p n k = errno_result (k_munlock K p n k)"
  shows "os_memory S mapped"
proof
  fix n k p k'
  assume "sysMapAnon S n k = (Inr p, k') \<or> sysMapHuge S n k = (Inr p, k')"
  then obtain fl fd where "mmap_result (k_mmap K n fl fd k) = (Inr p, k')" using map huge by (metis Inl_Inr_False prod.inject)
  from mmap_result_law [OF vm this]
  show "p \<noteq> 0 \<and> unat p + unat n \<le> 2 ^ 64 \<and> region p n \<inter> mapped k = {} \<and> mapped k' = mapped k \<union> region p n" by simp
next
  fix n k e k'
  assume a: "sysMapAnon S n k = (Inl e, k') \<or> sysMapHuge S n k = (Inl e, k')"
  then consider fl fd where "mmap_result (k_mmap K n fl fd k) = (Inl e, k')" | "k' = k"
    using map huge by (metis prod.inject)
  then show "mapped k' = mapped k" using mmap_result_law [OF vm] by cases force+
next
  fix p n k k'
  assume "sysUnmap S p n k = (None, k')" "p \<noteq> 0"
  then show "mapped k' = mapped k - region p n"
    using munmap_law [OF vm, of p n k 0 k']
    by (auto simp: unmap errno_result_def split: if_splits prod.splits)
next
  fix p n k e k'
  assume "sysUnmap S p n k = (Some e, k')"
  then show "mapped k' = mapped k"
    using munmap_law [OF vm, of p n k _ k']
    by (auto simp: unmap errno_result_def split: if_splits prod.splits)
qed (simp_all add: adv pins errno_result_snd advisory_laws [OF vm])

lemma linux_os:
  assumes "vm_laws K mapped"
  shows "os_memory (linux_sys K) mapped"
proof (rule posix_os [OF assms])
  show "mapped (snd (sysAdviseHuge (linux_sys K) p n k)) = mapped k" for p n k
    using advisory_laws(1) [OF assms, of p n sysMadvHugepage k] advisory_laws(1) [OF assms, of p n sysMadvDontFork]
    by (cases "k_madvise K p n sysMadvHugepage k") (simp add: linux_sys_def linux_sysAdviseHuge_def)
qed (auto simp: linux_sys_def linux_sysMapAnon_def linux_sysMapHuge_def linux_sysUnmap_def
    linux_sysPin_def linux_sysUnpin_def)

lemma darwin_os:
  assumes "vm_laws K mapped"
  shows "os_memory (darwin_sys K) mapped"
proof (rule posix_os [OF assms])
  show "mapped (snd (sysAdviseHuge (darwin_sys K) p n k)) = mapped k" for p n k
    using advisory_laws(1) [OF assms, of p n sysMadvWillNeed k]
    by (cases "k_madvise K p n sysMadvWillNeed k") (simp add: darwin_sys_def darwin_sysAdviseHuge_def)
qed (auto simp: darwin_sys_def darwin_sysMapAnon_def darwin_sysMapHuge_def darwin_sysUnmap_def
    darwin_sysPin_def darwin_sysUnpin_def)

lemma platform_os: "vm_laws K mapped \<Longrightarrow> S \<in> {linux_sys K, darwin_sys K} \<Longrightarrow> os_memory S mapped"
  using linux_os darwin_os by blast

lemma platform_unmap:
  "munmap_succeeds K \<Longrightarrow> S \<in> {linux_sys K, darwin_sys K} \<Longrightarrow> fst (sysUnmap S p n k) = None"
  by (auto simp: munmap_succeeds_def linux_sys_def darwin_sys_def linux_sysUnmap_def darwin_sysUnmap_def
      errno_result_def split: prod.splits) (metis fst_conv)+

text \<open>A platform with no backend maps nothing, and so meets the contract with nothing mapped.\<close>

interpretation unsupported: os_memory "unsupported_sys pagesize" "\<lambda>_. {}" for pagesize
  by unfold_locales (auto simp: unsupported_sys_def unsupported_map_def unsupported_call_def)

section \<open>Prefaulting\<close>

lemma prefault_from_spec:
  fixes base sz stride :: u64
  assumes stride: "0 < unat stride" "unat sz + unat stride \<le> 2 ^ 64"
  shows "\<exists>m'. prefault_from base sz stride off m = Some m' \<and>
    (\<forall>j. unat off + j * unat stride < unat sz \<longrightarrow> m' (base + off + of_nat j * stride) = 0) \<and>
    (\<forall>a. m' a \<noteq> m a \<longrightarrow> m' a = 0 \<and> unat (a - base) < unat sz)"
proof (induction "unat sz - unat off" arbitrary: off m rule: less_induct)
  case less
  show ?case
  proof (cases "off < sz")
    case False
    then show ?thesis by (subst prefault_from.simps) (auto simp: word_less_nat_alt)
  next
    case True
    then have lt: "unat off < unat sz" by (simp add: word_less_nat_alt)
    then have up: "unat (off + stride) = unat off + unat stride" using stride by (simp add: unat_add64)
    let ?m = "m(base + off := 0)"
    have "unat sz - unat (off + stride) < unat sz - unat off" using up lt stride by simp
    from less.hyps [OF this] obtain m' where m': "prefault_from base sz stride (off + stride) ?m = Some m'"
      "\<And>j. unat off + unat stride + j * unat stride < unat sz \<Longrightarrow> m' (base + (off + stride) + of_nat j * stride) = 0"
      "\<And>a. m' a \<noteq> ?m a \<Longrightarrow> m' a = 0 \<and> unat (a - base) < unat sz"
      unfolding up by blast
    have "m' (base + off + of_nat j * stride) = 0" if "unat off + j * unat stride < unat sz" for j
    proof (cases j)
      case 0
      then show ?thesis using m'(3) [of "base + off"] by auto
    next
      case (Suc i)
      then show ?thesis using m'(2) [of i] that by (simp add: algebra_simps)
    qed
    moreover have "m' a = 0 \<and> unat (a - base) < unat sz" if "m' a \<noteq> m a" for a
      using m'(3) [of a] that lt by (cases "a = base + off") auto
    ultimately show ?thesis using True m'(1) by (subst prefault_from.simps) auto
  qed
qed

text \<open>
  \<^verbatim>\<open>prefault\<close> ends, writes a zero at the start of every page-sized stride of the span, and changes
  no byte outside the span and no byte that was already zero.
\<close>
theorem prefault_touches_every_page:
  assumes "isPow2 (a_pageSize a)" "a_pageSize a \<le> HugePageSize" "unat (a_size a) + 2097152 \<le> 2 ^ 64"
  shows "\<exists>m'. prefault m a = Some m' \<and>
    (\<forall>j. j * unat (prefault_stride a) < unat (a_size a) \<longrightarrow> m' (a_base a + of_nat j * prefault_stride a) = 0) \<and>
    (\<forall>b. m' b \<noteq> m b \<longrightarrow> m' b = 0 \<and> unat (b - a_base a) < unat (a_size a))"
proof -
  have "prefault_stride a \<le> HugePageSize" using assms(2) by (simp add: prefault_stride_def)
  then have "unat (prefault_stride a) \<le> 2097152" by (simp add: word_le_nat_alt)
  moreover have "prefault_stride a \<noteq> 0" using assms(1) by (simp add: prefault_stride_def isPow2_def HugePageSize_def)
  then have "0 < unat (prefault_stride a)" by (simp add: unat_gt_0)
  ultimately show ?thesis
    using prefault_from_spec [of "prefault_stride a" "a_size a" "a_base a" 0 m] assms(3)
    by (simp add: prefault_def)
qed

theorem prefault_touches_every_page_witness:
  "\<exists>m'. prefault (\<lambda>_. 9) (zero_Arena\<lparr>a_base := 2097152, a_size := 2097152, a_pageSize := 4096\<rparr>) = Some m' \<and>
     m' (2097152 + of_nat 3 * 4096) = 0"
proof -
  let ?a = "zero_Arena\<lparr>a_base := 2097152, a_size := 2097152, a_pageSize := 4096\<rparr>"
  have s: "prefault_stride ?a = 4096" by (simp add: prefault_stride_def zero_Arena_def)
  have "isPow2 (a_pageSize ?a)" "a_pageSize ?a \<le> HugePageSize" "unat (a_size ?a) + 2097152 \<le> 2 ^ 64"
    by (simp_all add: isPow2_def HugePageSize_def)
  from prefault_touches_every_page [OF this, of "\<lambda>_. 9"] obtain m' where
    m': "prefault (\<lambda>_. 9) ?a = Some m'"
    "\<And>j. j * unat (prefault_stride ?a) < unat (a_size ?a) \<Longrightarrow> m' (a_base ?a + of_nat j * prefault_stride ?a) = 0"
    by blast
  from m'(1) m'(2) [of 3] show ?thesis by (simp add: s)
qed

section \<open>A small kernel\<close>

text \<open>A kernel that hands out addresses upwards and never has huge pages in its pool. Its state is
  the set of mapped bytes and the next free address.\<close>

definition demo_mapped :: "u64 set \<times> u64 \<Rightarrow> u64 set" where
  "demo_mapped k = fst k \<inter> {a. a < snd k}"

definition demo_kernel :: "(u64 set \<times> u64) kernel" where
  "demo_kernel = \<lparr>k_mmap = (\<lambda>n flags fd k. if n = 0 \<or> snd k = 0 then ((0, 22), k)
       else if flags AND sysMapHugetlb \<noteq> 0 \<or> 2 ^ 62 < n \<or> 2 ^ 62 < snd k then ((0, 12), k)
       else ((snd k, 0), (demo_mapped k \<union> region (snd k) n, snd k + n))),
     k_munmap = (\<lambda>p n k. (0, (fst k - region p n, snd k))), k_madvise = (\<lambda>p n adv k. (0, k)),
     k_mlock = (\<lambda>p n k. (0, k)), k_munlock = (\<lambda>p n k. (0, k)), k_setaffinity = (\<lambda>s k. (0, k)),
     k_pagesize = 4096\<rparr>"

lemma demo_mmap:
  assumes "\<not> 2 ^ 62 < n" "\<not> 2 ^ 62 < b"
  shows "unat b + unat n \<le> 2 ^ 64" "region b n \<inter> demo_mapped (A, b) = {}"
    "demo_mapped (demo_mapped (A, b) \<union> region b n, b + n) = demo_mapped (A, b) \<union> region b n"
proof -
  have le: "unat n \<le> 2 ^ 62" "unat b \<le> 2 ^ 62" using assms by (simp_all add: word_less_nat_alt not_less)
  then show fit: "unat b + unat n \<le> 2 ^ 64" by simp
  have up: "unat (b + n) = unat b + unat n" using le by (simp add: unat_add64)
  show "region b n \<inter> demo_mapped (A, b) = {}"
    by (auto simp: demo_mapped_def region_interval [OF fit] word_less_nat_alt)
  show "demo_mapped (demo_mapped (A, b) \<union> region b n, b + n) = demo_mapped (A, b) \<union> region b n"
    by (auto simp: demo_mapped_def region_interval [OF fit] word_less_nat_alt up)
qed

lemma demo_vm: "vm_laws demo_kernel demo_mapped" "munmap_succeeds demo_kernel"
proof -
  have mm: "if e = 0 then r \<noteq> 0 \<and> unat r + unat n \<le> 2 ^ 64 \<and> region r n \<inter> demo_mapped k = {} \<and>
      demo_mapped k' = demo_mapped k \<union> region r n else demo_mapped k' = demo_mapped k"
    if "k_mmap demo_kernel n flags fd k = ((r, e), k')" for n flags fd k r e k'
    using that demo_mmap(1) [of n "snd k"] demo_mmap(2,3) [where n = n and b = "snd k" and A = "fst k"] by (auto simp: demo_kernel_def split: if_splits)
  have un: "demo_mapped k' = (if e = 0 then demo_mapped k - region p n else demo_mapped k)"
    if "k_munmap demo_kernel p n k = (e, k')" for p n k e k'
    using that by (auto simp: demo_kernel_def demo_mapped_def)
  have "demo_mapped (snd (k_madvise demo_kernel p n adv k)) = demo_mapped k"
    "demo_mapped (snd (k_mlock demo_kernel p n k)) = demo_mapped k"
    "demo_mapped (snd (k_munlock demo_kernel p n k)) = demo_mapped k" for p n adv k
    by (simp_all add: demo_kernel_def)
  with mm un show "vm_laws demo_kernel demo_mapped"
    unfolding vm_laws_def by blast
  show "munmap_succeeds demo_kernel" by (simp add: munmap_succeeds_def demo_kernel_def)
qed

lemmas demo_sys_simps = linux_sys_def linux_sysMapHuge_def linux_sysMapAnon_def linux_sysUnmap_def
  linux_sysAdviseHuge_def linux_sysPin_def mmap_result_def errno_result_def demo_kernel_def
  sysMapHugetlb_def sysMapHuge2MB_def sysMapHugeShift_def linux_private_anon_def HugePageSize_def

locale posix_kernel =
  fixes K :: "'k kernel" and mapped :: "'k \<Rightarrow> u64 set"
  assumes vm: "vm_laws K mapped"

sublocale posix_kernel \<subseteq> lin: os_memory "linux_sys K" mapped
  using linux_os vm .

sublocale posix_kernel \<subseteq> dar: os_memory "darwin_sys K" mapped
  using darwin_os vm .

interpretation demo: posix_kernel demo_kernel demo_mapped
  using demo_vm(1) by unfold_locales

text \<open>Small requests succeed there.\<close>

lemma demo_NewArena:
  assumes req: "0 < unat request" "unat request \<le> 2 ^ 40" and b: "0 < unat b" "unat b \<le> 2 ^ 62"
  shows "\<exists>a m' A' b'. NewArena (linux_sys demo_kernel) request False rp m (A, b) = Some (Inr a, m', (A', b')) \<and>
    unat b < unat b' \<and> unat b' \<le> unat b + unat request + 4194304"
proof -
  let ?n = "alignUp request HugePageSize" and ?S = "linux_sys demo_kernel"
  have n: "unat ?n < unat request + 2097152" "unat request \<le> unat ?n" "isAligned ?n HugePageSize"
    using alignUp_huge [of request] req by auto
  define a0 where "a0 = zero_Arena\<lparr>a_size := ?n, a_pageSize := 4096\<rparr>"
  have raw: "unat (?n + HugePageSize) = unat ?n + 2097152" using n req by (simp add: unat_add64)
  have lim: "\<not> 2 ^ 62 < ?n + HugePageSize" "\<not> 2 ^ 62 < b" "?n + HugePageSize \<noteq> 0" "b \<noteq> 0" "?n \<noteq> 0"
    using raw n req b by (auto simp: word_less_nat_alt)
  have huge: "sysMapHuge ?S ?n (A, b) = (Inl (Errno 12), (A, b)) \<or> sysMapHuge ?S ?n (A, b) = (Inl ErrConfig, (A, b))"
    using lim by (simp add: demo_sys_simps)
  have mp: "sysMapAnon ?S (?n + HugePageSize) (A, b) =
      (Inr b, (demo_mapped (A, b) \<union> region b (?n + HugePageSize), b + (?n + HugePageSize)))"
    using lim unfolding linux_sys_def by (simp add: linux_sysMapAnon_def demo_kernel_def mmap_result_def
        linux_private_anon_def sysMapHugetlb_def)
  have un: "\<exists>A2. sysUnmap ?S p l (A1, b1) = (None, (A2, b1))" for p l A1 b1
    by (auto simp: linux_sys_def linux_sysUnmap_def demo_kernel_def errno_result_def)
  have adv: "sysAdviseHuge ?S p l k = (None, k)" for p l k
    by (simp add: linux_sys_def linux_sysAdviseHuge_def demo_kernel_def)
  have "\<exists>a A2. map_trim ?S a0 False (A, b) = (Inr a, (A2, b + (?n + HugePageSize))) \<and> a_hugeAdvised a"
  proof -
    have slack: "\<exists>A2. (if 0 < l then sysUnmap ?S p l (A1, b1) else (None, (A1, b1))) = (None, (A2, b1))" for p l A1 b1
      using un [of p l A1 b1] by simp
    have "\<exists>a A2. trim_window ?S a0 False b raw h t (A1, b1) = (Inr a, (A2, b1)) \<and> a_hugeAdvised a" for raw h t A1 b1
    proof -
      obtain A2 where 1: "(if 0 < h then sysUnmap ?S b h (A1, b1) else (None, (A1, b1))) = (None, (A2, b1))"
        using slack by blast
      obtain A3 where 2: "(if 0 < t then sysUnmap ?S (b + (h + a_size a0)) t (A2, b1) else (None, (A2, b1))) =
          (None, (A3, b1))" using slack by blast
      show ?thesis unfolding trim_window_def Let_def by (simp only: 1 2 adv prod.case option.case) simp
    qed
    then show ?thesis using mp by (simp add: map_trim_def Let_def a0_def)
  qed
  then obtain a A2 where tr: "map_trim ?S a0 False (A, b) = (Inr a, (A2, b + (?n + HugePageSize)))" "a_hugeAdvised a"
    by blast
  have sz: "a_size a0 = ?n" by (simp add: a0_def)
  have a: "isAligned (a_base a) HugePageSize" "a_size a = ?n"
    using demo.lin.map_trim_ok [OF tr(1)] sz n req by simp_all
  have sp: "map_span ?S a0 False (A, b) = (Inr a, (A2, b + (?n + HugePageSize)))"
    using huge tr(1) sz by (auto simp: map_span_def)
  have "prefault_stride a = HugePageSize" using tr(2) by (simp add: prefault_stride_def)
  then obtain m' where pf: "prefault m a = Some m'"
    using prefault_from_spec [of HugePageSize "a_size a" "a_base a" 0 m] a n req
    by (auto simp: prefault_def)
  have "sysPageSize ?S = 4096" "isPow2 4096" "sysPin ?S p l k = (None, k)" for p l k
    by (simp_all add: demo_sys_simps isPow2_def)
  moreover have "request \<noteq> 0" using req by auto
  moreover have "unat (b + (?n + HugePageSize)) = unat b + unat ?n + 2097152"
    using raw b n req by (simp add: unat_add64)
  ultimately show ?thesis using sp pf a(1) n by (simp add: NewArena_def Let_def a0_def)
qed

section \<open>Properties\<close>

text \<open>
  C29: On Linux and Darwin, an arena that \<^verbatim>\<open>NewArena\<close> returns starts on a 2 MiB boundary, is the
  smallest whole number of huge pages that holds the request, and is exactly the memory the
  call left mapped: the bytes are fresh, the slack of the over-allocation is gone, and the
  recorded mapping is the span itself. Huge pages and pinning are there when required.
\<close>
theorem NewArena_maps_aligned_span:
  assumes "vm_laws K mapped" "S \<in> {linux_sys K, darwin_sys K}" "unat request + 4194304 \<le> 2 ^ 64"
    and "NewArena S request requireHuge requirePinned m k = Some (Inr a, m', k')"
  shows "isAligned (a_base a) HugePageSize \<and> isAligned (a_size a) HugePageSize \<and>
    unat request \<le> unat (a_size a) \<and> unat (a_size a) < unat request + unat HugePageSize \<and>
    region (a_base a) (a_size a) \<inter> mapped k = {} \<and> mapped k' = mapped k \<union> region (a_base a) (a_size a) \<and>
    a_raw a = a_base a \<and> a_rawSize a = a_size a \<and>
    (requireHuge \<longrightarrow> a_hugeNative a) \<and> (requirePinned \<longrightarrow> a_pinned a)"
proof -
  note os = platform_os [OF assms(1,2)]
  from os_memory.NewArena_ok [OF os assms(4,3)] alignUp_huge [of request] assms(3)
  show ?thesis by (auto simp: os_memory.span_ok_def [OF os])
qed

theorem NewArena_maps_aligned_span_witness:
  "\<exists>a m' k'. NewArena (linux_sys demo_kernel) 100 False True (\<lambda>_. 7) ({}, 4096) = Some (Inr a, m', k') \<and>
     isAligned (a_base a) HugePageSize \<and> demo_mapped k' = region (a_base a) (a_size a) \<and> a_pinned a"
proof -
  obtain a m' k' where n: "NewArena (linux_sys demo_kernel) 100 False True (\<lambda>_. 7) ({}, 4096) = Some (Inr a, m', k')"
    using demo_NewArena [of 100 4096] by fastforce
  have "demo_mapped ({}, 4096) = {}" by (simp add: demo_mapped_def)
  with NewArena_maps_aligned_span [OF demo_vm(1) _ _ n] n show ?thesis by auto
qed

text \<open>
  A failed \<^verbatim>\<open>NewArena\<close> leaks nothing: as long as the kernel lets the process unmap its own
  memory, the set of mapped bytes after the error, whichever step failed, is the one before.
\<close>
theorem NewArena_failure_leaks_nothing:
  assumes "vm_laws K mapped" "munmap_succeeds K" "S \<in> {linux_sys K, darwin_sys K}"
    and "unat request + 4194304 \<le> 2 ^ 64"
    and "NewArena S request requireHuge requirePinned m k = Some (Inl e, m', k')"
  shows "mapped k' = mapped k"
  using os_memory.NewArena_err [OF platform_os [OF assms(1,3)] assms(5,4)] platform_unmap [OF assms(2,3)]
  by blast

theorem NewArena_failure_leaks_nothing_witness:
  "\<exists>e m' k'. NewArena (linux_sys demo_kernel) 100 True True (\<lambda>_. 7) ({5}, 4096) = Some (Inl e, m', k') \<and> demo_mapped k' = {5}"
proof -
  have "alignUp 100 HugePageSize = 2097152" by (simp add: alignUp_def HugePageSize_def)
  then obtain e m' k' where n: "NewArena (linux_sys demo_kernel) 100 True True (\<lambda>_. 7) ({5}, 4096) = Some (Inl e, m', k')"
    by (simp add: NewArena_def map_span_def Let_def isPow2_def demo_sys_simps)
  moreover have "demo_mapped ({5}, 4096) = {5}" by (auto simp: demo_mapped_def)
  ultimately show ?thesis using NewArena_failure_leaks_nothing [OF demo_vm _ _ n] by auto
qed

text \<open>
  \<^verbatim>\<open>Close\<close> of an arena gives back exactly what \<^verbatim>\<open>NewArena\<close> mapped, reports success, and is
  idempotent: a second \<^verbatim>\<open>Close\<close> returns nil and issues no system call.
\<close>
theorem arena_open_close_restores:
  assumes "vm_laws K mapped" "munmap_succeeds K" "S \<in> {linux_sys K, darwin_sys K}"
    and "unat request + 4194304 \<le> 2 ^ 64"
    and "NewArena S request requireHuge requirePinned m k = Some (Inr a, m', k1)"
    and "arena_Close S a k1 = (err, a', k2)"
  shows "err = None \<and> mapped k2 = mapped k \<and> arena_Close S a' k2 = (None, a', k2)"
proof -
  note os = platform_os [OF assms(1,3)]
  have sp: "os_memory.span_ok mapped a k k1" using os_memory.NewArena_ok [OF os assms(5,4)] by blast
  then have a: "a_base a \<noteq> 0" "a_raw a = a_base a" "a_rawSize a = a_size a"
    "mapped k1 - region (a_base a) (a_size a) = mapped k"
    by (auto simp: os_memory.span_ok_def [OF os])
  with os_memory.arena_Close_unmaps [OF os a(1-3) assms(6) platform_unmap [OF assms(2,3)]]
  show ?thesis by simp
qed

theorem arena_open_close_restores_witness:
  "\<exists>a m' k1 a' k2. NewArena (linux_sys demo_kernel) 100 False True (\<lambda>_. 7) ({}, 4096) = Some (Inr a, m', k1) \<and>
     arena_Close (linux_sys demo_kernel) a k1 = (None, a', k2) \<and> demo_mapped k2 = {}"
proof -
  obtain a m' k' where n: "NewArena (linux_sys demo_kernel) 100 False True (\<lambda>_. 7) ({}, 4096) = Some (Inr a, m', k')"
    using demo_NewArena [of 100 4096] by fastforce
  obtain err a' k2 where c: "arena_Close (linux_sys demo_kernel) a k' = (err, a', k2)"
    by (metis prod.exhaust)
  have "demo_mapped ({}, 4096) = {}" by (simp add: demo_mapped_def)
  with arena_open_close_restores [OF demo_vm _ _ n c] n c show ?thesis by (cases k2) auto
qed

text \<open>
  The rounding in \<^verbatim>\<open>NewArena\<close> overflows for a request within 2 MiB of \<open>2 ^ 64\<close>: the call maps
  one huge page, trims all of it away, and reports success with an arena of no bytes, where
  the documentation promises at least the requested number.
\<close>
theorem NewArena_overflow_empty_arena:
  "\<exists>a m' k'. NewArena (linux_sys demo_kernel) (- 1) False False m ({}, 4096) = Some (Inr a, m', k') \<and> a_size a = 0"
proof -
  have al: "alignUp (- 1) HugePageSize = 0" "alignUp 4096 2097152 = 2097152"
    by (simp_all add: alignUp_def HugePageSize_def)
  define a where "a = zero_Arena\<lparr>a_base := 2097152, a_raw := 2097152, a_pageSize := 4096, a_hugeAdvised := True\<rparr>"
  have "\<exists>k1. map_span (linux_sys demo_kernel) (zero_Arena\<lparr>a_size := 0, a_pageSize := 4096\<rparr>) False ({}, 4096) = (Inr a, k1)"
    by (simp add: map_span_def map_trim_def trim_window_def Let_def demo_sys_simps al zero_Arena_def a_def)
  then obtain k1 where sp: "map_span (linux_sys demo_kernel) (zero_Arena\<lparr>a_size := 0, a_pageSize := 4096\<rparr>) False ({}, 4096) = (Inr a, k1)" ..
  have "prefault m a = Some m" unfolding prefault_def
    by (subst prefault_from.simps) (simp add: a_def zero_Arena_def)
  moreover have "sysPageSize (linux_sys demo_kernel) = 4096" "sysPin (linux_sys demo_kernel) p n k = (None, k)" for p n k
    by (simp_all add: demo_sys_simps)
  moreover have "isPow2 4096" "isAligned (a_base a) HugePageSize" "a_size a = 0"
    by (simp_all add: isPow2_def isAligned_def HugePageSize_def a_def zero_Arena_def)
  ultimately show ?thesis using sp al(1) by (simp add: NewArena_def Let_def)
qed

text \<open>
  On a platform without a backend \<^verbatim>\<open>NewArena\<close> fails with \<^verbatim>\<open>ErrUnsupportedPlatform\<close> before it
  touches memory, for every request the page-size check lets through.
\<close>
theorem NewArena_unsupported:
  assumes "request \<noteq> 0" "isPow2 pagesize"
  shows "NewArena (unsupported_sys pagesize) request requireHuge requirePinned m k =
    Some (Inl ErrUnsupportedPlatform, m, k)"
  using assms
  by (simp add: NewArena_def Let_def map_span_def map_trim_def unsupported_sys_def unsupported_map_def)

theorem NewArena_unsupported_witness:
  "NewArena (unsupported_sys 4096) 100 False False (\<lambda>_. 0) () = Some (Inl ErrUnsupportedPlatform, \<lambda>_. 0, ())"
  using NewArena_unsupported [of 100 4096 False False "\<lambda>_. 0" "()"] by (simp add: isPow2_def)

end
