(* ===== verification/Sizes.thy ===== *)
theory Sizes
  imports Fabric
begin

text \<open>
  The sizes of the control structures, as the Go compiler lays them out, and the build-time
  assertion blocks. Each line of such a block converts an integer constant to \<^verbatim>\<open>uint\<close>, which the
  compiler accepts only if the constant fits; a block is modelled by the list of its constants.
\<close>

section \<open>Sizes\<close>

lemma padU64_size: "sizeof padU64_t = 128" "alignof padU64_t = 8"
  by (simp_all add: padU64_t_def roundup_def layout_simps)

lemma ring_size: "sizeof ring_t = 512" "alignof ring_t = 8"
  by (simp_all add: ring_t_def padU64_size roundup_def layout_simps)

lemma keyIndex_size: "sizeof keyIndex_t = 640" "alignof keyIndex_t = 8"
  by (simp_all add: keyIndex_t_def padU64_size roundup_def layout_simps)

lemma shard_size: "sizeof shard_t = 1792" "alignof shard_t = 8"
  by (simp_all add: shard_t_def padU64_size ring_size keyIndex_size roundup_def layout_simps)

lemma globalCtl_size: "sizeof globalCtl_t = 768" "alignof globalCtl_t = 8"
proof -
  have six: "globalCtl_t = GStruct [padU64_t, padU64_t, padU64_t, padU64_t, padU64_t, padU64_t]"
    by (simp add: globalCtl_t_def numeral_eq_Suc)
  show "sizeof globalCtl_t = 768" "alignof globalCtl_t = 8"
    unfolding six by (simp_all add: padU64_size roundup_def)
qed

lemma strides: "shardStride = 1792" "ctlHeader = 768"
  by (simp_all add: shardStride_def ctlHeader_def shard_size globalCtl_size layout_simps alignUp_def)

section \<open>Assertion blocks\<close>










end
