(* ===== verification/NewInv.thy ===== *)
theory NewInv
  imports FabricInv ArenaThms Sizes
begin

text \<open>
  Construction. \<open>stacked\<close> describes a list of arenas mapped one after the other on top of what
  the process had mapped before; \<^verbatim>\<open>New\<close> builds such a stack, one arena for the control plane and one
  per shard, and establishes the engine invariant on it, or takes the stack down again.
\<close>

section \<open>Stacks of arenas\<close>

abbreviation aregion :: "Arena \<Rightarrow> u64 set" where
  "aregion a \<equiv> region (a_base a) (a_size a)"

fun stacked :: "Arena list \<Rightarrow> u64 set \<Rightarrow> u64 set \<Rightarrow> bool" where
  "stacked [] A B \<longleftrightarrow> A = B"
| "stacked (a # as) A B \<longleftrightarrow> a_base a \<noteq> 0 \<and> a_raw a = a_base a \<and> a_rawSize a = a_size a \<and>
     aregion a \<inter> A = {} \<and> stacked as (A \<union> aregion a) B"

lemma stacked_snoc:
  "stacked (as @ [a]) A B \<longleftrightarrow> (\<exists>C. stacked as A C \<and> a_base a \<noteq> 0 \<and> a_raw a = a_base a \<and>
     a_rawSize a = a_size a \<and> aregion a \<inter> C = {} \<and> B = C \<union> aregion a)"
  by (induction as arbitrary: A) auto

lemma stacked_union: "stacked as A B \<Longrightarrow> B = A \<union> (\<Union>a\<in>set as. aregion a)"
  by (induction as arbitrary: A) auto

lemma stacked_disjoint: "stacked as A B \<Longrightarrow> A \<inter> (\<Union>a\<in>set as. aregion a) = {}"
  by (induction as arbitrary: A) auto

lemma stacked_apart:
  "stacked as A B \<Longrightarrow> i < length as \<Longrightarrow> j < length as \<Longrightarrow> i \<noteq> j \<Longrightarrow> aregion (as ! i) \<inter> aregion (as ! j) = {}"
proof (induction as arbitrary: A i j)
  case (Cons a as)
  then have st: "stacked as (A \<union> aregion a) B" by simp
  have "aregion a \<inter> aregion (as ! n) = {}" if "n < length as" for n
    using stacked_disjoint [OF st] nth_mem [OF that] by blast
  then show ?case using Cons.IH [OF st] Cons.prems by (cases i; cases j) auto
qed simp

lemma apart_mono: "apart p n q k \<Longrightarrow> n' \<le> n \<Longrightarrow> k' \<le> k \<Longrightarrow> apart p n' q k'"
  by (auto simp: apart_def)

lemma apart_sym: "apart p n q k \<longleftrightarrow> apart q k p n"
  by (auto simp: apart_def)

lemma region_apart:
  assumes "region p n \<inter> region q k = {}" "0 < unat n" "0 < unat k"
  shows "apart p (unat n) q (unat k)"
proof -
  have "p \<in> region p n" "q \<in> region q k" using assms by (simp_all add: region_def)
  then have "p \<notin> region q k" "q \<notin> region p n" using assms(1) by auto
  then show ?thesis by (simp add: region_def apart_def)
qed

section \<open>Memory during construction\<close>

lemma prefault_from_within:
  assumes "prefault_from base sz stride off m = Some m'"
  shows "\<forall>a. m' a \<noteq> m a \<longrightarrow> unat (a - base) < unat sz"
proof (rule prefault_from.raw_induct [where P = "\<lambda>base sz stride off m m'.
    \<forall>a. m' a \<noteq> m a \<longrightarrow> unat (a - base) < unat sz", OF _ assms])
  fix f and base sz stride off :: u64 and m m' :: mem
  assume ih: "\<And>base sz stride off m m'. f base sz stride off m = Some m' \<Longrightarrow>
      \<forall>a. m' a \<noteq> m a \<longrightarrow> unat (a - base) < unat sz"
    and eq: "(if off < sz then f base sz stride (off + stride) (m(base + off := 0)) else Some m) = Some m'"
  show "\<forall>a. m' a \<noteq> m a \<longrightarrow> unat (a - base) < unat sz"
  proof (cases "off < sz")
    case True
    with eq ih have "\<forall>a. m' a \<noteq> (m(base + off := 0)) a \<longrightarrow> unat (a - base) < unat sz" by simp
    then show ?thesis using True
      by (auto simp: word_less_nat_alt split: if_splits) (metis add_diff_cancel_left')
  qed (use eq in simp)
qed

lemma NewArena_within:
  assumes "NewArena S request rh rp m k = Some (Inr a, m', k')"
  shows "writes_within (a_base a) (unat (a_size a)) m m'"
proof -
  obtain a1 where "prefault m a1 = Some m'" "a_base a1 = a_base a" "a_size a1 = a_size a"
    using assms
    by (auto simp: NewArena_def Let_def split: if_splits prod.splits sum.splits option.splits)
  then show ?thesis using prefault_from_within by (fastforce simp: prefault_def writes_within_def not_less)
qed

section \<open>What \<^verbatim>\<open>normalize\<close> guarantees\<close>

text \<open>The bytes of one shard stay clear of the end of the address space.\<close>

definition config_fits :: "Config \<Rightarrow> bool" where
  "config_fits c \<longleftrightarrow> 2 \<le> unat (c_CellsPerShard c) \<and> unat (c_Shards c) \<le> 2 ^ 40 \<and>
     unat (c_CellsPerShard c) * unat (cellStrideFor (c_PayloadCapacity c)) +
     unat (c_CellsPerShard c) * unat (c_IndexBucketsPerCell c) * 32 + 4194304 \<le> 2 ^ 64"

definition shard_bytes :: "Config \<Rightarrow> nat" where
  "shard_bytes c = unat (c_CellsPerShard c) * unat (cellStrideFor (c_PayloadCapacity c)) +
     unat (c_CellsPerShard c * c_IndexBucketsPerCell c) * 32"

lemma shard_request:
  assumes "config_fits c"
  shows "unat (ringBytes (c_CellsPerShard c) (c_PayloadCapacity c) +
      indexBytes (c_CellsPerShard c * c_IndexBucketsPerCell c)) = shard_bytes c"
    "shard_bytes c + 4194304 \<le> 2 ^ 64"
    "unat (c_CellsPerShard c * c_IndexBucketsPerCell c) = unat (c_CellsPerShard c) * unat (c_IndexBucketsPerCell c)"
proof -
  let ?c = "unat (c_CellsPerShard c)" and ?s = "unat (cellStrideFor (c_PayloadCapacity c))"
    and ?b = "unat (c_IndexBucketsPerCell c)"
  have fit: "?c * ?s + ?c * ?b * 32 + 4194304 \<le> 2 ^ 64" using assms by (simp add: config_fits_def)
  then have "?c * ?b < 2 ^ 64" by simp
  then show b: "unat (c_CellsPerShard c * c_IndexBucketsPerCell c) = ?c * ?b" by (rule unat_mult64)
  have "unat (ringBytes (c_CellsPerShard c) (c_PayloadCapacity c)) = ?c * ?s"
    unfolding ringBytes_def using fit by (intro unat_mult64) simp
  moreover have "unat (indexBytes (c_CellsPerShard c * c_IndexBucketsPerCell c)) = ?c * ?b * 32"
    unfolding indexBytes_def IndexBucketSize_def using fit b
    by (subst unat_mult64) simp_all
  ultimately show "unat (ringBytes (c_CellsPerShard c) (c_PayloadCapacity c) +
      indexBytes (c_CellsPerShard c * c_IndexBucketsPerCell c)) = shard_bytes c"
    using fit b by (subst unat_add64) (simp_all add: shard_bytes_def)
  show "shard_bytes c + 4194304 \<le> 2 ^ 64" using fit b by (simp add: shard_bytes_def)
qed

lemma round_shards_pow2:
  assumes "round_shards shards n = Some y"
  shows "\<exists>j. y = n * 2 ^ j \<and> \<not> sint y < sint shards"
proof (rule round_shards.raw_induct [where P = "\<lambda>shards n y. \<exists>j. y = n * 2 ^ j \<and> \<not> sint y < sint shards",
      OF _ assms])
  fix f and shards n y :: u64
  assume ih: "\<And>shards n y. f shards n = Some y \<Longrightarrow> \<exists>j. y = n * 2 ^ j \<and> \<not> sint y < sint shards"
    and eq: "(if sint n < sint shards then f shards (push_bit 1 n) else Some n) = Some y"
  show "\<exists>j. y = n * 2 ^ j \<and> \<not> sint y < sint shards"
  proof (cases "sint n < sint shards")
    case True
    with eq ih [of shards "push_bit 1 n" y] obtain j where j: "y = push_bit 1 n * 2 ^ j" "\<not> sint y < sint shards"
      by auto
    then have "y = n * 2 ^ Suc j" by (simp add: push_bit_eq_mult)
    then show ?thesis using j(2) by blast
  next
    case False
    then show ?thesis using eq by (auto intro: exI [of _ 0])
  qed
qed

section \<open>Building the shards\<close>

definition shards_built :: "Config \<Rightarrow> (nat \<Rightarrow> entry) \<Rightarrow> mem \<Rightarrow> Arena list \<Rightarrow> shard list \<Rightarrow> bool" where
  "shards_built cfg L m arenas shards \<longleftrightarrow> length shards = length arenas \<and>
     (\<forall>j<length shards. let sh = shards ! j in
        shard_inv m (sh_ring sh) (sh_index sh) L \<and> r_base (sh_ring sh) = a_base (arenas ! j) \<and>
        shard_span (sh_ring sh) (sh_index sh) = shard_bytes cfg \<and> shard_bytes cfg \<le> unat (a_size (arenas ! j)) \<and>
        r_payloadCap (sh_ring sh) = c_PayloadCapacity cfg \<and> r_capacity (sh_ring sh) = c_CellsPerShard cfg \<and>
        r_tail (sh_ring sh) = 0 \<and> r_head (sh_ring sh) = 0 \<and>
        sh_ingested sh = 0 \<and> sh_consumed sh = 0 \<and> sh_hot sh = 0 \<and> sh_rejected sh = 0)"

lemma writes_within_mono: "writes_within p n m m' \<Longrightarrow> n \<le> n' \<Longrightarrow> writes_within p n' m m'"
  by (simp add: writes_within_def)

lemma shards_built_snoc:
  assumes built: "shards_built cfg L m arenas shards" and st: "stacked arenas A0 B" and fresh: "aregion a \<inter> B = {}"
    and pos: "0 < shard_bytes cfg" "shard_bytes cfg \<le> unat (a_size a)"
    and w: "writes_within (a_base a) (unat (a_size a)) m m'"
    and new: "shard_inv m' (sh_ring sh) (sh_index sh) L" "r_base (sh_ring sh) = a_base a"
      "shard_span (sh_ring sh) (sh_index sh) = shard_bytes cfg" "r_payloadCap (sh_ring sh) = c_PayloadCapacity cfg"
      "r_capacity (sh_ring sh) = c_CellsPerShard cfg" "r_tail (sh_ring sh) = 0" "r_head (sh_ring sh) = 0"
      "sh_ingested sh = 0" "sh_consumed sh = 0" "sh_hot sh = 0" "sh_rejected sh = 0"
  shows "shards_built cfg L m' (arenas @ [a]) (shards @ [sh])"
proof -
  have old: "shard_inv m' (sh_ring (shards ! j)) (sh_index (shards ! j)) L" if "j < length shards" for j
  proof -
    let ?s = "shards ! j" and ?a = "arenas ! j"
    have B: "shard_inv m (sh_ring ?s) (sh_index ?s) L" "r_base (sh_ring ?s) = a_base ?a"
      "shard_span (sh_ring ?s) (sh_index ?s) = shard_bytes cfg" "shard_bytes cfg \<le> unat (a_size ?a)"
      "j < length arenas"
      using built that by (auto simp: shards_built_def Let_def)
    have "aregion ?a \<subseteq> B" using stacked_union [OF st] B(5) by auto
    then have "aregion a \<inter> aregion ?a = {}" using fresh by auto
    then have "apart (a_base a) (unat (a_size a)) (a_base ?a) (unat (a_size ?a))"
      using pos B(4) by (intro region_apart) linarith+
    then have "apart (a_base a) (unat (a_size a)) (r_base (sh_ring ?s)) (shard_span (sh_ring ?s) (sh_index ?s))"
      unfolding B(2,3) using B(4) by (rule apart_mono [OF _ order_refl])
    then show ?thesis by (rule shard_frame [OF B(1) w])
  qed
  have len: "length shards = length arenas" using built by (simp add: shards_built_def)
  then show ?thesis
    unfolding shards_built_def Let_def
    using built old new pos(2) by (auto simp: shards_built_def Let_def nth_append less_Suc_eq)
qed

context os_memory
begin

lemma teardown_unmaps:
  assumes "\<And>q n i. fst (sysUnmap S q n i) = None"
  shows "stacked as A B \<Longrightarrow> mapped (teardownArenas S as k) = mapped k - (\<Union>a\<in>set as. aregion a)"
proof (induction as arbitrary: A k)
  case (Cons a as)
  obtain err a' k' where c: "arena_Close S a k = (err, a', k')" by (metis prod.exhaust)
  have "mapped k' = mapped k - aregion a"
    using arena_Close_unmaps [OF _ _ _ c assms] Cons.prems by simp
  moreover have "stacked as (A \<union> aregion a) B" using Cons.prems by simp
  then have "mapped (teardownArenas S as k') = mapped k' - (\<Union>a\<in>set as. aregion a)" by (rule Cons.IH)
  ultimately show ?case using c by (simp add: Diff_eq inf_assoc)
qed simp

lemma take_down:
  assumes never: "\<And>q n i. fst (sysUnmap S q n i) = None" and st: "stacked (c # as) A (mapped k)"
  shows "mapped (snd (snd (arena_Close S c (teardownArenas S as k)))) = A"
proof -
  let ?k = "teardownArenas S as k"
  obtain err c' k' where cl: "arena_Close S c ?k = (err, c', k')" by (metis prod.exhaust)
  have "mapped k' = mapped ?k - aregion c"
    using arena_Close_unmaps [OF _ _ _ cl never] st by simp
  moreover have "stacked as (A \<union> aregion c) (mapped k)" using st by simp
  then have "mapped ?k = mapped k - (\<Union>a\<in>set as. aregion a)" by (rule teardown_unmaps [OF never])
  ultimately have "mapped k' = mapped k - (\<Union>a\<in>set (c # as). aregion a)" by auto
  also have "\<dots> = A" using stacked_union [OF st] stacked_disjoint [OF st] by blast
  finally show ?thesis using cl by simp
qed

lemma new_shards_ok:
  assumes "new_shards S cfg (c_PayloadCapacity cfg) epoch c is arenas shards m k = Some (Inr (arenas', shards'), m', k')"
    and fits: "config_fits cfg" "unat (c_PayloadCapacity cfg) + 127 < 2 ^ 64"
    and "shards_built cfg L m arenas shards" "stacked arenas A0 (mapped k)"
  shows "shards_built cfg L m' arenas' shards' \<and> stacked arenas' A0 (mapped k') \<and>
    length shards' = length shards + length is"
  using assms(1,4,5)
proof (induction "is" arbitrary: arenas shards m k)
  case (Cons i "is")
  let ?cells = "c_CellsPerShard cfg" and ?cap = "c_PayloadCapacity cfg"
  let ?b = "c_CellsPerShard cfg * c_IndexBucketsPerCell cfg"
  note R = shard_request [OF fits(1)]
  obtain a m1 k1 m2 r m3 x where
    n: "NewArena S (ringBytes ?cells ?cap + indexBytes ?b) (c_RequireHugePages cfg) (c_RequirePinned cfg) m k =
        Some (Inr a, m1, k1)"
    and ri: "initRing m1 (a_base a) ?cells ?cap epoch = Inr (m2, r)"
    and xi: "initIndex m2 (a_base a + ringBytes ?cells ?cap) ?b = Inr (m3, x)"
    and rest: "new_shards S cfg ?cap epoch c is (arenas @ [a])
        (shards @ [\<lparr>sh_ring = r, sh_index = x, sh_arenaBase = a_base a, sh_arenaSize = a_size a,
          sh_id = of_nat i, sh_hot = 0, sh_ingested = 0, sh_consumed = 0, sh_rejected = 0\<rparr>]) m3 k1 =
        Some (Inr (arenas', shards'), m', k')"
    using Cons.prems(1)
    by (auto simp: Let_def arena_At_def split: option.splits sum.splits prod.splits)
  have sp: "span_ok a k k1" "a_size a = alignUp (ringBytes ?cells ?cap + indexBytes ?b) HugePageSize"
    using NewArena_ok [OF n] R by simp_all
  have sz: "shard_bytes cfg \<le> unat (a_size a)" using alignUp_huge(1) [of "ringBytes ?cells ?cap + indexBytes ?b"] R sp(2) by simp
  have two: "2 \<le> unat ?cells" using fits(1) by (simp add: config_fits_def)
  have "0 < unat (cellStrideFor ?cap)" using cellStrideFor_bounds(1) [OF fits(2)] by simp
  then have pos: "0 < shard_bytes cfg" using two by (simp add: shard_bytes_def)
  have bytes: "unat ?cells * unat (cellStrideFor ?cap) + unat ?b * 32 \<le> 2 ^ 64"
    using R(2) by (simp add: shard_bytes_def)
  note I = shard_init [OF ri xi fits(2) two bytes]
  have zeros: "r_tail r = 0" "r_head r = 0" "r_capacity r = ?cells"
    using initRing_geom [OF ri fits(2)] bytes by simp_all
  have w: "writes_within (a_base a) (unat (a_size a)) m m3"
    using writes_within_trans [OF NewArena_within [OF n] writes_within_mono [OF I(8)]] sz
    by (simp add: shard_bytes_def)
  have built: "shards_built cfg L m3 (arenas @ [a])
      (shards @ [\<lparr>sh_ring = r, sh_index = x, sh_arenaBase = a_base a, sh_arenaSize = a_size a,
          sh_id = of_nat i, sh_hot = 0, sh_ingested = 0, sh_consumed = 0, sh_rejected = 0\<rparr>])"
    using sp(1) I(1) [of L] I(4-6) zeros
    by (intro shards_built_snoc [OF Cons.prems(2,3) _ pos sz w]) (simp_all add: span_ok_def shard_bytes_def)
  have "stacked (arenas @ [a]) A0 (mapped k1)"
    unfolding stacked_snoc using sp(1) Cons.prems(3) by (auto simp: span_ok_def)
  from Cons.IH [OF rest built this] show ?case by simp
qed simp

lemma new_shards_err:
  assumes "new_shards S cfg (c_PayloadCapacity cfg) epoch c is arenas shards m k = Some (Inl e, m', k')"
    and fits: "config_fits cfg" and never: "\<And>q n i. fst (sysUnmap S q n i) = None"
    and "stacked (c # arenas) A0 (mapped k)"
  shows "mapped k' = A0"
  using assms(1,4)
proof (induction "is" arbitrary: arenas shards m k)
  case (Cons i "is")
  let ?req = "ringBytes (c_CellsPerShard cfg) (c_PayloadCapacity cfg) +
    indexBytes (c_CellsPerShard cfg * c_IndexBucketsPerCell cfg)"
  note R = shard_request [OF fits]
  obtain res m1 k1 where n: "NewArena S ?req (c_RequireHugePages cfg) (c_RequirePinned cfg) m k = Some (res, m1, k1)"
    using Cons.prems(1) by (auto simp: Let_def split: option.splits)
  show ?case
  proof (cases res)
    case (Inl e1)
    then have "k' = snd (snd (arena_Close S c (teardownArenas S arenas k1)))"
      using Cons.prems(1) n by (auto simp: Let_def)
    moreover have "mapped k1 = mapped k" using NewArena_err n Inl never R by simp
    ultimately show ?thesis using take_down [OF never] Cons.prems(2) by metis
  next
    case (Inr a)
    have sp: "span_ok a k k1" using NewArena_ok n Inr R by simp
    have st: "stacked ((c # arenas) @ [a]) A0 (mapped k1)"
      unfolding stacked_snoc using sp Cons.prems(2) by (auto simp: span_ok_def)
    then have st': "stacked (c # (arenas @ [a])) A0 (mapped k1)" by (simp only: append_Cons)
    consider "k' = snd (snd (arena_Close S c (teardownArenas S (arenas @ [a]) k1)))"
      | shards1 m3 where "new_shards S cfg (c_PayloadCapacity cfg) epoch c is (arenas @ [a]) shards1 m3 k1 = Some (Inl e, m', k')"
      using Cons.prems(1) n Inr by (auto simp: Let_def split: sum.splits prod.splits)
    then show ?thesis
    proof cases
      case 1
      then show ?thesis using take_down [OF never st'] by simp
    next
      case 2
      then show ?thesis by (rule Cons.IH [OF _ st'])
    qed
  qed
qed simp

end

section \<open>The engine \<^verbatim>\<open>New\<close> returns\<close>

lemma sint_pow2: "sint (2 ^ j :: u64) = (if j < 63 then 2 ^ j else if j = 63 then - (2 ^ 63) else 0)"
proof -
  consider "j < 63" | "j = 63" | "64 \<le> j" by linarith
  then show ?thesis
  proof cases
    case 1
    have eq: "sint (word_of_int (2 ^ j) :: u64) = signed_take_bit 63 (2 ^ j)" unfolding signed_of_int by simp
    have "(2 :: int) ^ j < 2 ^ 63" using 1 by (intro power_strict_increasing) simp_all
    moreover have "- (2 ^ 63) \<le> (0 :: int)" "(0 :: int) \<le> 2 ^ j" by simp_all
    ultimately have "signed_take_bit 63 ((2 :: int) ^ j) = 2 ^ j"
      by (intro signed_take_bit_int_eq_self) (linarith | assumption)+
    then show ?thesis using 1 eq by simp
  next
    case 3
    then have "(2 :: u64) ^ j = 0" by simp
    then have "sint (2 ^ j :: u64) = 0" by (simp only: signed_0)
    then show ?thesis using 3 by simp
  qed simp
qed

lemma sint_pos: "0 \<le> sint p \<Longrightarrow> p \<noteq> 0 \<Longrightarrow> 0 < sint p" for p :: u64
  using signed_eq_0_iff [of p] order_le_less by metis

lemma round_shards_one:
  assumes "round_shards shards 1 = Some y"
  shows "\<exists>j\<le>62. y = 2 ^ j \<and> sint shards \<le> sint y"
proof (cases "sint shards \<le> 1")
  case True
  then have "round_shards shards 1 = Some 1" by (subst round_shards.simps) simp
  then show ?thesis using assms True by (intro exI [of _ 0]) simp
next
  case False
  obtain j where j: "y = 2 ^ j" "\<not> sint y < sint shards" using round_shards_pow2 [OF assms] by auto
  then have "j < 63" using False sint_pow2 [of j] by (auto split: if_splits)
  then show ?thesis using j by (intro exI [of _ j]) simp
qed

lemma normalize_rest_okD:
  assumes "normalize_rest c = Inr cfg"
  shows "c_Shards cfg = c_Shards c" "isPow2 (c_CellsPerShard cfg)" "isPow2 (c_IndexBucketsPerCell cfg)"
    "0 < sint (c_PayloadCapacity cfg)" "0 < c_HighWaterPct cfg" "c_HighWaterPct cfg \<le> 100"
    "c_LowWaterPct cfg < c_HighWaterPct cfg" "0 < c_LowWaterPct cfg"
proof -
  define c1 where "c1 = (if c_CellsPerShard c = 0 then c\<lparr>c_CellsPerShard := push_bit 16 1\<rparr> else c)"
  define c2 where "c2 = (if c_PayloadCapacity c1 = 0 then c1\<lparr>c_PayloadCapacity := 448\<rparr> else c1)"
  define c3 where "c3 = (if c_HighWaterPct c2 = 0 then c2\<lparr>c_HighWaterPct := 90\<rparr> else c2)"
  define c4 where "c4 = (if c_LowWaterPct c3 = 0 then c3\<lparr>c_LowWaterPct := 70\<rparr> else c3)"
  define c5 where "c5 = (if c_IndexBucketsPerCell c4 = 0 then c4\<lparr>c_IndexBucketsPerCell := 2\<rparr> else c4)"
  have "normalize_rest c = (if \<not> isPow2 (c_CellsPerShard c1) then Inl ErrConfig
      else if sint (c_PayloadCapacity c1) < 0 then Inl ErrConfig
      else if \<not> isPow2 (c_IndexBucketsPerCell c5) then Inl ErrConfig
      else if c_HighWaterPct c5 > 100 \<or> c_LowWaterPct c5 \<ge> c_HighWaterPct c5 then Inl ErrConfig else Inr c5)"
    unfolding normalize_rest_def Let_def c5_def c4_def c3_def c2_def c1_def ..
  then have ok: "isPow2 (c_CellsPerShard c1)" "\<not> sint (c_PayloadCapacity c1) < 0" "isPow2 (c_IndexBucketsPerCell c5)"
    "\<not> c_HighWaterPct c5 > 100" "\<not> c_LowWaterPct c5 \<ge> c_HighWaterPct c5" "c5 = cfg"
    using assms by (simp_all split: if_splits)
  have c1: "c_Shards c1 = c_Shards c" by (simp add: c1_def)
  have c2: "c_Shards c2 = c_Shards c1" "c_CellsPerShard c2 = c_CellsPerShard c1" "0 < sint (c_PayloadCapacity c2)"
    using ok(2) by (simp_all add: c2_def sint_pos)
  have c3: "c_Shards c3 = c_Shards c2" "c_CellsPerShard c3 = c_CellsPerShard c2"
    "c_PayloadCapacity c3 = c_PayloadCapacity c2" "0 < c_HighWaterPct c3"
    by (simp_all add: c3_def word_neq_0_conv)
  have c4: "c_Shards c4 = c_Shards c3" "c_CellsPerShard c4 = c_CellsPerShard c3"
    "c_PayloadCapacity c4 = c_PayloadCapacity c3" "c_HighWaterPct c4 = c_HighWaterPct c3" "0 < c_LowWaterPct c4"
    by (simp_all add: c4_def word_neq_0_conv)
  have c5: "c_Shards c5 = c_Shards c4" "c_CellsPerShard c5 = c_CellsPerShard c4"
    "c_PayloadCapacity c5 = c_PayloadCapacity c4" "c_HighWaterPct c5 = c_HighWaterPct c4" "c_LowWaterPct c5 = c_LowWaterPct c4"
    by (simp_all add: c5_def)
  show "c_Shards cfg = c_Shards c" "isPow2 (c_CellsPerShard cfg)" "isPow2 (c_IndexBucketsPerCell cfg)"
    "0 < sint (c_PayloadCapacity cfg)" "0 < c_HighWaterPct cfg" "c_HighWaterPct cfg \<le> 100"
    "c_LowWaterPct cfg < c_HighWaterPct cfg" "0 < c_LowWaterPct cfg"
    using ok c1 c2 c3 c4 c5 by (simp_all add: not_less not_le)
qed

lemma normalize_okD:
  assumes "normalize gomaxprocs c = Some (Inr cfg)"
  shows "\<exists>j\<le>62. c_Shards cfg = 2 ^ j" "isPow2 (c_CellsPerShard cfg)" "isPow2 (c_IndexBucketsPerCell cfg)"
    "0 < sint (c_PayloadCapacity cfg)" "0 < c_HighWaterPct cfg" "c_HighWaterPct cfg \<le> 100"
    "c_LowWaterPct cfg < c_HighWaterPct cfg"
proof -
  obtain n shards where n: "round_shards shards 1 = Some n" "normalize_rest (c\<lparr>c_Shards := n\<rparr>) = Inr cfg"
    using assms by (auto simp: normalize_def Let_def split: option.splits)
  have "c_Shards cfg = n" using normalize_rest_okD(1) [OF n(2)] by simp
  then show "\<exists>j\<le>62. c_Shards cfg = 2 ^ j" using round_shards_one [OF n(1)] by auto
  show "isPow2 (c_CellsPerShard cfg)" "isPow2 (c_IndexBucketsPerCell cfg)" "0 < sint (c_PayloadCapacity cfg)"
    "0 < c_HighWaterPct cfg" "c_HighWaterPct cfg \<le> 100" "c_LowWaterPct cfg < c_HighWaterPct cfg"
    using normalize_rest_okD [OF n(2)] by simp_all
qed

lemma payload_room: "0 < sint (p :: u64) \<Longrightarrow> unat p + 127 < 2 ^ 64"
proof -
  assume "0 < sint p"
  moreover have lt: "sint p < 2 ^ 63" using sint_lt [of p] by simp
  moreover have "uint (word_of_int (sint p) :: u64) = take_bit 64 (sint p)" unfolding unsigned_of_int by simp
  ultimately have "uint p \<le> sint p" using take_bit_int_less_eq_self_iff [of 64 "sint p"] by simp
  with lt have "uint p < 2 ^ 63" by (rule order_le_less_trans [rotated])
  then have "int (unat p) < int (2 ^ 63)" unfolding uint_nat by simp
  then have "unat p < 2 ^ 63" by (simp only: of_nat_less_iff)
  then show ?thesis by simp
qed


definition fresh_engine :: "Config \<Rightarrow> u64 \<Rightarrow> u64 \<Rightarrow> Vaultage \<Rightarrow> bool" where
  "fresh_engine cfg t1 t2 v \<longleftrightarrow> v_cfg v = cfg \<and> \<not> v_nil v \<and> \<not> v_closed v \<and>
     v_ctl v = \<lparr>ctl_ticket = 0, ctl_running = 1, ctl_epoch = t1, ctl_dropped = 0, ctl_saturated = 0, ctl_clock = t2\<rparr> \<and>
     nsh v = unat (c_Shards cfg) \<and> v_payloadCap v = c_PayloadCapacity cfg \<and> \<not> isClosed (v_valve v) \<and>
     (\<forall>i<nsh v. r_capacity (rg v i) = c_CellsPerShard cfg \<and> r_tail (rg v i) = 0 \<and> r_head (rg v i) = 0 \<and>
        sh_hot (v_shards v ! i) = 0 \<and> sh_rejected (v_shards v ! i) = 0)"

lemma New_okD:
  assumes "New S gomaxprocs t1 t2 cfg0 m k = Some (Inr v, m', k')"
  obtains cfg valve m1 k1 where
    "normalize gomaxprocs cfg0 = Some (Inr cfg)" "initGate zero_gate (c_HighWaterPct cfg) (c_LowWaterPct cfg) = Inr valve"
    "NewArena S (ctlHeader + shardStride * c_Shards cfg) False (c_RequirePinned cfg) m k = Some (Inr (v_ctlArena v), m1, k1)"
    "new_shards S cfg (c_PayloadCapacity cfg) t1 (v_ctlArena v) [0..<unat (c_Shards cfg)] [] [] m1 k1 =
       Some (Inr (v_arenas v, v_shards v), m', k')"
    "v_cfg v = cfg" "v_ctl v = \<lparr>ctl_ticket = 0, ctl_running = 1, ctl_epoch = t1, ctl_dropped = 0, ctl_saturated = 0, ctl_clock = t2\<rparr>"
    "v_shardN v = c_Shards cfg" "v_shardMsk v = c_Shards cfg - 1" "v_payloadCap v = c_PayloadCapacity cfg"
    "\<not> v_nil v" "\<not> v_closed v" "v_valve v = valve"
  using assms by (auto simp: New_def Let_def split: option.splits sum.splits prod.splits)

lemma ctl_request:
  assumes "unat n \<le> 2 ^ 40"
  shows "unat (ctlHeader + shardStride * n) = 768 + 1792 * unat n"
proof -
  have "unat (1792 * n) = 1792 * unat n" using assms by (subst unat_mult64) simp_all
  then show ?thesis unfolding strides using assms by (subst unat_add64) simp_all
qed

context os_memory
begin

lemma New_stack:
  assumes new: "New S gomaxprocs t1 t2 cfg0 m k = Some (Inr v, m', k')" and fits: "config_fits (v_cfg v)"
  shows "engine_inv m' v G \<and> fresh_engine (v_cfg v) t1 t2 v \<and>
    stacked (v_ctlArena v # v_arenas v) (mapped k) (mapped k')"
proof -
  obtain cfg valve m1 k1 where
    norm: "normalize gomaxprocs cfg0 = Some (Inr cfg)" and gate: "initGate zero_gate (c_HighWaterPct cfg) (c_LowWaterPct cfg) = Inr valve"
    and ctl: "NewArena S (ctlHeader + shardStride * c_Shards cfg) False (c_RequirePinned cfg) m k = Some (Inr (v_ctlArena v), m1, k1)"
    and sh: "new_shards S cfg (c_PayloadCapacity cfg) t1 (v_ctlArena v) [0..<unat (c_Shards cfg)] [] [] m1 k1 =
       Some (Inr (v_arenas v, v_shards v), m', k')"
    and f: "v_cfg v = cfg" "v_ctl v = \<lparr>ctl_ticket = 0, ctl_running = 1, ctl_epoch = t1, ctl_dropped = 0, ctl_saturated = 0, ctl_clock = t2\<rparr>"
      "v_shardN v = c_Shards cfg" "v_shardMsk v = c_Shards cfg - 1" "v_payloadCap v = c_PayloadCapacity cfg"
      "\<not> v_nil v" "\<not> v_closed v" "v_valve v = valve"
    using new by (rule New_okD)
  note fits' = fits [unfolded f(1)]
  note N = normalize_okD [OF norm]
  have small: "unat (c_Shards cfg) \<le> 2 ^ 40" using fits' by (simp add: config_fits_def)
  have sp: "span_ok (v_ctlArena v) k k1" using NewArena_ok [OF ctl] ctl_request [OF small] small by simp
  have st0: "stacked [] (mapped k1) (mapped k1)" by simp
  have built0: "shards_built cfg L m1 [] []" for L by (simp add: shards_built_def)
  note B = new_shards_ok [OF sh fits' payload_room [OF N(4)] built0 st0]
  have st: "stacked (v_arenas v) (mapped k1) (mapped k')" and n: "nsh v = unat (c_Shards cfg)"
    and built: "shards_built cfg L m' (v_arenas v) (v_shards v)" for L using B by auto
  have stack: "stacked (v_ctlArena v # v_arenas v) (mapped k) (mapped k')"
    using sp st by (auto simp: span_ok_def)
  note built' = built [unfolded shards_built_def Let_def, THEN conjunct2, rule_format]
  have len: "length (v_arenas v) = nsh v" using built by (simp add: shards_built_def)
  have two: "0 < shard_bytes cfg"
    using cellStrideFor_bounds(1) [OF payload_room [OF N(4)]] fits' by (simp add: config_fits_def shard_bytes_def)
  have ap: "apart (r_base (rg v i)) (shard_span (rg v i) (ix v i)) (r_base (rg v j)) (shard_span (rg v j) (ix v j))"
    if "i < nsh v" "j < nsh v" "i \<noteq> j" for i j
  proof -
    have "aregion (v_arenas v ! i) \<inter> aregion (v_arenas v ! j) = {}"
      by (rule stacked_apart [OF st]) (use that len in simp_all)
    then have "apart (a_base (v_arenas v ! i)) (unat (a_size (v_arenas v ! i)))
        (a_base (v_arenas v ! j)) (unat (a_size (v_arenas v ! j)))"
      using built' [OF that(1)] built' [OF that(2)] two by (intro region_apart) auto
    moreover have "r_base (rg v a) = a_base (v_arenas v ! a)" "shard_span (rg v a) (ix v a) \<le> unat (a_size (v_arenas v ! a))"
      if "a < nsh v" for a
      using built' [OF that, of undefined] by (elim conjE, simp only:)+
    ultimately show ?thesis using that by (simp only: apart_mono)
  qed
  obtain j where j: "j \<le> 62" "c_Shards cfg = 2 ^ j" using N(1) by auto
  then have pow: "isPow2 (c_Shards cfg)" by (auto simp: isPow2_iff intro!: exI [of _ j])
  have core: "engine_core m' v G"
    unfolding engine_core_def using f n pow built' ap by auto
  have hot: "hots v = replicate (nsh v) 0"
    using built' by (intro nth_equalityI) (auto simp: hots_nth)
  have valve: "\<not> isClosed valve" "gate_wf valve"
    using gate by (auto simp: initGate_def isClosed_def gate_wf_def gateOpen_def gateClosed_def split: if_splits)
  have "latch_ok v"
    unfolding latch_ok_def using hot f valve n unat_lt64 [of "c_Shards cfg"] by (auto dest: in_set_replicate [THEN iffD1])
  then show ?thesis using core stack f valve n built' by (simp add: engine_inv_def fresh_engine_def)
qed

lemma New_error:
  assumes new: "New S gomaxprocs t1 t2 cfg0 m k = Some (Inl e, m', k')"
    and fits: "\<And>cfg. normalize gomaxprocs cfg0 = Some (Inr cfg) \<Longrightarrow> config_fits cfg"
    and never: "\<And>q n i. fst (sysUnmap S q n i) = None"
  shows "mapped k' = mapped k"
proof (cases "\<exists>cfg. normalize gomaxprocs cfg0 = Some (Inr cfg)")
  case False
  then show ?thesis using new by (auto simp: New_def split: option.splits sum.splits)
next
  case True
  then obtain cfg where norm: "normalize gomaxprocs cfg0 = Some (Inr cfg)" by blast
  note fits' = fits [OF norm]
  have small: "unat (c_Shards cfg) \<le> 2 ^ 40" using fits' by (simp add: config_fits_def)
  let ?req = "ctlHeader + shardStride * c_Shards cfg"
  have room: "unat ?req + 4194304 \<le> 2 ^ 64" using ctl_request [OF small] small by simp
  consider "k' = k" | m1 where "NewArena S ?req False (c_RequirePinned cfg) m k = Some (Inl e, m1, k')"
    | c m1 k1 where "NewArena S ?req False (c_RequirePinned cfg) m k = Some (Inr c, m1, k1)"
      "new_shards S cfg (c_PayloadCapacity cfg) t1 c [0..<unat (c_Shards cfg)] [] [] m1 k1 = Some (Inl e, m', k')"
    using new norm by (auto simp: New_def Let_def split: option.splits sum.splits prod.splits)
  then show ?thesis
  proof cases
    case 2
    then show ?thesis by (rule NewArena_err [OF _ room never])
  next
    case 3
    have "span_ok c k k1" using NewArena_ok [OF 3(1) room] by blast
    then have "stacked [c] (mapped k) (mapped k1)" by (auto simp: span_ok_def)
    with new_shards_err [OF 3(2) fits' never] show ?thesis by simp
  qed simp
qed

end

end
