(* ===== verification/NewThms.thy ===== *)
theory NewThms
  imports NewInv
begin


text \<open>The properties of configuration and construction, and a small engine to instantiate properties on.\<close>

section \<open>Rounding the shard count\<close>

lemma round_shards_upto:
  assumes "sint shards \<le> 2 ^ 62" "i \<le> 62" "i = 0 \<or> sint (2 ^ (i - 1) :: u64) < sint shards"
  shows "\<exists>j\<le>62. round_shards shards (2 ^ i) = Some (2 ^ j) \<and> sint shards \<le> 2 ^ j \<and> (j = 0 \<or> 2 ^ (j - 1) < sint shards)"
  using assms
proof (induction "62 - i" arbitrary: i)
  case 0
  then have i: "i = 62" by simp
  then have "round_shards shards (2 ^ i) = Some (2 ^ i)"
    using 0 sint_pow2 [of 62] by (subst round_shards.simps) simp
  then show ?case using 0 i sint_pow2 [of 61] by (intro exI [of _ 62]) simp
next
  case (Suc n)
  show ?case
  proof (cases "sint (2 ^ i :: u64) < sint shards")
    case True
    have "push_bit 1 (2 ^ i :: u64) = 2 ^ Suc i" by (simp add: push_bit_eq_mult)
    then have "round_shards shards (2 ^ i) = round_shards shards (2 ^ Suc i)"
      using True by (subst round_shards.simps) (simp add: mult.commute)
    then show ?thesis using Suc.hyps(1) [of "Suc i"] Suc.hyps(2) Suc.prems True by simp
  next
    case False
    then have "round_shards shards (2 ^ i) = Some (2 ^ i)" by (subst round_shards.simps) simp
    moreover have "sint (2 ^ i :: u64) = 2 ^ i" "sint (2 ^ (i - 1) :: u64) = 2 ^ (i - 1)"
      using sint_pow2 [of i] sint_pow2 [of "i - 1"] Suc.prems(2) by (simp_all only: if_P less_imp_diff_less)
    ultimately show ?thesis using False Suc.prems by (intro exI [of _ i]) auto
  qed
qed

lemma round_shards_returns: "round_shards s 1 \<noteq> None \<longleftrightarrow> sint s \<le> 2 ^ 62"
proof
  assume "round_shards s 1 \<noteq> None"
  then obtain y where "round_shards s 1 = Some y" by auto
  from round_shards_one [OF this] obtain j where j: "j \<le> 62" "y = 2 ^ j" "sint s \<le> sint y" by blast
  have "(2 :: int) ^ j \<le> 2 ^ 62" using j(1) by (intro power_increasing) simp_all
  then show "sint s \<le> 2 ^ 62" using j sint_pow2 [of j] by simp
next
  assume "sint s \<le> 2 ^ 62"
  then show "round_shards s 1 \<noteq> None" using round_shards_upto [of s 0] by auto
qed

lemma round_shards_least:
  assumes "round_shards s 1 = Some n"
  shows "\<exists>j\<le>62. n = 2 ^ j \<and> sint s \<le> 2 ^ j \<and> (j = 0 \<or> 2 ^ (j - 1) < sint s)"
  using round_shards_upto [of s 0] round_shards_returns [of s] assms by auto

lemma round_shards_fixed:
  assumes "j \<le> 62"
  shows "round_shards (2 ^ j) 1 = Some (2 ^ j)"
proof -
  have s: "sint (2 ^ j :: u64) = 2 ^ j" using assms sint_pow2 [of j] by simp
  have "(2 :: int) ^ j \<le> 2 ^ 62" using assms by (intro power_increasing) simp_all
  then obtain n where n: "round_shards (2 ^ j) 1 = Some n" using round_shards_returns [of "2 ^ j"] s by auto
  obtain i where i: "n = 2 ^ i" "(2 :: int) ^ j \<le> 2 ^ i" "i = 0 \<or> (2 :: int) ^ (i - 1) < 2 ^ j"
    using round_shards_least [OF n] s by auto
  have "j \<le> i" using i(2) by simp
  moreover have "i = 0 \<or> i - 1 < j" using i(3) by simp
  ultimately have "i = j" by linarith
  then show ?thesis using n i(1) by simp
qed

lemma normalize_rest_fixed:
  assumes "normalize_rest c = Inr cfg"
  shows "normalize_rest cfg = Inr cfg"
proof -
  note R = normalize_rest_okD [OF assms]
  have "c_CellsPerShard cfg \<noteq> 0" "c_IndexBucketsPerCell cfg \<noteq> 0" "c_PayloadCapacity cfg \<noteq> 0"
    "c_HighWaterPct cfg \<noteq> 0" "c_LowWaterPct cfg \<noteq> 0" "\<not> sint (c_PayloadCapacity cfg) < 0"
    using R by (auto simp: isPow2_def)
  then show ?thesis using R(2,3,6,7) by (simp add: normalize_rest_def Let_def not_less not_le)
qed

text \<open>The shard count \<^verbatim>\<open>normalize\<close> starts from.\<close>

definition asked_shards :: "u64 \<Rightarrow> Config \<Rightarrow> u64" where
  "asked_shards gomaxprocs c = (if sint (c_Shards c) \<le> 0 then gomaxprocs else c_Shards c)"

lemma normalize_asked:
  "normalize gomaxprocs c = map_option (\<lambda>n. normalize_rest (c\<lparr>c_Shards := n\<rparr>)) (round_shards (asked_shards gomaxprocs c) 1)"
  by (simp add: normalize_def asked_shards_def Let_def split: option.splits)

lemma normalize_fixed:
  assumes "normalize gomaxprocs c = Some (Inr cfg)"
  shows "normalize gomaxprocs' cfg = Some (Inr cfg)"
proof -
  obtain n where n: "round_shards (asked_shards gomaxprocs c) 1 = Some n" "normalize_rest (c\<lparr>c_Shards := n\<rparr>) = Inr cfg"
    using assms by (auto simp: normalize_asked)
  have sh: "c_Shards cfg = n" using normalize_rest_okD(1) [OF n(2)] by simp
  obtain j where j: "j \<le> 62" "n = 2 ^ j" using round_shards_least [OF n(1)] by auto
  then have "\<not> sint n \<le> 0" using sint_pow2 [of j] by simp
  then have "round_shards (asked_shards gomaxprocs' cfg) 1 = Some n"
    using round_shards_fixed [OF j(1)] j(2) sh by (simp add: asked_shards_def)
  moreover have "cfg\<lparr>c_Shards := n\<rparr> = cfg" using sh by (cases cfg) simp
  ultimately show ?thesis using normalize_rest_fixed [OF n(2)] by (simp add: normalize_asked)
qed

section \<open>Configuration\<close>

text \<open>
  C33: The rounding loop of \<^verbatim>\<open>normalize\<close> ends exactly when at most \<open>2 ^ 62\<close> shards are asked for.
  Beyond that the doubled counter overflows to zero and \<^verbatim>\<open>New\<close> never returns.
\<close>
theorem normalize_returns_iff:
  "normalize gomaxprocs c \<noteq> None \<longleftrightarrow>
   sint (if sint (c_Shards c) \<le> 0 then gomaxprocs else c_Shards c) \<le> 2 ^ 62"
  using round_shards_returns by (simp add: normalize_asked asked_shards_def)

text \<open>
  C32: A configuration that \<^verbatim>\<open>normalize\<close> accepts is valid: the shard count is the least power of two
  not below the one asked for, cells and buckets per cell are powers of two, the payload capacity
  is positive and the water marks are ordered; and it is a fixed point, so normalising again, on any
  machine, changes nothing.
\<close>
theorem normalize_valid:
  assumes "normalize gomaxprocs c = Some (Inr cfg)"
  shows "(\<exists>j\<le>62. c_Shards cfg = 2 ^ j \<and> sint (asked_shards gomaxprocs c) \<le> 2 ^ j \<and>
      (j = 0 \<or> 2 ^ (j - 1) < sint (asked_shards gomaxprocs c))) \<and>
    isPow2 (c_CellsPerShard cfg) \<and> isPow2 (c_IndexBucketsPerCell cfg) \<and> 0 < sint (c_PayloadCapacity cfg) \<and>
    c_LowWaterPct cfg < c_HighWaterPct cfg \<and> c_HighWaterPct cfg \<le> 100 \<and>
    normalize gomaxprocs' cfg = Some (Inr cfg)"
proof -
  obtain n where n: "round_shards (asked_shards gomaxprocs c) 1 = Some n" "normalize_rest (c\<lparr>c_Shards := n\<rparr>) = Inr cfg"
    using assms by (auto simp: normalize_asked)
  have "c_Shards cfg = n" using normalize_rest_okD(1) [OF n(2)] by simp
  with round_shards_least [OF n(1)] normalize_rest_okD [OF n(2)] normalize_fixed [OF assms]
  show ?thesis by blast
qed

text \<open>A configuration with two shards of four cells, the rest left to the defaults.\<close>

definition demo_config :: Config where
  "demo_config = \<lparr>c_Shards = 2, c_CellsPerShard = 4, c_PayloadCapacity = 64, c_HighWaterPct = 0, c_LowWaterPct = 0,
     c_IndexBucketsPerCell = 0, c_RequireHugePages = False, c_RequirePinned = False, c_Checksums = True,
     c_PinWorkerThreads = True, c_CoarseClock = 0, c_Consumer = True\<rparr>"

definition demo_cfg :: Config where
  "demo_cfg = demo_config\<lparr>c_HighWaterPct := 90, c_LowWaterPct := 70, c_IndexBucketsPerCell := 2\<rparr>"

lemma demo_normalize: "normalize 8 demo_config = Some (Inr demo_cfg)"
proof -
  have "round_shards 2 1 = Some 2" using round_shards_fixed [of 1] by simp
  moreover have "normalize_rest demo_config = Inr demo_cfg"
    by (simp add: normalize_rest_def demo_config_def demo_cfg_def Let_def isPow2_def)
  moreover have "demo_config\<lparr>c_Shards := 2\<rparr> = demo_config" by (simp add: demo_config_def)
  ultimately show ?thesis by (simp add: normalize_asked asked_shards_def demo_config_def)
qed

theorem normalize_valid_witness:
  "normalize 8 demo_config = Some (Inr demo_cfg) \<and> normalize 3 demo_cfg = Some (Inr demo_cfg) \<and>
   isPow2 (c_IndexBucketsPerCell demo_cfg)"
  using normalize_valid [OF demo_normalize, of 3] demo_normalize by blast

section \<open>Construction\<close>

lemma demo_new_shards:
  assumes "0 < unat b" "unat b + length is * 8388608 \<le> 2 ^ 60"
  shows "\<exists>res m' k'. new_shards (linux_sys demo_kernel) demo_cfg 64 t c is arenas shards m (A, b) = Some (Inr res, m', k')"
  using assms
proof (induction "is" arbitrary: arenas shards m A b)
  case (Cons i "is")
  let ?S = "linux_sys demo_kernel"
  have cs: "c_CellsPerShard demo_cfg = 4" "c_IndexBucketsPerCell demo_cfg = 2" "ringBytes 4 64 = 512" "indexBytes 8 = 256"
    "\<not> c_RequireHugePages demo_cfg" "\<not> c_RequirePinned demo_cfg"
    by (simp_all add: demo_cfg_def demo_config_def ringBytes_def indexBytes_def cellStrideFor_def layout_simps alignUp_def)
  obtain a m1 A1 b1 where n: "NewArena ?S 768 False False m (A, b) = Some (Inr a, m1, (A1, b1))"
    "unat b < unat b1" "unat b1 \<le> unat b + 768 + 4194304"
    using demo_NewArena [of 768 b] Cons.prems by fastforce
  have "isAligned (a_base a) HugePageSize" using demo.lin.NewArena_ok [OF n(1)] by simp
  then have "isAligned (a_base a) (2 ^ 6)" using isAligned_weaken [of 6 21 "a_base a"] by (simp add: HugePageSize_pow2)
  moreover have "isAligned 512 (2 ^ 6 :: u64)" by (simp add: isAligned_def)
  ultimately have al: "isAligned (a_base a) CacheLineSize" "isAligned (a_base a + 512) CacheLineSize"
    using isAligned_add [of 6 "a_base a" 512] by (simp_all add: CacheLineSize_def)
  obtain m2 r where ri: "initRing m1 (a_base a) 4 64 t = Inr (m2, r)"
    using al by (simp add: initRing_def isPow2_def Let_def)
  obtain m3 x where xi: "initIndex m2 (a_base a + 512) 8 = Inr (m3, x)"
    using al by (simp add: initIndex_def isPow2_def Let_def)
  have "unat b1 + length is * 8388608 \<le> 2 ^ 60" "0 < unat b1" using Cons.prems n by simp_all
  from Cons.IH [OF this(2,1)] n(1) ri xi show ?case
    by (simp add: Let_def cs arena_At_def)
qed simp

lemma demo_New: "\<exists>v m' k'. New (linux_sys demo_kernel) 8 t1 t2 demo_config m ({}, 4096) = Some (Inr v, m', k')"
proof -
  let ?S = "linux_sys demo_kernel"
  have c: "c_Shards demo_cfg = 2" "c_PayloadCapacity demo_cfg = 64" "c_HighWaterPct demo_cfg = 90" "c_LowWaterPct demo_cfg = 70"
    "\<not> c_RequirePinned demo_cfg" by (simp_all add: demo_cfg_def demo_config_def)
  obtain a m1 A1 b1 where n: "NewArena ?S 4352 False False m ({}, 4096) = Some (Inr a, m1, (A1, b1))"
    "unat (4096 :: u64) < unat b1" "unat b1 \<le> unat (4096 :: u64) + unat (4352 :: u64) + 4194304"
    using demo_NewArena [of 4352 4096] by fastforce
  have "\<exists>res m' k'. new_shards ?S demo_cfg 64 t1 a [0..<2] [] [] m1 (A1, b1) = Some (Inr res, m', k')"
    by (rule demo_new_shards) (use n in simp_all)
  then obtain arenas shards m' k' where s: "new_shards ?S demo_cfg 64 t1 a [0..<2] [] [] m1 (A1, b1) = Some (Inr (arenas, shards), m', k')"
    by (metis prod.exhaust)
  have g: "\<exists>g. initGate zero_gate 90 70 = Inr g" by (simp add: initGate_def)
  then obtain g where g: "initGate zero_gate 90 70 = Inr g" ..
  show ?thesis using n(1) s g c demo_normalize by (simp add: New_def Let_def strides del: upt_conv_Cons upt_rec_numeral)
qed

lemma demo_fits: "config_fits demo_cfg"
  by (simp add: config_fits_def demo_cfg_def demo_config_def cellStrideFor_def layout_simps alignUp_def)

text \<open>
  C16: \<^verbatim>\<open>New\<close> on Linux and Darwin. An engine it returns satisfies the engine invariant, with every
  ring empty, every index empty, every flag cold, the gate open and all counters zero; and what the
  call has mapped is the control arena and one arena per shard, pairwise disjoint, and nothing else.
\<close>
theorem New_establishes_invariant:
  assumes "vm_laws K mapped" "S \<in> {linux_sys K, darwin_sys K}" "config_fits (v_cfg v)"
    and "New S gomaxprocs t1 t2 cfg0 m k = Some (Inr v, m', k')"
  shows "engine_inv m' v G \<and> fresh_engine (v_cfg v) t1 t2 v \<and>
    stacked (v_ctlArena v # v_arenas v) (mapped k) (mapped k')"
  by (rule os_memory.New_stack [OF platform_os [OF assms(1,2)] assms(4,3)])

lemma New_cfg: "New S gomaxprocs t1 t2 c m k = Some (Inr v, m', k') \<Longrightarrow> normalize gomaxprocs c = Some (Inr (v_cfg v))"
  by (elim New_okD) simp

theorem New_establishes_invariant_witness:
  "\<exists>v m' k'. New (linux_sys demo_kernel) 8 5 6 demo_config (\<lambda>_. 7) ({}, 4096) = Some (Inr v, m', k') \<and>
     engine_inv m' v (\<lambda>i p. undefined) \<and> nsh v = 2"
proof -
  obtain v m' k' where n: "New (linux_sys demo_kernel) 8 5 6 demo_config (\<lambda>_. 7) ({}, 4096) = Some (Inr v, m', k')"
    using demo_New [of 5 6 "\<lambda>_. 7"] by blast
  have c: "v_cfg v = demo_cfg" using New_cfg [OF n] demo_normalize by simp
  have "c_Shards demo_cfg = 2" by (simp add: demo_cfg_def demo_config_def)
  with New_establishes_invariant [OF demo_vm(1) _ _ n, of "\<lambda>i p. undefined"] n c demo_fits show ?thesis
    by (auto simp: fresh_engine_def)
qed

text \<open>
  C17: A failing \<^verbatim>\<open>New\<close> leaks nothing: whichever arena, ring or index could not be set up, what was
  mapped before the failure has been unmapped when the error is returned.
\<close>
theorem New_failure_leaks_nothing:
  assumes "vm_laws K mapped" "munmap_succeeds K" "S \<in> {linux_sys K, darwin_sys K}"
    and "\<And>cfg. normalize gomaxprocs cfg0 = Some (Inr cfg) \<Longrightarrow> config_fits cfg"
    and "New S gomaxprocs t1 t2 cfg0 m k = Some (Inl e, m', k')"
  shows "mapped k' = mapped k"
  using os_memory.New_error [OF platform_os [OF assms(1,3)] assms(5,4)] platform_unmap [OF assms(2,3)] by blast

text \<open>With the last free address taken by the control arena, the first shard cannot be mapped.\<close>

lemma demo_New_fails:
  "\<exists>e m' k'. New (linux_sys demo_kernel) 8 t1 t2 demo_config m (A, 2 ^ 62) = Some (Inl e, m', k')"
proof -
  let ?S = "linux_sys demo_kernel"
  have c: "c_Shards demo_cfg = 2" "c_PayloadCapacity demo_cfg = 64" "c_HighWaterPct demo_cfg = 90" "c_LowWaterPct demo_cfg = 70"
    "c_CellsPerShard demo_cfg = 4" "c_IndexBucketsPerCell demo_cfg = 2" "ringBytes 4 64 = 512" "indexBytes 8 = 256"
    "\<not> c_RequirePinned demo_cfg" "\<not> c_RequireHugePages demo_cfg"
    by (simp_all add: demo_cfg_def demo_config_def ringBytes_def indexBytes_def cellStrideFor_def layout_simps alignUp_def)
  obtain a m1 A1 b1 where n: "NewArena ?S 4352 False False m (A, 2 ^ 62) = Some (Inr a, m1, (A1, b1))"
    "unat (2 ^ 62 :: u64) < unat b1"
    using demo_NewArena [of 4352 "2 ^ 62"] by fastforce
  then have b1: "2 ^ 62 < b1" "b1 \<noteq> 0" by (auto simp: word_less_nat_alt)
  have "\<exists>e. NewArena ?S 768 False False m1 (A1, b1) = Some (Inl e, m1, (A1, b1))"
    using b1 by (simp add: NewArena_def Let_def map_span_def map_trim_def isPow2_def demo_sys_simps alignUp_def)
  moreover have "[0..<2] = [0, 1 :: nat]" by (simp add: upt_rec)
  moreover have "\<exists>g. initGate zero_gate 90 70 = Inr g" by (simp add: initGate_def)
  ultimately show ?thesis using n(1) c demo_normalize by (auto simp: New_def Let_def strides)
qed

theorem New_failure_leaks_nothing_witness:
  "\<exists>e m' k'. New (linux_sys demo_kernel) 8 5 6 demo_config (\<lambda>_. 7) ({5}, 2 ^ 62) = Some (Inl e, m', k') \<and>
     demo_mapped k' = {5}"
proof -
  obtain e m' k' where n: "New (linux_sys demo_kernel) 8 5 6 demo_config (\<lambda>_. 7) ({5}, 2 ^ 62) = Some (Inl e, m', k')"
    using demo_New_fails by blast
  have "demo_mapped k' = demo_mapped ({5}, 2 ^ 62)"
    by (rule New_failure_leaks_nothing [OF demo_vm _ _ n]) (use demo_normalize demo_fits in auto)
  then show ?thesis using n by (auto simp: demo_mapped_def)
qed

end
