(* ===== verification/Water.thy ===== *)
theory Water
  imports FabricInv RingProps
begin

text \<open>
  The water marks. Between calls a shard at or above the high mark is hot and a hot shard is above
  the low mark; with the latch invariant, the gate is open only while every shard is below the
  high mark. Every call of the engine keeps this.
\<close>

section \<open>Occupancy\<close>

lemma shard_occupancy:
  assumes inv: "shard_inv m r x L" and cap: "rcap r \<le> 2 ^ 57"
  shows "unat (occupancyPct r) = (rT r - rH r) * 100 div rcap r" "rH r \<le> rT r" "rT r - rH r \<le> rcap r"
    "ring_full r {} {} \<longleftrightarrow> rT r - rH r = rcap r"
proof -
  note I = ring_inv0D [OF ring_invD(1) [OF shard_invD(2) [OF inv]]]
  show le: "rH r \<le> rT r" "rT r - rH r \<le> rcap r" using I(3-5) by linarith+
  have "(rT r - rH r) * 100 \<le> 2 ^ 57 * 100" using le(2) cap by (intro mult_le_mono1) linarith
  then show "unat (occupancyPct r) = (rT r - rH r) * 100 div rcap r" by (intro occupancy_unat le) simp
  show "ring_full r {} {} \<longleftrightarrow> rT r - rH r = rcap r" using le I(2) by (auto simp: ring_full_def Let_def)
qed

lemma full_occupancy:
  assumes "shard_inv m r x L" "rcap r \<le> 2 ^ 57" "ring_full r {} {}"
  shows "occupancyPct r = 100"
proof -
  note O = shard_occupancy [OF assms(1,2)]
  have "0 < rcap r" using ring_geom_pos [OF shard_geomD(1) [OF shard_invD(1) [OF assms(1)]]] .
  then have "unat (occupancyPct r) = 100" using O(1,4) assms(3) by simp
  then show ?thesis by (metis of_nat_numeral of_nat_unat ucast_id)
qed

lemma occupancy_mono:
  assumes "shard_inv m r x L" "shard_inv m' r' x' L'" "rcap r \<le> 2 ^ 57" "r_capacity r' = r_capacity r"
    and "rT r' - rH r' \<le> rT r - rH r"
  shows "occupancyPct r' \<le> occupancyPct r"
  using shard_occupancy(1) [OF assms(1,3)] shard_occupancy(1) [OF assms(2)] assms(3-5)
  by (simp add: word_le_nat_alt div_le_mono)

section \<open>The marks\<close>

definition marks_ok :: "Vaultage \<Rightarrow> bool" where
  "marks_ok v \<longleftrightarrow> c_LowWaterPct (v_cfg v) < c_HighWaterPct (v_cfg v) \<and> c_HighWaterPct (v_cfg v) \<le> 100 \<and>
     (\<forall>i<nsh v. rcap (rg v i) \<le> 2 ^ 57)"

definition mark_ok :: "Vaultage \<Rightarrow> nat \<Rightarrow> bool" where
  "mark_ok v i \<longleftrightarrow> (c_HighWaterPct (v_cfg v) \<le> occupancyPct (rg v i) \<longrightarrow> hots v ! i = 1) \<and>
     (hots v ! i = 1 \<longrightarrow> c_LowWaterPct (v_cfg v) < occupancyPct (rg v i))"

definition water_ok :: "Vaultage \<Rightarrow> bool" where
  "water_ok v \<longleftrightarrow> marks_ok v \<and> (\<forall>i<nsh v. mark_ok v i)"

lemma marksD:
  assumes "marks_ok v"
  shows "c_LowWaterPct (v_cfg v) < c_HighWaterPct (v_cfg v)" "c_HighWaterPct (v_cfg v) \<le> 100"
    "\<And>i. i < nsh v \<Longrightarrow> rcap (rg v i) \<le> 2 ^ 57"
  using assms unfolding marks_ok_def by blast+

lemma marks_ok_cong:
  assumes "marks_ok v" "v_cfg v' = v_cfg v" "nsh v' = nsh v" "\<And>i. i < nsh v \<Longrightarrow> r_capacity (rg v' i) = r_capacity (rg v i)"
  shows "marks_ok v'"
  using assms by (simp add: marks_ok_def)

text \<open>An open gate means that no shard is hot, and so that none is near full.\<close>

lemma open_gate:
  assumes inv: "engine_inv m v G" and water: "water_ok v" and "\<not> isClosed (v_valve v)" "i < nsh v"
  shows "hots v ! i = 0" "occupancyPct (rg v i) < c_HighWaterPct (v_cfg v)" "\<not> shard_full v i"
proof -
  note latch = engine_invD(2) [OF inv]
  have "1 \<notin> set (hots v)" using latch assms(3) by (simp add: latch_ok_def)
  then have "hots v ! i \<noteq> 1" using assms(4) by (metis length_hots nth_mem)
  then show "hots v ! i = 0" using latch_flag [OF latch assms(4)] by simp
  have "mark_ok v i" using water assms(4) by (simp add: water_ok_def)
  then show lt: "occupancyPct (rg v i) < c_HighWaterPct (v_cfg v)"
    using \<open>hots v ! i \<noteq> 1\<close> by (auto simp: mark_ok_def)
  have m: "marks_ok v" using water by (simp add: water_ok_def)
  show "\<not> shard_full v i"
  proof
    assume "shard_full v i"
    then have "occupancyPct (rg v i) = 100"
      by (rule full_occupancy [OF engine_coreD(5) [OF engine_invD(1) [OF inv] assms(4)] marksD(3) [OF m assms(4)]])
    then show False using lt marksD(2) [OF m] by simp
  qed
qed

lemma markSaturated_water:
  assumes latch: "latch_ok v" and i: "i < nsh v" and marks: "marks_ok v"
    and other: "\<And>j. j < nsh v \<Longrightarrow> j \<noteq> i \<Longrightarrow> mark_ok v j" and occ: "c_LowWaterPct (v_cfg v) < occupancyPct (rg v i)"
  shows "water_ok (markSaturated v i)"
proof -
  note S = same_but_latchD [OF markSaturated_same [OF i]]
  note H = markSaturated_latch(2) [OF latch i]
  have "marks_ok (markSaturated v i)" by (rule marks_ok_cong [OF marks]) (use S in simp_all)
  moreover have "mark_ok (markSaturated v i) j" if "j < nsh v" for j
    using other [OF that] occ S(2) [OF that] S(6) H i that by (cases "j = i") (simp_all add: mark_ok_def)
  ultimately show ?thesis using S(1) by (simp add: water_ok_def)
qed

lemma markDrained_water:
  assumes latch: "latch_ok v" and i: "i < nsh v" and marks: "marks_ok v"
    and other: "\<And>j. j < nsh v \<Longrightarrow> j \<noteq> i \<Longrightarrow> mark_ok v j"
    and occ: "c_HighWaterPct (v_cfg v) \<le> occupancyPct (rg v i) \<Longrightarrow> hots v ! i = 1"
  shows "water_ok (markDrained v i)"
proof -
  note S = same_but_latchD [OF markDrained_same [OF i]]
  note H = markDrained_latch(2) [OF latch i]
  have "marks_ok (markDrained v i)" by (rule marks_ok_cong [OF marks]) (use S in simp_all)
  moreover have "mark_ok (markDrained v i) j" if "j < nsh v" for j
  proof (cases "j = i")
    case False
    then show ?thesis using other [OF that] S(2) [OF that] S(6) H that by (simp add: mark_ok_def)
  next
    case True
    then show ?thesis
      using occ S(2) [OF i] S(6) H i marksD(1) [OF marks] by (auto simp: mark_ok_def not_le)
  qed
  ultimately show ?thesis using S(1) by (simp add: water_ok_def)
qed

section \<open>Calls keep the marks\<close>

lemma publish_water:
  assumes inv: "engine_inv m v G" and water: "water_ok v" and gate: "\<not> isClosed (v_valve v)" and i: "i < nsh v"
    and r': "r' = (rg v i)\<lparr>r_tail := t, r_commit := t\<rparr>" and inv': "engine_inv m' (after_publish v i r' x') G'"
  defines "v' \<equiv> if occupancyPct r' \<ge> c_HighWaterPct (v_cfg v) then markSaturated (after_publish v i r' x') i
      else after_publish v i r' x'"
  shows "water_ok v'"
proof -
  let ?v = "after_publish v i r' x'"
  have m: "marks_ok v" using water by (simp add: water_ok_def)
  have rgs: "rg ?v j = (if j = i then r' else rg v j)" "nsh ?v = nsh v" "v_cfg ?v = v_cfg v" if "j < nsh v" for j
    using that i by (simp_all add: after_publish_def)
  have hv: "hots ?v = hots v"
    using i by (simp add: after_publish_def hots_def map_update) (metis hots_def hots_nth list_update_id)
  have m': "marks_ok ?v"
    by (rule marks_ok_cong [OF m]) (use rgs i r' in simp_all)
  have other: "mark_ok ?v j" if "j < nsh ?v" "j \<noteq> i" for j
    using water that rgs [of j] rgs(2) [OF i] hv by (simp add: water_ok_def mark_ok_def)
  show ?thesis
  proof (cases "occupancyPct r' \<ge> c_HighWaterPct (v_cfg v)")
    case True
    have "c_LowWaterPct (v_cfg ?v) < occupancyPct (rg ?v i)"
      using True marksD(1) [OF m] rgs [OF i] by simp
    with True show ?thesis
      using markSaturated_water [OF engine_invD(2) [OF inv'] _ m' other] rgs(2) [OF i] i by (simp add: v'_def)
  next
    case False
    moreover have "mark_ok ?v i"
      using False open_gate(1) [OF inv water gate i] rgs [OF i] hv by (simp add: mark_ok_def)
    ultimately show ?thesis using m' other rgs(2) [OF i] by (auto simp: v'_def water_ok_def)
  qed
qed

text \<open>Taking records out of a shard and then settling its flag.\<close>

lemma drained_water:
  assumes inv: "engine_inv m v G" and water: "water_ok v" and i: "i < nsh v"
    and v': "v' = upd_shard i (\<lambda>_. drained (v_shards v ! i) k) v" and inv': "engine_inv m' v' G"
    and heads: "only_heads v v'" and hots: "hots v' = hots v"
  shows "water_ok (markDrained v' i)"
proof -
  have n: "nsh v' = nsh v" "v_cfg v' = v_cfg v" using heads by (simp_all add: only_heads_def)
  have m: "marks_ok v" using water by (simp add: water_ok_def)
  have m': "marks_ok v'" by (rule marks_ok_cong [OF m]) (use heads in \<open>simp_all add: only_heads_def\<close>)
  have same: "rg v' j = rg v j" if "j \<noteq> i" for j using v' that by simp
  have other: "mark_ok v' j" if "j < nsh v'" "j \<noteq> i" for j
    using water that same [of j] n hots by (simp add: water_ok_def mark_ok_def)
  have "rT (rg v' i) - rH (rg v' i) \<le> rT (rg v i) - rH (rg v i)" "r_capacity (rg v' i) = r_capacity (rg v i)"
    using heads i by (auto simp: only_heads_def)
  from occupancy_mono [OF engine_coreD(5) [OF engine_invD(1) [OF inv] i] engine_coreD(5) [OF engine_invD(1) [OF inv']] _ this(2,1)]
  have "occupancyPct (rg v' i) \<le> occupancyPct (rg v i)" using i n marksD(3) [OF m i] by simp
  then have "hots v' ! i = 1" if "c_HighWaterPct (v_cfg v') \<le> occupancyPct (rg v' i)"
    using that water i n hots by (auto simp: water_ok_def mark_ok_def)
  then show ?thesis
    using markDrained_water [OF engine_invD(2) [OF inv'] _ m' other] i n by simp
qed

lemma drain_shards_water:
  fixes f :: "int \<Rightarrow> entry \<Rightarrow> 'h \<Rightarrow> 'h"
  assumes "engine_inv m v G" "water_ok v" "set is \<subseteq> {..<nsh v}"
    and "drain_shards (Some (observer f)) mx is m v rec tot s = (m', v', tot', s')"
  shows "water_ok v'"
  using assms
proof (induction "is" arbitrary: m v rec tot s)
  case (Cons i "is")
  then have i: "i < nsh v" by auto
  define k where "k = batch mx tot (rT (rg v i) - rH (rg v i))"
  obtain m1 rec1 v1 s1 where d: "drain_shard (Some (observer f)) mx (int i) m (v_shards v ! i) rec tot s =
      (m1, drained (v_shards v ! i) k, rec1, tot + int k, s1)"
    "v1 = upd_shard i (\<lambda>_. drained (v_shards v ! i) k) v" "engine_inv m1 v1 G" "only_heads v v1" "hots v1 = hots v"
    using drain_one [OF Cons.prems(1) i, of f mx rec tot s, folded k_def] by blast
  have n1: "nsh v1 = nsh v" using d(4) by (simp add: only_heads_def)
  have w: "water_ok (markDrained v1 i)" by (rule drained_water [OF Cons.prems(1,2) i d(2-5)])
  have e: "engine_inv m1 (markDrained v1 i) G" using markDrained_inv [OF d(3)] i n1 by simp
  have "nsh (markDrained v1 i) = nsh v" using same_but_latchD(1) [OF markDrained_same] i n1 by simp
  then show ?case using Cons.IH [OF e w] Cons.prems(3,4) d(1,2) by simp
qed simp

end
