(* ===== verification/Engine.thy ===== *)
theory Engine
  imports NewThms Water
begin

text \<open>
  Whole runs of the engine: \<^verbatim>\<open>New\<close>, then any sequence of publications, accepted or refused, of
  \<^verbatim>\<open>Drain\<close> calls, of turns of the shard workers and of clock ticks. \<open>engine_reach\<close> carries two
  histories beside the state: per shard the entries that were accepted, and the log of what the
  handler was shown.
\<close>

section \<open>Runs\<close>

definition logger :: "(int \<times> entry) list handler" where
  "logger = observer (\<lambda>i e s. s @ [(i, e)])"

inductive engine_reach :: "'k sys \<Rightarrow> mem \<Rightarrow> Vaultage \<Rightarrow> (nat \<Rightarrow> entry list) \<Rightarrow> (int \<times> entry) list \<Rightarrow> bool" for S :: "'k sys" where
  start: "New S gomaxprocs t1 t2 cfg0 m k = Some (Inr v, m', k') \<Longrightarrow> config_fits (v_cfg v) \<Longrightarrow>
    engine_reach S m' v (\<lambda>_. []) []"
| accept: "engine_reach S m v A D \<Longrightarrow> engine_room v \<Longrightarrow>
    publish m v key payload flags unixnano = Returned (Inr ticket, m', v') \<Longrightarrow>
    e = entry_of ticket key (now_ts v unixnano) flags payload (digest v payload) \<Longrightarrow>
    engine_reach S m' v' (A(shard_of v key := A (shard_of v key) @ [e])) D"
| refuse: "engine_reach S m v A D \<Longrightarrow> engine_room v \<Longrightarrow>
    publish m v key payload flags unixnano = Returned (Inl err, m', v') \<Longrightarrow> engine_reach S m' v' A D"
| drain: "engine_reach S m v A D \<Longrightarrow> Drain (Some logger) mx rec m v D = Returned (n, m', v', D') \<Longrightarrow>
    engine_reach S m' v' A D'"
| turn: "engine_reach S m v A D \<Longrightarrow> i < nsh v \<Longrightarrow>
    worker_turn logger i m v rec idle D = (stop, m', v', rec', idle', D') \<Longrightarrow> engine_reach S m' v' A D'"
| tick: "engine_reach S m v A D \<Longrightarrow> engine_reach S m (clockTick v unixnano) A D"

text \<open>What the handler saw of one shard.\<close>

definition delivered_at :: "(int \<times> entry) list \<Rightarrow> nat \<Rightarrow> entry list" where
  "delivered_at D i = map snd (filter (\<lambda>(j, e). j = int i) D)"

lemma delivered_at_append [simp]: "delivered_at (D @ D') i = delivered_at D i @ delivered_at D' i"
  by (simp add: delivered_at_def)

lemma delivered_at_own: "delivered_at (map (\<lambda>p. (int i, f p)) ps) j = (if i = j then map f ps else [])"
  by (induction ps) (auto simp: delivered_at_def)

lemma delivered_deliveries:
  assumes "distinct is"
  shows "delivered_at (map (\<lambda>(i, p). (int i, f i p)) (deliveries v v' is)) j =
    (if j \<in> set is then map (f j) [rH (rg v j)..<rH (rg v' j)] else [])"
  using assms
proof (induction "is")
  case (Cons i "is")
  have split: "deliveries v v' (i # is) = map (Pair i) [rH (rg v i)..<rH (rg v' i)] @ deliveries v v' is"
    by (simp add: deliveries_def)
  show ?case using Cons by (auto simp: split delivered_at_own comp_def)
qed (simp add: deliveries_def delivered_at_def)

lemma length_deliveries: "length (deliveries v v' [0..<n]) = (\<Sum>i<n. rH (rg v' i) - rH (rg v i))"
  by (simp add: deliveries_def length_concat comp_def interv_sum_list_conv_sum_set_nat atLeast0LessThan)

lemma fold_log: "fold (\<lambda>(i, p). \<lambda>s. s @ [(int i, f i p)]) ps D = D @ map (\<lambda>(i, p). (int i, f i p)) ps"
  by (induction ps arbitrary: D) auto

section \<open>The history invariant\<close>

text \<open>Tickets 1 to \<open>n\<close> are those of the accepted entries, each once.\<close>

definition tickets_dense :: "Vaultage \<Rightarrow> (nat \<Rightarrow> nat \<Rightarrow> entry) \<Rightarrow> bool" where
  "tickets_dense v G \<longleftrightarrow>
     (\<forall>i<nsh v. \<forall>p<rT (rg v i). \<forall>j<nsh v. \<forall>q<rT (rg v j). e_ticket (G i p) = e_ticket (G j q) \<longrightarrow> i = j \<and> p = q) \<and>
     (\<forall>t\<in>{1..unat (ctl_ticket (v_ctl v))}. \<exists>i<nsh v. \<exists>p<rT (rg v i). unat (e_ticket (G i p)) = t)"

text \<open>Every accepted entry carries no checksum or the one of its payload.\<close>

definition sums_ok :: "(nat \<Rightarrow> entry list) \<Rightarrow> bool" where
  "sums_ok A \<longleftrightarrow> (\<forall>i. \<forall>e\<in>set (A i). e_checksum e = 0 \<or> e_checksum e = checksum32 (e_payload e))"

definition history_ok :: "mem \<Rightarrow> Vaultage \<Rightarrow> (nat \<Rightarrow> nat \<Rightarrow> entry) \<Rightarrow> (nat \<Rightarrow> entry list) \<Rightarrow> (int \<times> entry) list \<Rightarrow> bool" where
  "history_ok m v G A D \<longleftrightarrow> engine_inv m v G \<and> water_ok v \<and> ctl_running (v_ctl v) \<noteq> 0 \<and> \<not> v_closed v \<and>
     ctl_dropped (v_ctl v) = 0 \<and> tickets_dense v G \<and> sums_ok A \<and>
     (\<forall>i. A i = (if i < nsh v then map (G i) [0..<rT (rg v i)] else [])) \<and>
     (\<forall>i. delivered_at D i = (if i < nsh v then map (\<lambda>p. committed_entry (G i p)) [0..<rH (rg v i)] else []))"

lemma historyD:
  assumes "history_ok m v G A D"
  shows "engine_inv m v G" "water_ok v" "ctl_running (v_ctl v) \<noteq> 0" "\<not> v_closed v" "ctl_dropped (v_ctl v) = 0"
    "tickets_dense v G" "\<And>i. A i = (if i < nsh v then map (G i) [0..<rT (rg v i)] else [])"
    "\<And>i. delivered_at D i = (if i < nsh v then map (\<lambda>p. committed_entry (G i p)) [0..<rH (rg v i)] else [])"
    "sums_ok A"
  using assms unfolding history_ok_def by blast+

text \<open>Consuming advances heads and extends the log by what lies between.\<close>

lemma history_heads:
  assumes H: "history_ok m v G A D" and e: "engine_inv m' v' G" "water_ok v'" and oh: "only_heads v v'"
    and log: "D' = D @ map (\<lambda>(i, p). (int i, committed_entry (G i p))) (deliveries v v' is)"
    and range: "distinct is" "set is \<subseteq> {..<nsh v}" "\<And>j. j < nsh v \<Longrightarrow> j \<notin> set is \<Longrightarrow> rH (rg v' j) = rH (rg v j)"
  shows "history_ok m' v' G A D'"
proof -
  note h = historyD [OF H]
  have oh': "nsh v' = nsh v" "v_closed v' = v_closed v" "ctl_running (v_ctl v') = ctl_running (v_ctl v)"
    "ctl_ticket (v_ctl v') = ctl_ticket (v_ctl v)" "ctl_dropped (v_ctl v') = ctl_dropped (v_ctl v)"
    and rings: "\<And>j. j < nsh v \<Longrightarrow> r_tail (rg v' j) = r_tail (rg v j)" "\<And>j. j < nsh v \<Longrightarrow> rH (rg v j) \<le> rH (rg v' j)"
    using oh by (auto simp: only_heads_def)
  have "delivered_at D' j = (if j < nsh v' then map (\<lambda>p. committed_entry (G j p)) [0..<rH (rg v' j)] else [])" for j
  proof (cases "j \<in> set is")
    case True
    then have j: "j < nsh v" using range(2) by auto
    have "[0..<rH (rg v' j)] = [0..<rH (rg v j)] @ [rH (rg v j)..<rH (rg v' j)]"
      using upt_add_eq_append [of 0 "rH (rg v j)" "rH (rg v' j) - rH (rg v j)"] rings(2) [OF j] by simp
    then show ?thesis using True j h(8) oh'(1) by (simp add: log delivered_deliveries [OF range(1)])
  next
    case False
    then show ?thesis using h(8) oh'(1) range(3) by (simp add: log delivered_deliveries [OF range(1)])
  qed
  moreover have "tickets_dense v' G" using h(6) rings(1) oh' by (simp add: tickets_dense_def cong: conj_cong)
  moreover have "A i = (if i < nsh v' then map (G i) [0..<rT (rg v' i)] else [])" for i
    using h(7) rings(1) oh'(1) by simp
  ultimately show ?thesis unfolding history_ok_def using e h(3-5,9) oh' by simp
qed

text \<open>An accepted publication.\<close>

lemma publish_ok_iff:
  assumes inv: "engine_inv m v G" and water: "water_ok v" and room: "engine_room v"
  shows "(\<exists>t m' v'. publish m v key payload flags unixnano = Returned (Inr t, m', v')) \<longleftrightarrow> admits v key payload"
proof
  assume ok: "\<exists>t m' v'. publish m v key payload flags unixnano = Returned (Inr t, m', v')"
  show "admits v key payload"
  proof (rule ccontr)
    assume "\<not> ?thesis"
    from publish_rejects [OF this, of m flags unixnano] ok show False by (auto split: if_splits)
  qed
next
  assume adm: "admits v key payload"
  have "\<not> shard_full v (shard_of v key)"
    by (rule open_gate(3) [OF inv water _ shard_of_less [OF engine_invD(1) [OF inv]]]) (use adm in \<open>simp add: admits_def\<close>)
  from publish_accepts [OF inv room adm this, of flags unixnano]
  show "\<exists>t m' v'. publish m v key payload flags unixnano = Returned (Inr t, m', v')" by blast
qed

lemma tickets_dense_publish:
  assumes inv: "engine_inv m v G" and dense: "tickets_dense v G" and i: "i < nsh v"
    and t: "unat (e_ticket e) = unat (ctl_ticket (v_ctl v)) + 1" "ctl_ticket (v_ctl v') = e_ticket e"
    and v': "nsh v' = nsh v" "rT (rg v' i) = rT (rg v i) + 1" "\<And>j. j < nsh v \<Longrightarrow> j \<noteq> i \<Longrightarrow> rT (rg v' j) = rT (rg v j)"
  shows "tickets_dense v' (G(i := (G i)(rT (rg v i) := e)))"
proof -
  let ?G = "G(i := (G i)(rT (rg v i) := e))"
  have old: "unat (e_ticket (G j q)) < unat (e_ticket e)" if "j < nsh v" "q < rT (rg v j)" for j q
    using engine_coreD(10) [OF engine_invD(1) [OF inv] that] t(1) by simp
  have pos: "j = i \<and> q = rT (rg v i) \<or> q < rT (rg v j) \<and> \<not> (j = i \<and> q = rT (rg v i))"
    if "j < nsh v" "q < rT (rg v' j)" for j q
    using that v'(2,3) by (cases "j = i") auto
  have uniq: "j = k \<and> p = q" if "j < nsh v" "p < rT (rg v' j)" "k < nsh v" "q < rT (rg v' k)"
    "e_ticket (?G j p) = e_ticket (?G k q)" for j p k q
  proof -
    have G: "?G a b = (if a = i \<and> b = rT (rg v i) then e else G a b)" for a b by simp
    show ?thesis
      using pos [OF that(1,2)] pos [OF that(3,4)] old [of j p] old [of k q] that(5) dense that(1,3)
      unfolding tickets_dense_def G by (auto split: if_splits)
  qed
  have "\<exists>j<nsh v'. \<exists>p<rT (rg v' j). unat (e_ticket (?G j p)) = n" if "n \<in> {1..unat (ctl_ticket (v_ctl v'))}" for n
  proof (cases "n = unat (e_ticket e)")
    case True
    then show ?thesis using i v' by (intro exI [of _ i]) auto
  next
    case False
    then have "n \<in> {1..unat (ctl_ticket (v_ctl v))}" using that t by auto
    then obtain j p where jp: "j < nsh v" "p < rT (rg v j)" "unat (e_ticket (G j p)) = n"
      using dense unfolding tickets_dense_def by blast
    then have "p < rT (rg v' j)" using v'(2,3) by (cases "j = i") auto
    moreover have "?G j p = G j p" using jp(2) by auto
    ultimately show ?thesis using jp v'(1) by metis
  qed
  then show ?thesis unfolding tickets_dense_def using uniq v'(1) by auto
qed

lemma history_publish:
  assumes H: "history_ok m v G A D" and room: "engine_room v"
    and pub: "publish m v key payload flags unixnano = Returned (Inr ticket, m', v')"
  defines "i \<equiv> shard_of v key" and "e \<equiv> entry_of ticket key (now_ts v unixnano) flags payload (digest v payload)"
  shows "history_ok m' v' (G(i := (G i)(rT (rg v i) := e))) (A(i := A i @ [e])) D" "ticket = ctl_ticket (v_ctl v) + 1"
    "i < nsh v" "rT (rg v' i) = rT (rg v i) + 1" "r_capacity (rg v' i) = r_capacity (rg v i)" "nsh v' = nsh v"
    "x_overflows (ix v' i) = x_overflows (ix v i) \<Longrightarrow>
      idx_map m' (ix v' i) key = Some (ticket, of_nat (rT (rg v i) mod rcap (rg v i)))"
    "index_room m (ix v i) key \<Longrightarrow> x_overflows (ix v' i) = x_overflows (ix v i)"
proof -
  note h = historyD [OF H]
  note E = engine_coreD [OF engine_invD(1) [OF h(1)]]
  show i: "i < nsh v" using shard_of_less [OF engine_invD(1) [OF h(1)]] by (simp add: i_def)
  have adm: "admits v key payload" using publish_ok_iff [OF h(1,2) room] pub by blast
  then have gate: "\<not> isClosed (v_valve v)" by (simp add: admits_def)
  have free: "\<not> shard_full v i" by (rule open_gate(3) [OF h(1,2) gate i])
  let ?t = "ctl_ticket (v_ctl v) + 1"
  from publish_accepts [OF h(1) room adm, of flags unixnano, folded i_def, OF free] obtain m1 r' x' v1 where
    p: "publish m v key payload flags unixnano = Returned (Inr ?t, m1, v1)"
    and v1: "v1 = (if occupancyPct r' \<ge> c_HighWaterPct (v_cfg v) then markSaturated (after_publish v i r' x') i
          else after_publish v i r' x')"
    and r': "r' = (rg v i)\<lparr>r_tail := r_tail (rg v i) + 1, r_commit := r_tail (rg v i) + 1\<rparr>" "rT r' = rT (rg v i) + 1"
    and inv1: "engine_inv m1 (after_publish v i r' x') (G(i := (G i)(rT (rg v i) :=
        entry_of ?t key (now_ts v unixnano) flags payload (digest v payload))))"
    and hint: "x_overflows x' = x_overflows (ix v i) \<longrightarrow> idx_map m1 x' key = Some (?t, of_nat (rT (rg v i) mod rcap (rg v i)))"
      "index_room m (ix v i) key \<longrightarrow> x_overflows x' = x_overflows (ix v i)"
    by blast
  have eq: "ticket = ?t" "m' = m1" "v' = v1" using p pub by auto
  show "ticket = ctl_ticket (v_ctl v) + 1" by (rule eq)
  let ?v = "after_publish v i r' x'" and ?G = "G(i := (G i)(rT (rg v i) := e))"
  have inv2: "engine_inv m' ?v ?G" using inv1 by (simp add: eq e_def)
  have n: "nsh ?v = nsh v" by (simp add: after_publish_def)
  have inv': "engine_inv m' v' ?G" using inv2 markSaturated_inv [OF inv2] i n by (simp add: eq v1)
  have water': "water_ok v'" unfolding eq v1 by (rule publish_water [OF h(1,2) gate i r'(1) inv1])
  have same: "same_but_latch ?v v'"
    using markSaturated_same [of i ?v] i n same_but_latch_valve [of ?v "v_valve ?v"] by (simp add: eq v1)
  note S = same_but_latchD [OF same]
  show n': "nsh v' = nsh v" using S(1) n by simp
  have rgs: "rg v' j = (if j = i then r' else rg v j)" if "j < nsh v" for j
    using S(2) [of j] n i that by (simp add: after_publish_def nth_list_update)
  have xs: "ix v' i = x'" using S(3) [of i] n i by (simp add: after_publish_def)
  show "rT (rg v' i) = rT (rg v i) + 1" "r_capacity (rg v' i) = r_capacity (rg v i)" using rgs [OF i] r' by simp_all
  show "idx_map m' (ix v' i) key = Some (ticket, of_nat (rT (rg v i) mod rcap (rg v i)))"
    if "x_overflows (ix v' i) = x_overflows (ix v i)" using hint(1) that unfolding xs eq(1,2) by blast
  show "x_overflows (ix v' i) = x_overflows (ix v i)" if "index_room m (ix v i) key" using hint(2) that unfolding xs by blast
  have ctl: "ctl_ticket (v_ctl v') = ticket" "ctl_running (v_ctl v') \<noteq> 0" "ctl_dropped (v_ctl v') = 0" "\<not> v_closed v'"
    using S h(3-5) eq(1) by (simp_all add: after_publish_def)
  have et: "e_ticket e = ticket" by (simp add: e_def entry_of_def)
  have sums: "sums_ok (A(i := A i @ [e]))"
    using h(9) by (auto simp: sums_ok_def e_def entry_of_def digest_def)
  have "tickets_dense v' ?G"
    by (rule tickets_dense_publish [OF h(1,6) i]) (use room_ticket [OF room i] eq(1) et ctl(1) n' rgs r'(2) i in simp_all)
  moreover have "(A(i := A i @ [e])) j = (if j < nsh v' then map (?G j) [0..<rT (rg v' j)] else [])" for j
    using h(7) [of j] i n' rgs [of j] r'(2) by (cases "j = i") auto
  moreover have "delivered_at D j = (if j < nsh v' then map (\<lambda>p. committed_entry (?G j p)) [0..<rH (rg v' j)] else [])" for j
  proof (cases "j = i")
    case True
    have "rH (rg v i) \<le> rT (rg v i)" by (rule shard_quiet(2) [OF E(5) [OF i]])
    then show ?thesis using True h(8) [of i] i n' rgs [OF i] r'(1) by (auto intro: map_cong)
  next
    case False
    then show ?thesis using h(8) [of j] n' rgs [of j] by simp
  qed
  ultimately show "history_ok m' v' ?G (A(i := A i @ [e])) D"
    unfolding history_ok_def using inv' water' ctl sums by blast
qed

lemma history_refuse:
  assumes H: "history_ok m v G A D" and room: "engine_room v"
    and pub: "publish m v key payload flags unixnano = Returned (Inl err, m', v')"
  shows "history_ok m' v' G A D"
proof -
  note h = historyD [OF H]
  have "\<not> admits v key payload" using publish_ok_iff [OF h(1,2) room, of key payload flags unixnano] pub by auto
  note rej = publish_rejects [OF this, of m flags unixnano]
  have "m' = m \<and> (v' = v \<or> v' = v\<lparr>v_valve := reject (v_valve v)\<rparr>)"
    using rej unfolding pub by (simp split: if_split_asm)
  then consider "m' = m" "v' = v" | "m' = m" "v' = v\<lparr>v_valve := reject (v_valve v)\<rparr>" by blast
  then show ?thesis
  proof cases
    case 2
    have "water_ok v'" using h(2) by (simp add: 2 water_ok_def marks_ok_def mark_ok_def hots_def)
    moreover have "tickets_dense v' G" using h(6) by (simp add: 2 tickets_dense_def)
    ultimately show ?thesis using H reject_inv [OF h(1)] by (simp add: history_ok_def 2)
  qed (use H in simp)
qed

lemma history_drain:
  assumes H: "history_ok m v G A D" and run: "Drain (Some logger) mx rec m v D = Returned (n, m', v', D')"
  shows "history_ok m' v' G A D'" "int (length D') = int (length D) + n"
    "mx \<le> 0 \<or> n < mx \<Longrightarrow> i < nsh v \<Longrightarrow> rH (rg v' i) = rT (rg v i) \<and> hots v' ! i = 0"
    "0 < mx \<Longrightarrow> n \<le> mx" "only_heads v v'" "n = int (\<Sum>i<nsh v. rH (rg v' i) - rH (rg v i))"
proof -
  note h = historyD [OF H]
  note E = engine_coreD [OF engine_invD(1) [OF h(1)]]
  let ?is = "[0..<nsh v]"
  have "distinct ?is" "set ?is \<subseteq> {..<nsh v}" by auto
  from drain_shards_spec [OF h(1) this, of "\<lambda>i e s. s @ [(i, e)]" mx rec 0 D] obtain m1 v1 n1 where
    d: "drain_shards (Some logger) mx ?is m v rec 0 D = (m1, v1, int n1,
        fold (\<lambda>(i, p). \<lambda>s. s @ [(int i, committed_entry (G i p))]) (deliveries v v1 ?is) D)"
    "engine_inv m1 v1 G" "only_heads v v1" "n1 = length (deliveries v v1 ?is)"
    "mx \<le> 0 \<or> int n1 < mx \<longrightarrow> (\<forall>j\<in>set ?is. rH (rg v1 j) = rT (rg v j) \<and> hots v1 ! j = 0)"
    "0 < mx \<longrightarrow> 0 \<le> mx \<longrightarrow> int n1 \<le> mx"
    unfolding logger_def by auto
  have eq: "m' = m1" "v' = v1" "n = int n1" "D' = D @ map (\<lambda>(i, p). (int i, committed_entry (G i p))) (deliveries v v1 ?is)"
    using run d(1) E(1,2) by (auto simp: Drain_def fold_log)
  have "water_ok v1" by (rule drain_shards_water [OF h(1,2) _ d(1) [unfolded logger_def]]) auto
  then show "history_ok m' v' G A D'"
    by (intro history_heads [OF H, of _ v' _ ?is]) (use d eq in auto)
  show "int (length D') = int (length D) + n" using eq d(4) by simp
  show "rH (rg v' i) = rT (rg v i) \<and> hots v' ! i = 0" if "mx \<le> 0 \<or> n < mx" "i < nsh v"
    using d(5) that eq(2,3) by auto
  show "n \<le> mx" if "0 < mx" using d(6) that eq(3) by simp
  show "only_heads v v'" using d(3) eq(2) by simp
  show "n = int (\<Sum>i<nsh v. rH (rg v' i) - rH (rg v i))" using eq(2,3) d(4) by (simp add: length_deliveries)
qed

lemma history_turn:
  assumes H: "history_ok m v G A D" and i: "i < nsh v"
    and run: "worker_turn logger i m v rec idle D = (stop, m', v', rec', idle', D')"
  shows "history_ok m' v' G A D'" "\<not> stop"
proof -
  note h = historyD [OF H]
  define k where "k = batch drainBatch 0 (rT (rg v i) - rH (rg v i))"
  let ?f = "\<lambda>i e s. s @ [(i, e)]"
  obtain m1 rec1 v1 where d: "drain_shard (Some (observer ?f)) drainBatch (int i) m (v_shards v ! i) rec 0 D =
      (m1, drained (v_shards v ! i) k, rec1, int k,
       fold (\<lambda>p. ?f (int i) (committed_entry (G i p))) [rH (rg v i)..<rH (rg v i) + k] D)"
    "v1 = upd_shard i (\<lambda>_. drained (v_shards v ! i) k) v" "engine_inv m1 v1 G" "only_heads v v1" "hots v1 = hots v"
    "rH (rg v1 i) = rH (rg v i) + k" "\<forall>j<nsh v. j \<noteq> i \<longrightarrow> rg v1 j = rg v j"
    using drain_one [OF h(1) i, of ?f drainBatch rec 0 D, folded k_def] by auto
  have n1: "nsh v1 = nsh v" "ctl_running (v_ctl v1) = ctl_running (v_ctl v)" using d(4) by (simp_all add: only_heads_def)
  have log: "fold (\<lambda>p. ?f (int i) (committed_entry (G i p))) [rH (rg v i)..<rH (rg v i) + k] D =
      D @ map (\<lambda>(i, p). (int i, committed_entry (G i p))) (deliveries v v2 [i])"
    if "rH (rg v2 i) = rH (rg v i) + k" for v2
    using fold_log [of "\<lambda>i p. committed_entry (G i p)" "map (Pair i) [rH (rg v i)..<rH (rg v i) + k]" D] that
    by (simp add: deliveries_def fold_map comp_def)
  show "\<not> stop" using run d(1) n1(2) h(3) by (auto simp: worker_turn_def logger_def Let_def split: if_splits)
  show "history_ok m' v' G A D'"
  proof (cases "k = 0")
    case True
    have "v1 = v" using True d(2) by simp
    then have "m' = m1" "v' = v" "D' = D" using run d(1,2) True by (auto simp: worker_turn_def logger_def Let_def split: if_splits)
    then show ?thesis using H d(3) \<open>v1 = v\<close> by (simp add: history_ok_def)
  next
    case False
    then have eq: "m' = m1" "v' = markDrained v1 i"
      "D' = fold (\<lambda>p. ?f (int i) (committed_entry (G i p))) [rH (rg v i)..<rH (rg v i) + k] D"
      using run d(1,2) by (auto simp: worker_turn_def logger_def Let_def)
    have i1: "i < nsh v1" using i n1 by simp
    have same: "same_but_latch v1 v'" unfolding eq by (rule markDrained_same [OF i1])
    have rgs: "rg v' j = rg v1 j" if "j < nsh v" for j using same_but_latchD(2) [OF same] that n1 by simp
    show ?thesis
    proof (rule history_heads [OF H, of _ v' _ "[i]"])
      show "engine_inv m' v' G" using markDrained_inv [OF d(3) i1] by (simp add: eq)
      show "water_ok v'" unfolding eq by (rule drained_water [OF h(1,2) i d(2-5)])
      show "only_heads v v'" by (rule only_heads_trans [OF d(4) only_heads_latch [OF same]])
      show "D' = D @ map (\<lambda>(i, p). (int i, committed_entry (G i p))) (deliveries v v' [i])"
        unfolding eq(3) by (rule log) (use rgs [OF i] d(6) in simp)
    qed (use i rgs d(7) in auto)
  qed
qed

lemma history_tick: "history_ok m v G A D \<Longrightarrow> history_ok m (clockTick v unixnano) G A D"
proof -
  let ?v = "clockTick v unixnano"
  have "engine_core m ?v G = engine_core m v G" "latch_ok ?v = latch_ok v"
    by (simp_all add: clockTick_def engine_core_def latch_ok_def hots_def shard_of_def route_def)
  moreover have "water_ok ?v = water_ok v" "tickets_dense ?v G = tickets_dense v G"
    by (simp_all add: clockTick_def water_ok_def marks_ok_def mark_ok_def hots_def tickets_dense_def)
  moreover have "ctl_running (v_ctl ?v) = ctl_running (v_ctl v)" "v_closed ?v = v_closed v" "v_shards ?v = v_shards v"
    "ctl_dropped (v_ctl ?v) = ctl_dropped (v_ctl v)"
    by (simp_all add: clockTick_def)
  ultimately show "history_ok m v G A D \<Longrightarrow> history_ok m ?v G A D"
    unfolding history_ok_def engine_inv_def by metis
qed

lemma cells_bound:
  assumes "config_fits cfg" "isPow2 (c_CellsPerShard cfg)" "0 < unat (c_PayloadCapacity cfg)"
    "unat (c_PayloadCapacity cfg) + 127 < 2 ^ 64"
  shows "unat (c_CellsPerShard cfg) \<le> 2 ^ 57"
proof -
  let ?c = "unat (c_CellsPerShard cfg)"
  obtain k where k: "k < 64" "c_CellsPerShard cfg = 2 ^ k" using assms(2) by (auto simp: isPow2_iff)
  then have c: "?c = 2 ^ k" by (simp add: unat_pow2)
  have "65 \<le> unat (cellStrideFor (c_PayloadCapacity cfg))" using cellStrideFor_bounds(1) [OF assms(4)] assms(3) by simp
  then have "?c * 65 \<le> ?c * unat (cellStrideFor (c_PayloadCapacity cfg))" by (rule mult_le_mono2)
  then have "?c * 65 < 2 ^ 64" using assms(1) unfolding config_fits_def by linarith
  then have "(2 :: nat) ^ k < 2 ^ 58" using c by simp
  then have "k < 58" by (rule power_less_imp_less_exp [rotated]) simp
  then have "(2 :: nat) ^ k \<le> 2 ^ 57" by (intro power_increasing) simp_all
  then show ?thesis using c by simp
qed

context os_memory
begin

lemma New_history:
  assumes new: "New S gomaxprocs t1 t2 cfg0 m k = Some (Inr v, m', k')" and fits: "config_fits (v_cfg v)"
  shows "history_ok m' v G (\<lambda>_. []) []"
proof -
  have inv: "engine_inv m' v G" and f: "fresh_engine (v_cfg v) t1 t2 v" using New_stack [OF assms] by blast+
  note N = normalize_okD [OF New_cfg [OF new]]
  have "c_PayloadCapacity (v_cfg v) \<noteq> 0" using N(4) by auto
  then have pay: "0 < unat (c_PayloadCapacity (v_cfg v))" by (simp add: unat_gt_0)
  have cap: "unat (c_CellsPerShard (v_cfg v)) \<le> 2 ^ 57"
    using cells_bound [OF fits N(2) _ payload_room [OF N(4)]] pay by simp
  have z: "r_tail (rg v i) = 0" "r_head (rg v i) = 0" "occupancyPct (rg v i) = 0" "hots v ! i = 0"
    "rcap (rg v i) \<le> 2 ^ 57" if "i < nsh v" for i
    using f that cap by (auto simp: fresh_engine_def occupancyPct_def pending_def hots_nth)
  have "water_ok v"
    unfolding water_ok_def marks_ok_def mark_ok_def using N(5-7) z by auto
  moreover have "tickets_dense v G" using f z by (simp add: tickets_dense_def fresh_engine_def)
  ultimately show ?thesis using inv f z by (simp add: history_ok_def fresh_engine_def delivered_at_def sums_ok_def)
qed

lemma reach_history: "engine_reach S m v A D \<Longrightarrow> \<exists>G. history_ok m v G A D"
proof (induction rule: engine_reach.induct)
  case (start gomaxprocs t1 t2 cfg0 m k v m' k')
  then show ?case using New_history by blast
next
  case (accept m v A D key payload flags unixnano ticket m' v' e)
  then show ?case using history_publish(1) by blast
next
  case (refuse m v A D key payload flags unixnano err m' v')
  then show ?case using history_refuse by blast
next
  case (drain m v A D mx rec n m' v' D')
  then show ?case using history_drain(1) by blast
next
  case (turn m v A D i rec idle stop m' v' rec' idle' D')
  then show ?case using history_turn(1) by blast
next
  case (tick m v A D unixnano)
  then show ?case using history_tick by blast
qed

end

lemma platform_history:
  assumes "vm_laws K mapped" "S \<in> {linux_sys K, darwin_sys K}" "engine_reach S m v A D"
  obtains G where "history_ok m v G A D"
  using os_memory.reach_history [OF platform_os [OF assms(1,2)] assms(3)] by blast

end
