(* ===== verification/EngineThms.thy ===== *)
theory EngineThms
  imports Engine
begin

text \<open>The properties of whole runs.\<close>

section \<open>A run to instantiate them on\<close>

abbreviation demo_S :: "(u64 set \<times> u64) sys" where "demo_S \<equiv> linux_sys demo_kernel"

lemma demo_start:
  "\<exists>m v k. New demo_S 8 5 6 demo_config (\<lambda>_. 7) ({}, 4096) = Some (Inr v, m, k) \<and>
     engine_reach demo_S m v (\<lambda>_. []) [] \<and> fresh_engine demo_cfg 5 6 v"
proof -
  obtain v m k where n: "New demo_S 8 5 6 demo_config (\<lambda>_. 7) ({}, 4096) = Some (Inr v, m, k)"
    using demo_New [of 5 6 "\<lambda>_. 7"] by blast
  have c: "v_cfg v = demo_cfg" using New_cfg [OF n] demo_normalize by simp
  then have "engine_reach demo_S m v (\<lambda>_. []) []" using engine_reach.start [OF n] demo_fits by simp
  moreover have "fresh_engine demo_cfg 5 6 v" using demo.lin.New_stack [OF n] c demo_fits by metis
  ultimately show ?thesis using n by blast
qed

lemma demo_cfg_simps: "c_Shards demo_cfg = 2" "c_CellsPerShard demo_cfg = 4" "c_PayloadCapacity demo_cfg = 64"
  "c_HighWaterPct demo_cfg = 90" "c_LowWaterPct demo_cfg = 70" "c_Checksums demo_cfg" "c_Consumer demo_cfg"
  by (simp_all add: demo_cfg_def demo_config_def)

lemma demo_fresh:
  assumes "fresh_engine demo_cfg 5 6 v"
  shows "engine_room v" "nsh v = 2" "admits v 7 [1, 2, 3]" "v_cfg v = demo_cfg" "v_ctl v = \<lparr>ctl_ticket = 0, ctl_running = 1, ctl_epoch = 5, ctl_dropped = 0, ctl_saturated = 0, ctl_clock = 6\<rparr>"
  using assms by (auto simp: fresh_engine_def engine_room_def admits_def demo_cfg_simps)

text \<open>One record of key 7 published, then everything drained.\<close>

lemma demo_published:
  "\<exists>m v m' v' A. engine_reach demo_S m v (\<lambda>_. []) [] \<and> fresh_engine demo_cfg 5 6 v \<and>
     publish m v 7 [1, 2, 3] 0 99 = Returned (Inr 1, m', v') \<and> engine_reach demo_S m' v' A [] \<and>
     A (shard_of v 7) = [entry_of 1 7 (now_ts v 99) 0 [1, 2, 3] (digest v [1, 2, 3])] \<and>
     (\<forall>j. j \<noteq> shard_of v 7 \<longrightarrow> A j = [])"
proof -
  obtain m v where s: "engine_reach demo_S m v (\<lambda>_. []) []" "fresh_engine demo_cfg 5 6 v" using demo_start by blast
  note f = demo_fresh [OF s(2)]
  obtain G where H: "history_ok m v G (\<lambda>_. []) []" using demo.lin.reach_history [OF s(1)] by blast
  obtain t m' v' where p: "publish m v 7 [1, 2, 3] 0 99 = Returned (Inr t, m', v')"
    using publish_ok_iff [OF historyD(1,2) [OF H] f(1), of 7 "[1, 2, 3]" 0 99] f(3) by blast
  have t: "t = 1" using history_publish(2) [OF H f(1) p] f(5) by simp
  show ?thesis
    using engine_reach.accept [OF s(1) f(1) p refl] s p t
    by (intro exI [of _ m] exI [of _ v] exI [of _ m'] exI [of _ v']
        exI [of _ "(\<lambda>_. [])(shard_of v 7 := [entry_of 1 7 (now_ts v 99) 0 [1, 2, 3] (digest v [1, 2, 3])])"]) simp
qed

section \<open>Order and loss\<close>

text \<open>
  C1: Nothing is lost, duplicated or reordered. In every state a run reaches, the entries accepted
  for a shard, in the order of their acceptance, are those its handler was shown followed by
  exactly as many as \<^verbatim>\<open>pending\<close> reports, never more than the ring holds; and the shard's counters of
  ingested and consumed records are exact.
\<close>
theorem engine_fifo:
  assumes "vm_laws K mapped" "S \<in> {linux_sys K, darwin_sys K}" "engine_reach S m v A D" "i < nsh v"
  shows "\<exists>W. map committed_entry (A i) = delivered_at D i @ W \<and> length W = unat (pending (rg v i)) \<and>
    length W \<le> rcap (rg v i) \<and> unat (sh_ingested (v_shards v ! i)) = length (A i) \<and>
    unat (sh_consumed (v_shards v ! i)) = length (delivered_at D i)"
proof -
  obtain G where H: "history_ok m v G A D" using platform_history [OF assms(1-3)] .
  note h = historyD [OF H]
  note E = engine_coreD [OF engine_invD(1) [OF h(1)]]
  have "marks_ok v" using h(2) by (simp add: water_ok_def)
  note O = shard_occupancy(2,3) [OF E(5) [OF assms(4)] marksD(3) [OF this assms(4)]]
  let ?H = "rH (rg v i)" and ?T = "rT (rg v i)"
  have "[0..<?T] = [0..<?H] @ [?H..<?T]" using upt_add_eq_append [of 0 ?H "?T - ?H"] O(1) by simp
  then have "map committed_entry (A i) = delivered_at D i @ map (\<lambda>p. committed_entry (G i p)) [?H..<?T]"
    using h(7,8) assms(4) by simp
  then show ?thesis using O pending_unat [OF O(1)] h(7,8) E(7,8) [OF assms(4)] assms(4)
    by (intro exI [of _ "map (\<lambda>p. committed_entry (G i p)) [?H..<?T]"]) simp
qed

theorem engine_fifo_witness:
  "\<exists>m v A. engine_reach demo_S m v A [] \<and> (\<exists>i<nsh v. length (A i) = 1 \<and> pending (rg v i) = 1)"
proof -
  obtain m v m' v' A where r: "engine_reach demo_S m v (\<lambda>_. []) []" "fresh_engine demo_cfg 5 6 v"
    "publish m v 7 [1, 2, 3] 0 99 = Returned (Inr 1, m', v')" "engine_reach demo_S m' v' A []"
    "A (shard_of v 7) = [entry_of 1 7 (now_ts v 99) 0 [1, 2, 3] (digest v [1, 2, 3])]"
    using demo_published by blast
  obtain G where H: "history_ok m' v' G A []" using demo.lin.reach_history [OF r(4)] by blast
  have i: "shard_of v 7 < nsh v'" using historyD(7) [OF H, of "shard_of v 7"] r(5) by (simp split: if_splits)
  have "\<exists>W. map committed_entry (A (shard_of v 7)) = delivered_at [] (shard_of v 7) @ W \<and>
      length W = unat (pending (rg v' (shard_of v 7)))"
    using engine_fifo [OF demo_vm(1) _ r(4) i] by blast
  then have "unat (pending (rg v' (shard_of v 7))) = 1" using r(5) by (auto simp: delivered_at_def)
  then have "pending (rg v' (shard_of v 7)) = 1" by (simp add: word_unat_eq_iff)
  then have "length (A (shard_of v 7)) = 1 \<and> pending (rg v' (shard_of v 7)) = 1" using r(5) by simp
  then show ?thesis using r(4) i by blast
qed

text \<open>
  C6: Tickets are a gapless global order. In every state a run reaches, the tickets of the accepted
  entries of all shards together are exactly 1 to the value of the ticket counter, no two entries
  share one, within a shard they rise in the order of acceptance, and none was spent on a drop.
\<close>
theorem engine_tickets:
  assumes "vm_laws K mapped" "S \<in> {linux_sys K, darwin_sys K}" "engine_reach S m v A D"
  shows "(\<Union>i<nsh v. (\<lambda>e. unat (e_ticket e)) ` set (A i)) = {1..unat (ctl_ticket (v_ctl v))} \<and>
    (\<Sum>i<nsh v. length (A i)) = unat (ctl_ticket (v_ctl v)) \<and> ctl_dropped (v_ctl v) = 0 \<and>
    (\<forall>i. sorted_wrt (\<lambda>a b. unat (e_ticket a) < unat (e_ticket b)) (A i)) \<and>
    (\<forall>i<nsh v. \<forall>j<nsh v. i \<noteq> j \<longrightarrow> e_ticket ` set (A i) \<inter> e_ticket ` set (A j) = {})"
proof -
  obtain G where H: "history_ok m v G A D" using platform_history [OF assms] .
  note h = historyD [OF H]
  note E = engine_coreD [OF engine_invD(1) [OF h(1)]]
  have A: "A i = map (G i) [0..<rT (rg v i)]" if "i < nsh v" for i using h(7) that by simp
  have inc: "tickets_inc (rg v i) (G i)" if "i < nsh v" for i by (rule shard_invD(6) [OF E(5) [OF that]])
  have "(\<Union>i<nsh v. (\<lambda>e. unat (e_ticket e)) ` set (A i)) = {1..unat (ctl_ticket (v_ctl v))}" (is "?U = ?R")
  proof (intro equalityI subsetI)
    fix t
    assume "t \<in> ?U"
    then obtain i p where ip: "i < nsh v" "p < rT (rg v i)" "t = unat (e_ticket (G i p))" using A by auto
    have "e_ticket (G i p) \<noteq> 0" using inc [OF ip(1)] ip(2) by (simp add: tickets_inc_def)
    then show "t \<in> ?R" using E(10) [OF ip(1,2)] ip(3) by (simp add: Suc_le_eq unat_gt_0)
  next
    fix t
    assume "t \<in> ?R"
    then obtain i p where ip: "i < nsh v" "p < rT (rg v i)" "unat (e_ticket (G i p)) = t"
      using h(6) unfolding tickets_dense_def by blast
    then show "t \<in> ?U" using A [OF ip(1)] by (intro UN_I [of i]) auto
  qed
  moreover have "(\<Sum>i<nsh v. length (A i)) = unat (ctl_ticket (v_ctl v))"
    using E(12) h(5) A by simp
  moreover have "sorted_wrt (\<lambda>a b. unat (e_ticket a) < unat (e_ticket b)) (A i)" for i
  proof (cases "i < nsh v")
    case True
    then show ?thesis using inc [OF True] A by (auto simp: sorted_wrt_map tickets_inc_def sorted_wrt_iff_nth_less)
  qed (simp add: h(7))
  moreover have "e_ticket ` set (A i) \<inter> e_ticket ` set (A j) = {}" if "i < nsh v" "j < nsh v" "i \<noteq> j" for i j
  proof (intro equals0I)
    fix t
    note Ai = A [OF that(1)] and Aj = A [OF that(2)]
    assume "t \<in> e_ticket ` set (A i) \<inter> e_ticket ` set (A j)"
    then obtain p q where "p < rT (rg v i)" "q < rT (rg v j)" "e_ticket (G i p) = e_ticket (G j q)"
      using Ai Aj by auto
    then show False using h(6) that unfolding tickets_dense_def by blast
  qed
  ultimately show ?thesis using h(5) by blast
qed

theorem engine_tickets_witness:
  "\<exists>m v A. engine_reach demo_S m v A [] \<and> ctl_ticket (v_ctl v) = 1 \<and> (\<exists>i e. A i = [e] \<and> e_ticket e = 1)"
proof -
  obtain m v m' v' A where r: "engine_reach demo_S m v (\<lambda>_. []) []" "fresh_engine demo_cfg 5 6 v"
    "publish m v 7 [1, 2, 3] 0 99 = Returned (Inr 1, m', v')" "engine_reach demo_S m' v' A []"
    "A (shard_of v 7) = [entry_of 1 7 (now_ts v 99) 0 [1, 2, 3] (digest v [1, 2, 3])]"
    "\<And>j. j \<noteq> shard_of v 7 \<Longrightarrow> A j = []"
    using demo_published by blast
  obtain G where H: "history_ok m' v' G A []" using demo.lin.reach_history [OF r(4)] by blast
  have i: "shard_of v 7 < nsh v'" using historyD(7) [OF H, of "shard_of v 7"] r(5) by (simp split: if_splits)
  have "(\<Sum>i<nsh v'. length (A i)) = unat (ctl_ticket (v_ctl v'))"
    using engine_tickets [OF demo_vm(1) _ r(4)] by blast
  moreover have "(\<Sum>i<nsh v'. length (A i)) = (\<Sum>i<nsh v'. if i = shard_of v 7 then 1 else 0)"
    using r(5,6) by (intro sum.cong) auto
  ultimately have "unat (ctl_ticket (v_ctl v')) = 1" using i by simp
  then have "ctl_ticket (v_ctl v') = 1" by (simp add: word_unat_eq_iff)
  moreover have "e_ticket (entry_of 1 7 (now_ts v 99) 0 [1, 2, 3] (digest v [1, 2, 3])) = 1" by (simp add: entry_of_def)
  ultimately show ?thesis using r(4,5) by blast
qed

section \<open>Backpressure\<close>

text \<open>
  C2: The hysteresis of the backpressure valve. In every state a run reaches, the gate is closed
  exactly while some shard is hot, the saturation counter is the number of hot shards, every shard
  at or above the high-water mark is hot, and every hot shard is above the low-water mark.
\<close>
theorem gate_hysteresis:
  assumes "vm_laws K mapped" "S \<in> {linux_sys K, darwin_sys K}" "engine_reach S m v A D"
  shows "(isClosed (v_valve v) \<longleftrightarrow> (\<exists>i<nsh v. sh_hot (v_shards v ! i) = 1)) \<and>
    unat (ctl_saturated (v_ctl v)) = card {i. i < nsh v \<and> sh_hot (v_shards v ! i) = 1} \<and>
    (\<forall>i<nsh v. c_HighWaterPct (v_cfg v) \<le> occupancyPct (rg v i) \<longrightarrow> sh_hot (v_shards v ! i) = 1) \<and>
    (\<forall>i<nsh v. sh_hot (v_shards v ! i) = 1 \<longrightarrow> c_LowWaterPct (v_cfg v) < occupancyPct (rg v i))"
proof -
  obtain G where H: "history_ok m v G A D" using platform_history [OF assms] .
  note h = historyD [OF H]
  note latch = engine_invD(2) [OF h(1)]
  have "isClosed (v_valve v) \<longleftrightarrow> (\<exists>i<nsh v. sh_hot (v_shards v ! i) = 1)"
    using latch by (auto simp: latch_ok_def hots_def in_set_conv_nth) force
  moreover have "unat (ctl_saturated (v_ctl v)) = card {i. i < nsh v \<and> sh_hot (v_shards v ! i) = 1}"
  proof -
    have "count_list (hots v) 1 = card {i. i < nsh v \<and> 1 = hots v ! i}"
      by (simp add: count_list_eq_length_filter length_filter_conv_card)
    also have "\<dots> = card {i. i < nsh v \<and> sh_hot (v_shards v ! i) = 1}"
      by (rule arg_cong [where f = card]) (auto simp: hots_nth)
    finally show ?thesis
      using latch count_le_length [of "hots v" 1] by (simp add: latch_ok_def unat_of_nat64)
  qed
  ultimately show ?thesis
    using h(2) by (simp add: water_ok_def mark_ok_def hots_nth)
qed

theorem gate_hysteresis_witness:
  "\<exists>m v. engine_reach demo_S m v (\<lambda>_. []) [] \<and> \<not> isClosed (v_valve v) \<and> ctl_saturated (v_ctl v) = 0 \<and>
     (\<forall>i<nsh v. occupancyPct (rg v i) < 90)"
proof -
  obtain m v where s: "engine_reach demo_S m v (\<lambda>_. []) []" "fresh_engine demo_cfg 5 6 v" using demo_start by blast
  have "sh_hot (v_shards v ! i) = 0" if "i < nsh v" for i using s(2) that by (simp add: fresh_engine_def)
  moreover have "\<not> isClosed (v_valve v)" "ctl_saturated (v_ctl v) = 0" "c_HighWaterPct (v_cfg v) = 90"
    using s(2) by (auto simp: fresh_engine_def demo_cfg_simps)
  ultimately show ?thesis
    using gate_hysteresis [OF demo_vm(1) _ s(1)] s(1) by (intro exI [of _ m] exI [of _ v]) (auto simp: not_le [symmetric])
qed

text \<open>
  C7: What \<^verbatim>\<open>publish\<close> answers, on every branch, in every state a run reaches: a zero key and an
  oversized payload are refused first and change nothing; with the gate closed the call is refused
  and counted; in every other case the record is accepted with the next ticket. In particular a
  thread that runs alone is never told that a shard is full.
\<close>
theorem publish_outcome:
  assumes "vm_laws K mapped" "S \<in> {linux_sys K, darwin_sys K}" "engine_reach S m v A D" "engine_room v"
  shows "if key = 0 then publish m v key payload flags unixnano = Returned (Inl ErrConfig, m, v)
    else if unat (v_payloadCap v) < length payload
      then publish m v key payload flags unixnano = Returned (Inl ErrPayloadTooLarge, m, v)
    else if isClosed (v_valve v)
      then publish m v key payload flags unixnano = Returned (Inl ErrBackpressure, m, v\<lparr>v_valve := reject (v_valve v)\<rparr>)
    else \<exists>m' v'. publish m v key payload flags unixnano = Returned (Inr (ctl_ticket (v_ctl v) + 1), m', v')"
proof -
  obtain G where H: "history_ok m v G A D" using platform_history [OF assms(1-3)] .
  note h = historyD [OF H]
  have nil: "\<not> v_nil v" using engine_coreD(1) [OF engine_invD(1) [OF h(1)]] .
  show ?thesis
  proof (cases "admits v key payload")
    case True
    then obtain t m' v' where p: "publish m v key payload flags unixnano = Returned (Inr t, m', v')"
      using publish_ok_iff [OF h(1,2) assms(4)] by blast
    then have "t = ctl_ticket (v_ctl v) + 1" using history_publish(2) [OF H assms(4)] by blast
    then show ?thesis using p True by (simp add: admits_def not_less)
  next
    case False
    then show ?thesis using publish_rejects [OF False, of m flags unixnano] nil h(3) by (auto simp: admits_def)
  qed
qed

theorem publish_outcome_witness:
  "\<exists>m v. engine_reach demo_S m v (\<lambda>_. []) [] \<and> publish m v 0 [1] 0 99 = Returned (Inl ErrConfig, m, v) \<and>
     (\<exists>m' v'. publish m v 7 [1] 0 99 = Returned (Inr 1, m', v'))"
proof -
  obtain m v where s: "engine_reach demo_S m v (\<lambda>_. []) []" "fresh_engine demo_cfg 5 6 v" using demo_start by blast
  note f = demo_fresh [OF s(2)]
  have "v_payloadCap v = 64" "\<not> isClosed (v_valve v)" using s(2) by (simp_all add: fresh_engine_def demo_cfg_simps)
  with publish_outcome [OF demo_vm(1) _ s(1) f(1), of 0 "[1]" 0 99] publish_outcome [OF demo_vm(1) _ s(1) f(1), of 7 "[1]" 0 99]
    s(1) f(5) show ?thesis by (intro exI [of _ m] exI [of _ v]) simp
qed

text \<open>
  C8: \<^verbatim>\<open>Drain\<close>, with and without a limit. In every state a run reaches it returns, and reports
  exactly how many records it handed to the handler: at most the limit when one is set. When it had
  no limit or stopped short of it, it has delivered everything every shard had accepted, every
  ring is empty and the gate is open, so that the next valid publication is accepted.
\<close>
theorem Drain_correct:
  assumes "vm_laws K mapped" "S \<in> {linux_sys K, darwin_sys K}" "engine_reach S m v A D"
  shows "\<exists>n m' v' D'. Drain (Some logger) mx rec m v D = Returned (n, m', v', D') \<and>
    n = int (length D') - int (length D) \<and> (0 < mx \<longrightarrow> n \<le> mx) \<and> n \<le> (\<Sum>i<nsh v. int (unat (pending (rg v i)))) \<and>
    (mx \<le> 0 \<or> n < mx \<longrightarrow>
      (\<forall>i<nsh v. delivered_at D' i = map committed_entry (A i) \<and> pending (rg v' i) = 0) \<and> \<not> isClosed (v_valve v'))"
proof -
  obtain G where H: "history_ok m v G A D" using platform_history [OF assms(1-3)] .
  note h = historyD [OF H]
  note E = engine_coreD [OF engine_invD(1) [OF h(1)]]
  obtain n m' v' D' where run: "Drain (Some logger) mx rec m v D = Returned (n, m', v', D')"
    using E(1) by (cases "drain_shards (Some logger) mx [0..<unat (v_shardN v)] m v rec 0 D") (simp add: Drain_def)
  note d = history_drain [OF H run]
  note h' = historyD [OF d(1)]
  have n: "nsh v' = nsh v" and T: "\<And>i. i < nsh v \<Longrightarrow> r_tail (rg v' i) = r_tail (rg v i)"
    using d(5) by (auto simp: only_heads_def)
  have pend: "unat (pending (rg v i)) = rT (rg v i) - rH (rg v i)" if "i < nsh v" for i
    by (rule pending_unat [OF shard_quiet(2) [OF E(5) [OF that]]])
  have "rH (rg v' i) \<le> rT (rg v i)" if "i < nsh v" for i
    using shard_quiet(2) [OF engine_coreD(5) [OF engine_invD(1) [OF h'(1)]]] that n T by simp
  then have le: "n \<le> (\<Sum>i<nsh v. int (unat (pending (rg v i))))"
    unfolding d(6) of_nat_sum using pend by (intro sum_mono) (simp add: diff_le_mono)
  have all: "(\<forall>i<nsh v. delivered_at D' i = map committed_entry (A i) \<and> pending (rg v' i) = 0) \<and> \<not> isClosed (v_valve v')"
    if stop: "mx \<le> 0 \<or> n < mx"
  proof -
    have heads: "rH (rg v' i) = rT (rg v i)" "hots v' ! i = 0" if "i < nsh v" for i using d(3) [OF stop that] by blast+
    have "r_head (rg v' i) = r_tail (rg v' i)" if "i < nsh v" for i
      using heads(1) [OF that] T [OF that] by (simp add: word_unat_eq_iff)
    then have "pending (rg v' i) = 0" if "i < nsh v" for i using that by (simp add: pending_def)
    moreover have "delivered_at D' i = map committed_entry (A i)" if "i < nsh v" for i
      using h'(7,8) n that heads(1) T by simp
    moreover have "1 \<notin> set (hots v')" using heads(2) n by (auto simp: in_set_conv_nth)
    then have "\<not> isClosed (v_valve v')" using engine_invD(2) [OF h'(1)] by (simp add: latch_ok_def)
    ultimately show ?thesis by blast
  qed
  show ?thesis using run d(2,4) le all by (intro exI [of _ n] exI [of _ m'] exI [of _ v'] exI [of _ D']) auto
qed

theorem Drain_correct_witness:
  "\<exists>m v n m' v' D'. Drain (Some logger) 0 zero_Record m v [] = Returned (n, m', v', D') \<and>
     (\<exists>i. length (delivered_at D' i) = 1) \<and> \<not> isClosed (v_valve v')"
proof -
  obtain m v m' v' A where r: "engine_reach demo_S m' v' A []"
    "A (shard_of v 7) = [entry_of 1 7 (now_ts v 99) 0 [1, 2, 3] (digest v [1, 2, 3])]"
    using demo_published by blast
  obtain G where H: "history_ok m' v' G A []" using demo.lin.reach_history [OF r(1)] by blast
  have i: "shard_of v 7 < nsh v'" using historyD(7) [OF H, of "shard_of v 7"] r(2) by (simp split: if_splits)
  from Drain_correct [OF demo_vm(1) _ r(1), of 0 zero_Record] obtain n m1 v1 D1 where
    d: "Drain (Some logger) 0 zero_Record m' v' [] = Returned (n, m1, v1, D1)"
      "delivered_at D1 (shard_of v 7) = map committed_entry (A (shard_of v 7))" "\<not> isClosed (v_valve v1)"
    using i by auto
  then have "length (delivered_at D1 (shard_of v 7)) = 1" using r(2) by simp
  then show ?thesis using d(1,3) by blast
qed

section \<open>Lookups\<close>

lemma sint_small:
  assumes "unat w < 2 ^ 63"
  shows "sint (w :: u64) = int (unat w)"
proof -
  have "uint w < 2 ^ 63" unfolding uint_nat using assms by (metis of_nat_less_iff of_nat_numeral of_nat_power)
  moreover have "- (2 ^ 63) \<le> (0 :: int)" "0 \<le> uint w" by simp_all
  ultimately have "signed_take_bit 63 (uint w) = uint w"
    by (intro signed_take_bit_int_eq_self) (linarith | assumption)+
  then show ?thesis by (simp add: sint_uint)
qed

text \<open>The shard number is reported as a signed integer.\<close>

lemma route_sint:
  assumes "engine_core m v G"
  shows "sint (route v key) = int (shard_of v key)"
proof -
  note E = engine_coreD [OF assms]
  obtain k where k: "k < 64" "v_shardN v = 2 ^ k" using E(3) by (auto simp: isPow2_iff)
  then have "nsh v = 2 ^ k" using E(2) by (simp add: unat_pow2)
  moreover have "(2 :: nat) ^ k \<le> 2 ^ 63" using k(1) by (intro power_increasing) simp_all
  ultimately have "unat (route v key) < 2 ^ 63" using shard_of_less [OF assms, of key] by (simp add: shard_of_def)
  then show ?thesis unfolding shard_of_def by (rule sint_small)
qed

lemma delivered_verifies:
  assumes "delivered m rec = committed_entry e" "e_checksum e = 0 \<or> e_checksum e = checksum32 (e_payload e)"
  shows "Verify m rec" "CopyPayload m rec = e_payload e" "Ticket rec = e_ticket e" "Key rec = e_key e"
    "Timestamp rec = e_timestamp e"
  using assms
  by (cases e; auto simp: delivered_def committed_entry_def Verify_def CopyPayload_def slice_bytes_def load_bytes_def)+

lemma find_rev_map:
  assumes "p < n" "P (f p)" "\<And>q. p < q \<Longrightarrow> q < n \<Longrightarrow> \<not> P (f q)"
  shows "find P (rev (map f [0..<n])) = Some (f p)"
  using assms
proof (induction n)
  case (Suc n)
  then show ?case by (cases "p = n") (auto simp: less_Suc_eq)
qed simp

text \<open>
  C4: A lookup never serves stale data. In every state a run reaches, a record that \<^verbatim>\<open>Lookup\<close>
  returns shows the entry most recently accepted for its key, whether or not it has been consumed,
  with its shard number; and it passes \<^verbatim>\<open>Verify\<close>.
\<close>
theorem Lookup_returns_latest:
  assumes "vm_laws K mapped" "S \<in> {linux_sys K, darwin_sys K}" "engine_reach S m v A D"
    and "Lookup m v key rec = Returned (Inr rec')"
  shows "\<exists>e. find (\<lambda>e. e_key e = key) (rev (A (shard_of v key))) = Some e \<and>
    delivered m rec' = committed_entry e \<and> Shard rec' = int (shard_of v key) \<and> Verify m rec'"
proof -
  obtain G where H: "history_ok m v G A D" using platform_history [OF assms(1-3)] .
  note h = historyD [OF H]
  note core = engine_invD(1) [OF h(1)]
  let ?i = "shard_of v key"
  have i: "?i < nsh v" by (rule shard_of_less [OF core])
  obtain rec1 where l: "index_lookup m (ix v ?i) key (rg v ?i) rec = Inr rec1" "rec' = rec1\<lparr>Shard := sint (route v key)\<rparr>"
    using assms(4) by (auto simp: Lookup_def Let_def shard_of_def split: if_splits sum.splits)
  obtain p where p: "p < rT (rg v ?i)" "e_key (G ?i p) = key" "\<And>q. p < q \<Longrightarrow> q < rT (rg v ?i) \<Longrightarrow> e_key (G ?i q) \<noteq> key"
    "delivered m rec1 = committed_entry (G ?i p)"
    using shard_lookup_latest [OF engine_coreD(5) [OF core i] l(1)] by blast
  have A: "A ?i = map (G ?i) [0..<rT (rg v ?i)]" using h(7) i by simp
  have "find (\<lambda>e. e_key e = key) (rev (A ?i)) = Some (G ?i p)" unfolding A by (rule find_rev_map) (use p in auto)
  moreover have d: "delivered m rec' = committed_entry (G ?i p)" using p(4) l(2) by simp
  moreover have "G ?i p \<in> set (A ?i)" using A p(1) by simp
  then have "Verify m rec'" using delivered_verifies(1) [OF d] h(9) by (auto simp: sums_ok_def)
  moreover have "Shard rec' = int ?i" using l(2) route_sint [OF core] by simp
  ultimately show ?thesis by blast
qed

lemma history_lookup:
  assumes H: "history_ok m v G A D" and room: "engine_room v"
    and pub: "publish m v key payload flags unixnano = Returned (Inr ticket, m', v')"
    and ovf: "x_overflows (ix v' (shard_of v key)) = x_overflows (ix v (shard_of v key))"
  shows "\<exists>rec'. Lookup m' v' key rec = Returned (Inr rec') \<and> Shard rec' = int (shard_of v key) \<and>
    delivered m' rec' = committed_entry (entry_of ticket key (now_ts v unixnano) flags payload (digest v payload))"
proof -
  let ?i = "shard_of v key" and ?e = "entry_of ticket key (now_ts v unixnano) flags payload (digest v payload)"
  note P = history_publish [OF H room pub]
  note core = engine_invD(1) [OF historyD(1) [OF P(1)]]
  let ?G = "G(?i := (G ?i)(rT (rg v ?i) := ?e))" and ?p = "rT (rg v ?i)"
  have i: "?i < nsh v'" using P(3,6) by simp
  have pT: "?p < rT (rg v' ?i)" using P(4) by simp
  have e: "?G ?i ?p = ?e" "e_key ?e = key" by (simp_all add: entry_of_def)
  have so: "shard_of v' key = ?i" using engine_coreD(11) [OF core i pT] e by simp
  have cap: "0 < rcap (rg v' ?i)" using ring_geom_pos [OF shard_geomD(1) [OF shard_invD(1) [OF engine_coreD(5) [OF core i]]]] .
  have nz: "key \<noteq> 0" using publish_ok_iff [OF historyD(1,2) [OF H] room, of key payload flags unixnano] pub
    by (auto simp: admits_def)
  have hint: "idx_map m' (ix v' ?i) key = Some (e_ticket (?G ?i ?p), of_nat (?p mod rcap (rg v' ?i)))"
    using P(7) [OF ovf] P(5) by (simp add: entry_of_def)
  obtain rec1 where l: "index_lookup m' (ix v' ?i) key (rg v' ?i) rec = Inr rec1" "delivered m' rec1 = committed_entry ?e"
    using shard_lookup_finds [OF engine_coreD(5) [OF core i] pT _ _ nz hint, of rec] e P(4) cap by auto
  let ?rec = "rec1\<lparr>Shard := sint (route v' key)\<rparr>"
  have "Lookup m' v' key rec = Returned (Inr ?rec)"
    using l(1) nz engine_coreD(1) [OF core] so by (simp add: Lookup_def Let_def shard_of_def)
  moreover have "delivered m' ?rec = committed_entry ?e" using l(2) by simp
  moreover have "Shard ?rec = int ?i" using route_sint [OF core, of key] so by simp
  ultimately show ?thesis by blast
qed

text \<open>
  C5: Publish, then look up. A record accepted by \<^verbatim>\<open>publish\<close> in a state a run reaches is what \<^verbatim>\<open>Lookup\<close>
  of its key returns next, with the same ticket, payload bytes and time stamp, unless the index of
  the shard had no room for the key, which its overflow counter shows.
\<close>
theorem publish_then_Lookup:
  assumes "vm_laws K mapped" "S \<in> {linux_sys K, darwin_sys K}" "engine_reach S m v A D" "engine_room v"
    and "publish m v key payload flags unixnano = Returned (Inr ticket, m', v')"
    and "x_overflows (ix v' (shard_of v key)) = x_overflows (ix v (shard_of v key))"
  shows "\<exists>rec'. Lookup m' v' key rec = Returned (Inr rec') \<and> Ticket rec' = ticket \<and> Key rec' = key \<and>
    CopyPayload m' rec' = payload \<and> Timestamp rec' = now_ts v unixnano \<and> Shard rec' = int (shard_of v key) \<and> Verify m' rec'"
proof -
  obtain G where H: "history_ok m v G A D" using platform_history [OF assms(1-3)] .
  obtain rec' where l: "Lookup m' v' key rec = Returned (Inr rec')" "Shard rec' = int (shard_of v key)"
    "delivered m' rec' = committed_entry (entry_of ticket key (now_ts v unixnano) flags payload (digest v payload))"
    using history_lookup [OF H assms(4-6)] by blast
  show ?thesis
    using l(1,2) delivered_verifies [OF l(3)] by (intro exI [of _ rec']) (simp add: entry_of_def digest_def)
qed

text \<open>The first record of the demonstration run finds its index empty.\<close>

lemma demo_indexed:
  assumes "engine_reach demo_S m v (\<lambda>_. []) []" "fresh_engine demo_cfg 5 6 v"
    and "publish m v 7 [1, 2, 3] 0 99 = Returned (Inr 1, m', v')"
  shows "x_overflows (ix v' (shard_of v 7)) = x_overflows (ix v (shard_of v 7))"
proof -
  obtain G where H: "history_ok m v G (\<lambda>_. []) []" using demo.lin.reach_history [OF assms(1)] by blast
  note core = engine_invD(1) [OF historyD(1) [OF H]]
  have i: "shard_of v 7 < nsh v" by (rule shard_of_less [OF core])
  then have "rT (rg v (shard_of v 7)) = 0" using assms(2) by (simp add: fresh_engine_def)
  then have "index_room m (ix v (shard_of v 7)) 7" by (rule empty_index_room [OF engine_coreD(5) [OF core i]])
  then show ?thesis by (rule history_publish(8) [OF H demo_fresh(1) [OF assms(2)] assms(3)])
qed

theorem publish_then_Lookup_witness:
  "\<exists>m v m' v' rec. publish m v 7 [1, 2, 3] 0 99 = Returned (Inr 1, m', v') \<and>
     Lookup m' v' 7 zero_Record = Returned (Inr rec) \<and> CopyPayload m' rec = [1, 2, 3] \<and> Ticket rec = 1"
proof -
  obtain m v m' v' where r: "engine_reach demo_S m v (\<lambda>_. []) []" "fresh_engine demo_cfg 5 6 v"
    "publish m v 7 [1, 2, 3] 0 99 = Returned (Inr 1, m', v')"
    using demo_published by blast
  from publish_then_Lookup [OF demo_vm(1) _ r(1) demo_fresh(1) [OF r(2)] r(3) demo_indexed [OF r], of zero_Record] r(3)
  show ?thesis by blast
qed

theorem Lookup_returns_latest_witness:
  "\<exists>m v A rec e. engine_reach demo_S m v A [] \<and> Lookup m v 7 zero_Record = Returned (Inr rec) \<and>
     find (\<lambda>e. e_key e = 7) (rev (A (shard_of v 7))) = Some e \<and> delivered m rec = committed_entry e"
proof -
  obtain m v m' v' A where r: "engine_reach demo_S m v (\<lambda>_. []) []" "fresh_engine demo_cfg 5 6 v"
    "publish m v 7 [1, 2, 3] 0 99 = Returned (Inr 1, m', v')" "engine_reach demo_S m' v' A []"
    using demo_published by blast
  obtain G where H: "history_ok m v G (\<lambda>_. []) []" using demo.lin.reach_history [OF r(1)] by blast
  obtain rec where l: "Lookup m' v' 7 zero_Record = Returned (Inr rec)"
    using history_lookup [OF H demo_fresh(1) [OF r(2)] r(3) demo_indexed [OF r(1-3)]] by blast
  from Lookup_returns_latest [OF demo_vm(1) _ r(4) l] r(4) l show ?thesis by blast
qed

end
