(* ===== verification/CloseThms.thy ===== *)
theory CloseThms
  imports EngineThms
begin

text \<open>
  Shutdown: the workers run their shards dry once the running flag is down, and \<^verbatim>\<open>Close\<close> then
  unmaps every arena. \<^verbatim>\<open>forceOpen\<close> leaves the latch behind, so this part rests on the core of the
  engine invariant only.
\<close>

section \<open>A worker at shutdown\<close>

lemma worker_runs_dry:
  fixes f :: "int \<Rightarrow> entry \<Rightarrow> 'h \<Rightarrow> 'h"
  assumes "engine_core m v G" "i < nsh v" "ctl_running (v_ctl v) = 0"
  shows "\<exists>m' v'. worker_run (observer f) i m v rec idle s =
      Some (m', v', fold (\<lambda>p. f (int i) (committed_entry (G i p))) [rH (rg v i)..<rT (rg v i)] s) \<and>
    engine_core m' v' G \<and> only_heads v v' \<and> rH (rg v' i) = rT (rg v i) \<and> (\<forall>j<nsh v. j \<noteq> i \<longrightarrow> rg v' j = rg v j)"
  using assms
proof (induction "rT (rg v i) - rH (rg v i)" arbitrary: m v rec idle s rule: less_induct)
  case less
  define k where "k = batch drainBatch 0 (rT (rg v i) - rH (rg v i))"
  obtain m1 rec1 v1 where d: "drain_shard (Some (observer f)) drainBatch (int i) m (v_shards v ! i) rec 0 s =
      (m1, drained (v_shards v ! i) k, rec1, int k,
       fold (\<lambda>p. f (int i) (committed_entry (G i p))) [rH (rg v i)..<rH (rg v i) + k] s)"
    "v1 = upd_shard i (\<lambda>_. drained (v_shards v ! i) k) v" "engine_core m1 v1 G" "only_heads v v1"
    "rH (rg v1 i) = rH (rg v i) + k" "\<forall>j<nsh v. j \<noteq> i \<longrightarrow> rg v1 j = rg v j" "k \<le> rT (rg v i) - rH (rg v i)"
    using drain_core [OF less.prems(1,2), of f drainBatch rec 0 s, folded k_def] by auto
  note oh = d(4) [unfolded only_heads_def]
  have hT: "rH (rg v i) \<le> rT (rg v i)" by (rule shard_quiet(2) [OF engine_coreD(5) [OF less.prems(1,2)]])
  have T1: "r_tail (rg v1 i) = r_tail (rg v i)" using oh less.prems(2) by blast
  show ?case
  proof (cases "k = 0")
    case True
    then have all: "rH (rg v i) = rT (rg v i)" using hT by (auto simp: k_def batch_def drainBatch_def split: if_splits)
    then have "pending (rg v1 i) = 0" using T1 d(5) True by (simp add: pending_def word_unat_eq_iff [symmetric])
    moreover have "sh_ring (drained (v_shards v ! i) k) = rg v1 i" using d(2) less.prems(2) by simp
    ultimately have "worker_run (observer f) i m v rec idle s = Some (m1, v1, s)"
      using d(1,2) True all oh less.prems(3) by (subst worker_run.simps) (simp add: worker_turn_def Let_def)
    then show ?thesis using d(3-6) all True by auto
  next
    case False
    define v2 where "v2 = markDrained v1 i"
    have i1: "i < nsh v1" using oh less.prems(2) by simp
    have same: "same_but_latch v1 v2" unfolding v2_def by (rule markDrained_same [OF i1])
    note S = same_but_latchD [OF same]
    have core2: "engine_core m1 v2 G" using engine_core_latch [OF same] d(3) by blast
    have rgs: "rg v2 j = rg v1 j" if "j < nsh v" for j using S(2) that oh by simp
    define s1 where "s1 = fold (\<lambda>p. f (int i) (committed_entry (G i p))) [rH (rg v i)..<rH (rg v i) + k] s"
    have run: "worker_run (observer f) i m v rec idle s = worker_run (observer f) i m1 v2 rec1 0 s1"
      using d(1,2) False by (subst worker_run.simps) (simp add: worker_turn_def Let_def v2_def s1_def)
    have smaller: "rT (rg v2 i) - rH (rg v2 i) < rT (rg v i) - rH (rg v i)"
      using rgs less.prems(2) T1 d(5,7) False by simp
    have "i < nsh v2" "ctl_running (v_ctl v2) = 0" using S(1,17) i1 oh less.prems(3) by simp_all
    from less.hyps [OF smaller core2 this, of rec1 0 s1] obtain m' v' where ih:
      "worker_run (observer f) i m1 v2 rec1 0 s1 =
        Some (m', v', fold (\<lambda>p. f (int i) (committed_entry (G i p))) [rH (rg v2 i)..<rT (rg v2 i)] s1)"
      "engine_core m' v' G" "only_heads v2 v'" "rH (rg v' i) = rT (rg v2 i)" "\<forall>j<nsh v2. j \<noteq> i \<longrightarrow> rg v' j = rg v2 j"
      by blast
    have "[rH (rg v i)..<rT (rg v i)] = [rH (rg v i)..<rH (rg v i) + k] @ [rH (rg v i) + k..<rT (rg v i)]"
      using upt_add_eq_append [of "rH (rg v i)" "rH (rg v i) + k" "rT (rg v i) - (rH (rg v i) + k)"] d(7) hT by simp
    then have "fold (\<lambda>p. f (int i) (committed_entry (G i p))) [rH (rg v2 i)..<rT (rg v2 i)] s1 =
        fold (\<lambda>p. f (int i) (committed_entry (G i p))) [rH (rg v i)..<rT (rg v i)] s"
      using rgs [OF less.prems(2)] T1 d(5) by (simp add: s1_def)
    moreover have "only_heads v v'" using only_heads_trans [OF d(4) only_heads_trans [OF only_heads_latch [OF same] ih(3)]] .
    moreover have "\<forall>j<nsh v. j \<noteq> i \<longrightarrow> rg v' j = rg v j" using ih(5) S(1) oh rgs d(6) by simp
    ultimately show ?thesis using run ih(1,2,4) rgs [OF less.prems(2)] T1 by simp
  qed
qed

lemma wait_workers_dry:
  assumes "engine_core m v G" "distinct is" "set is \<subseteq> {..<nsh v}" "ctl_running (v_ctl v) = 0"
  shows "\<exists>m' v'. wait_workers logger is m v D =
      Some (m', v', D @ map (\<lambda>(i, p). (int i, committed_entry (G i p))) (deliveries v v' is)) \<and>
    engine_core m' v' G \<and> only_heads v v' \<and> (\<forall>j\<in>set is. rH (rg v' j) = rT (rg v j)) \<and>
    (\<forall>j<nsh v. j \<notin> set is \<longrightarrow> rg v' j = rg v j)"
  using assms
proof (induction "is" arbitrary: m v D)
  case (Cons i "is")
  then have i: "i < nsh v" "i \<notin> set is" by auto
  let ?f = "\<lambda>i e s. s @ [(i, e)]"
  obtain m1 v1 where w: "worker_run logger i m v (zero_Record\<lparr>Shard := int i\<rparr>) 0 D =
      Some (m1, v1, fold (\<lambda>p. ?f (int i) (committed_entry (G i p))) [rH (rg v i)..<rT (rg v i)] D)"
    "engine_core m1 v1 G" "only_heads v v1" "rH (rg v1 i) = rT (rg v i)" "\<forall>j<nsh v. j \<noteq> i \<longrightarrow> rg v1 j = rg v j"
    using worker_runs_dry [OF Cons.prems(1) i(1) Cons.prems(4), of ?f "zero_Record\<lparr>Shard := int i\<rparr>" 0 D]
    unfolding logger_def by blast
  define D1 where "D1 = fold (\<lambda>p. ?f (int i) (committed_entry (G i p))) [rH (rg v i)..<rT (rg v i)] D"
  note oh = w(3) [unfolded only_heads_def]
  have "distinct is" "set is \<subseteq> {..<nsh v1}" "ctl_running (v_ctl v1) = 0" using Cons.prems oh by auto
  from Cons.IH [OF w(2) this, of D1] obtain m' v' where ih:
    "wait_workers logger is m1 v1 D1 = Some (m', v', D1 @ map (\<lambda>(i, p). (int i, committed_entry (G i p))) (deliveries v1 v' is))"
    "engine_core m' v' G" "only_heads v1 v'" "\<forall>j\<in>set is. rH (rg v' j) = rT (rg v1 j)"
    "\<forall>j<nsh v1. j \<notin> set is \<longrightarrow> rg v' j = rg v1 j" by blast
  have same: "rg v1 j = rg v j" if "j \<in> set is" for j using that w(5) i Cons.prems(3) by auto
  then have dv: "deliveries v1 v' is = deliveries v v' is" by (simp add: deliveries_def cong: map_cong)
  have ri: "rg v' i = rg v1 i" using ih(5) i oh by simp
  have "D1 = D @ map (\<lambda>(i, p). (int i, committed_entry (G i p))) (map (Pair i) [rH (rg v i)..<rT (rg v i)])"
    using fold_log [of "\<lambda>i p. committed_entry (G i p)" "map (Pair i) [rH (rg v i)..<rT (rg v i)]" D]
    by (simp add: D1_def fold_map comp_def)
  then have log: "D1 @ map (\<lambda>(i, p). (int i, committed_entry (G i p))) (deliveries v1 v' is) =
      D @ map (\<lambda>(i, p). (int i, committed_entry (G i p))) (deliveries v v' (i # is))"
    using ri w(4) dv by (simp add: deliveries_def)
  have "wait_workers logger (i # is) m v D =
      Some (m', v', D @ map (\<lambda>(i, p). (int i, committed_entry (G i p))) (deliveries v v' (i # is)))"
    using w(1) ih(1) log by (simp add: D1_def)
  moreover have "\<forall>j\<in>set (i # is). rH (rg v' j) = rT (rg v j)" using ih(4) ri w(4) same by simp
  moreover have "\<forall>j<nsh v. j \<notin> set (i # is) \<longrightarrow> rg v' j = rg v j" using ih(5) w(5) oh by simp
  ultimately show ?case using ih(2) only_heads_trans [OF w(3) ih(3)] by blast
qed (simp add: deliveries_def)

section \<open>Unmapping\<close>

context os_memory
begin

lemma close_arenas_unmap:
  assumes never: "\<And>q n i. fst (sysUnmap S q n i) = None"
  shows "stacked as A B \<Longrightarrow> close_arenas S as None k = (err, k') \<Longrightarrow>
    err = None \<and> mapped k' = mapped k - (\<Union>a\<in>set as. aregion a)"
proof (induction as arbitrary: A k)
  case (Cons a as)
  obtain e a' k1 where c: "arena_Close S a k = (e, a', k1)" by (metis prod.exhaust)
  have u: "e = None" "mapped k1 = mapped k - aregion a"
    using arena_Close_unmaps [OF _ _ _ c never] Cons.prems(1) by simp_all
  have "stacked as (A \<union> aregion a) B" "close_arenas S as None k1 = (err, k')"
    using Cons.prems c u(1) by simp_all
  from Cons.IH [OF this] show ?case using u(2) by auto
qed simp

text \<open>Both steps of \<^verbatim>\<open>Close\<close> together give back the whole stack.\<close>

lemma close_stack:
  assumes never: "\<And>q n i. fst (sysUnmap S q n i) = None" and st: "stacked (c # as) M0 (mapped k)"
    and run: "close_arenas S as None k = (err1, k1)" "arena_Close S c k1 = (err, ca, k2)"
  shows "err1 = None" "err = None" "mapped k2 = M0"
proof -
  have "stacked as (M0 \<union> aregion c) (mapped k)" using st by simp
  note U = close_arenas_unmap [OF never this run(1)]
  have C: "err = None \<and> mapped k2 = mapped k1 - aregion c"
    using arena_Close_unmaps [OF _ _ _ run(2) never] st by simp
  show "err1 = None" "err = None" using U C by simp_all
  have "mapped k2 = mapped k - (\<Union>a\<in>set (c # as). aregion a)" using U C by auto
  also have "\<dots> = M0" using stacked_union [OF st] stacked_disjoint [OF st] by blast
  finally show "mapped k2 = M0" .
qed

end

section \<open>Closing\<close>

lemma core_shutdown:
  "engine_core m (v\<lparr>v_closed := True, v_ctl := (v_ctl v)\<lparr>ctl_running := 0\<rparr>, v_valve := forceOpen (v_valve v)\<rparr>) G =
   engine_core m v G"
  by (simp add: engine_core_def shard_of_def route_def)

context os_memory
begin

lemma history_close:
  assumes H: "history_ok m v G A D" and never: "\<And>q n i. fst (sysUnmap S q n i) = None"
    and cons: "c_Consumer (v_cfg v)" and st: "stacked (v_ctlArena v # v_arenas v) M0 (mapped k)"
  shows "\<exists>m' v' D' k'. Close S logger m v D k = Returned (None, m', v', D', k') \<and>
    (\<forall>i<nsh v. delivered_at D' i = map committed_entry (A i)) \<and> mapped k' = M0 \<and>
    Close S logger m' v' D' k' = Returned (None, m', v', D', k') \<and>
    length D' = length D + (\<Sum>i<nsh v. unat (pending (rg v i))) \<and>
    set D' \<subseteq> set D \<union> (\<Union>i<nsh v. (\<lambda>e. (int i, committed_entry e)) ` set (A i))"
proof -
  note h = historyD [OF H]
  note core = engine_invD(1) [OF h(1)]
  define v1 where "v1 = v\<lparr>v_closed := True, v_ctl := (v_ctl v)\<lparr>ctl_running := 0\<rparr>, v_valve := forceOpen (v_valve v)\<rparr>"
  have core1: "engine_core m v1 G" unfolding v1_def core_shutdown by (rule core)
  have v1: "v_shards v1 = v_shards v" "ctl_running (v_ctl v1) = 0" "v_arenas v1 = v_arenas v" "v_ctlArena v1 = v_ctlArena v"
    "unat (v_shardN v1) = nsh v" "v_cfg v1 = v_cfg v" "v_closed v1"
    using engine_coreD(2) [OF core] by (simp_all add: v1_def)
  let ?is = "[0..<nsh v]"
  have "distinct ?is" "set ?is \<subseteq> {..<nsh v1}" using v1 by auto
  from wait_workers_dry [OF core1 this v1(2), of D] obtain m2 v2 where w:
    "wait_workers logger ?is m v1 D =
      Some (m2, v2, D @ map (\<lambda>(i, p). (int i, committed_entry (G i p))) (deliveries v1 v2 ?is))"
    "only_heads v1 v2" "\<forall>j\<in>set ?is. rH (rg v2 j) = rT (rg v1 j)"
    by blast
  define D2 where "D2 = D @ map (\<lambda>(i, p). (int i, committed_entry (G i p))) (deliveries v1 v2 ?is)"
  have a2: "v_arenas v2 = v_arenas v" "v_ctlArena v2 = v_ctlArena v" "v_closed v2"
    using w(2) v1 by (simp_all add: only_heads_def)
  obtain err1 k1 where c1: "close_arenas S (v_arenas v) None k = (err1, k1)" by (metis prod.exhaust)
  obtain err ca k2 where c2: "arena_Close S (v_ctlArena v) k1 = (err, ca, k2)" by (metis prod.exhaust)
  note U = close_stack [OF never st c1 c2]
  define v3 where "v3 = v2\<lparr>v_arenas := [], v_ctlArena := zero_Arena, v_nil := True\<rparr>"
  have run: "Close S logger m v D k = Returned (None, m2, v3, D2, k2)"
    using h(4) v1 w(1) a2 c1 c2 U(1,2) cons
    by (simp add: Close_def Let_def v1_def [symmetric] D2_def v3_def)
  have del: "delivered_at D2 i = map committed_entry (A i)" if "i < nsh v" for i
  proof -
    have le: "rH (rg v i) \<le> rT (rg v i)" by (rule shard_quiet(2) [OF engine_coreD(5) [OF core that]])
    have "delivered_at D2 i = map (\<lambda>p. committed_entry (G i p)) ([0..<rH (rg v i)] @ [rH (rg v i)..<rT (rg v i)])"
      using w(3) h(8) that v1(1) by (simp add: D2_def delivered_deliveries)
    also have "[0..<rH (rg v i)] @ [rH (rg v i)..<rT (rg v i)] = [0..<rT (rg v i)]"
      using upt_add_eq_append [of 0 "rH (rg v i)" "rT (rg v i) - rH (rg v i)"] le by simp
    finally show ?thesis using h(7) that by simp
  qed
  have "Close S logger m2 v3 D2 k2 = Returned (None, m2, v3, D2, k2)" using a2(3) by (simp add: Close_def v3_def)
  moreover have "length D2 = length D + (\<Sum>i<nsh v. unat (pending (rg v i)))"
    using w(3) v1(1) pending_unat [OF shard_quiet(2) [OF engine_coreD(5) [OF core]]] by (simp add: D2_def length_deliveries)
  moreover have "set D2 \<subseteq> set D \<union> (\<Union>i<nsh v. (\<lambda>e. (int i, committed_entry e)) ` set (A i))"
    using w(3) v1(1) h(7) by (fastforce simp: D2_def deliveries_def)
  ultimately show ?thesis using run del U(3) by blast
qed

end

text \<open>
  C9: An orderly shutdown. \<^verbatim>\<open>Close\<close> of an engine with a consumer, in any state a run reaches, returns
  without error; before it does, the workers have handed every accepted record to the handler, each
  shard in order; everything \<^verbatim>\<open>New\<close> mapped is unmapped again; and a second \<^verbatim>\<open>Close\<close> does nothing.
\<close>
theorem Close_delivers_and_unmaps:
  assumes "vm_laws K mapped" "munmap_succeeds K" "S \<in> {linux_sys K, darwin_sys K}" "engine_reach S m v A D"
    and "c_Consumer (v_cfg v)" "stacked (v_ctlArena v # v_arenas v) M0 (mapped k)"
  shows "\<exists>m' v' D' k'. Close S logger m v D k = Returned (None, m', v', D', k') \<and>
    (\<forall>i<nsh v. delivered_at D' i = map committed_entry (A i)) \<and> mapped k' = M0 \<and>
    Close S logger m' v' D' k' = Returned (None, m', v', D', k')"
proof -
  obtain G where H: "history_ok m v G A D" using platform_history [OF assms(1,3,4)] .
  show ?thesis
    using os_memory.history_close [OF platform_os [OF assms(1,3)] H platform_unmap [OF assms(2,3)] assms(5,6)] by blast
qed

lemma demo_stack:
  assumes "New demo_S 8 5 6 demo_config (\<lambda>_. 7) ({}, 4096) = Some (Inr v, m, k)" "fresh_engine demo_cfg 5 6 v"
  shows "c_Consumer (v_cfg v)" "stacked (v_ctlArena v # v_arenas v) {} (demo_mapped k)"
proof -
  have c: "v_cfg v = demo_cfg" using assms(2) by (simp add: fresh_engine_def)
  then show "c_Consumer (v_cfg v)" using demo_cfg_simps by simp
  have "demo_mapped ({}, 4096) = {}" by (simp add: demo_mapped_def)
  then show "stacked (v_ctlArena v # v_arenas v) {} (demo_mapped k)"
    using demo.lin.New_stack [OF assms(1)] c demo_fits by metis
qed

theorem Close_delivers_and_unmaps_witness:
  "\<exists>m v k m' v' k'. New demo_S 8 5 6 demo_config (\<lambda>_. 7) ({}, 4096) = Some (Inr v, m, k) \<and>
     (\<exists>D'. Close demo_S logger m v [] k = Returned (None, m', v', D', k') \<and> delivered_at D' 0 = []) \<and> demo_mapped k' = {}"
proof -
  obtain m v k where n: "New demo_S 8 5 6 demo_config (\<lambda>_. 7) ({}, 4096) = Some (Inr v, m, k)"
    "engine_reach demo_S m v (\<lambda>_. []) []" "fresh_engine demo_cfg 5 6 v" using demo_start by blast
  from Close_delivers_and_unmaps [OF demo_vm _ n(2) demo_stack [OF n(1,3)]] obtain m' v' D' k' where
    x: "Close demo_S logger m v [] k = Returned (None, m', v', D', k')" "demo_mapped k' = {}"
      "\<forall>i<nsh v. delivered_at D' i = []" by auto
  moreover have "0 < nsh v" using demo_fresh(2) [OF n(3)] by simp
  ultimately show ?thesis using n(1) by blast
qed

text \<open>Without a consumer \<^verbatim>\<open>Close\<close> waits for nobody: what is still committed is never delivered.\<close>

lemma Close_without_consumer_drops:
  assumes "\<not> v_closed v" "\<not> c_Consumer (v_cfg v)"
  shows "\<exists>err v' k'. Close S h m v s k = Returned (err, m, v', s, k')"
  using assms by (auto simp: Close_def Let_def split: prod.splits)

text \<open>
  After \<^verbatim>\<open>Close\<close> the control block is gone. A \<^verbatim>\<open>Publish\<close> of a valid record on a closed engine, and a
  \<^verbatim>\<open>Drain\<close>, dereference the cleared pointers; \<^verbatim>\<open>ErrClosed\<close>, which is documented as the answer once
  \<^verbatim>\<open>Close\<close> has been called, is not what the caller gets.
\<close>
theorem closed_engine_derefs_nil:
  assumes "\<not> v_closed v" "Close S h m v s k = Returned (err, m', v', s', k')"
    and "key \<noteq> 0" "length payload \<le> unat (v_payloadCap v')"
  shows "publish m' v' key payload flags unixnano = NilDeref \<and> Drain h' mx rec m' v' s'' = NilDeref"
proof -
  have "v_nil v'" using assms(1,2) by (auto simp: Close_def Let_def split: option.splits prod.splits)
  then show ?thesis using assms(3,4) by (simp add: publish_def Drain_def)
qed

theorem closed_engine_derefs_nil_witness:
  "\<exists>m v k err m' v' s' k'. New demo_S 8 5 6 demo_config (\<lambda>_. 7) ({}, 4096) = Some (Inr v, m, k) \<and>
     Close demo_S logger m v [] k = Returned (err, m', v', s', k') \<and> publish m' v' 7 [] 0 99 = NilDeref"
proof -
  obtain m v k where n: "New demo_S 8 5 6 demo_config (\<lambda>_. 7) ({}, 4096) = Some (Inr v, m, k)"
    "engine_reach demo_S m v (\<lambda>_. []) []" "fresh_engine demo_cfg 5 6 v" using demo_start by blast
  obtain G where H: "history_ok m v G (\<lambda>_. []) []" using demo.lin.reach_history [OF n(2)] by blast
  have op: "\<not> v_closed v" using n(3) by (simp add: fresh_engine_def)
  obtain m' v' D' k' where c: "Close demo_S logger m v [] k = Returned (None, m', v', D', k')"
    using demo.lin.history_close [OF H platform_unmap [OF demo_vm(2)] demo_stack [OF n(1,3)]] by blast
  from closed_engine_derefs_nil [OF op c, of 7 "[]" 0 99 None 0 zero_Record "()"] n(1) c show ?thesis by auto
qed

end
