(* ===== verification/Stats.thy ===== *)
theory Stats
  imports Fabric
begin

text \<open>
  \<^verbatim>\<open>stats.go\<close>: the engine-wide snapshot, assembled shard by shard.
\<close>

record ShardStats =
  ss_ID :: int
  ss_Capacity :: u64
  ss_Pending :: u64
  ss_Committed :: u64
  ss_OccupancyPct :: u64
  ss_Ingested :: u64
  ss_Consumed :: u64
  ss_Rejected :: u64
  ss_Tail :: u64
  ss_CommitIndex :: u64
  ss_Head :: u64
  ss_Arena :: ArenaStats
  ss_Index :: IndexStats

record Stats =
  st_Shards :: int
  st_CellStride :: u64
  st_PayloadCap :: u64
  st_ArenaBytes :: u64
  st_PinnedBytes :: u64
  st_HugeAligned :: bool
  st_HugeNative :: bool
  st_Tickets :: u64
  st_Ingested :: u64
  st_Consumed :: u64
  st_Rejected :: u64
  st_Dropped :: u64
  st_Pending :: u64
  st_OccupancyPct :: u64
  st_Gate :: GateStats
  st_ShardStats :: "ShardStats list"

definition shard_stats :: "nat \<Rightarrow> shard \<Rightarrow> ArenaStats \<Rightarrow> ShardStats" where
  "shard_stats i sh ast =
     \<lparr>ss_ID = int i, ss_Capacity = r_capacity (sh_ring sh), ss_Pending = pending (sh_ring sh),
      ss_Committed = committed (sh_ring sh), ss_OccupancyPct = occupancyPct (sh_ring sh),
      ss_Ingested = sh_ingested sh, ss_Consumed = sh_consumed sh, ss_Rejected = sh_rejected sh,
      ss_Tail = r_tail (sh_ring sh), ss_CommitIndex = r_commit (sh_ring sh), ss_Head = r_head (sh_ring sh),
      ss_Arena = ast, ss_Index = index_stats (sh_index sh)\<rparr>"

text \<open>The body of the loop over the shards, with the two running sums beside the snapshot.\<close>

definition stats_step :: "Vaultage \<Rightarrow> nat \<Rightarrow> Stats \<times> u64 \<times> u64 \<Rightarrow> Stats \<times> u64 \<times> u64" where
  "stats_step v i acc = (case acc of (s, pend, capacity) \<Rightarrow>
     let sh = v_shards v ! i;
         ast = arena_Stats (v_arenas v ! i);
         ss = shard_stats i sh ast
     in (s\<lparr>st_ShardStats := st_ShardStats s @ [ss],
           st_Ingested := st_Ingested s + ss_Ingested ss,
           st_Consumed := st_Consumed s + ss_Consumed ss,
           st_Rejected := st_Rejected s + ss_Rejected ss,
           st_ArenaBytes := st_ArenaBytes s + as_Size ast,
           st_PinnedBytes := (if as_Pinned ast then st_PinnedBytes s + as_Size ast else st_PinnedBytes s),
           st_HugeAligned := (if \<not> as_HugePageAligned ast then False else st_HugeAligned s),
           st_HugeNative := (if \<not> as_HugePagesNative ast then False else st_HugeNative s)\<rparr>,
         pend + ss_Pending ss, capacity + ss_Capacity ss))"

definition engine_Stats :: "Vaultage \<Rightarrow> Stats outcome" where
  "engine_Stats v =
     (if v_nil v then NilDeref
      else let ctl = arena_Stats (v_ctlArena v);
               s0 = \<lparr>st_Shards = sint (v_shardN v), st_CellStride = v_cellStride v, st_PayloadCap = v_payloadCap v,
                     st_ArenaBytes = 0 + as_Size ctl, st_PinnedBytes = (if as_Pinned ctl then 0 + as_Size ctl else 0),
                     st_HugeAligned = True, st_HugeNative = True, st_Tickets = ctl_ticket (v_ctl v),
                     st_Ingested = 0, st_Consumed = 0, st_Rejected = 0, st_Dropped = ctl_dropped (v_ctl v),
                     st_Pending = 0, st_OccupancyPct = 0, st_Gate = gate_stats (v_valve v), st_ShardStats = []\<rparr>
           in case fold (stats_step v) [0..<unat (v_shardN v)] (s0, 0, 0) of (s, pend, capacity) \<Rightarrow>
             Returned (s\<lparr>st_Pending := pend,
               st_OccupancyPct := (if capacity > 0 then pend * 100 div capacity else st_OccupancyPct s)\<rparr>))"

end
