(* ===== verification/StatsThms.thy ===== *)
theory StatsThms
  imports Stats EngineThms
begin

text \<open>The snapshot of \<^verbatim>\<open>Stats\<close> adds up.\<close>

lemma stats_fold:
  assumes "fold (stats_step v) [0..<n] (s0, 0, 0) = (s, pend, capacity)"
  shows "st_Ingested s = st_Ingested s0 + (\<Sum>i<n. sh_ingested (v_shards v ! i))"
    "st_Consumed s = st_Consumed s0 + (\<Sum>i<n. sh_consumed (v_shards v ! i))"
    "pend = (\<Sum>i<n. pending (sh_ring (v_shards v ! i)))" "capacity = (\<Sum>i<n. r_capacity (sh_ring (v_shards v ! i)))"
    "st_ShardStats s = st_ShardStats s0 @ map (\<lambda>i. shard_stats i (v_shards v ! i) (arena_Stats (v_arenas v ! i))) [0..<n]"
    "st_Tickets s = st_Tickets s0" "st_Dropped s = st_Dropped s0" "st_Gate s = st_Gate s0" "st_OccupancyPct s = st_OccupancyPct s0"
proof -
  have "case fold (stats_step v) [0..<n] (s0, 0, 0) of (s, pend, capacity) \<Rightarrow>
    st_Ingested s = st_Ingested s0 + (\<Sum>i<n. sh_ingested (v_shards v ! i)) \<and>
    st_Consumed s = st_Consumed s0 + (\<Sum>i<n. sh_consumed (v_shards v ! i)) \<and>
    pend = (\<Sum>i<n. pending (sh_ring (v_shards v ! i))) \<and> capacity = (\<Sum>i<n. r_capacity (sh_ring (v_shards v ! i))) \<and>
    st_ShardStats s = st_ShardStats s0 @ map (\<lambda>i. shard_stats i (v_shards v ! i) (arena_Stats (v_arenas v ! i))) [0..<n] \<and>
    st_Tickets s = st_Tickets s0 \<and> st_Dropped s = st_Dropped s0 \<and> st_Gate s = st_Gate s0 \<and> st_OccupancyPct s = st_OccupancyPct s0"
  proof (induction n)
    case (Suc n)
    then show ?case by (auto simp: stats_step_def Let_def shard_stats_def split: prod.splits)
  qed simp
  then show "st_Ingested s = st_Ingested s0 + (\<Sum>i<n. sh_ingested (v_shards v ! i))"
    "st_Consumed s = st_Consumed s0 + (\<Sum>i<n. sh_consumed (v_shards v ! i))"
    "pend = (\<Sum>i<n. pending (sh_ring (v_shards v ! i)))" "capacity = (\<Sum>i<n. r_capacity (sh_ring (v_shards v ! i)))"
    "st_ShardStats s = st_ShardStats s0 @ map (\<lambda>i. shard_stats i (v_shards v ! i) (arena_Stats (v_arenas v ! i))) [0..<n]"
    "st_Tickets s = st_Tickets s0" "st_Dropped s = st_Dropped s0" "st_Gate s = st_Gate s0" "st_OccupancyPct s = st_OccupancyPct s0"
    using assms by simp_all
qed

lemma engine_Stats_sums:
  assumes "\<not> v_nil v" "nsh v = unat (v_shardN v)"
  shows "\<exists>s. engine_Stats v = Returned s \<and> st_Ingested s = (\<Sum>i<nsh v. sh_ingested (v_shards v ! i)) \<and>
    st_Consumed s = (\<Sum>i<nsh v. sh_consumed (v_shards v ! i)) \<and> st_Pending s = (\<Sum>i<nsh v. pending (rg v i)) \<and>
    st_OccupancyPct s = (let c = (\<Sum>i<nsh v. r_capacity (rg v i)) in if c = 0 then 0 else st_Pending s * 100 div c) \<and>
    st_ShardStats s = map (\<lambda>i. shard_stats i (v_shards v ! i) (arena_Stats (v_arenas v ! i))) [0..<nsh v] \<and>
    st_Tickets s = ctl_ticket (v_ctl v) \<and> st_Dropped s = ctl_dropped (v_ctl v) \<and> st_Gate s = gate_stats (v_valve v)"
proof -
  let ?ctl = "arena_Stats (v_ctlArena v)"
  define s0 where "s0 = \<lparr>st_Shards = sint (v_shardN v), st_CellStride = v_cellStride v, st_PayloadCap = v_payloadCap v,
     st_ArenaBytes = 0 + as_Size ?ctl, st_PinnedBytes = (if as_Pinned ?ctl then 0 + as_Size ?ctl else 0),
     st_HugeAligned = True, st_HugeNative = True, st_Tickets = ctl_ticket (v_ctl v),
     st_Ingested = 0, st_Consumed = 0, st_Rejected = 0, st_Dropped = ctl_dropped (v_ctl v),
     st_Pending = 0, st_OccupancyPct = 0, st_Gate = gate_stats (v_valve v), st_ShardStats = []\<rparr>"
  obtain s pend capacity where f: "fold (stats_step v) [0..<nsh v] (s0, 0, 0) = (s, pend, capacity)" by (metis prod.exhaust)
  have "engine_Stats v = Returned (s\<lparr>st_Pending := pend,
      st_OccupancyPct := (if capacity > 0 then pend * 100 div capacity else st_OccupancyPct s)\<rparr>)"
    using assms f by (simp add: engine_Stats_def Let_def s0_def)
  then show ?thesis using stats_fold [OF f] by (simp add: s0_def Let_def word_neq_0_conv)
qed

text \<open>
  C30: The books balance. In every state a run reaches, the snapshot of \<^verbatim>\<open>Stats\<close> counts every accepted
  and every delivered record exactly, tickets issued are records ingested plus tickets dropped,
  and pending is what was ingested and not consumed; the gate it shows is closed exactly while some
  shard is hot.
\<close>
theorem Stats_balances:
  assumes "vm_laws K mapped" "S \<in> {linux_sys K, darwin_sys K}" "engine_reach S m v A D"
  shows "\<exists>s. engine_Stats v = Returned s \<and> unat (st_Ingested s) = (\<Sum>i<nsh v. length (A i)) \<and>
    unat (st_Consumed s) = (\<Sum>i<nsh v. length (delivered_at D i)) \<and>
    st_Tickets s = st_Ingested s + st_Dropped s \<and> st_Pending s = st_Ingested s - st_Consumed s \<and>
    st_Consumed s \<le> st_Ingested s \<and> (Closed (st_Gate s) \<longleftrightarrow> (\<exists>i<nsh v. sh_hot (v_shards v ! i) = 1))"
proof -
  obtain G where H: "history_ok m v G A D" using platform_history [OF assms] .
  note h = historyD [OF H]
  note E = engine_coreD [OF engine_invD(1) [OF h(1)]]
  obtain s where s: "engine_Stats v = Returned s" "st_Ingested s = (\<Sum>i<nsh v. sh_ingested (v_shards v ! i))"
    "st_Consumed s = (\<Sum>i<nsh v. sh_consumed (v_shards v ! i))" "st_Pending s = (\<Sum>i<nsh v. pending (rg v i))"
    "st_Tickets s = ctl_ticket (v_ctl v)" "st_Dropped s = ctl_dropped (v_ctl v)" "st_Gate s = gate_stats (v_valve v)"
    using engine_Stats_sums [OF E(1,2)] by blast
  have le: "rH (rg v i) \<le> rT (rg v i)" if "i < nsh v" for i by (rule shard_quiet(2) [OF E(5) [OF that]])
  have ing: "st_Ingested s = of_nat (\<Sum>i<nsh v. rT (rg v i))" using s(2) E(7) by simp
  have con: "st_Consumed s = of_nat (\<Sum>i<nsh v. rH (rg v i))" using s(3) E(8) by simp
  have T: "(\<Sum>i<nsh v. rT (rg v i)) < 2 ^ 64" using E(12) unat_lt64 [of "ctl_ticket (v_ctl v)"] by simp
  have HT: "(\<Sum>i<nsh v. rH (rg v i)) \<le> (\<Sum>i<nsh v. rT (rg v i))" using le by (intro sum_mono) simp
  have ui: "unat (st_Ingested s) = (\<Sum>i<nsh v. rT (rg v i))" using ing T by (simp add: unat_of_nat64 del: of_nat_sum)
  have uc: "unat (st_Consumed s) = (\<Sum>i<nsh v. rH (rg v i))" using con T HT by (simp add: unat_of_nat64 del: of_nat_sum)
  have "st_Tickets s = st_Ingested s + st_Dropped s"
  proof -
    have "ctl_ticket (v_ctl v) = of_nat (unat (ctl_ticket (v_ctl v)))" by simp
    also have "\<dots> = of_nat (\<Sum>i<nsh v. rT (rg v i)) + ctl_dropped (v_ctl v)" unfolding E(12) by simp
    finally show ?thesis using s(5,6) ing by simp
  qed
  moreover have "st_Pending s = st_Ingested s - st_Consumed s"
  proof -
    have "pending (rg v i) = r_tail (rg v i) - r_head (rg v i)" if "i < nsh v" for i
      using le [OF that] by (simp add: pending_def Let_def word_less_nat_alt)
    then show ?thesis using s(2-4) E(7,8) by (simp add: sum_subtractf [symmetric])
  qed
  moreover have "isClosed (v_valve v) \<longleftrightarrow> (\<exists>i<nsh v. sh_hot (v_shards v ! i) = 1)"
    using engine_invD(2) [OF h(1)] by (auto simp: latch_ok_def hots_def in_set_conv_nth) force
  ultimately show ?thesis
    using s(1,7) ui uc HT h(7,8) by (simp add: gate_stats_def word_le_nat_alt)
qed

theorem Stats_balances_witness:
  "\<exists>m v A s. engine_reach demo_S m v A [] \<and> engine_Stats v = Returned s \<and> st_Consumed s = 0 \<and>
     st_Tickets s = st_Dropped s \<and> st_Pending s = 0"
proof -
  obtain m v where r: "engine_reach demo_S m v (\<lambda>_. []) []" "fresh_engine demo_cfg 5 6 v" using demo_start by blast
  from Stats_balances [OF demo_vm(1) _ r(1)] obtain s where s: "engine_Stats v = Returned s"
    "unat (st_Consumed s) = 0" "unat (st_Ingested s) = 0" "st_Tickets s = st_Ingested s + st_Dropped s"
    "st_Pending s = st_Ingested s - st_Consumed s"
    by (auto simp: delivered_at_def)
  then have "st_Ingested s = 0" "st_Consumed s = 0" by (simp_all add: unat_eq_zero)
  then show ?thesis using s r(1) by auto
qed

section \<open>Saturation\<close>

lemma saturation_sums:
  "saturation_loop shs (pend, capacity, mx) =
    (pend + sum_list (map (\<lambda>sh. pending (sh_ring sh)) shs), capacity + sum_list (map (\<lambda>sh. r_capacity (sh_ring sh)) shs),
     foldl max mx (map (\<lambda>sh. occupancyPct (sh_ring sh)) shs))"
  by (induction shs arbitrary: pend capacity mx)
    (auto simp: Let_def occupancyPct_def add.assoc max_def not_less)

lemma sum_list_shards:
  fixes f :: "shard \<Rightarrow> u64"
  shows "sum_list (map f shs) = (\<Sum>i<length shs. f (shs ! i))"
  by (simp add: sum_list_sum_nth atLeast0LessThan)

text \<open>
  \<^verbatim>\<open>saturation\<close> and \<^verbatim>\<open>Stats\<close> agree. The aggregate occupancy that \<^verbatim>\<open>saturation\<close> computes in its own sweep is
  the \<^verbatim>\<open>OccupancyPct\<close> of the snapshot, and unless there is no capacity at all the worst-shard figure is the
  largest \<^verbatim>\<open>OccupancyPct\<close> among the snapshot's shards.
\<close>
theorem saturation_agrees_with_Stats:
  assumes "\<not> v_nil v" "nsh v = unat (v_shardN v)"
  shows "\<exists>s. engine_Stats v = Returned s \<and> fst (saturation v) = st_OccupancyPct s \<and>
    ((\<Sum>i<nsh v. r_capacity (rg v i)) \<noteq> 0 \<longrightarrow> snd (saturation v) = foldl max 0 (map ss_OccupancyPct (st_ShardStats s)))"
proof -
  obtain s where s: "engine_Stats v = Returned s" "st_Pending s = (\<Sum>i<nsh v. pending (rg v i))"
    "st_OccupancyPct s = (let c = (\<Sum>i<nsh v. r_capacity (rg v i)) in if c = 0 then 0 else st_Pending s * 100 div c)"
    "st_ShardStats s = map (\<lambda>i. shard_stats i (v_shards v ! i) (arena_Stats (v_arenas v ! i))) [0..<nsh v]"
    using engine_Stats_sums [OF assms] by blast
  have "map ss_OccupancyPct (st_ShardStats s) = map (\<lambda>sh. occupancyPct (sh_ring sh)) (v_shards v)"
    unfolding s(4) by (intro nth_equalityI) (simp_all add: shard_stats_def)
  moreover have "map ((!) (v_shards v)) [0..<unat (v_shardN v)] = v_shards v" using assms(2) map_nth [of "v_shards v"] by simp
  ultimately show ?thesis
    using s(1-3) by (simp add: saturation_def saturation_sums sum_list_shards Let_def)
qed

theorem saturation_agrees_with_Stats_witness:
  "\<exists>m v s. engine_reach demo_S m v (\<lambda>_. []) [] \<and> engine_Stats v = Returned s \<and> fst (saturation v) = st_OccupancyPct s"
proof -
  obtain m v where r: "engine_reach demo_S m v (\<lambda>_. []) []" "fresh_engine demo_cfg 5 6 v" using demo_start by blast
  obtain G where H: "history_ok m v G (\<lambda>_. []) []" using demo.lin.reach_history [OF r(1)] by blast
  note E = engine_coreD [OF engine_invD(1) [OF historyD(1) [OF H]]]
  show ?thesis using saturation_agrees_with_Stats [OF E(1,2)] r(1) by blast
qed

end
