(* ===== verification/LatchRace.thy ===== *)
theory LatchRace
  imports Latch
begin

text \<open>
  \<^verbatim>\<open>markSaturated\<close> and \<^verbatim>\<open>markDrained\<close> as threads run them: one atomic access at a time, with any
  number of threads, and with everything else the engine does, which moves the rings, in between.
  Go's atomics are sequentially consistent, so a run is an interleaving of atomic accesses.
\<close>

section \<open>One atomic access\<close>

text \<open>Where a thread stands; the argument is the shard it works for. \<open>At_shut\<close> and \<open>At_closes\<close> are the two
  accesses of \<^verbatim>\<open>gate.shut\<close>, \<open>At_release\<close> and \<open>At_opens\<close> those of \<^verbatim>\<open>gate.release\<close>. The two loads of
  \<^verbatim>\<open>occupancyPct\<close> are one access here: what other threads do to the ring is unconstrained, so any
  outcome of the test is possible anyway.\<close>

datatype latch_pc = Idle | Sat_cas nat | Sat_add | At_shut | At_closes
  | Drn_load nat | Drn_occ nat | Drn_cas nat | Drn_sub | At_release | At_opens | Drn_test

abbreviation upd_valve :: "(gate \<Rightarrow> gate) \<Rightarrow> Vaultage \<Rightarrow> Vaultage" where
  "upd_valve f v \<equiv> v\<lparr>v_valve := f (v_valve v)\<rparr>"

abbreviation upd_saturated :: "u64 \<Rightarrow> Vaultage \<Rightarrow> Vaultage" where
  "upd_saturated s v \<equiv> v\<lparr>v_ctl := (v_ctl v)\<lparr>ctl_saturated := s\<rparr>\<rparr>"

fun latch_exec :: "latch_pc \<Rightarrow> Vaultage \<Rightarrow> latch_pc \<times> Vaultage" where
  "latch_exec Idle v = (Idle, v)"
| "latch_exec (Sat_cas i) v =
     (case atomicCAS64 (sh_hot (v_shards v ! i)) 0 1 of (hot, ok) \<Rightarrow>
        (if ok then Sat_add else Idle, upd_shard i (sh_hot_update (\<lambda>_. hot)) v))"
| "latch_exec Sat_add v = (At_shut, upd_saturated (fst (atomicAdd64 (ctl_saturated (v_ctl v)) 1)) v)"
| "latch_exec At_shut v =
     (case atomicCAS64 (g_state (v_valve v)) gateOpen gateClosed of (s, ok) \<Rightarrow>
        (if ok then At_closes else Idle, upd_valve (g_state_update (\<lambda>_. s)) v))"
| "latch_exec At_closes v = (Idle, upd_valve (g_closes_update (\<lambda>n. fst (atomicAdd64 n 1))) v)"
| "latch_exec (Drn_load i) v = (if sh_hot (v_shards v ! i) = 0 then Idle else Drn_occ i, v)"
| "latch_exec (Drn_occ i) v =
     (if occupancyPct (sh_ring (v_shards v ! i)) > c_LowWaterPct (v_cfg v) then Idle else Drn_cas i, v)"
| "latch_exec (Drn_cas i) v =
     (case atomicCAS64 (sh_hot (v_shards v ! i)) 1 0 of (hot, ok) \<Rightarrow>
        (if \<not> ok then Idle else Drn_sub, upd_shard i (sh_hot_update (\<lambda>_. hot)) v))"
| "latch_exec Drn_sub v =
     (case atomicAdd64 (ctl_saturated (v_ctl v)) (NOT 0) of (s, new) \<Rightarrow>
        (if new = 0 then At_release else Idle, upd_saturated s v))"
| "latch_exec At_release v =
     (case atomicCAS64 (g_state (v_valve v)) gateClosed gateOpen of (s, ok) \<Rightarrow>
        (if ok then At_opens else Drn_test, upd_valve (g_state_update (\<lambda>_. s)) v))"
| "latch_exec At_opens v = (Drn_test, upd_valve (g_opens_update (\<lambda>n. fst (atomicAdd64 n 1))) v)"
| "latch_exec Drn_test v = (if ctl_saturated (v_ctl v) \<noteq> 0 then At_shut else Idle, v)"

text \<open>A thread left alone does what the sequential definitions say.\<close>

definition latch_solo :: "nat \<Rightarrow> latch_pc \<Rightarrow> Vaultage \<Rightarrow> latch_pc \<times> Vaultage" where
  "latch_solo n pc v = ((\<lambda>(pc, v). latch_exec pc v) ^^ n) (pc, v)"

lemma latch_solo_0 [simp]: "latch_solo 0 pc v = (pc, v)"
  by (simp add: latch_solo_def)

lemma latch_solo_Suc: "latch_solo (Suc n) pc v = (case latch_exec pc v of (pc', v') \<Rightarrow> latch_solo n pc' v')"
  by (simp add: latch_solo_def funpow_swap1 split: prod.splits)

lemma latch_solo_Idle [simp]: "latch_solo n Idle v = (Idle, v)"
  by (induction n) (simp_all add: latch_solo_Suc)

lemma solo_markSaturated: "latch_solo 4 (Sat_cas i) v = (Idle, markSaturated v i)"
  by (simp add: numeral_eq_Suc latch_solo_Suc markSaturated_def shut_def atomicCAS64_def atomicAdd64_def Let_def)

lemma solo_markDrained: "latch_solo 9 (Drn_load i) v = (Idle, markDrained v i)"
  by (simp add: numeral_eq_Suc latch_solo_Suc markDrained_def shut_def gate_release_def atomicCAS64_def
      atomicAdd64_def Let_def)

section \<open>Interleavings\<close>

text \<open>What the rest of the engine may do between two accesses: anything but touch the latch.\<close>

definition latch_kept :: "Vaultage \<Rightarrow> Vaultage \<Rightarrow> bool" where
  "latch_kept v v' \<longleftrightarrow> hots v' = hots v \<and> ctl_saturated (v_ctl v') = ctl_saturated (v_ctl v) \<and>
     g_state (v_valve v') = g_state (v_valve v)"

text \<open>\<open>latch_reach v0 n ps v\<close>: \<open>n\<close> threads, all idle at first with the engine \<open>v0\<close>, can come to stand at \<open>ps\<close>
  with the engine \<open>v\<close>.\<close>

inductive latch_reach :: "Vaultage \<Rightarrow> nat \<Rightarrow> latch_pc list \<Rightarrow> Vaultage \<Rightarrow> bool" for v0 n where
  start: "latch_reach v0 n (replicate n Idle) v0"
| saturate: "latch_reach v0 n ps v \<Longrightarrow> t < n \<Longrightarrow> ps ! t = Idle \<Longrightarrow> i < length (v_shards v) \<Longrightarrow>
    latch_reach v0 n (ps[t := Sat_cas i]) v"
| drain: "latch_reach v0 n ps v \<Longrightarrow> t < n \<Longrightarrow> ps ! t = Idle \<Longrightarrow> i < length (v_shards v) \<Longrightarrow>
    latch_reach v0 n (ps[t := Drn_load i]) v"
| exec: "latch_reach v0 n ps v \<Longrightarrow> t < n \<Longrightarrow> latch_exec (ps ! t) v = (pc, v') \<Longrightarrow> latch_reach v0 n (ps[t := pc]) v'"
| other: "latch_reach v0 n ps v \<Longrightarrow> latch_kept v v' \<Longrightarrow> latch_reach v0 n ps v'"

section \<open>The invariant of every interleaving\<close>

text \<open>The counter lags behind the flags by the threads that have flipped a flag and not yet counted. While the
  gate is open over a nonzero counter, some thread is on its way to close it or to look again.\<close>

fun minds_gate :: "latch_pc \<Rightarrow> bool" where
  "minds_gate Sat_add \<longleftrightarrow> True"
| "minds_gate At_shut \<longleftrightarrow> True"
| "minds_gate At_release \<longleftrightarrow> True"
| "minds_gate At_opens \<longleftrightarrow> True"
| "minds_gate Drn_test \<longleftrightarrow> True"
| "minds_gate _ \<longleftrightarrow> False"

fun pc_in :: "nat \<Rightarrow> latch_pc \<Rightarrow> bool" where
  "pc_in N (Sat_cas i) \<longleftrightarrow> i < N"
| "pc_in N (Drn_load i) \<longleftrightarrow> i < N"
| "pc_in N (Drn_occ i) \<longleftrightarrow> i < N"
| "pc_in N (Drn_cas i) \<longleftrightarrow> i < N"
| "pc_in N _ \<longleftrightarrow> True"

definition latch_inv :: "nat \<Rightarrow> latch_pc list \<Rightarrow> Vaultage \<Rightarrow> bool" where
  "latch_inv n ps v \<longleftrightarrow> length ps = n \<and> length (v_shards v) + n < 2 ^ 64 \<and>
     list_all (pc_in (length (v_shards v))) ps \<and> set (hots v) \<subseteq> {0, 1} \<and>
     ctl_saturated (v_ctl v) + of_nat (count_list ps Sat_add) =
       of_nat (count_list (hots v) 1) + of_nat (count_list ps Drn_sub) \<and>
     gate_wf (v_valve v) \<and>
     (\<not> isClosed (v_valve v) \<longrightarrow> ctl_saturated (v_ctl v) \<noteq> 0 \<longrightarrow> (\<exists>pc\<in>set ps. minds_gate pc))"

lemma count_list_upd:
  assumes "t < length xs"
  shows "of_nat (count_list (xs[t := y]) x) =
    of_nat (count_list xs x) + (if y = x then 1 else 0) - (if xs ! t = x then 1 else 0 :: u64)"
  using assms by (induction xs arbitrary: t) (auto simp: nth_Cons split: nat.splits)

lemma minds_upd:
  assumes "\<exists>pc\<in>set ps. minds_gate pc" "minds_gate (ps ! t) \<Longrightarrow> minds_gate pc" "t < length ps"
  shows "\<exists>pc\<in>set (ps[t := pc]). minds_gate pc"
proof -
  from assms(1) obtain j where j: "j < length ps" "minds_gate (ps ! j)" by (auto simp: in_set_conv_nth)
  show ?thesis
  proof (cases "j = t")
    case True
    then have "minds_gate pc" using j assms(2) by simp
    then show ?thesis using assms(3) set_update_memI by fast
  next
    case False
    then have "ps[t := pc] ! j = ps ! j" by simp
    then show ?thesis using j by (metis length_list_update nth_mem)
  qed
qed

text \<open>The one delicate access: the decrement can be the first to touch the counter, before the increment that
  the same shard owes; then that other thread has its \<^verbatim>\<open>shut\<close> still to come.\<close>

lemma latch_inv_sub:
  assumes I: "latch_inv n ps v" and t: "t < n" "ps ! t = Drn_sub" and z: "ctl_saturated (v_ctl v) = 0"
  shows "Sat_add \<in> set ps"
proof -
  have "length ps = n" using I by (simp add: latch_inv_def)
  then have "Drn_sub \<in> set ps" using t nth_mem [of t ps] by simp
  then have "count_list ps Drn_sub \<noteq> 0" by (simp add: count_list_pos)
  moreover have "count_list ps Drn_sub \<le> n" "count_list (hots v) 1 \<le> length (v_shards v)"
    using I count_le_length [of ps Drn_sub] count_le_length [of "hots v" 1] by (simp_all add: latch_inv_def)
  ultimately have "of_nat (count_list (hots v) 1 + count_list ps Drn_sub) \<noteq> (0 :: u64)"
    using I of_nat_eq64 [of "count_list (hots v) 1 + count_list ps Drn_sub" 0] by (simp add: latch_inv_def)
  then have "of_nat (count_list ps Sat_add) \<noteq> (0 :: u64)" using I z by (simp add: latch_inv_def)
  then have "count_list ps Sat_add \<noteq> 0" by (rule contrapos_nn) simp
  then show ?thesis by (simp add: count_list_pos)
qed

text \<open>What one access does to the flags, the counter and the gate.\<close>

lemma flag_same: "(map sh_hot shs)[i := sh_hot (shs ! i)] = map sh_hot shs"
  by (metis list_update_id map_update)

lemma exec_effect:
  assumes "latch_exec pc v = (pc', v')"
  shows "length (v_shards v') = length (v_shards v)"
    and "hots v' = (case pc of Sat_cas i \<Rightarrow> (hots v)[i := fst (atomicCAS64 (sh_hot (v_shards v ! i)) 0 1)]
       | Drn_cas i \<Rightarrow> (hots v)[i := fst (atomicCAS64 (sh_hot (v_shards v ! i)) 1 0)] | _ \<Rightarrow> hots v)"
    and "ctl_saturated (v_ctl v') = ctl_saturated (v_ctl v) + (if pc = Sat_add then 1 else 0) - (if pc = Drn_sub then 1 else 0)"
    and "g_state (v_valve v') = (case pc of At_shut \<Rightarrow> fst (atomicCAS64 (g_state (v_valve v)) gateOpen gateClosed)
       | At_release \<Rightarrow> fst (atomicCAS64 (g_state (v_valve v)) gateClosed gateOpen) | _ \<Rightarrow> g_state (v_valve v))"
    and "pc_in N pc \<Longrightarrow> pc_in N pc'"
proof -
  show "length (v_shards v') = length (v_shards v)"
    using assms by (cases pc) (auto simp: atomicCAS64_def atomicAdd64_def split: if_splits)
  show "hots v' = (case pc of Sat_cas i \<Rightarrow> (hots v)[i := fst (atomicCAS64 (sh_hot (v_shards v ! i)) 0 1)]
       | Drn_cas i \<Rightarrow> (hots v)[i := fst (atomicCAS64 (sh_hot (v_shards v ! i)) 1 0)] | _ \<Rightarrow> hots v)"
    using assms by (cases pc) (auto simp: hots_def flag_same map_update atomicCAS64_def atomicAdd64_def split: if_splits)
  show "ctl_saturated (v_ctl v') = ctl_saturated (v_ctl v) + (if pc = Sat_add then 1 else 0) - (if pc = Drn_sub then 1 else 0)"
    using assms by (cases pc) (auto simp: atomicCAS64_def atomicAdd64_def split: if_splits)
  show "g_state (v_valve v') = (case pc of At_shut \<Rightarrow> fst (atomicCAS64 (g_state (v_valve v)) gateOpen gateClosed)
       | At_release \<Rightarrow> fst (atomicCAS64 (g_state (v_valve v)) gateClosed gateOpen) | _ \<Rightarrow> g_state (v_valve v))"
    using assms by (cases pc) (auto simp: atomicCAS64_def atomicAdd64_def split: if_splits)
  show "pc_in N pc'" if "pc_in N pc"
    using assms that by (cases pc) (auto simp: atomicCAS64_def atomicAdd64_def split: if_splits)
qed

lemma count_flag:
  assumes "i < length xs" "xs ! i \<in> {0, 1 :: u64}"
  shows "of_nat (count_list (xs[i := 1]) 1) = of_nat (count_list xs 1) + (if xs ! i = 0 then 1 else 0 :: u64)"
    "of_nat (count_list (xs[i := 0]) 1) = of_nat (count_list xs 1) - (if xs ! i = 1 then 1 else 0 :: u64)"
  using assms by (auto simp: count_list_upd)

lemma latch_counts_exec:
  assumes I: "latch_inv n ps v" and t: "t < n" and e: "latch_exec (ps ! t) v = (pc, v')"
  shows "set (hots v') \<subseteq> {0, 1} \<and> ctl_saturated (v_ctl v') + of_nat (count_list (ps[t := pc]) Sat_add) =
    of_nat (count_list (hots v') 1) + of_nat (count_list (ps[t := pc]) Drn_sub)"
proof -
  have len: "t < length ps" and sub: "set (hots v) \<subseteq> {0, 1}"
    and eq0: "ctl_saturated (v_ctl v) + of_nat (count_list ps Sat_add) =
       of_nat (count_list (hots v) 1) + of_nat (count_list ps Drn_sub)"
    and own: "pc_in (length (v_shards v)) (ps ! t)"
    using I t by (simp_all add: latch_inv_def list_all_length)
  note upd = count_list_upd [OF len]
  from eq0 have eq: "ctl_saturated (v_ctl v) =
      of_nat (count_list (hots v) 1) + of_nat (count_list ps Drn_sub) - of_nat (count_list ps Sat_add)"
    by (simp add: eq_diff_eq)
  have pc: "pc = fst (latch_exec (ps ! t) v)" using e by simp
  have flag: "hots v ! j \<in> {0, 1}" "sh_hot (v_shards v ! j) = hots v ! j" if "j < length (v_shards v)" for j
    using that sub nth_mem [of j "hots v"] by (auto simp: hots_nth)
  show ?thesis
  proof (cases "ps ! t")
    case (Sat_cas j)
    then have j: "j < length (v_shards v)" using own by simp
    have s: "set ((hots v)[j := 1]) \<subseteq> {0, 1}" using sub set_update_subset_insert [of "hots v" j 1] by auto
    have "(hots v)[j := hots v ! j] = hots v" by simp
    then show ?thesis
      using pc eq flag [OF j] Sat_cas exec_effect(2,3) [OF e] count_flag [of j "hots v"] j s sub
      by (cases "hots v ! j = 0") (simp_all add: upd atomicCAS64_def)
  next
    case (Drn_cas j)
    then have j: "j < length (v_shards v)" using own by simp
    have s: "set ((hots v)[j := 0]) \<subseteq> {0, 1}" using sub set_update_subset_insert [of "hots v" j 0] by auto
    have "(hots v)[j := hots v ! j] = hots v" by simp
    then show ?thesis
      using pc eq flag [OF j] Drn_cas exec_effect(2,3) [OF e] count_flag [of j "hots v"] j s sub
      by (cases "hots v ! j = 0") (simp_all add: upd atomicCAS64_def)
  qed (use pc eq sub exec_effect(2,3) [OF e] in \<open>simp_all add: upd atomicCAS64_def atomicAdd64_def\<close>)
qed

lemma latch_inv_exec:
  assumes I: "latch_inv n ps v" and t: "t < n" and e: "latch_exec (ps ! t) v = (pc, v')"
  shows "latch_inv n (ps[t := pc]) v'"
proof -
  have len: "t < length ps" and wf: "gate_wf (v_valve v)"
    and mind: "\<not> isClosed (v_valve v) \<longrightarrow> ctl_saturated (v_ctl v) \<noteq> 0 \<longrightarrow> (\<exists>pc\<in>set ps. minds_gate pc)"
    using I t by (simp_all add: latch_inv_def)
  have keep: "\<exists>pc\<in>set (ps[t := pc]). minds_gate pc"
    if "\<exists>pc\<in>set ps. minds_gate pc" "minds_gate (ps ! t) \<Longrightarrow> minds_gate pc"
    using minds_upd [OF that len] .
  have new: "\<exists>pc\<in>set (ps[t := pc]). minds_gate pc" if "minds_gate pc"
    using that len set_update_memI by fast
  have pc: "pc = fst (latch_exec (ps ! t) v)" using e by simp
  have wf': "gate_wf (v_valve v')"
    using wf exec_effect(4) [OF e] by (auto simp: gate_wf_def atomicCAS64_def split: latch_pc.splits)
  have "\<not> isClosed (v_valve v') \<longrightarrow> ctl_saturated (v_ctl v') \<noteq> 0 \<longrightarrow> (\<exists>pc\<in>set (ps[t := pc]). minds_gate pc)"
  proof (cases "ps ! t")
    case Drn_sub
    then have "Sat_add \<in> set ps" if "ctl_saturated (v_ctl v) = 0" using that latch_inv_sub [OF I t] by simp
    then have "\<not> isClosed (v_valve v) \<longrightarrow> (\<exists>pc\<in>set ps. minds_gate pc)" using mind minds_gate.simps(1) by blast
    then show ?thesis using keep exec_effect(4) [OF e] Drn_sub by (simp add: isClosed_def)
  next
    case At_shut
    then show ?thesis using wf exec_effect(4) [OF e] by (auto simp: isClosed_def gate_wf_def atomicCAS64_def split: if_splits)
  next
    case Sat_add then show ?thesis using pc new by simp
  next
    case At_release then show ?thesis using pc new by (simp add: atomicCAS64_def)
  next
    case At_opens then show ?thesis using pc new by simp
  next
    case Drn_test
    then show ?thesis using pc new exec_effect(3) [OF e] by (cases "ctl_saturated (v_ctl v) = 0") simp_all
  qed (use keep mind exec_effect(3,4) [OF e] in \<open>simp_all add: isClosed_def\<close>)
  moreover have "list_all (pc_in (length (v_shards v'))) (ps[t := pc])"
    using I len exec_effect(1,5) [OF e] set_update_subset_insert [of ps t pc]
    by (auto simp: latch_inv_def list_all_iff)
  ultimately show ?thesis
    using I wf' exec_effect(1) [OF e] latch_counts_exec [OF assms] by (simp add: latch_inv_def)
qed

lemma latch_inv_call:
  assumes "latch_inv n ps v" "t < n" "ps ! t = Idle" "pc_in (length (v_shards v)) pc" "pc \<notin> {Sat_add, Drn_sub}"
  shows "latch_inv n (ps[t := pc]) v"
proof -
  have "list_all (pc_in (length (v_shards v))) (ps[t := pc])"
    using assms(1,4) set_update_subset_insert [of ps t pc] by (auto simp: latch_inv_def list_all_iff)
  then show ?thesis using assms minds_upd [of ps t pc] by (auto simp: latch_inv_def count_list_upd)
qed

lemma latch_reach_inv:
  assumes "latch_reach v0 n ps v" "latch_ok v0" "length (v_shards v0) + n < 2 ^ 64"
  shows "latch_inv n ps v"
  using assms
proof (induction rule: latch_reach.induct)
  case start
  then show ?case by (auto simp: latch_inv_def latch_ok_def count_list_0_iff list_all_iff)
next
  case (exec ps v t pc v')
  then show ?case by (intro latch_inv_exec) auto
next
  case (other ps v v')
  then have "length (v_shards v') = length (v_shards v)" by (metis latch_kept_def length_hots)
  then show ?case using other by (simp add: latch_inv_def latch_kept_def isClosed_def gate_wf_def)
qed (auto intro: latch_inv_call)

section \<open>Runs of one thread among others\<close>

lemma latch_reach_solo:
  assumes "latch_reach v0 n ps v" "t < n" "latch_solo k (ps ! t) v = (pc, v')" "length ps = n"
  shows "latch_reach v0 n (ps[t := pc]) v'"
  using assms
proof (induction k arbitrary: ps v)
  case (Suc k)
  obtain pc1 v1 where e: "latch_exec (ps ! t) v = (pc1, v1)" by fastforce
  have "latch_reach v0 n (ps[t := pc1]) v1" using latch_reach.exec [OF Suc.prems(1,2) e] .
  then have "latch_reach v0 n ((ps[t := pc1])[t := pc]) v'"
    using Suc.prems e by (intro Suc.IH) (simp_all add: latch_solo_Suc)
  then show ?case by simp
qed (auto simp: list_update_same_conv)

text \<open>A producer stopped just before its \<^verbatim>\<open>shut\<close>, and its end once it goes on.\<close>

lemma solo_before_shut:
  "sh_hot (v_shards v ! i) = 0 \<Longrightarrow> latch_solo 2 (Sat_cas i) v =
    (At_shut, upd_saturated (ctl_saturated (v_ctl v) + 1) (upd_shard i (sh_hot_update (\<lambda>_. 1)) v))"
  by (simp add: numeral_eq_Suc latch_solo_Suc atomicCAS64_def atomicAdd64_def)

lemma solo_shut: "latch_solo 2 At_shut v = (Idle, v\<lparr>v_valve := fst (shut (v_valve v))\<rparr>)"
  by (simp add: numeral_eq_Suc latch_solo_Suc shut_def atomicCAS64_def atomicAdd64_def)

section \<open>A frozen engine\<close>

definition frozen :: "Vaultage \<Rightarrow> bool" where
  "frozen v \<longleftrightarrow> isClosed (v_valve v) \<and> (\<forall>sh\<in>set (v_shards v). sh_hot sh = 0)"

lemma frozen_upd:
  assumes "frozen v" "sh_hot sh = 0"
  shows "frozen (v\<lparr>v_shards := (v_shards v)[i := sh]\<rparr>)"
  using assms set_update_subset_insert [of "v_shards v" i sh] by (auto simp: frozen_def)

lemma frozen_markDrained: "frozen v \<Longrightarrow> i < length (v_shards v) \<Longrightarrow> markDrained v i = v"
  by (simp add: frozen_def markDrained_def Let_def)

lemma drain_shard_hot: "drain_shard h mx i m sh rec tot s = (m', sh', rec', tot', s') \<Longrightarrow> sh_hot sh' = sh_hot sh"
proof (induction h mx i m sh rec tot s arbitrary: m' sh' rec' tot' s' rule: drain_shard.induct)
  case (1 h mx i m sh rec tot s)
  show ?case
    using 1(2) by (subst (asm) drain_shard.simps) (auto simp: Let_def split: if_splits prod.splits dest!: 1(1) [rotated -1])
qed

lemma frozen_drain_shards:
  assumes "frozen v" "set is \<subseteq> {..<length (v_shards v)}"
  shows "case drain_shards h mx is m v rec tot s of (m', v', tot', s') \<Rightarrow> frozen v'"
  using assms
proof (induction "is" arbitrary: m v rec tot s)
  case (Cons i "is")
  obtain m1 sh1 rec1 tot1 s1 where d: "drain_shard h mx (int i) m (v_shards v ! i) rec tot s = (m1, sh1, rec1, tot1, s1)"
    using prod_cases5 by blast
  have "sh_hot sh1 = 0" using drain_shard_hot [OF d] Cons.prems by (auto simp: frozen_def)
  then have f: "frozen (upd_shard i (\<lambda>_. sh1) v)" using Cons.prems(1) frozen_upd by simp
  moreover have "i < length (v_shards (upd_shard i (\<lambda>_. sh1) v))" using Cons.prems(2) by simp
  ultimately have "markDrained (upd_shard i (\<lambda>_. sh1) v) i = upd_shard i (\<lambda>_. sh1) v" by (rule frozen_markDrained)
  then show ?case using d Cons.IH [OF f, of m1 rec1 tot1 s1] Cons.prems(2) by simp
qed simp

end
