(* ===== verification/RaceThms.thy ===== *)
theory RaceThms
  imports EngineThms LatchRace
begin

text \<open>What the latch guarantees, and what it does not, when its accesses interleave.\<close>

lemma demo_latch:
  "\<exists>v. latch_ok v \<and> length (v_shards v) = 2 \<and> 1 \<notin> set (hots v) \<and> v_cfg v = demo_cfg \<and> nsh v = unat (v_shardN v) \<and>
     \<not> v_nil v \<and> ctl_running (v_ctl v) \<noteq> 0 \<and> v_payloadCap v = 64"
proof -
  obtain m v where r: "engine_reach demo_S m v (\<lambda>_. []) []" "fresh_engine demo_cfg 5 6 v" using demo_start by blast
  obtain G where H: "history_ok m v G (\<lambda>_. []) []" using demo.lin.reach_history [OF r(1)] by blast
  note E = historyD(1) [OF H]
  have "1 \<notin> set (hots v)" using r(2) by (auto simp: hots_def in_set_conv_nth fresh_engine_def)
  moreover have "v_payloadCap v = 64" using r(2) by (simp add: fresh_engine_def demo_cfg_simps)
  ultimately show ?thesis
    using engine_invD(2) [OF E] engine_coreD(1,2) [OF engine_invD(1) [OF E]] demo_fresh(2,4) [OF r(2)] historyD(3) [OF H]
    by (intro exI [of _ v]) simp
qed


text \<open>
  The step-wise model is the code's. A thread that runs through the atomic accesses of \<^verbatim>\<open>markSaturated\<close> or
  \<^verbatim>\<open>markDrained\<close> without interference returns, and leaves exactly what the definitions of the two functions say.
\<close>
theorem latch_solo_sequential:
  "latch_solo 4 (Sat_cas i) v = (Idle, markSaturated v i) \<and> latch_solo 9 (Drn_load i) v = (Idle, markDrained v i)"
  using solo_markSaturated solo_markDrained by blast

text \<open>
  C3: The gate is never left open over a hot shard. However the atomic accesses of any number of
  threads inside \<^verbatim>\<open>markSaturated\<close> and \<^verbatim>\<open>markDrained\<close> interleave, whenever all of them have returned the saturation
  counter is the number of hot shards, and while any shard is hot the gate is closed.
\<close>
theorem gate_never_open_over_hot:
  assumes "latch_reach v0 n ps v" "latch_ok v0" "length (v_shards v0) + n < 2 ^ 64" "set ps \<subseteq> {Idle}"
  shows "ctl_saturated (v_ctl v) = of_nat (count_list (hots v) 1) \<and>
    ((\<exists>i<length (v_shards v). sh_hot (v_shards v ! i) = 1) \<longrightarrow> isClosed (v_valve v))"
proof -
  note I = latch_reach_inv [OF assms(1-3)]
  have none: "count_list ps Sat_add = 0" "count_list ps Drn_sub = 0" "\<not> (\<exists>pc\<in>set ps. minds_gate pc)"
    using assms(4) by (auto simp: count_list_0_iff)
  then have c: "ctl_saturated (v_ctl v) = of_nat (count_list (hots v) 1)" using I by (simp add: latch_inv_def)
  have "isClosed (v_valve v)" if "i < length (v_shards v)" "sh_hot (v_shards v ! i) = 1" for i
  proof -
    have "1 \<in> set (hots v)" using that by (metis hots_nth length_hots nth_mem)
    then have "count_list (hots v) 1 \<noteq> 0" by (simp add: count_list_pos)
    moreover have "count_list (hots v) 1 < 2 ^ 64" using I count_le_length [of "hots v" 1] by (simp add: latch_inv_def)
    ultimately have "ctl_saturated (v_ctl v) \<noteq> 0" using c of_nat_eq64 [of "count_list (hots v) 1" 0] by simp
    then show ?thesis using I none(3) by (auto simp: latch_inv_def)
  qed
  then show ?thesis using c by blast
qed

theorem gate_never_open_over_hot_witness:
  "\<exists>v v'. latch_ok v \<and> latch_reach v 1 [Idle] v' \<and> sh_hot (v_shards v' ! 0) = 1 \<and> isClosed (v_valve v')"
proof -
  obtain v where v: "latch_ok v" "length (v_shards v) = 2" using demo_latch by blast
  have r0: "latch_reach v 1 [Idle] v" using latch_reach.start [of v 1] by simp
  have "latch_reach v 1 [Sat_cas 0] v" using latch_reach.saturate [OF r0, of 0 0] v(2) by simp
  from latch_reach_solo [OF this, of 0 4] have r: "latch_reach v 1 [Idle] (markSaturated v 0)"
    using solo_markSaturated [of 0 v] by simp
  have l: "0 < length (v_shards v)" "0 < length (v_shards (markSaturated v 0))"
    using v(2) markSaturated_same [of 0 v] by (simp_all add: same_but_latch_def)
  have "hots (markSaturated v 0) ! 0 = 1" using markSaturated_latch(2) [OF v(1) l(1)] l(1) by simp
  then have h: "sh_hot (v_shards (markSaturated v 0) ! 0) = 1" using l(2) by (simp add: hots_nth)
  have "isClosed (v_valve (markSaturated v 0))"
    using gate_never_open_over_hot [OF r v(1)] v(2) l(2) h by auto
  then show ?thesis using v(1) r h by blast
qed



text \<open>
  A frozen engine stays frozen. Once the gate is closed and no shard is hot, every valid
  publication is refused with \<^verbatim>\<open>ErrBackpressure\<close>, and neither \<^verbatim>\<open>Drain\<close> nor any turn of a worker reopens the gate,
  although the rings are, or become, empty: nothing short of \<^verbatim>\<open>Close\<close> does.
\<close>
theorem frozen_engine_stays_frozen:
  assumes "frozen v" "\<not> v_nil v" "ctl_running (v_ctl v) \<noteq> 0" "nsh v = unat (v_shardN v)"
  shows "(key \<noteq> 0 \<and> length payload \<le> unat (v_payloadCap v) \<longrightarrow>
      (\<exists>v'. publish m v key payload flags unixnano = Returned (Inl ErrBackpressure, m, v') \<and> frozen v')) \<and>
    (\<exists>n m' v' s'. Drain h mx rec m v s = Returned (n, m', v', s') \<and> frozen v') \<and>
    (i < nsh v \<longrightarrow> (\<exists>fin m' v' rec' idle' s'. worker_turn f i m v rec idle s = (fin, m', v', rec', idle', s') \<and> frozen v'))"
proof (intro conjI impI)
  assume "key \<noteq> 0 \<and> length payload \<le> unat (v_payloadCap v)"
  then show "\<exists>v'. publish m v key payload flags unixnano = Returned (Inl ErrBackpressure, m, v') \<and> frozen v'"
    using assms by (simp add: publish_def frozen_def reject_def isClosed_def not_less)
next
  have "set [0..<unat (v_shardN v)] \<subseteq> {..<nsh v}" using assms(4) by auto
  from frozen_drain_shards [OF assms(1) this, of h mx m rec 0 s]
  show "\<exists>n m' v' s'. Drain h mx rec m v s = Returned (n, m', v', s') \<and> frozen v'"
    using assms(2) by (auto simp: Drain_def split: prod.splits)
next
  assume i: "i < nsh v"
  obtain m1 sh1 rec1 n s1 where d: "drain_shard (Some f) drainBatch (int i) m (v_shards v ! i) rec 0 s = (m1, sh1, rec1, n, s1)"
    using prod_cases5 by blast
  have "sh_hot sh1 = 0" using drain_shard_hot [OF d] assms(1) i by (simp add: frozen_def)
  then have "frozen (upd_shard i (\<lambda>_. sh1) v)" using assms(1) frozen_upd by simp
  then show "\<exists>fin m' v' rec' idle' s'. worker_turn f i m v rec idle s = (fin, m', v', rec', idle', s') \<and> frozen v'"
    using d i frozen_markDrained [of "upd_shard i (\<lambda>_. sh1) v" i] by (auto simp: worker_turn_def Let_def)
qed

theorem frozen_engine_stays_frozen_witness:
  "\<exists>v v'. frozen v \<and> publish (\<lambda>_. 0) v 7 [1] 0 99 = Returned (Inl ErrBackpressure, \<lambda>_. 0, v') \<and> frozen v' \<and>
     (\<exists>n m2 v2 s2. Drain (Some logger) 0 zero_Record (\<lambda>_. 0) v [] = Returned (n, m2, v2, s2) \<and> frozen v2)"
proof -
  obtain v0 where v0: "1 \<notin> set (hots v0)" "latch_ok v0" "nsh v0 = unat (v_shardN v0)" "\<not> v_nil v0"
    "ctl_running (v_ctl v0) \<noteq> 0" "v_payloadCap v0 = 64" using demo_latch by blast
  define v where "v = upd_valve (\<lambda>g. fst (shut g)) v0"
  have "isClosed (v_valve v)" using v0(2) gv.close_ok by (auto simp: v_def latch_ok_def)
  moreover have "sh_hot sh = 0" if "sh \<in> set (v_shards v0)" for sh
  proof -
    have "sh_hot sh \<in> set (hots v0)" using that by (simp add: hots_def)
    then show ?thesis using v0(1,2) by (auto simp: latch_ok_def)
  qed
  ultimately have f: "frozen v" by (simp add: frozen_def v_def)
  moreover have "\<not> v_nil v" "ctl_running (v_ctl v) \<noteq> 0" "nsh v = unat (v_shardN v)" "v_payloadCap v = 64"
    using v0 by (simp_all add: v_def)
  ultimately show ?thesis
    using frozen_engine_stays_frozen [of v 7 "[1]" "\<lambda>_. 0" 0 99 "Some logger" 0 zero_Record "[]"] by fastforce
qed

end
