(* ===== verification/CtlPlane.thy ===== *)
theory CtlPlane
  imports EngineThms
begin

text \<open>
  Where the control blocks lie: \<^verbatim>\<open>globalCtl\<close> at the start of the control arena, then one block per shard at
  \<^verbatim>\<open>shardStride\<close> distance.
\<close>

definition shardPtr :: "Vaultage \<Rightarrow> u64" where
  "shardPtr v = arena_At (v_ctlArena v) ctlHeader"

definition shard_at :: "Vaultage \<Rightarrow> nat \<Rightarrow> u64" where
  "shard_at v i = shardPtr v + of_nat i * shardStride"

text \<open>The coherence line of an address, and the lines a structure occupies.\<close>

definition line_of :: "u64 \<Rightarrow> nat" where
  "line_of a = unat a div unat CoherenceStride"

definition lines_of :: "u64 \<Rightarrow> gotype \<Rightarrow> nat set" where
  "lines_of p t = (\<lambda>x. line_of (p + of_nat x)) ` {..<sizeof t}"

lemma lines_interval:
  assumes "unat p + sizeof t \<le> 2 ^ 64"
  shows "l \<in> lines_of p t \<Longrightarrow> unat p div 128 \<le> l \<and> 128 * l < unat p + sizeof t"
proof -
  assume "l \<in> lines_of p t"
  then obtain x where x: "x < sizeof t" "l = unat (p + of_nat x) div 128"
    by (auto simp: lines_of_def line_of_def CoherenceStride_def)
  have "unat (of_nat x :: u64) = x" using x(1) assms by (intro unat_of_nat64) simp
  then have "unat (p + of_nat x) = unat p + x" using x(1) assms by (subst unat_add64) simp_all
  then have "l = (unat p + x) div 128" using x(2) by simp
  then show ?thesis using x(1) div_le_mono [of "unat p" "unat p + x" 128] by auto
qed

text \<open>The geometry, once the control arena is what \<^verbatim>\<open>NewArena\<close> promises.\<close>

definition ctl_fits :: "Vaultage \<Rightarrow> bool" where
  "ctl_fits v \<longleftrightarrow> 2097152 dvd unat (a_base (v_ctlArena v)) \<and>
     unat (a_base (v_ctlArena v)) + unat (a_size (v_ctlArena v)) \<le> 2 ^ 64 \<and>
     768 + 1792 * nsh v \<le> unat (a_size (v_ctlArena v))"

lemma shard_at_unat:
  assumes "ctl_fits v" "i < nsh v"
  shows "unat (shard_at v i) = unat (a_base (v_ctlArena v)) + 768 + 1792 * i"
    "unat (shard_at v i) + 1792 \<le> unat (a_base (v_ctlArena v)) + unat (a_size (v_ctlArena v))"
proof -
  let ?b = "unat (a_base (v_ctlArena v))"
  have fit: "?b + 768 + 1792 * (i + 1) \<le> ?b + unat (a_size (v_ctlArena v))" "?b + unat (a_size (v_ctlArena v)) \<le> 2 ^ 64"
    using assms by (auto simp: ctl_fits_def)
  then have i: "unat (of_nat i :: u64) = i" by (intro unat_of_nat64) simp
  have "unat (of_nat i * 1792 :: u64) = i * 1792" using fit i by (subst unat_mult64) simp_all
  moreover have "unat (a_base (v_ctlArena v) + 768) = ?b + 768" using fit by (subst unat_add64) simp_all
  ultimately show "unat (shard_at v i) = ?b + 768 + 1792 * i"
    using fit by (simp add: shard_at_def shardPtr_def arena_At_def strides, subst unat_add64) simp_all
  then show "unat (shard_at v i) + 1792 \<le> ?b + unat (a_size (v_ctlArena v))" using fit by simp
qed

context os_memory
begin

lemma New_ctl_fits:
  assumes new: "New S gomaxprocs t1 t2 cfg0 m k = Some (Inr v, m', k')" and fits: "config_fits (v_cfg v)"
  shows "ctl_fits v" "isAligned (a_base (v_ctlArena v)) HugePageSize"
proof -
  obtain cfg m1 k1 where c: "v_cfg v = cfg"
    and ctl: "NewArena S (ctlHeader + shardStride * c_Shards cfg) False (c_RequirePinned cfg) m k = Some (Inr (v_ctlArena v), m1, k1)"
    using new by (rule New_okD)
  have small: "unat (c_Shards cfg) \<le> 2 ^ 40" using fits c by (simp add: config_fits_def)
  then have req: "unat (ctlHeader + shardStride * c_Shards cfg) = 768 + 1792 * unat (c_Shards cfg)" by (rule ctl_request)
  note A = NewArena_ok [OF ctl]
  show al: "isAligned (a_base (v_ctlArena v)) HugePageSize" using A req small by simp
  moreover have "nsh v = unat (c_Shards cfg)" using New_stack [OF new fits] c by (simp add: fresh_engine_def)
  moreover have "768 + 1792 * unat (c_Shards cfg) \<le> unat (a_size (v_ctlArena v))"
    using A req small alignUp_huge(1) [of "ctlHeader + shardStride * c_Shards cfg"] by simp
  moreover have "unat (a_base (v_ctlArena v)) + unat (a_size (v_ctlArena v)) \<le> 2 ^ 64"
  proof -
    have "span_ok (v_ctlArena v) k k1" using A req small by simp
    then show ?thesis by (simp add: span_ok_def)
  qed
  ultimately show "ctl_fits v"
    using isAligned_iff [of 21 "a_base (v_ctlArena v)"] by (simp add: ctl_fits_def HugePageSize_pow2)
qed

end

text \<open>
  The control plane is isolated. In an engine that \<^verbatim>\<open>New\<close> returns, every shard's control block and the
  global one start on a coherence stride and lie inside the control arena, and no two of them share a
  coherence line: the rounding of \<^verbatim>\<open>shardStride\<close> and \<^verbatim>\<open>ctlHeader\<close> makes the padding exact.
\<close>
theorem control_blocks_isolated:
  assumes "vm_laws K mapped" "S \<in> {linux_sys K, darwin_sys K}" "config_fits (v_cfg v)"
    and "New S gomaxprocs t1 t2 cfg0 m k = Some (Inr v, m', k')" "i < nsh v" "j < nsh v" "i \<noteq> j"
  shows "isAligned (shard_at v i) CoherenceStride \<and>
    unat (shard_at v i) + sizeof shard_t \<le> unat (a_base (v_ctlArena v)) + unat (a_size (v_ctlArena v)) \<and>
    lines_of (shard_at v i) shard_t \<inter> lines_of (shard_at v j) shard_t = {} \<and>
    lines_of (shard_at v i) shard_t \<inter> lines_of (a_base (v_ctlArena v)) globalCtl_t = {}"
proof -
  note F = os_memory.New_ctl_fits [OF platform_os [OF assms(1,2)] assms(4,3)]
  note pi = shard_at_unat [OF F(1) assms(5)] and pj = shard_at_unat [OF F(1) assms(6)]
  let ?b = "unat (a_base (v_ctlArena v))"
  obtain q where q: "?b = 128 * q" using F(1) by (auto simp: ctl_fits_def dest!: dvd_trans [of 128, rotated] elim!: dvdE)
  have al: "isAligned (shard_at v i) CoherenceStride"
    using isAligned_iff [of 7 "shard_at v i"] pi(1) q by (simp add: CoherenceStride_def)
  have top: "?b + unat (a_size (v_ctlArena v)) \<le> 2 ^ 64" using F(1) by (simp add: ctl_fits_def)
  have blk: "q + 6 + 14 * a \<le> l \<and> l < q + 20 + 14 * a"
    if "l \<in> lines_of (shard_at v a) shard_t" "a \<in> {i, j}" for l a
  proof -
    have u: "unat (shard_at v a) = 128 * (q + 6 + 14 * a)" "unat (shard_at v a) + 1792 \<le> 2 ^ 64"
      using pi pj that(2) q top by auto
    then show ?thesis using lines_interval [of "shard_at v a" shard_t l] that(1) by (auto simp: shard_size)
  qed
  have ctl: "l < q + 6" if "l \<in> lines_of (a_base (v_ctlArena v)) globalCtl_t" for l
    using lines_interval [of "a_base (v_ctlArena v)" globalCtl_t l] that q pi top by (simp add: globalCtl_size)
  have "i < j \<or> j < i" using assms(7) by arith
  then have "lines_of (shard_at v i) shard_t \<inter> lines_of (shard_at v j) shard_t = {}"
    using blk [of _ i] blk [of _ j] by fastforce
  moreover have "lines_of (shard_at v i) shard_t \<inter> lines_of (a_base (v_ctlArena v)) globalCtl_t = {}"
    using blk [of _ i] ctl by fastforce
  ultimately show ?thesis using al pi top by (simp add: shard_size)
qed

theorem control_blocks_isolated_witness:
  "\<exists>v m' k'. New demo_S 8 5 6 demo_config (\<lambda>_. 7) ({}, 4096) = Some (Inr v, m', k') \<and>
     lines_of (shard_at v 0) shard_t \<inter> lines_of (shard_at v 1) shard_t = {}"
proof -
  obtain m v k where n: "New demo_S 8 5 6 demo_config (\<lambda>_. 7) ({}, 4096) = Some (Inr v, m, k)" "fresh_engine demo_cfg 5 6 v"
    using demo_start by blast
  have "lines_of (shard_at v 0) shard_t \<inter> lines_of (shard_at v 1) shard_t = {}"
    using control_blocks_isolated [OF demo_vm(1) _ _ n(1), of 0 1] demo_fresh(2,4) [OF n(2)] demo_fits by simp
  then show ?thesis using n(1) by blast
qed

end
