(* ===== verification/WorkerThms.thy ===== *)
theory WorkerThms
  imports EngineThms
begin

text \<open>Liveness of the consumers: whatever the order in which the workers get their turns, they empty the rings and the
  gate reopens.\<close>

text \<open>Worker turns in a given order; every worker keeps its scratch record and idle count.\<close>

fun turns :: "'h handler \<Rightarrow> nat list \<Rightarrow> mem \<Rightarrow> Vaultage \<Rightarrow> (nat \<Rightarrow> Record \<times> int) \<Rightarrow> 'h \<Rightarrow> mem \<times> Vaultage \<times> 'h" where
  "turns h [] m v W s = (m, v, s)"
| "turns h (i # is) m v W s =
     (case worker_turn h i m v (fst (W i)) (snd (W i)) s of (stop, m1, v1, rec1, idle1, s1) \<Rightarrow>
        turns h is m1 v1 (W(i := (rec1, idle1))) s1)"

lemma turn_moves:
  assumes H: "history_ok m v G A D" and i: "i < nsh v"
    and run: "worker_turn logger i m v rec idle D = (stop, m', v', rec', idle', D')"
  shows "nsh v' = nsh v" "j < nsh v \<Longrightarrow> rT (rg v' j) = rT (rg v j)"
    "j < nsh v \<Longrightarrow> rT (rg v' j) - rH (rg v' j) = rT (rg v j) - rH (rg v j) - (if j = i then 256 else 0)"
proof -
  note h = historyD [OF H]
  define k where "k = batch drainBatch 0 (rT (rg v i) - rH (rg v i))"
  let ?f = "\<lambda>i e s. s @ [(i, e)]"
  obtain m1 rec1 v1 D1 where d: "drain_shard (Some logger) drainBatch (int i) m (v_shards v ! i) rec 0 D =
      (m1, drained (v_shards v ! i) k, rec1, int k, D1)"
    "v1 = upd_shard i (\<lambda>_. drained (v_shards v ! i) k) v" "only_heads v v1"
    "rH (rg v1 i) = rH (rg v i) + k" "\<forall>j<nsh v. j \<noteq> i \<longrightarrow> rg v1 j = rg v j" "k \<le> rT (rg v i) - rH (rg v i)"
    using drain_one [OF h(1) i, of ?f drainBatch rec 0 D, folded k_def] unfolding logger_def by auto
  have n1: "nsh v1 = nsh v" and T1: "\<And>j. j < nsh v \<Longrightarrow> r_tail (rg v1 j) = r_tail (rg v j)"
    using d(3) by (auto simp: only_heads_def)
  have "v' = v1 \<or> v' = markDrained v1 i" using run d(1,2) by (auto simp: worker_turn_def Let_def split: if_splits)
  then have same: "nsh v' = nsh v1 \<and> (\<forall>j<nsh v1. rg v' j = rg v1 j)"
    using same_but_latchD(1,2) [OF markDrained_same [of i v1]] i n1 by auto
  show "nsh v' = nsh v" using same n1 by simp
  show "rT (rg v' j) = rT (rg v j)" if "j < nsh v" using same n1 that T1 [OF that] by simp
  show "rT (rg v' j) - rH (rg v' j) = rT (rg v j) - rH (rg v j) - (if j = i then 256 else 0)" if "j < nsh v"
    using same n1 that T1 [OF that] d(4,5) by (auto simp: k_def batch_def drainBatch_def)
qed

lemma turns_empty:
  assumes "engine_reach S m v A D" "history_ok m v G A D" "set sched \<subseteq> {..<nsh v}"
    and "\<And>i. i < nsh v \<Longrightarrow> rT (rg v i) - rH (rg v i) \<le> 256 * count_list sched i"
  shows "\<exists>m' v' D'. turns logger sched m v W D = (m', v', D') \<and> engine_reach S m' v' A D' \<and> history_ok m' v' G A D' \<and>
    nsh v' = nsh v \<and> (\<forall>i<nsh v. rT (rg v' i) = rT (rg v i) \<and> rT (rg v' i) \<le> rH (rg v' i))"
  using assms
proof (induction sched arbitrary: m v W D)
  case (Cons i "is")
  obtain stop m1 v1 rec1 idle1 D1 where t: "worker_turn logger i m v (fst (W i)) (snd (W i)) D = (stop, m1, v1, rec1, idle1, D1)"
    using prod_cases6 by blast
  have i: "i < nsh v" using Cons.prems(3) by simp
  note mv = turn_moves [OF Cons.prems(2) i t]
  have r: "engine_reach S m1 v1 A D1" using engine_reach.turn [OF Cons.prems(1) i t] .
  have "rT (rg v1 j) - rH (rg v1 j) \<le> 256 * count_list is j" if "j < nsh v1" for j
    using Cons.prems(4) [of j] mv(1) mv(3) [of j] that by (cases "j = i") simp_all
  moreover have "set is \<subseteq> {..<nsh v1}" using Cons.prems(3) mv(1) by simp
  from Cons.IH [OF r history_turn(1) [OF Cons.prems(2) i t] \<open>set is \<subseteq> _\<close> calculation, of "W(i := (rec1, idle1))"]
  show ?case using t mv(1,2) by (simp del: fun_upd_apply)
qed auto

text \<open>
  C15: The gate thaws. From every state a run reaches, if the workers get turns in any order whatever, as
  long as each shard's worker gets one turn per 256 pending records, then every accepted record
  has been delivered, every ring is empty, and the gate is open: no publication is refused for good.
\<close>
theorem workers_reopen_gate:
  assumes "vm_laws K mapped" "S \<in> {linux_sys K, darwin_sys K}" "engine_reach S m v A D" "set sched \<subseteq> {..<nsh v}"
    and "\<And>i. i < nsh v \<Longrightarrow> unat (pending (rg v i)) \<le> 256 * count_list sched i"
  shows "\<exists>m' v' D'. turns logger sched m v W D = (m', v', D') \<and> engine_reach S m' v' A D' \<and> \<not> isClosed (v_valve v') \<and>
    (\<forall>i<nsh v. pending (rg v' i) = 0 \<and> delivered_at D' i = map committed_entry (A i))"
proof -
  obtain G where H: "history_ok m v G A D" using platform_history [OF assms(1-3)] .
  have le: "rH (rg v i) \<le> rT (rg v i)" if "i < nsh v" for i
    using shard_quiet(2) [OF engine_coreD(5) [OF engine_invD(1) [OF historyD(1) [OF H]]]] that by simp
  have "rT (rg v i) - rH (rg v i) \<le> 256 * count_list sched i" if "i < nsh v" for i
    using assms(5) [OF that] pending_unat [OF le [OF that]] by simp
  from turns_empty [OF assms(3) H assms(4) this, of W] obtain m' v' D' where
    t: "turns logger sched m v W D = (m', v', D')" "engine_reach S m' v' A D'" "history_ok m' v' G A D'"
      "nsh v' = nsh v" "\<forall>i<nsh v. rT (rg v' i) = rT (rg v i) \<and> rT (rg v' i) \<le> rH (rg v' i)" by blast
  note h' = historyD [OF t(3)]
  have eq: "rH (rg v' i) = rT (rg v' i)" if "i < nsh v" for i
    using shard_quiet(2) [OF engine_coreD(5) [OF engine_invD(1) [OF h'(1)]]] t(4,5) that by (metis le_antisym)
  then have pend: "pending (rg v' i) = 0" if "i < nsh v" for i
    using that by (simp add: pending_def word_unat_eq_iff [symmetric])
  have del: "delivered_at D' i = map committed_entry (A i)" if "i < nsh v" for i
    using h'(7,8) eq [OF that] t(4) that by simp
  have cold: "hots v' ! i \<noteq> 1" if "i < nsh v" for i
    using h'(2) t(4) that pend [OF that] by (auto simp: water_ok_def mark_ok_def occupancyPct_def)
  then have "1 \<notin> set (hots v')" using t(4) by (auto simp: in_set_conv_nth)
  then have "\<not> isClosed (v_valve v')" using engine_invD(2) [OF h'(1)] by (simp add: latch_ok_def)
  then show ?thesis using t(1,2) pend del by blast
qed

theorem workers_reopen_gate_witness:
  "\<exists>m v A m' v' D'. engine_reach demo_S m v A [] \<and> turns logger [0, 1] m v (\<lambda>_. (zero_Record, 0)) [] = (m', v', D') \<and>
     (\<exists>i. length (delivered_at D' i) = 1) \<and> \<not> isClosed (v_valve v')"
proof -
  obtain m v m' v' A where r: "engine_reach demo_S m' v' A []" "fresh_engine demo_cfg 5 6 v" "engine_reach demo_S m v (\<lambda>_. []) []"
    "publish m v 7 [1, 2, 3] 0 99 = Returned (Inr 1, m', v')"
    "A (shard_of v 7) = [entry_of 1 7 (now_ts v 99) 0 [1, 2, 3] (digest v [1, 2, 3])]" "\<forall>j. j \<noteq> shard_of v 7 \<longrightarrow> A j = []"
    using demo_published by blast
  obtain G where H: "history_ok m' v' G A []" using demo.lin.reach_history [OF r(1)] by blast
  obtain G0 where H0: "history_ok m v G0 (\<lambda>_. []) []" using demo.lin.reach_history [OF r(3)] by blast
  have i: "shard_of v 7 < nsh v'" using historyD(7) [OF H, of "shard_of v 7"] r(5) by (simp split: if_splits)
  have n: "nsh v' = 2" using history_publish(6) [OF H0 demo_fresh(1) [OF r(2)] r(4)] demo_fresh(2) [OF r(2)] by simp
  have one: "unat (pending (rg v' j)) \<le> 256 * count_list [0, 1] j" if "j < nsh v'" for j
  proof -
    have "length (A j) \<le> 1" using r(5,6) by (cases "j = shard_of v 7") auto
    then have "rT (rg v' j) \<le> 1" using historyD(7) [OF H, of j] that by simp
    moreover have "unat (pending (rg v' j)) = rT (rg v' j) - rH (rg v' j)"
      by (rule pending_unat [OF shard_quiet(2) [OF engine_coreD(5) [OF engine_invD(1) [OF historyD(1) [OF H]] that]]])
    ultimately show ?thesis using that n by (auto simp: less_2_cases_iff)
  qed
  from workers_reopen_gate [OF demo_vm(1) _ r(1), of "[0, 1]" "\<lambda>_. (zero_Record, 0)"] one n
  obtain m1 v1 D1 where "turns logger [0, 1] m' v' (\<lambda>_. (zero_Record, 0)) [] = (m1, v1, D1)" "\<not> isClosed (v_valve v1)"
    "delivered_at D1 (shard_of v 7) = map committed_entry (A (shard_of v 7))" using i by auto
  moreover from this have "length (delivered_at D1 (shard_of v 7)) = 1" using r(5) by simp
  ultimately show ?thesis using r(1) by blast
qed

end
