(* ===== verification/Handlers.thy ===== *)
theory Handlers
  imports Fabric
begin

text \<open>
  What a handler keeps does not influence the engine. If one handler's state is a function of
  another's, then so it is after every operation that calls them, and everything else is the same. Facts proved for
  the handler that logs what it sees thus hold for every handler that computes a function of the log.
\<close>

lemma drain_shard_step:
  assumes "mx \<le> 0 \<or> tot < mx" "dequeue m (sh_ring sh) rec = ((pos, True), rec1, m1, r1)"
  shows "drain_shard (Some h) mx i m sh rec tot s =
    drain_shard (Some h) mx i (release m1 r1 pos) (sh\<lparr>sh_ring := r1, sh_consumed := fst (atomicAdd64 (sh_consumed sh) 1)\<rparr>)
      (rec1\<lparr>Shard := i\<rparr>) (tot + 1) (h m1 (rec1\<lparr>Shard := i\<rparr>) s)"
  using assms by (subst drain_shard.simps) (simp add: Let_def)

locale handler_view =
  fixes h1 :: "'a handler" and h2 :: "'b handler" and view :: "'a \<Rightarrow> 'b"
  assumes step: "view (h1 m rec s) = h2 m rec (view s)"
begin

lemma drain_shard_view:
  "drain_shard (Some h1) mx i m sh rec tot s = (m', sh', rec', tot', s') \<Longrightarrow>
   drain_shard (Some h2) mx i m sh rec tot (view s) = (m', sh', rec', tot', view s')"
proof (induction "Some h1" mx i m sh rec tot s arbitrary: m' sh' rec' tot' s' rule: drain_shard.induct)
  case (1 mx i m sh rec tot s)
  show ?case
  proof (cases "mx \<le> 0 \<or> tot < mx")
    case True
    obtain pos ok rec1 m1 r1 where d: "dequeue m (sh_ring sh) rec = ((pos, ok), rec1, m1, r1)" by (metis prod.exhaust)
    show ?thesis
    proof (cases ok)
      case ok: True
      then show ?thesis
        using 1(1) [OF True d [symmetric] refl refl refl _ refl refl refl refl] 1(2) d step
          drain_shard_step [OF True, of m sh rec pos rec1 m1 r1 h1 i s]
          drain_shard_step [OF True, of m sh rec pos rec1 m1 r1 h2 i "view s"] by simp
    next
      case False
      then show ?thesis using 1(2) True d by (subst drain_shard.simps, subst (asm) drain_shard.simps) auto
    qed
  next
    case False
    then show ?thesis using 1(2) by (subst drain_shard.simps, subst (asm) drain_shard.simps) auto
  qed
qed

lemma drain_shards_view:
  "drain_shards (Some h1) mx is m v rec tot s = (m', v', tot', s') \<Longrightarrow>
   drain_shards (Some h2) mx is m v rec tot (view s) = (m', v', tot', view s')"
  by (induction "is" arbitrary: m v rec tot s) (auto split: prod.splits dest!: drain_shard_view)

lemma Drain_view:
  "Drain (Some h1) mx rec m v s = Returned (n, m', v', s') \<Longrightarrow> Drain (Some h2) mx rec m v (view s) = Returned (n, m', v', view s')"
  by (auto simp: Drain_def split: if_splits prod.splits dest!: drain_shards_view)

lemma worker_turn_view:
  "worker_turn h1 i m v rec idle s = (stop, m', v', rec', idle', s') \<Longrightarrow>
   worker_turn h2 i m v rec idle (view s) = (stop, m', v', rec', idle', view s')"
  by (auto simp: worker_turn_def Let_def split: if_splits prod.splits dest!: drain_shard_view)

lemma worker_run_view:
  assumes "worker_run h1 i m v rec idle s = Some (m', v', s')"
  shows "worker_run h2 i m v rec idle (view s) = Some (m', v', view s')"
proof -
  have "h1 = h1 \<longrightarrow> worker_run h2 i m v rec idle (view s) = Some (case (m', v', s') of (m', v', s') \<Rightarrow> (m', v', view s'))"
  proof (rule worker_run.raw_induct [OF _ assms, where P = "\<lambda>h i m v rec idle s y. h = h1 \<longrightarrow>
      worker_run h2 i m v rec idle (view s) = Some (case y of (m', v', s') \<Rightarrow> (m', v', view s'))"])
    fix run h i m v rec idle s y
    assume 1: "\<And>h i m v rec idle s y. run h i m v rec idle s = Some y \<Longrightarrow>
        h = h1 \<longrightarrow> worker_run h2 i m v rec idle (view s) = Some (case y of (m', v', s') \<Rightarrow> (m', v', view s'))"
      "(case worker_turn h i m v rec idle s of (done, m1, v1, rec1, idle1, s1) \<Rightarrow>
          if done then Some (m1, v1, s1) else run h i m1 v1 rec1 idle1 s1) = Some y"
    show "h = h1 \<longrightarrow> worker_run h2 i m v rec idle (view s) = Some (case y of (m', v', s') \<Rightarrow> (m', v', view s'))"
    proof
      assume h: "h = h1"
      obtain stop m1 v1 rec1 idle1 s1 where t: "worker_turn h1 i m v rec idle s = (stop, m1, v1, rec1, idle1, s1)"
        using prod_cases6 by blast
      note t2 = worker_turn_view [OF t]
      show "worker_run h2 i m v rec idle (view s) = Some (case y of (m', v', s') \<Rightarrow> (m', v', view s'))"
      proof (cases stop)
        case True
        then show ?thesis using 1(2) t t2 h by (subst worker_run.simps) auto
      next
        case False
        then have "run h1 i m1 v1 rec1 idle1 s1 = Some y" using 1(2) t h by simp
        from 1(1) [OF this] show ?thesis using False t2 by (subst worker_run.simps) simp
      qed
    qed
  qed
  then show ?thesis by simp
qed

lemma wait_workers_view:
  "wait_workers h1 is m v s = Some (m', v', s') \<Longrightarrow> wait_workers h2 is m v (view s) = Some (m', v', view s')"
  by (induction "is" arbitrary: m v s) (auto split: option.splits dest!: worker_run_view)

lemma Close_view:
  "Close S h1 m v s k = Returned (err, m', v', s', k') \<Longrightarrow> Close S h2 m v (view s) k = Returned (err, m', v', view s', k')"
  by (auto simp: Close_def Let_def split: if_splits option.splits prod.splits dest!: wait_workers_view)

end

end
