(* ===== verification/Driver.thy ===== *)
theory Driver
  imports StatsThms CloseThms Handlers
begin

text \<open>
  \<^verbatim>\<open>cmd/vaultagectl/main.go\<close>: the load driver. Its flags become a configuration; each producer publishes a run of
  keys of its own and tallies the answers; the consumer counts records and bytes. Producers are run one
  after the other here, each without interference. Flag parsing and timing are not modelled; for the
  printed reports see \<open>Report\<close>, for the whole of \<^verbatim>\<open>main\<close> see \<open>CtlMain\<close>; whether the deadline has passed at a given iteration is an argument.
\<close>

section \<open>The program\<close>

definition ctl_config :: "u64 \<Rightarrow> u64 \<Rightarrow> u64 \<Rightarrow> u64 \<Rightarrow> bool \<Rightarrow> bool \<Rightarrow> u64 \<Rightarrow> Config" where
  "ctl_config gomaxprocs shards cells payload huge pinned coarse =
     (DefaultConfig gomaxprocs)\<lparr>c_Shards := shards, c_CellsPerShard := cells, c_PayloadCapacity := payload,
       c_RequireHugePages := huge, c_RequirePinned := pinned, c_CoarseClock := coarse, c_Consumer := True\<rparr>"

text \<open>The consumer's counters: records and payload bytes.\<close>

definition count_consumer :: "(u64 \<times> u64) handler" where
  "count_consumer m rec s = (case s of (consumed, bytes) \<Rightarrow>
     (fst (atomicAdd64 consumed 1), fst (atomicAdd64 bytes (of_nat (sl_len (Payload rec))))))"

record tally =
  ta_published :: u64
  ta_backpressed :: u64
  ta_full :: u64
  ta_stderr :: "error list"

text \<open>\<open>ta_stderr\<close> collects the errors that a producer reports before it gives up.\<close>

definition producer_key :: "u64 \<Rightarrow> u64 \<Rightarrow> nat \<Rightarrow> u64" where
  "producer_key p records i = p * records + of_nat i + 1"

fun producer :: "(nat \<Rightarrow> bool) \<Rightarrow> (nat \<Rightarrow> u64) \<Rightarrow> u8 list \<Rightarrow> u64 \<Rightarrow> u64 \<Rightarrow> nat list \<Rightarrow> mem \<Rightarrow> Vaultage \<Rightarrow> tally
    \<Rightarrow> (mem \<times> Vaultage \<times> tally) outcome" where
  "producer late clock buf p records [] m v t = Returned (m, v, t)"
| "producer late clock buf p records (i # is) m v t =
     (if i mod 1024 = 0 \<and> late i then Returned (m, v, t)
      else case Publish m v (producer_key p records i) buf (clock i) of
        NilDeref \<Rightarrow> NilDeref
      | Hangs \<Rightarrow> Hangs
      | Returned (Inr _, m1, v1) \<Rightarrow>
          producer late clock buf p records is m1 v1 (t\<lparr>ta_published := fst (atomicAdd64 (ta_published t) 1)\<rparr>)
      | Returned (Inl ErrBackpressure, m1, v1) \<Rightarrow>
          producer late clock buf p records is m1 v1 (t\<lparr>ta_backpressed := fst (atomicAdd64 (ta_backpressed t) 1)\<rparr>)
      | Returned (Inl ErrShardFull, m1, v1) \<Rightarrow>
          producer late clock buf p records is m1 v1 (t\<lparr>ta_full := fst (atomicAdd64 (ta_full t) 1)\<rparr>)
      | Returned (Inl err, m1, v1) \<Rightarrow> Returned (m1, v1, t\<lparr>ta_stderr := ta_stderr t @ [err]\<rparr>))"

fun producers :: "(nat \<Rightarrow> nat \<Rightarrow> bool) \<Rightarrow> (nat \<Rightarrow> nat \<Rightarrow> u64) \<Rightarrow> u8 list \<Rightarrow> nat \<Rightarrow> nat list \<Rightarrow> mem \<Rightarrow> Vaultage \<Rightarrow> tally
    \<Rightarrow> (mem \<times> Vaultage \<times> tally) outcome" where
  "producers late clock buf records [] m v t = Returned (m, v, t)"
| "producers late clock buf records (p # ps) m v t =
     (case producer (late p) (clock p) buf (of_nat p) (of_nat records) [0..<records] m v t of
        NilDeref \<Rightarrow> NilDeref
      | Hangs \<Rightarrow> Hangs
      | Returned (m1, v1, t1) \<Rightarrow> producers late clock buf records ps m1 v1 t1)"

text \<open>The load phase and the shutdown of \<^verbatim>\<open>main\<close>, on an engine that \<^verbatim>\<open>New\<close> returned.\<close>

definition ctl_run :: "'k sys \<Rightarrow> (nat \<Rightarrow> nat \<Rightarrow> bool) \<Rightarrow> (nat \<Rightarrow> nat \<Rightarrow> u64) \<Rightarrow> u8 list \<Rightarrow> nat \<Rightarrow> nat \<Rightarrow> mem \<Rightarrow> Vaultage \<Rightarrow> 'k
    \<Rightarrow> (tally \<times> Stats \<times> error option \<times> u64 \<times> u64 \<times> 'k) outcome" where
  "ctl_run S late clock buf nproducers records m v k =
     (case producers late clock buf records [0..<nproducers] m v \<lparr>ta_published = 0, ta_backpressed = 0, ta_full = 0, ta_stderr = []\<rparr> of
        NilDeref \<Rightarrow> NilDeref
      | Hangs \<Rightarrow> Hangs
      | Returned (m1, v1, t) \<Rightarrow>
          (case engine_Stats v1 of
             NilDeref \<Rightarrow> NilDeref
           | Hangs \<Rightarrow> Hangs
           | Returned st \<Rightarrow>
               (case Close S count_consumer m1 v1 (0, 0) k of
                  NilDeref \<Rightarrow> NilDeref
                | Hangs \<Rightarrow> Hangs
                | Returned (err, m2, v2, (consumed, bytes), k2) \<Rightarrow> Returned (t, st, err, consumed, bytes, k2))))"

definition max64 :: "u64 \<Rightarrow> u64 \<Rightarrow> u64" where
  "max64 a b = (if a > b then a else b)"

section \<open>Keys\<close>

lemma producer_key_unat:
  assumes "p < P" "i < records" "P * records < 2 ^ 64"
  shows "unat (producer_key (of_nat p) (of_nat records) i) = p * records + i + 1"
proof -
  have "(p + 1) * records \<le> P * records" using assms(1) by (intro mult_le_mono1) simp
  then have le: "p * records + i + 1 \<le> P * records" using assms(2) by simp
  have "producer_key (of_nat p) (of_nat records) i = of_nat (p * records + i + 1)" by (simp add: producer_key_def)
  moreover have "p * records + i + 1 < 2 ^ 64" using le assms(3) by simp
  ultimately show ?thesis by (simp only: unat_of_nat64)
qed

text \<open>
  The driver never publishes the forbidden key 0, and no two of its publications share a key, as long as the
  total number of records fits in 64 bits.
\<close>
theorem producer_keys_distinct:
  assumes "p < P" "i < records" "q < P" "j < records" "P * records < 2 ^ 64"
  shows "producer_key (of_nat p) (of_nat records) i \<noteq> 0 \<and>
    (producer_key (of_nat p) (of_nat records) i = producer_key (of_nat q) (of_nat records) j \<longleftrightarrow> p = q \<and> i = j)"
proof -
  note u = producer_key_unat [OF assms(1,2,5)] producer_key_unat [OF assms(3,4,5)]
  have "p = q \<and> i = j" if "p * records + i = q * records + j"
  proof -
    have "(p * records + i) div records = p" "(q * records + j) div records = q" using assms(2,4) by simp_all
    then show ?thesis using that by auto
  qed
  then show ?thesis using u by (auto simp: unat_eq_zero [symmetric] word_unat_eq_iff)
qed

theorem producer_keys_distinct_witness:
  "producer_key 3 1000 17 \<noteq> 0 \<and> producer_key 3 1000 17 \<noteq> producer_key 2 1000 17"
  using producer_keys_distinct [of 3 8 17 1000 2 17] by simp

section \<open>Accounting\<close>

definition same_frame :: "Vaultage \<Rightarrow> Vaultage \<Rightarrow> bool" where
  "same_frame v v' \<longleftrightarrow> v_cfg v' = v_cfg v \<and> v_payloadCap v' = v_payloadCap v \<and> v_arenas v' = v_arenas v \<and>
     v_ctlArena v' = v_ctlArena v \<and> nsh v' = nsh v \<and> (\<forall>j<nsh v. r_capacity (rg v' j) = r_capacity (rg v j))"

lemma same_frame_trans: "same_frame u v \<Longrightarrow> same_frame v w \<Longrightarrow> same_frame u w"
  by (simp add: same_frame_def)

text \<open>A valid publication is accepted or refused by the gate; nothing else happens to a lone thread.\<close>

lemma publish_step:
  assumes H: "history_ok m v G A D" and room: "engine_room v" and key: "key \<noteq> 0" and len: "length buf \<le> unat (v_payloadCap v)"
  shows "(\<exists>t m' v' G' i e. Publish m v key buf u = Returned (Inr t, m', v') \<and> history_ok m' v' G' (A(i := A i @ [e])) D \<and>
      e_payload e = buf \<and> i < nsh v \<and> same_frame v v' \<and> ctl_ticket (v_ctl v') = ctl_ticket (v_ctl v) + 1) \<or>
    (\<exists>v'. Publish m v key buf u = Returned (Inl ErrBackpressure, m, v') \<and> history_ok m v' G A D \<and> same_frame v v' \<and>
      ctl_ticket (v_ctl v') = ctl_ticket (v_ctl v))"
proof -
  note h = historyD [OF H]
  let ?i = "shard_of v key"
  have i: "?i < nsh v" by (rule shard_of_less [OF engine_invD(1) [OF h(1)]])
  show ?thesis
  proof (cases "admits v key buf")
    case True
    have "\<not> shard_full v ?i" by (rule open_gate(3) [OF h(1,2) _ i]) (use True in \<open>simp add: admits_def\<close>)
    from publish_accepts [OF h(1) room True this, of 0 u] obtain m' r' x' v' where
      p: "publish m v key buf 0 u = Returned (Inr (ctl_ticket (v_ctl v) + 1), m', v')"
        "v' = (if occupancyPct r' \<ge> c_HighWaterPct (v_cfg v) then markSaturated (after_publish v ?i r' x') ?i
          else after_publish v ?i r' x')"
        "r' = (rg v ?i)\<lparr>r_tail := r_tail (rg v ?i) + 1, r_commit := r_tail (rg v ?i) + 1\<rparr>" by blast
    let ?v = "after_publish v ?i r' x'"
    have f: "same_frame v ?v" "ctl_ticket (v_ctl ?v) = ctl_ticket (v_ctl v) + 1"
      using i by (auto simp: same_frame_def after_publish_def nth_list_update p(3))
    have "same_but_latch ?v (markSaturated ?v ?i)" by (rule markSaturated_same) (simp add: after_publish_def i)
    note L = same_but_latchD [OF this]
    have "same_frame ?v (markSaturated ?v ?i)" by (simp add: same_frame_def L)
    then have "same_frame v v'" "ctl_ticket (v_ctl v') = ctl_ticket (v_ctl v) + 1"
      using f same_frame_trans L(15) unfolding p(2) by (auto split: if_splits)
    moreover note history_publish(1) [OF H room p(1)]
    moreover have "e_payload (entry_of (ctl_ticket (v_ctl v) + 1) key (now_ts v u) 0 buf (digest v buf)) = buf"
      by (simp add: entry_of_def)
    ultimately show ?thesis using p(1) i unfolding Publish_def by blast
  next
    case False
    note E = engine_coreD [OF engine_invD(1) [OF h(1)]]
    have p: "publish m v key buf 0 u = Returned (Inl ErrBackpressure, m, v\<lparr>v_valve := reject (v_valve v)\<rparr>)"
      using publish_rejects [OF False, of m 0 u] key len E(1) h(3) by simp
    from history_refuse [OF H room p] show ?thesis using p unfolding Publish_def by (simp add: same_frame_def)
  qed
qed

abbreviation entries :: "nat \<Rightarrow> (nat \<Rightarrow> entry list) \<Rightarrow> nat" where
  "entries n A \<equiv> (\<Sum>i<n. length (A i))"

definition load_ok :: "mem \<Rightarrow> Vaultage \<Rightarrow> u8 list \<Rightarrow> nat \<Rightarrow> bool" where
  "load_ok m v buf k \<longleftrightarrow> (\<exists>G A. history_ok m v G A [] \<and> entries (nsh v) A = k \<and>
     (\<forall>i. \<forall>e\<in>set (A i). length (e_payload e) = length buf))"

text \<open>Room for \<open>n\<close> more publications.\<close>

definition load_room :: "Vaultage \<Rightarrow> nat \<Rightarrow> bool" where
  "load_room v n \<longleftrightarrow> (\<forall>i<nsh v. unat (ctl_ticket (v_ctl v)) + n + rcap (rg v i) < 2 ^ 64)"

lemma producer_accounts:
  assumes "load_ok m v buf k0" "load_room v (length is + 1)" "length buf \<le> unat (v_payloadCap v)"
    and "\<And>i. i \<in> set is \<Longrightarrow> producer_key p records i \<noteq> 0"
  shows "\<exists>m' v' k b. producer late clock buf p records is m v t = Returned (m', v',
      t\<lparr>ta_published := ta_published t + of_nat k, ta_backpressed := ta_backpressed t + of_nat b\<rparr>) \<and>
    load_ok m' v' buf (k0 + k) \<and> same_frame v v' \<and> k + b \<le> length is \<and> ((\<forall>i. \<not> late i) \<longrightarrow> k + b = length is) \<and>
    unat (ctl_ticket (v_ctl v')) \<le> unat (ctl_ticket (v_ctl v)) + k"
  using assms
proof (induction "is" arbitrary: m v t k0)
  case Nil
  then show ?case by (auto simp: same_frame_def intro!: exI [of _ 0])
next
  case (Cons i "is")
  obtain G A where H: "history_ok m v G A []" "entries (nsh v) A = k0" "\<forall>i. \<forall>e\<in>set (A i). length (e_payload e) = length buf"
    using Cons.prems(1) unfolding load_ok_def by blast
  have room: "engine_room v" using Cons.prems(2) by (auto simp: load_room_def engine_room_def)
  have key: "producer_key p records i \<noteq> 0" and keys: "\<And>i. i \<in> set is \<Longrightarrow> producer_key p records i \<noteq> 0"
    using Cons.prems(4) by simp_all
  show ?case
  proof (cases "i mod 1024 = 0 \<and> late i")
    case True
    then show ?thesis using Cons.prems(1) by (auto simp: same_frame_def intro!: exI [of _ 0])
  next
    case run: False
    from publish_step [OF H(1) room key Cons.prems(3), of "clock i"]
    consider (ok) tk m1 v1 G1 j e where "Publish m v (producer_key p records i) buf (clock i) = Returned (Inr tk, m1, v1)"
        "history_ok m1 v1 G1 (A(j := A j @ [e])) []" "e_payload e = buf" "j < nsh v" "same_frame v v1"
        "ctl_ticket (v_ctl v1) = ctl_ticket (v_ctl v) + 1"
      | (no) v1 where "Publish m v (producer_key p records i) buf (clock i) = Returned (Inl ErrBackpressure, m, v1)"
        "history_ok m v1 G A []" "same_frame v v1" "ctl_ticket (v_ctl v1) = ctl_ticket (v_ctl v)"
      by blast
    then show ?thesis
    proof cases
      case ok
      have n: "nsh v1 = nsh v" using ok(5) by (simp add: same_frame_def)
      have tick: "unat (ctl_ticket (v_ctl v1)) \<le> unat (ctl_ticket (v_ctl v)) + 1"
        using ok(6) room_ticket [OF room ok(4)] by simp
      have "entries (nsh v1) (A(j := A j @ [e])) = k0 + 1"
        using H(2) ok(4) n by (simp add: sum.remove [of "{..<nsh v}" j] if_distrib [of length])
      then have l: "load_ok m1 v1 buf (k0 + 1)" using ok(2,3) H(3) unfolding load_ok_def by (intro exI [of _ G1] exI [of _ "A(j := A j @ [e])"]) auto
      have r: "load_room v1 (length is + 1)" using Cons.prems(2) ok(5) tick unfolding load_room_def same_frame_def by fastforce
      have c: "length buf \<le> unat (v_payloadCap v1)" using Cons.prems(3) ok(5) by (simp add: same_frame_def)
      from Cons.IH [OF l r c keys, of "t\<lparr>ta_published := ta_published t + 1\<rparr>"] obtain m' v' k b where
        ih: "producer late clock buf p records is m1 v1 (t\<lparr>ta_published := ta_published t + 1\<rparr>) = Returned (m', v',
            t\<lparr>ta_published := ta_published t + 1 + of_nat k, ta_backpressed := ta_backpressed t + of_nat b\<rparr>)"
          "load_ok m' v' buf (k0 + 1 + k)" "same_frame v1 v'" "k + b \<le> length is" "(\<forall>i. \<not> late i) \<longrightarrow> k + b = length is"
          "unat (ctl_ticket (v_ctl v')) \<le> unat (ctl_ticket (v_ctl v1)) + k"
        by (simp del: One_nat_def) blast
      show ?thesis
        using ih run ok(1) same_frame_trans [OF ok(5) ih(3)] tick
        by (intro exI [of _ m'] exI [of _ v'] exI [of _ "Suc k"] exI [of _ b]) (auto simp: atomicAdd64_def add.assoc)
    next
      case no
      have l: "load_ok m v1 buf k0" using no(2,3) H(2,3) unfolding load_ok_def same_frame_def by auto
      have r: "load_room v1 (length is + 1)" using Cons.prems(2) no(3,4) unfolding load_room_def same_frame_def by fastforce
      have c: "length buf \<le> unat (v_payloadCap v1)" using Cons.prems(3) no(3) by (simp add: same_frame_def)
      from Cons.IH [OF l r c keys, of "t\<lparr>ta_backpressed := ta_backpressed t + 1\<rparr>"] obtain m' v' k b where
        ih: "producer late clock buf p records is m v1 (t\<lparr>ta_backpressed := ta_backpressed t + 1\<rparr>) = Returned (m', v',
            t\<lparr>ta_published := ta_published t + of_nat k, ta_backpressed := ta_backpressed t + 1 + of_nat b\<rparr>)"
          "load_ok m' v' buf (k0 + k)" "same_frame v1 v'" "k + b \<le> length is" "(\<forall>i. \<not> late i) \<longrightarrow> k + b = length is"
          "unat (ctl_ticket (v_ctl v')) \<le> unat (ctl_ticket (v_ctl v1)) + k"
        by (simp del: One_nat_def) blast
      show ?thesis
        using ih run no(1,4) same_frame_trans [OF no(3) ih(3)]
        by (intro exI [of _ m'] exI [of _ v'] exI [of _ k] exI [of _ "Suc b"]) (auto simp: atomicAdd64_def add.assoc)
    qed
  qed
qed

lemma producers_account:
  assumes "load_ok m v buf k0" "load_room v (length ps * records + 1)" "length buf \<le> unat (v_payloadCap v)"
    and "set ps \<subseteq> {..<P}" "P * records < 2 ^ 64"
  shows "\<exists>m' v' k b. producers late clock buf records ps m v t = Returned (m', v',
      t\<lparr>ta_published := ta_published t + of_nat k, ta_backpressed := ta_backpressed t + of_nat b\<rparr>) \<and>
    load_ok m' v' buf (k0 + k) \<and> same_frame v v' \<and> k + b \<le> length ps * records \<and>
    ((\<forall>p i. \<not> late p i) \<longrightarrow> k + b = length ps * records)"
  using assms(1-4)
proof (induction ps arbitrary: m v t k0)
  case Nil
  then show ?case by (auto simp: same_frame_def intro!: exI [of _ 0])
next
  case (Cons p ps)
  have keys: "producer_key (of_nat p) (of_nat records) i \<noteq> 0" if "i \<in> set [0..<records]" for i
    using producer_key_unat [of p P i records] that Cons.prems(4) assms(5) by auto
  have "load_room v (length [0..<records] + 1)" using Cons.prems(2) by (auto simp: load_room_def)
  from producer_accounts [OF Cons.prems(1) this Cons.prems(3) keys, of "late p" "clock p" t]
  obtain m1 v1 k1 b1 where
    one: "producer (late p) (clock p) buf (of_nat p) (of_nat records) [0..<records] m v t = Returned (m1, v1,
        t\<lparr>ta_published := ta_published t + of_nat k1, ta_backpressed := ta_backpressed t + of_nat b1\<rparr>)"
      "load_ok m1 v1 buf (k0 + k1)" "same_frame v v1" "k1 + b1 \<le> records" "(\<forall>i. \<not> late p i) \<longrightarrow> k1 + b1 = records"
      "unat (ctl_ticket (v_ctl v1)) \<le> unat (ctl_ticket (v_ctl v)) + k1"
    by simp blast
  let ?t = "t\<lparr>ta_published := ta_published t + of_nat k1, ta_backpressed := ta_backpressed t + of_nat b1\<rparr>"
  have "load_room v1 (length ps * records + 1)"
    using Cons.prems(2) one(3,4,6) unfolding load_room_def same_frame_def by fastforce
  moreover have "length buf \<le> unat (v_payloadCap v1)" "set ps \<subseteq> {..<P}"
    using Cons.prems(3,4) one(3) by (simp_all add: same_frame_def)
  ultimately obtain m' v' k b where
    ih: "producers late clock buf records ps m1 v1 ?t = Returned (m', v',
        ?t\<lparr>ta_published := ta_published ?t + of_nat k, ta_backpressed := ta_backpressed ?t + of_nat b\<rparr>)"
      "load_ok m' v' buf (k0 + k1 + k)" "same_frame v1 v'" "k + b \<le> length ps * records"
      "(\<forall>p i. \<not> late p i) \<longrightarrow> k + b = length ps * records"
    using Cons.IH [OF one(2)] by blast
  have "producers late clock buf records (p # ps) m v t = Returned (m', v',
      t\<lparr>ta_published := ta_published t + of_nat (k1 + k), ta_backpressed := ta_backpressed t + of_nat (b1 + b)\<rparr>)"
    using one(1) ih(1) by (simp add: add.assoc)
  moreover have "load_ok m' v' buf (k0 + (k1 + k))" using ih(2) by (simp add: add.assoc)
  moreover have "(k1 + k) + (b1 + b) \<le> length (p # ps) * records" using one(4) ih(4) by simp
  moreover have "(\<forall>p i. \<not> late p i) \<longrightarrow> (k1 + k) + (b1 + b) = length (p # ps) * records" using one(5) ih(5) by auto
  ultimately show ?case using same_frame_trans [OF one(3) ih(3)] by blast
qed

section \<open>The consumer's counters\<close>

definition count_view :: "(int \<times> entry) list \<Rightarrow> u64 \<times> u64" where
  "count_view D = (of_nat (length D), of_nat (sum_list (map (\<lambda>(i, e). length (e_payload e)) D)))"

interpretation counting: handler_view logger count_consumer count_view
  by unfold_locales
    (simp add: logger_def observer_def count_consumer_def count_view_def delivered_def slice_bytes_def atomicAdd64_def)

lemma sum_list_uniform: "(\<And>x. x \<in> set xs \<Longrightarrow> f x = (n :: nat)) \<Longrightarrow> sum_list (map f xs) = length xs * n"
  by (induction xs) auto
text \<open>What the statistics and the shutdown report once \<open>n\<close> records of one buffer have been published.\<close>

lemma load_close:
  assumes "vm_laws K mapped" "munmap_succeeds K" "S \<in> {linux_sys K, darwin_sys K}" "load_ok m v buf n"
    and "c_Consumer (v_cfg v)" "stacked (v_ctlArena v # v_arenas v) M (mapped k)"
  shows "\<exists>st m' v' k'. engine_Stats v = Returned st \<and> st_Tickets st = of_nat n \<and> mapped k' = M \<and>
    Close S count_consumer m v (0, 0) k = Returned (None, m', v', (of_nat n, of_nat (n * length buf)), k')"
proof -
  obtain G A where H: "history_ok m v G A []" "entries (nsh v) A = n" "\<forall>i. \<forall>e\<in>set (A i). length (e_payload e) = length buf"
    using assms(4) unfolding load_ok_def by blast
  note h = historyD [OF H(1)]
  note E = engine_coreD [OF engine_invD(1) [OF h(1)]]
  obtain st where st: "engine_Stats v = Returned st" "st_Tickets st = ctl_ticket (v_ctl v)"
    using engine_Stats_sums [OF E(1,2)] by blast
  have tails: "entries (nsh v) A = (\<Sum>i<nsh v. rT (rg v i))" using h(7) by simp
  then have "unat (ctl_ticket (v_ctl v)) = n" using E(12) h(5) H(2) by simp
  then have tick: "ctl_ticket (v_ctl v) = of_nat n" by auto
  have heads: "rH (rg v i) = 0" if "i < nsh v" for i using h(8) [of i] that by (simp add: delivered_at_def)
  have pend: "unat (pending (rg v i)) = rT (rg v i)" if "i < nsh v" for i
    using pending_unat [OF shard_quiet(2) [OF E(5) [OF that]]] heads [OF that] by simp
  from os_memory.history_close [OF platform_os [OF assms(1,3)] H(1) platform_unmap [OF assms(2,3)] assms(5,6)] obtain m2 v2 D k2 where
    cl: "Close S logger m v [] k = Returned (None, m2, v2, D, k2)" "mapped k2 = M"
      "length D = (\<Sum>i<nsh v. unat (pending (rg v i)))"
      "set D \<subseteq> (\<Union>i<nsh v. (\<lambda>e. (int i, committed_entry e)) ` set (A i))" by auto
  have len: "length D = n" using cl(3) pend tails H(2) by simp
  have "(\<lambda>(i, e). length (e_payload e)) x = length buf" if "x \<in> set D" for x
    using that cl(4) H(3) by (auto simp: committed_entry_def)
  then have "sum_list (map (\<lambda>(i, e). length (e_payload e)) D) = n * length buf"
    using sum_list_uniform [of D "\<lambda>(i, e). length (e_payload e)" "length buf"] len by blast
  then have "count_view D = (of_nat n, of_nat (n * length buf))" using len by (simp add: count_view_def)
  moreover have "count_view [] = (0, 0)" by (simp add: count_view_def)
  ultimately have "Close S count_consumer m v (0, 0) k = Returned (None, m2, v2, (of_nat n, of_nat (n * length buf)), k2)"
    using counting.Close_view [OF cl(1)] by simp
  then show ?thesis using st tick cl(2) by auto
qed

text \<open>
  The driver's books balance. On an engine fresh from \<^verbatim>\<open>New\<close>, the load phase and the shutdown of \<^verbatim>\<open>main\<close> return without
  error; every record was either published or refused by the gate, none was lost to a full shard; the ticket counter in
  the statistics is the number published; and when \<^verbatim>\<open>Close\<close> has returned the consumer has counted exactly the
  records published, and their bytes.
\<close>
lemma ctl_run_balances:
  assumes "vm_laws K mapped" "munmap_succeeds K" "S \<in> {linux_sys K, darwin_sys K}" "config_fits (v_cfg v)"
    and "New S gomaxprocs t1 t2 cfg0 m0 k0 = Some (Inr v, m, k)" "c_Consumer (v_cfg v)"
    and "length buf \<le> unat (v_payloadCap v)" "P * records + unat (c_CellsPerShard (v_cfg v)) + 1 < 2 ^ 64"
  shows "\<exists>n b t st k'. ctl_run S late clock buf P records m v k =
      Returned (t, st, None, of_nat n, of_nat (n * length buf), k') \<and>
    t = \<lparr>ta_published = of_nat n, ta_backpressed = of_nat b, ta_full = 0, ta_stderr = []\<rparr> \<and> n + b \<le> P * records \<and>
    ((\<forall>p i. \<not> late p i) \<longrightarrow> n + b = P * records) \<and> st_Tickets st = of_nat n \<and> mapped k' = mapped k0"
proof -
  note os = platform_os [OF assms(1,3)]
  note new = os_memory.New_stack [OF os assms(5,4)]
  have fresh: "fresh_engine (v_cfg v) t1 t2 v" and stack: "stacked (v_ctlArena v # v_arenas v) (mapped k0) (mapped k)"
    using new by auto
  obtain G0 where H0: "history_ok m v G0 (\<lambda>_. []) []"
    using os_memory.reach_history [OF os engine_reach.start [OF assms(5,4)]] by blast
  have l0: "load_ok m v buf 0" unfolding load_ok_def using H0 by (intro exI [of _ G0] exI [of _ "\<lambda>_. []"]) simp
  have r0: "load_room v (length [0..<P] * records + 1)"
    using fresh assms(8) by (auto simp: load_room_def fresh_engine_def)
  let ?t = "\<lparr>ta_published = 0, ta_backpressed = 0, ta_full = 0, ta_stderr = []\<rparr>"
  have fit: "P * records < 2 ^ 64" and ps: "set [0..<P] \<subseteq> {..<P}" using assms(8) by auto
  obtain m1 v1 n b where p: "producers late clock buf records [0..<P] m v ?t = Returned (m1, v1,
        \<lparr>ta_published = of_nat n, ta_backpressed = of_nat b, ta_full = 0, ta_stderr = []\<rparr>)"
      "load_ok m1 v1 buf n" "same_frame v v1" "n + b \<le> P * records" "(\<forall>p i. \<not> late p i) \<longrightarrow> n + b = P * records"
    using producers_account [OF l0 r0 assms(7) ps fit, of late clock ?t] by simp blast
  have c: "c_Consumer (v_cfg v1)" "stacked (v_ctlArena v1 # v_arenas v1) (mapped k0) (mapped k)"
    using p(3) assms(6) stack by (simp_all add: same_frame_def)
  obtain st m2 v2 k2 where "engine_Stats v1 = Returned st" "st_Tickets st = of_nat n" "mapped k2 = mapped k0"
    "Close S count_consumer m1 v1 (0, 0) k = Returned (None, m2, v2, (of_nat n, of_nat (n * length buf)), k2)"
    using load_close [OF assms(1-3) p(2) c] by blast
  then show ?thesis using p(1,4,5) by (intro exI [of _ n] exI [of _ b] exI conjI) (simp add: ctl_run_def, simp_all)
qed

end
