(* ===== verification/Report.thy ===== *)
theory Report
  imports Stats
begin

text \<open>
  What \<^verbatim>\<open>vaultagectl\<close> prints about arenas, gate and shards (\<^verbatim>\<open>printArenaReport\<close>, \<^verbatim>\<open>printGateReport\<close>, \<^verbatim>\<open>printShardReport\<close> in
  \<^verbatim>\<open>cmd/vaultagectl/main.go\<close>) as text, with the verbs of \<^verbatim>\<open>fmt\<close> it uses, and the messages of \<^verbatim>\<open>errors.go\<close>.
  The throughput report, made of elapsed times and of the runtime's memory statistics, is not modelled.
\<close>

section \<open>Verbs of fmt\<close>

text \<open>
  \<^verbatim>\<open>%d\<close> on an unsigned and on a signed integer, \<^verbatim>\<open>%v\<close> on a bool, a width with and without \<^verbatim>\<open>-\<close>. \<^verbatim>\<open>%#016x\<close> pads the
  digits to 16 and puts the prefix before them, so the column is 18 wide.
\<close>

definition digit :: "nat \<Rightarrow> char" where "digit d = (if d < 10 then char_of (48 + d) else char_of (87 + d))"

fun fmt_base :: "nat \<Rightarrow> nat \<Rightarrow> string" where
  "fmt_base b n = (if n < b \<or> b < 2 then [digit n] else fmt_base b (n div b) @ [digit (n mod b)])"

declare fmt_base.simps [simp del]

abbreviation fmt_nat :: "nat \<Rightarrow> string" where "fmt_nat \<equiv> fmt_base 10"

definition pad0 :: "nat \<Rightarrow> string \<Rightarrow> string" where "pad0 w s = replicate (w - length s) (digit 0) @ s"
definition fmt_hex16 :: "u64 \<Rightarrow> string" where "fmt_hex16 w = ''0x'' @ pad0 16 (fmt_base 16 (unat w))"

definition fmt_u64 :: "u64 \<Rightarrow> string" where "fmt_u64 w = fmt_nat (unat w)"

definition fmt_int :: "int \<Rightarrow> string" where
  "fmt_int i = (if i < 0 then CHR ''-'' # fmt_nat (nat (- i)) else fmt_nat (nat i))"

definition fmt_bool :: "bool \<Rightarrow> string" where "fmt_bool b = (if b then ''true'' else ''false'')"

definition padl :: "nat \<Rightarrow> string \<Rightarrow> string" where "padl w s = replicate (w - length s) CHR '' '' @ s"
definition padr :: "nat \<Rightarrow> string \<Rightarrow> string" where "padr w s = s @ replicate (w - length s) CHR '' ''"

definition newline :: string where "newline = [CHR 0x0A]"

text \<open>
  \<^verbatim>\<open>%.1f\<close> on \<^verbatim>\<open>float64(n)/(1<<20)\<close>. The conversion rounds to 53 significant bits, dividing by a power of two is exact, and
  \<^verbatim>\<open>fmt\<close> rounds the exact value to one decimal; all roundings are to the nearest, ties to even.
\<close>

definition half_even :: "nat \<Rightarrow> nat \<Rightarrow> nat" where
  "half_even a b = (let q = a div b; r = a mod b in if 2 * r < b \<or> 2 * r = b \<and> even q then q else q + 1)"

fun bitlen :: "nat \<Rightarrow> nat" where "bitlen n = (if n = 0 then 0 else bitlen (n div 2) + 1)"

declare bitlen.simps [simp del]

definition float64 :: "nat \<Rightarrow> nat" where
  "float64 n = half_even n (2 ^ (bitlen n - 53)) * 2 ^ (bitlen n - 53)"

definition MiB_tenths :: "u64 \<Rightarrow> nat" where "MiB_tenths w = half_even (10 * float64 (unat w)) (2 ^ 20)"
definition fmt_MiB :: "u64 \<Rightarrow> string" where
  "fmt_MiB w = fmt_nat (MiB_tenths w div 10) @ ''.'' @ fmt_nat (MiB_tenths w mod 10)"

section \<open>The reports\<close>

definition arena_row :: "ShardStats \<Rightarrow> string" where
  "arena_row ss = (let a = ss_Arena ss in
     ''    shard '' @ padl 2 (fmt_int (ss_ID ss)) @ '': '' @ fmt_hex16 (as_Base a) @ ''  size='' @ padl 7 (fmt_u64 (as_Size a div 1024)) @
     '' KiB  page='' @ padl 5 (fmt_u64 (as_PageSize a)) @ ''  aligned='' @ fmt_bool (as_Base a mod (2 * 2 ^ 20) = 0) @
     '' pinned='' @ fmt_bool (as_Pinned a) @ newline)"

text \<open>\<^verbatim>\<open>printArenaReport\<close> after its call of \<^verbatim>\<open>Stats\<close>.\<close>

definition arena_report :: "Stats \<Rightarrow> string" where
  "arena_report st =
     ''=== OFF-HEAP MEMORY SPINE ==='' @ newline @
     ''  shards              : '' @ fmt_int (st_Shards st) @ newline @
     ''  cell stride         : '' @ fmt_u64 (st_CellStride st) @ '' bytes (header '' @ fmt_nat 64 @ '' + payload '' @
       fmt_u64 (st_PayloadCap st) @ '')'' @ newline @
     ''  mapped off-heap     : '' @ fmt_MiB (st_ArenaBytes st) @ '' MiB'' @ newline @
     ''  pinned (mlock)      : '' @ fmt_MiB (st_PinnedBytes st) @ '' MiB'' @ newline @
     ''  2MiB aligned        : '' @ fmt_bool (st_HugeAligned st) @ newline @
     ''  huge pages (native) : '' @ fmt_bool (st_HugeNative st) @ newline @ newline @
     ''  arena base addresses (all must end in 0x00000 to be 2MiB aligned):'' @ newline @
     concat (map arena_row (st_ShardStats st)) @ newline"

definition printArenaReport :: "Vaultage \<Rightarrow> string outcome" where
  "printArenaReport v = (case engine_Stats v of
     NilDeref \<Rightarrow> NilDeref | Hangs \<Rightarrow> Hangs | Returned st \<Rightarrow> Returned (arena_report st))"

definition printGateReport :: "Stats \<Rightarrow> string" where
  "printGateReport st =
     (let g = st_Gate st in
      ''=== BACKPRESSURE VALVE ==='' @ newline @
      ''  high / low water    : '' @ fmt_u64 (HighWaterPct g) @ ''% / '' @ fmt_u64 (LowWaterPct g) @ ''%'' @ newline @
      ''  currently closed    : '' @ fmt_bool (Closed g) @ newline @
      ''  freeze episodes     : '' @ fmt_u64 (CloseCount g) @ newline @
      ''  releases            : '' @ fmt_u64 (OpenCount g) @ newline @
      ''  ingestion refused   : '' @ fmt_u64 (RejectedCount g) @ newline @ newline)"

definition shard_header :: string where
  "shard_header = ''  '' @ padr 6 ''shard'' @ '' '' @ padl 10 ''ingested'' @ '' '' @ padl 10 ''consumed'' @ '' '' @ padl 10 ''rejected'' @ '' '' @
     padl 8 ''occ%'' @ '' '' @ padl 10 ''commitIdx'' @ '' '' @ padl 10 ''idxLoad%'' @ newline"

definition shard_row :: "ShardStats \<Rightarrow> string" where
  "shard_row ss = ''  '' @ padr 6 (fmt_int (ss_ID ss)) @ '' '' @ padl 10 (fmt_u64 (ss_Ingested ss)) @ '' '' @
     padl 10 (fmt_u64 (ss_Consumed ss)) @ '' '' @ padl 10 (fmt_u64 (ss_Rejected ss)) @ '' '' @ padl 7 (fmt_u64 (ss_OccupancyPct ss)) @ ''% '' @
     padl 10 (fmt_u64 (ss_CommitIndex ss)) @ '' '' @ padl 9 (fmt_u64 (LoadPct (ss_Index ss))) @ ''%'' @ newline"

definition printShardReport :: "Stats \<Rightarrow> string" where
  "printShardReport st = ''=== SHARDS ==='' @ newline @ shard_header @ concat (map shard_row (st_ShardStats st))"

text \<open>\<^verbatim>\<open>errors.go\<close>: what \<^verbatim>\<open>Error()\<close> says. The text of an errno is the system's.\<close>

fun error_message :: "(u64 \<Rightarrow> string) \<Rightarrow> error \<Rightarrow> string" where
  "error_message errno_text ErrBackpressure = ''vaultage: ingestion frozen by backpressure gate''"
| "error_message errno_text ErrShardFull = ''vaultage: shard ring saturated''"
| "error_message errno_text ErrPayloadTooLarge = ''vaultage: payload exceeds cell payload capacity''"
| "error_message errno_text ErrClosed = ''vaultage: engine closed''"
| "error_message errno_text ErrNotFound = ''vaultage: key not present in index''"
| "error_message errno_text ErrIndexFull = ''vaultage: index probe sequence exhausted''"
| "error_message errno_text ErrUnsupportedPlatform = ''vaultage: off-heap arena unsupported on this platform''"
| "error_message errno_text ErrPinFailed = ''vaultage: mlock failed, arena is not pinned to physical RAM''"
| "error_message errno_text ErrConfig = ''vaultage: invalid configuration''"
| "error_message errno_text (Errno n) = errno_text n"

section \<open>Reading a report back\<close>

definition blank :: "char \<Rightarrow> bool" where "blank c \<longleftrightarrow> c = CHR '' '' \<or> c = CHR 0x0A"
definition numeric :: "char \<Rightarrow> bool" where "numeric c \<longleftrightarrow> 48 \<le> (of_char c :: nat) \<and> (of_char c :: nat) \<le> 57"

fun tokens_from :: "string \<Rightarrow> string \<Rightarrow> string list" where
  "tokens_from w [] = (if w = [] then [] else [rev w])"
| "tokens_from w (c # cs) = (if blank c then (if w = [] then [] else [rev w]) @ tokens_from [] cs else tokens_from (c # w) cs)"

definition read_nat :: "string \<Rightarrow> nat" where
  "read_nat w = foldl (\<lambda>n c. 10 * n + (of_char c - 48)) 0 (filter numeric w)"

text \<open>The numbers of a text, in order.\<close>

definition numbers :: "string \<Rightarrow> nat list" where
  "numbers s = map read_nat (filter (\<lambda>w. \<exists>c\<in>set w. numeric c) (tokens_from [] s))"


lemma numeric_digit: "d < 10 \<Longrightarrow> numeric (digit d) \<and> \<not> blank (digit d) \<and> (of_char (digit d) :: nat) = 48 + d"
proof -
  assume "d < 10"
  then have "(of_char (digit d) :: nat) = 48 + d" by (simp add: digit_def of_char_of)
  then show ?thesis using \<open>d < 10\<close> by (auto simp: numeric_def blank_def)
qed

lemma fmt_nat_numeric: "c \<in> set (fmt_nat n) \<Longrightarrow> numeric c \<and> \<not> blank c"
proof (induction n rule: less_induct)
  case (less n)
  have "c = digit n \<and> n < 10 \<or> c = digit (n mod 10) \<or> n div 10 < n \<and> c \<in> set (fmt_nat (n div 10))"
    using less.prems by (subst (asm) fmt_base.simps) (auto split: if_splits)
  then show ?case using less.IH [of "n div 10"] numeric_digit [of n] numeric_digit [of "n mod 10"] by auto
qed

lemma fmt_base_nonempty: "fmt_base b n \<noteq> []"
  by (subst fmt_base.simps) simp

lemma read_fmt: "read_nat (fmt_nat n) = n"
proof -
  have "foldl (\<lambda>n c. 10 * n + (of_char c - 48)) 0 (fmt_nat n) = n"
  proof (induction n rule: less_induct)
    case (less n)
    show ?case
      using less [of "n div 10"] numeric_digit [of n] numeric_digit [of "n mod 10"] by (subst fmt_base.simps) simp
  qed
  moreover have "filter numeric (fmt_nat n) = fmt_nat n" using fmt_nat_numeric by (auto intro: filter_True)
  ultimately show ?thesis by (simp add: read_nat_def)
qed

text \<open>Words are cut at blanks.\<close>

lemma tokens_cut: "blank c \<Longrightarrow> tokens_from w (xs @ c # ys) = tokens_from w xs @ tokens_from [] ys"
  by (induction xs arbitrary: w) auto

lemma tokens_word: "\<forall>c\<in>set xs. \<not> blank c \<Longrightarrow> tokens_from w xs = (if w = [] \<and> xs = [] then [] else [rev w @ xs])"
  by (induction xs arbitrary: w) auto

lemma numbers_cut: "blank c \<Longrightarrow> numbers (xs @ c # ys) = numbers xs @ numbers ys"
  by (simp add: numbers_def tokens_cut)

lemma numbers_blank: "blank c \<Longrightarrow> numbers (c # ys) = numbers ys"
  using numbers_cut [of c "[]" ys] by (simp add: numbers_def)

lemma numbers_blanks: "numbers (replicate k CHR '' '' @ ys) = numbers ys"
  by (induction k) (simp_all add: numbers_blank blank_def)

lemma numbers_last:
  assumes "xs \<noteq> []" "blank (last xs)"
  shows "numbers (xs @ ys) = numbers xs @ numbers ys"
proof -
  have "xs = butlast xs @ [last xs]" using assms(1) by simp
  then have "numbers (xs @ zs) = numbers (butlast xs @ last xs # zs)" for zs by (metis append.assoc append_Cons append_Nil)
  from this [of ys] this [of "[]"] show ?thesis using numbers_cut [OF assms(2)] by (simp add: numbers_def)
qed

lemma numbers_number:
  assumes "\<forall>c\<in>set u \<union> set w. \<not> numeric c \<and> \<not> blank c"
  shows "numbers (u @ fmt_nat n @ w) = [n]"
proof -
  have "\<forall>c\<in>set (u @ fmt_nat n @ w). \<not> blank c" using assms fmt_nat_numeric by auto
  moreover obtain d where d: "d \<in> set (fmt_nat n)" using hd_in_set [OF fmt_base_nonempty [of 10 n]] by blast
  then have "\<exists>c\<in>set (u @ fmt_nat n @ w). numeric c" using fmt_nat_numeric by auto
  moreover have "read_nat (u @ fmt_nat n @ w) = n" 
  proof -
    have "filter numeric u = []" "filter numeric w = []" using assms by (auto simp: filter_empty_conv)
    then show ?thesis using read_fmt [of n] by (simp add: read_nat_def)
  qed
  ultimately show ?thesis using d unfolding numbers_def by (subst tokens_word) auto
qed

text \<open>How the pieces of a line read.\<close>

lemma blanks [simp]: "blank CHR '' ''" "blank (CHR 0x0A)" "\<not> blank CHR ''%''" "\<not> blank CHR ''-''"
  by (simp_all add: blank_def)

lemma not_numeric [simp]: "\<not> numeric CHR ''%''" "\<not> numeric CHR ''-''"
  by (simp_all add: numeric_def)

lemma numbers_padl: "numbers (padl k s @ r) = numbers (s @ r)"
  by (simp add: padl_def numbers_blanks)

lemma numbers_nat: "blank c \<Longrightarrow> numbers (fmt_nat n @ c # r) = n # numbers r"
  using numbers_cut [of c "fmt_nat n" r] numbers_number [of "[]" "[]" n] by simp

lemma numbers_pct: "blank c \<Longrightarrow> numbers (fmt_nat n @ CHR ''%'' # c # r) = n # numbers r"
  using numbers_cut [of c "fmt_nat n @ ''%''" r] numbers_number [of "[]" "''%''" n] by simp

lemma numbers_int: "numbers (fmt_int i) = [nat \<bar>i\<bar>]"
  using numbers_number [of "''-''" "[]" "nat (- i)"] numbers_number [of "[]" "[]" "nat i"] by (simp add: fmt_int_def)

lemma numbers_padr: "numbers (padr k (fmt_int i) @ CHR '' '' # r) = nat \<bar>i\<bar> # numbers r"
proof -
  have "numbers (padr k (fmt_int i) @ CHR '' '' # r) = numbers (fmt_int i @ CHR '' '' # replicate (k - length (fmt_int i)) CHR '' '' @ r)"
    by (simp add: padr_def replicate_app_Cons_same)
  then show ?thesis by (simp add: numbers_cut numbers_int numbers_blanks)
qed

lemmas numbers_piece = numbers_padl numbers_padr numbers_nat numbers_pct numbers_blank

text \<open>What the seven columns of a row hold.\<close>

definition shard_columns :: "ShardStats \<Rightarrow> nat list" where
  "shard_columns ss = [nat \<bar>ss_ID ss\<bar>, unat (ss_Ingested ss), unat (ss_Consumed ss), unat (ss_Rejected ss),
     unat (ss_OccupancyPct ss), unat (ss_CommitIndex ss), unat (LoadPct (ss_Index ss))]"

lemma numbers_shard_row: "numbers (shard_row ss @ r) = shard_columns ss @ numbers r"
  by (simp add: shard_columns_def shard_row_def fmt_u64_def newline_def numbers_piece)

lemma numbers_rows: "numbers (concat (map shard_row sss)) = concat (map shard_columns sss)"
  by (induction sss) (simp_all add: numbers_shard_row, simp add: numbers_def)

lemma numbers_shard_heading: "numbers (''=== SHARDS ==='' @ newline @ shard_header @ r) = numbers r"
proof -
  have "numbers (''=== SHARDS ==='' @ newline @ shard_header) = []" by code_simp
  moreover have "blank (last (''=== SHARDS ==='' @ newline @ shard_header))" by code_simp
  ultimately show ?thesis using numbers_last [of "''=== SHARDS ==='' @ newline @ shard_header" r] by simp
qed

text \<open>The same for a text given as words.\<close>

lemma tokens_piece:
  "blank c \<Longrightarrow> tokens_from [] (fmt_nat n @ c # r) = fmt_nat n # tokens_from [] r"
  "blank c \<Longrightarrow> tokens_from [] (fmt_nat n @ CHR ''%'' # c # r) = (fmt_nat n @ ''%'') # tokens_from [] r"
  using fmt_nat_numeric fmt_base_nonempty [of 10 n] tokens_cut [of c "[]" "fmt_nat n @ ''%''" r]
  by (simp_all add: tokens_cut tokens_word)

lemma word_number:
  "\<exists>c\<in>set (fmt_nat n). numeric c" "read_nat (fmt_nat n @ ''%'') = n"
  using hd_in_set [OF fmt_base_nonempty [of 10 n]] fmt_nat_numeric read_fmt [of n] by (auto simp: read_nat_def)

text \<open>
  The printed reports lose nothing. Reading the numbers of the shard table back gives, row by row, the seven columns of
  the snapshot, whatever their size, and those of the gate report the two water marks and the three counters: no column runs into the
  next and no heading adds a number.
\<close>
theorem reports_read_back:
  "numbers (printShardReport st) = concat (map shard_columns (st_ShardStats st)) \<and>
   numbers (printGateReport st) = map unat [HighWaterPct (st_Gate st), LowWaterPct (st_Gate st), CloseCount (st_Gate st),
      OpenCount (st_Gate st), RejectedCount (st_Gate st)]"
proof
  show "numbers (printShardReport st) = concat (map shard_columns (st_ShardStats st))"
    by (simp only: printShardReport_def numbers_shard_heading numbers_rows)
  show "numbers (printGateReport st) = map unat [HighWaterPct (st_Gate st), LowWaterPct (st_Gate st), CloseCount (st_Gate st),
      OpenCount (st_Gate st), RejectedCount (st_Gate st)]"
    by (cases "Closed (st_Gate st)")
      (simp_all add: numbers_def printGateReport_def Let_def fmt_u64_def fmt_bool_def newline_def tokens_piece
        word_number word_number(1) [unfolded numeric_def] read_fmt blank_def numeric_def)
qed

section \<open>Errors\<close>

text \<open>
  An error of \<^verbatim>\<open>errors.go\<close> is a string, and \<^verbatim>\<open>==\<close> and \<^verbatim>\<open>switch\<close> compare the strings: as they differ, comparing constructors is the same.
\<close>

lemma error_values_distinct: "inj_on (error_message errno_text) (- range Errno)"
proof (rule inj_onI)
  fix a b assume "a \<in> - range Errno" "b \<in> - range Errno" "error_message errno_text a = error_message errno_text b"
  then show "a = b" by (cases a; cases b) simp_all
qed

section \<open>Columns\<close>

lemma length_fmt_base:
  assumes "2 \<le> b"
  shows "length (fmt_base b n) \<le> Suc k \<longleftrightarrow> n < b ^ Suc k"
proof (induction k arbitrary: n)
  case 0
  show ?case using assms fmt_base_nonempty [of b "n div b"] by (subst fmt_base.simps) (simp add: not_less Suc_le_eq)
next
  case (Suc k)
  have d: "n div b < b ^ Suc k \<longleftrightarrow> n < b ^ Suc (Suc k)" using assms by (simp add: div_less_iff_less_mult mult.commute)
  have "b \<le> b ^ Suc (Suc k)" using assms by (simp add: self_le_power del: power_Suc)
  then show ?case using Suc [of "n div b"] assms d by (subst fmt_base.simps) (auto simp del: power_Suc)
qed

lemma length_fmt_fits: "n < 10 ^ k \<Longrightarrow> 0 < k \<Longrightarrow> length (fmt_nat n) \<le> k"
  using length_fmt_base [of 10 n "k - 1"] by simp

lemma length_pad: "length s \<le> k \<Longrightarrow> length (padl k s) = k" "length s \<le> k \<Longrightarrow> length (padr k s) = k"
  by (simp_all add: padl_def padr_def)

lemma shard_table_aligned:
  assumes "0 \<le> ss_ID ss" "ss_ID ss < 10 ^ 6" "unat (ss_Ingested ss) < 10 ^ 10" "unat (ss_Consumed ss) < 10 ^ 10"
    "unat (ss_Rejected ss) < 10 ^ 10" "unat (ss_OccupancyPct ss) < 10 ^ 7" "unat (ss_CommitIndex ss) < 10 ^ 10"
    "unat (LoadPct (ss_Index ss)) < 10 ^ 9"
  shows "length (shard_row ss) = length shard_header"
proof -
  have "nat (ss_ID ss) < 10 ^ 6" using assms(1,2) by simp
  then have "length (fmt_int (ss_ID ss)) \<le> 6" using assms(1) length_fmt_fits [of "nat (ss_ID ss)" 6] by (simp add: fmt_int_def)
  then have "length (shard_row ss) = 2 + 6 + 1 + 10 + 1 + 10 + 1 + 10 + 1 + 7 + 2 + 10 + 1 + 9 + 1 + 1"
    using assms(3-) by (simp add: shard_columns_def shard_row_def fmt_u64_def newline_def length_pad length_fmt_fits)
  moreover have "length shard_header = 2 + 6 + 1 + 10 + 1 + 10 + 1 + 10 + 1 + 7 + 2 + 10 + 1 + 9 + 1 + 1" by code_simp
  ultimately show ?thesis by simp
qed

section \<open>Addresses and sizes\<close>

lemma hex_snoc:
  assumes "0 < k"
  shows "pad0 (Suc k) (fmt_base 16 n) = pad0 k (fmt_base 16 (n div 16)) @ [digit (n mod 16)]"
proof (cases "n < 16")
  case True
  have "replicate k (digit 0) = replicate (k - 1) (digit 0) @ [digit 0]" using assms by (cases k) (simp_all add: replicate_append_same)
  then show ?thesis using True by (simp add: fmt_base.simps [of 16 n] fmt_base.simps [of 16 0] pad0_def)
next
  case False
  then show ?thesis by (simp add: fmt_base.simps [of 16 n] pad0_def)
qed

lemma digit_inj: "a < 16 \<Longrightarrow> b < 16 \<Longrightarrow> digit a = digit b \<longleftrightarrow> a = b"
  by (auto simp: digit_def split: if_splits dest: arg_cong [of _ _ "of_char :: char \<Rightarrow> nat"])

lemma half_even_near:
  assumes "0 < b"
  shows "2 * (half_even a b * b) \<le> 2 * a + b \<and> 2 * a \<le> 2 * (half_even a b * b) + b"
proof -
  have d: "a = a div b * b + a mod b" "a mod b < b" using assms by simp_all
  have "half_even a b = a div b \<and> 2 * (a mod b) \<le> b \<or> half_even a b = a div b + 1 \<and> b \<le> 2 * (a mod b)"
    by (auto simp: half_even_def Let_def)
  then consider "half_even a b * b = a div b * b" "2 * (a mod b) \<le> b" | "half_even a b * b = a div b * b + b" "b \<le> 2 * (a mod b)"
    by fastforce
  then show ?thesis using d by cases linarith+
qed

lemma float64_exact: "n < 2 ^ 53 \<Longrightarrow> float64 n = n"
proof -
  assume n: "n < 2 ^ 53"
  have "n < 2 ^ k \<Longrightarrow> bitlen n \<le> k" for k
  proof (induction k arbitrary: n)
    case 0 then show ?case by (simp add: bitlen.simps)
  next
    case (Suc k)
    then show ?case using Suc.IH [of "n div 2"] by (subst bitlen.simps) simp
  qed
  from this [OF n] show ?thesis by (simp add: float64_def half_even_def Let_def)
qed

text \<open>What \<^verbatim>\<open>%.1f\<close> shows is within half of its last decimal.\<close>

lemma MiB_tenths_near:
  assumes "unat w < 2 ^ 53"
  shows "2 ^ 21 * MiB_tenths w \<le> 20 * unat w + 2 ^ 20 \<and> 20 * unat w \<le> 2 ^ 21 * MiB_tenths w + 2 ^ 20"
  using half_even_near [of "2 ^ 20" "10 * unat w"] float64_exact [OF assms] by (simp add: MiB_tenths_def)

lemma hex_tail: "fmt_hex16 w = ''0x'' @ pad0 10 (fmt_base 16 (unat w div 16 ^ 6)) @
    [digit (unat w div 16 ^ 5 mod 16), digit (unat w div 16 ^ 4 mod 16), digit (unat w div 16 ^ 3 mod 16),
     digit (unat w div 16 ^ 2 mod 16), digit (unat w div 16 mod 16), digit (unat w mod 16)]"
proof -
  have s: "16 = Suc 15" "15 = Suc 14" "14 = Suc 13" "13 = Suc 12" "12 = Suc 11" "11 = Suc (10 :: nat)" by simp_all
  have "pad0 16 (fmt_base 16 n) = pad0 10 (fmt_base 16 (n div 16 div 16 div 16 div 16 div 16 div 16)) @
    [digit (n div 16 div 16 div 16 div 16 div 16 mod 16), digit (n div 16 div 16 div 16 div 16 mod 16), digit (n div 16 div 16 div 16 mod 16),
     digit (n div 16 div 16 mod 16), digit (n div 16 mod 16), digit (n mod 16)]" for n
    using hex_snoc [of 15 n] hex_snoc [of 14 "n div 16"] hex_snoc [of 13 "n div 16 div 16"] hex_snoc [of 12 "n div 16 div 16 div 16"]
      hex_snoc [of 11 "n div 16 div 16 div 16 div 16"] hex_snoc [of 10 "n div 16 div 16 div 16 div 16 div 16"]
    by simp
  then show ?thesis by (simp add: fmt_hex16_def div_mult2_eq [symmetric])
qed

lemma aligned_iff: "(w :: u64) mod (2 * 2 ^ 20) = 0 \<longleftrightarrow> unat w mod 16 ^ 5 = 0 \<and> even (unat w div 16 ^ 5)"
proof -
  have "w mod (2 * 2 ^ 20) = 0 \<longleftrightarrow> unat w mod (16 ^ 5 * 2) = 0" by (simp add: unat_eq_zero [symmetric] unat_mod)
  also have "\<dots> \<longleftrightarrow> unat w mod 16 ^ 5 = 0 \<and> even (unat w div 16 ^ 5)" by (subst mod_mult2_eq) (auto simp: even_iff_mod_2_eq_zero)
  finally show ?thesis .
qed

lemma five_zeros: "unat w mod 16 ^ 5 = 0 \<longleftrightarrow> unat w div 16 ^ 4 mod 16 = 0 \<and> unat w div 16 ^ 3 mod 16 = 0 \<and>
    unat w div 16 ^ 2 mod 16 = 0 \<and> unat w div 16 mod 16 = 0 \<and> unat w mod 16 = 0"
proof -
  have "16 ^ 5 = 16 * (16 * (16 * (16 * (16 :: nat))))" by simp
  then show ?thesis by (simp only: mod_mult2_eq div_mult2_eq [symmetric]) (auto simp: mod_mult2_eq)
qed

text \<open>
  The row of an arena shows \<^verbatim>\<open>aligned=true\<close> exactly if the address it prints ends in five zeros behind an even digit: the five
  zeros that the heading asks for are necessary and not sufficient.
\<close>

lemma address_column_aligned:
  "(w :: u64) mod (2 * 2 ^ 20) = 0 \<longleftrightarrow> drop 13 (fmt_hex16 w) = ''00000'' \<and> fmt_hex16 w ! 12 \<in> set ''02468ace''"
proof -
  let ?p = "pad0 10 (fmt_base 16 (unat w div 16 ^ 6))"
  have "unat w div 16 ^ 6 < 16 ^ Suc 9" using unat_lt64 [of w] by (simp add: div_less_iff_less_mult)
  then have len: "length ?p = 10" using length_fmt_base [of 16 "unat w div 16 ^ 6" 9] by (simp add: pad0_def)
  have "digit 0 = CHR ''0''" by code_simp
  then have z: "digit (n mod 16) = CHR ''0'' \<longleftrightarrow> n mod 16 = 0" for n using digit_inj [of "n mod 16" 0] by simp
  have e: "digit (n mod 16) \<in> set ''02468ace'' \<longleftrightarrow> even n" for n
  proof -
    have "\<forall>d\<in>{..<16}. digit d \<in> set ''02468ace'' \<longleftrightarrow> even d" by code_simp
    moreover have "even (n mod 16) \<longleftrightarrow> even n" by presburger
    ultimately show ?thesis by simp
  qed
  have "drop 13 (fmt_hex16 w) = [digit (unat w div 16 ^ 4 mod 16), digit (unat w div 16 ^ 3 mod 16),
     digit (unat w div 16 ^ 2 mod 16), digit (unat w div 16 mod 16), digit (unat w mod 16)]"
    "fmt_hex16 w ! 12 = digit (unat w div 16 ^ 5 mod 16)"
    using len by (simp_all add: hex_tail nth_append)
  then show ?thesis unfolding aligned_iff five_zeros by (simp only: z e list.inject) blast
qed

end
