(* ===== verification/CtlMain.thy ===== *)
theory CtlMain
  imports Driver Report
begin

text \<open>
  \<^verbatim>\<open>main\<close> of \<^verbatim>\<open>cmd/vaultagectl/main.go\<close>, from its flags to the two output streams and the exit code: the engine, the report on its memory, the
  load, the shutdown and the reports on throughput, gate and shards. The text of the throughput report depends on the
  elapsed time and on memory statistics of the runtime; it is an argument.
\<close>

section \<open>The program\<close>







section \<open>What it prints\<close>






end
