(* ===== verification/IndexRace.thy ===== *)
theory IndexRace
  imports IndexThms
begin

text \<open>
  \<^verbatim>\<open>updateMonotonic\<close> as threads run it: the load of the ticket word, the compare-and-swap and the store of the slot are
  separate accesses, and producers that publish the same key interleave them on the same bucket.
\<close>

section \<open>One access at a time\<close>

datatype upd_pc = Upd_load | Upd_cas u64 | Upd_slot | Upd_done

fun upd_exec :: "u64 \<Rightarrow> u64 \<times> u64 \<Rightarrow> upd_pc \<Rightarrow> mem \<Rightarrow> upd_pc \<times> mem" where
  "upd_exec b (ticket, slot) Upd_load m =
     (let cur = ptrLoad64 m (fieldAt b offIdxTicket) in (if cur \<ge> ticket then Upd_done else Upd_cas cur, m))"
| "upd_exec b (ticket, slot) (Upd_cas cur) m =
     (case ptrCAS64 m (fieldAt b offIdxTicket) cur ticket of (m', ok) \<Rightarrow> (if ok then Upd_slot else Upd_load, m'))"
| "upd_exec b (ticket, slot) Upd_slot m = (Upd_done, ptrStore64 m (fieldAt b offIdxSlot) slot)"
| "upd_exec b (ticket, slot) Upd_done m = (Upd_done, m)"

lemma upd_solo:
  "((\<lambda>(pc, m). upd_exec b (ticket, slot) pc m) ^^ 3) (Upd_load, m) = (Upd_done, updateMonotonic m b ticket slot)"
  by (simp add: numeral_eq_Suc updateMonotonic_eq bump_bucket_def ptrCAS64_def Let_def)

text \<open>\<open>upd_reach b jobs m0 ps m\<close>: threads that update the bucket at \<open>b\<close> with the tickets and slots \<open>jobs\<close>, started in \<open>m0\<close>,
  can come to stand at \<open>ps\<close> with memory \<open>m\<close>.\<close>

inductive upd_reach :: "u64 \<Rightarrow> (u64 \<times> u64) list \<Rightarrow> mem \<Rightarrow> upd_pc list \<Rightarrow> mem \<Rightarrow> bool" for b jobs m0 where
  start: "upd_reach b jobs m0 (replicate (length jobs) Upd_load) m0"
| exec: "upd_reach b jobs m0 ps m \<Longrightarrow> t < length jobs \<Longrightarrow> upd_exec b (jobs ! t) (ps ! t) m = (pc, m') \<Longrightarrow>
    upd_reach b jobs m0 (ps[t := pc]) m'"

section \<open>Tickets only grow\<close>

abbreviation tword :: "mem \<Rightarrow> u64 \<Rightarrow> u64" where
  "tword m b \<equiv> ptrLoad64 m (fieldAt b offIdxTicket)"

fun upd_ok :: "u64 \<Rightarrow> u64 \<Rightarrow> upd_pc \<Rightarrow> bool" where
  "upd_ok w ticket Upd_load \<longleftrightarrow> True"
| "upd_ok w ticket (Upd_cas cur) \<longleftrightarrow> cur < ticket"
| "upd_ok w ticket Upd_slot \<longleftrightarrow> ticket \<le> w"
| "upd_ok w ticket Upd_done \<longleftrightarrow> ticket \<le> w"

lemma upd_ok_mono: "upd_ok w ticket pc \<Longrightarrow> w \<le> w' \<Longrightarrow> upd_ok w' ticket pc"
  by (cases pc) auto

lemma slot_store_tword [simp]: "tword (ptrStore64 m (fieldAt b offIdxSlot) v) b = tword m b"
proof -
  have "apart (b + of_nat 16) 8 (b + of_nat 8) 8" by (rule apart_offsets) simp_all
  then show ?thesis by (simp add: loads_store_apart fieldAt_def layout_simps)
qed

lemma upd_exec_tword:
  assumes "upd_exec b (ticket, slot) pc m = (pc', m')" "upd_ok (tword m b) ticket pc"
  shows "tword m b \<le> tword m' b" "tword m' b \<in> {tword m b, ticket}" "upd_ok (tword m' b) ticket pc'"
  using assms
  by (cases pc; auto simp: Let_def ptrCAS64_def load64_store64_same not_le split: if_splits intro: order_less_imp_le; fail)+

lemma upd_reach_inv:
  assumes "upd_reach b jobs m0 ps m"
  shows "length ps = length jobs \<and> tword m0 b \<le> tword m b \<and> tword m b \<in> insert (tword m0 b) (fst ` set jobs) \<and>
    (\<forall>t<length jobs. upd_ok (tword m b) (fst (jobs ! t)) (ps ! t))"
  using assms
proof (induction rule: upd_reach.induct)
  case (exec ps m t pc m')
  obtain ticket slot where j: "jobs ! t = (ticket, slot)" by fastforce
  have mem: "ticket \<in> fst ` set jobs" using exec.hyps(2) j nth_mem [of t jobs] by force
  have own: "upd_ok (tword m b) ticket (ps ! t)" using exec.IH exec.hyps(2) j by (metis fst_conv)
  note e = upd_exec_tword [OF exec.hyps(3) [unfolded j] own]
  have "upd_ok (tword m' b) (fst (jobs ! u)) (ps[t := pc] ! u)" if "u < length jobs" for u
  proof (cases "u = t")
    case True
    then show ?thesis using e(3) j exec.IH exec.hyps(2) by simp
  next
    case False
    then show ?thesis using upd_ok_mono [OF _ e(1)] exec.IH that by simp
  qed
  moreover have "tword m' b \<in> insert (tword m0 b) (fst ` set jobs)" using e(2) mem exec.IH by (metis insert_iff singletonD)
  moreover have "tword m0 b \<le> tword m' b" using e(1) exec.IH by (meson order_trans)
  ultimately show ?case using exec.IH by simp
qed simp

text \<open>
  Whatever the interleaving, the ticket of a bucket is monotone: while any number of producers
  run \<^verbatim>\<open>updateMonotonic\<close> on it, the ticket word never falls, and when all have returned it is the newest of the old ticket
  and theirs. A thread that runs alone does what the sequential definition says.
\<close>
theorem index_ticket_monotone:
  assumes "upd_reach b jobs m0 ps m"
  shows "ptrLoad64 m0 (fieldAt b offIdxTicket) \<le> ptrLoad64 m (fieldAt b offIdxTicket) \<and>
    (set ps \<subseteq> {Upd_done} \<longrightarrow>
      ptrLoad64 m (fieldAt b offIdxTicket) = Max (insert (ptrLoad64 m0 (fieldAt b offIdxTicket)) (fst ` set jobs))) \<and>
    ((\<lambda>(pc, m). upd_exec b (ticket, slot) pc m) ^^ 3) (Upd_load, m) = (Upd_done, updateMonotonic m b ticket slot)"
proof -
  note I = upd_reach_inv [OF assms]
  have "tword m b = Max (insert (tword m0 b) (fst ` set jobs))" if "set ps \<subseteq> {Upd_done}"
  proof (rule Max_eqI [symmetric])
    show "y \<le> tword m b" if "y \<in> insert (tword m0 b) (fst ` set jobs)" for y
    proof -
      have "fst (jobs ! t) \<le> tword m b" if "t < length jobs" for t
      proof -
        have "ps ! t = Upd_done" using I that \<open>set ps \<subseteq> {Upd_done}\<close> by (metis nth_mem singletonD subsetD)
        then show ?thesis using I that by (metis upd_ok.simps(4))
      qed
      then have "\<forall>j\<in>set jobs. fst j \<le> tword m b" by (metis in_set_conv_nth)
      then show ?thesis using that I by auto
    qed
  qed (use I in simp_all)
  then show ?thesis using I upd_solo by blast
qed

section \<open>Slots can go back\<close>

lemma store64_twice: "ptrStore64 (ptrStore64 m p v) p w = ptrStore64 m p w"
  by (rule ext) (simp add: ptrStore64_def store_bytes_def)

text \<open>The schedule: the older update wins the first compare-and-swap, the newer one runs to its end, and then the
  older one stores its slot.\<close>

lemma upd_race:
  assumes "tword m b < t1" "t1 < t2"
  shows "upd_reach b [(t1, s1), (t2, s2)] m [Upd_done, Upd_done] (bump_bucket m b t2 s1)"
proof -
  let ?J = "[(t1, s1), (t2, s2)]"
  define m1 where "m1 = ptrStore64 m (fieldAt b offIdxTicket) t1"
  define m2 where "m2 = ptrStore64 m1 (fieldAt b offIdxTicket) t2"
  define m3 where "m3 = ptrStore64 m2 (fieldAt b offIdxSlot) s2"
  have "upd_reach b ?J m [Upd_load, Upd_load] m" using upd_reach.start [of b ?J m] by (simp add: numeral_eq_Suc)
  from upd_reach.exec [OF this, of 0] assms have "upd_reach b ?J m [Upd_cas (tword m b), Upd_load] m"
    by (simp add: Let_def not_le [symmetric])
  from upd_reach.exec [OF this, of 0] have "upd_reach b ?J m [Upd_slot, Upd_load] m1" by (simp add: ptrCAS64_def m1_def)
  from upd_reach.exec [OF this, of 1] assms have "upd_reach b ?J m [Upd_slot, Upd_cas t1] m1"
    by (simp add: Let_def m1_def load64_store64_same not_le [symmetric])
  from upd_reach.exec [OF this, of 1] have "upd_reach b ?J m [Upd_slot, Upd_slot] m2"
    by (simp add: ptrCAS64_def m2_def) (simp add: m1_def load64_store64_same)
  from upd_reach.exec [OF this, of 1] have "upd_reach b ?J m [Upd_slot, Upd_done] m3" by (simp add: m3_def)
  from upd_reach.exec [OF this, of 0] have "upd_reach b ?J m [Upd_done, Upd_done] (ptrStore64 m3 (fieldAt b offIdxSlot) s1)"
    by simp
  then show ?thesis by (simp add: m3_def m2_def m1_def store64_twice bump_bucket_def)
qed

text \<open>
  The slot of a bucket is not monotone. When two producers update the same key with tickets
  \<open>t1 < t2\<close>, an interleaving leaves the newer ticket with the older producer's slot; \<^verbatim>\<open>lookup\<close> does not compare tickets, so as long as
  that cell still holds a committed record of the key it is the older record that \<^verbatim>\<open>lookup\<close> returns,
  where the documentation promises the most recent one.
\<close>
theorem index_race_stale_slot:
  assumes "index_inv m x" "shard_geom r x" "idx_map m x key = Some (t0, s0)" "t0 < t1" "t1 < t2"
    and "cell_confirms r key (t2, s1) (read_cell m r (unat s1))"
  shows "\<exists>b m'. upd_reach b [(t1, s1), (t2, s2)] m [Upd_done, Upd_done] m' \<and> index_inv m' x \<and>
    idx_map m' x = (idx_map m x)(key \<mapsto> (t2, s1)) \<and>
    index_lookup m' x key r rec = Inr (cell_record r key s1 (read_cell m r (unat s1)) rec)"
proof -
  obtain i where i: "i < xcap x" "bkey m x i = key" "key \<noteq> 0" "(t0, s0) = hint (read_bucket m x i)"
    using assms(3) by (rule idx_map_SomeE)
  let ?b = "bucketB x i" and ?m = "bump_bucket m (bucketB x i) t2 s1"
  have "tword m ?b = t0" using i(4) by (simp add: read_bucket_loads hint_def)
  then have run: "upd_reach ?b [(t1, s1), (t2, s2)] m [Upd_done, Upd_done] ?m" using upd_race assms(4,5) by blast
  note inv = bump_bucket_inv [OF assms(1) i(1-3), of t2 s1]
  have "unat s1 < rcap r" using assms(6) by (simp add: cell_confirms_def word_less_nat_alt)
  then have "read_cell ?m r (unat s1) = read_cell m r (unat s1)"
    by (rule read_cell_cong [OF shard_geomD(1) [OF assms(2)] bump_bucket_frame [OF assms(2) i(1)]])
  then have "index_lookup ?m x key r rec = Inr (cell_record r key s1 (read_cell m r (unat s1)) rec)"
    using index_lookup_eq [OF inv(1)] inv(2) assms(6) i(3) by simp
  then show ?thesis using run inv by blast
qed

theorem index_race_stale_slot_witness:
  "\<exists>m x b m' rec. upd_reach b [(2, 0), (3, 1)] m [Upd_done, Upd_done] m' \<and> idx_map m' x 42 = Some (3, 0) \<and>
     index_lookup m' x 42 demo_r zero_Record = Inr rec \<and> Ticket rec = 1"
proof -
  obtain m x where u: "upsert demo_m demo_x 42 1 0 demo_r = (m, x, None)" using demo_upsert by blast
  have post: "index_inv m x" "ring_region m demo_r = ring_region demo_m demo_r" "same_table demo_x x"
    "index_upd (stale demo_m demo_r) (idx_map demo_m demo_x) 42 1 0 (idx_map m x) None"
    using upsert_correct [OF demo_inv(1) demo_shard, of 42 1 0] u by (simp_all add: upsert_post_def)
  have map: "idx_map m x 42 = Some (1, 0)" using index_upd_keys(1) [OF post(4)] demo_inv(2) by simp
  have g: "shard_geom demo_r x" using same_table_geom [OF post(3)] demo_shard by simp
  have cell: "read_cell m demo_r 0 = read_cell demo_m demo_r 0"
    using post(2) shard_geomD(1) [OF g] by (intro read_cell_cong) (simp_all add: demo_published_ring)
  then have "cell_confirms demo_r 42 (3, 0) (read_cell m demo_r (unat 0))"
    by (simp add: cell_confirms_def demo_view demo_published_ring)
  from index_race_stale_slot [OF post(1) g map _ _ this, of 2 1 zero_Record] obtain b m' where
    "upd_reach b [(2, 0), (3, 1)] m [Upd_done, Upd_done] m'" "idx_map m' x = (idx_map m x)(42 \<mapsto> (3, 0))"
    "index_lookup m' x 42 demo_r zero_Record = Inr (cell_record demo_r 42 0 (read_cell m demo_r (unat 0)) zero_Record)"
    by (auto simp: word_less_nat_alt)
  moreover have "Ticket (cell_record demo_r 42 0 (read_cell m demo_r (unat 0)) zero_Record) = 1"
    using cell by (simp add: cell_record_def demo_view)
  ultimately show ?thesis by (metis fun_upd_same)
qed

theorem index_ticket_monotone_witness:
  "\<exists>m. upd_reach 0 [(7, 0), (9, 1)] (\<lambda>_. 0) [Upd_done, Upd_done] m \<and> ptrLoad64 m (fieldAt 0 offIdxTicket) = 9"
proof -
  have z: "tword (\<lambda>_. 0) 0 = 0" by (simp add: ptrLoad64_def load_bytes_def numeral_eq_Suc)
  have r: "upd_reach 0 [(7, 0), (9, 1)] (\<lambda>_. 0) [Upd_done, Upd_done] (bump_bucket (\<lambda>_. 0) 0 9 0)"
    by (rule upd_race) (simp_all add: z)
  from index_ticket_monotone [OF r, of 0 0] z have "tword (bump_bucket (\<lambda>_. 0) 0 9 0) 0 = Max {0, 7, 9}" by simp
  then show ?thesis using r by (auto simp: max_def)
qed

end
