(* ===== verification/Threads.thy ===== *)
theory Threads
  imports Prelude
begin

text \<open>
  Threads as lists of program counters: what their states say they own, who owns it alone, and how counts over the threads
  move when one of them takes a step. Shared by the theories that interleave accesses.
\<close>

section \<open>Ownership\<close>

definition owned :: "('pc \<Rightarrow> 'a option) \<Rightarrow> 'pc list \<Rightarrow> 'a set" where
  "owned f ps = {p. \<exists>t<length ps. f (ps ! t) = Some p}"

definition sole :: "('pc \<Rightarrow> 'a option) \<Rightarrow> 'pc list \<Rightarrow> bool" where
  "sole f ps \<longleftrightarrow> (\<forall>t<length ps. \<forall>u<length ps. f (ps ! t) \<noteq> None \<longrightarrow> f (ps ! t) = f (ps ! u) \<longrightarrow> t = u)"

lemma owned_upd:
  assumes "t < length ps" "sole f ps"
  shows "owned f (ps[t := pc]) = (owned f ps - set_option (f (ps ! t))) \<union> set_option (f pc)"
proof -
  have "(\<exists>u<length ps. f (ps[t := pc] ! u) = Some p) \<longleftrightarrow>
      f pc = Some p \<or> (f (ps ! t) \<noteq> Some p \<and> (\<exists>u<length ps. f (ps ! u) = Some p))" for p
  proof
    assume "\<exists>u<length ps. f (ps[t := pc] ! u) = Some p"
    then obtain u where u: "u < length ps" "f (ps[t := pc] ! u) = Some p" by blast
    show "f pc = Some p \<or> (f (ps ! t) \<noteq> Some p \<and> (\<exists>u<length ps. f (ps ! u) = Some p))"
    proof (cases "u = t")
      case False
      then have "f (ps ! u) = Some p" using u(2) by simp
      moreover have "f (ps ! t) \<noteq> Some p" using assms u(1) False calculation unfolding sole_def by (metis option.discI)
      ultimately show ?thesis using u(1) by blast
    qed (use u assms(1) in simp)
  next
    assume "f pc = Some p \<or> (f (ps ! t) \<noteq> Some p \<and> (\<exists>u<length ps. f (ps ! u) = Some p))"
    then show "\<exists>u<length ps. f (ps[t := pc] ! u) = Some p"
    proof
      assume "f pc = Some p"
      then show ?thesis using assms(1) by (intro exI [of _ t]) simp
    next
      assume "f (ps ! t) \<noteq> Some p \<and> (\<exists>u<length ps. f (ps ! u) = Some p)"
      then obtain u where "f (ps ! t) \<noteq> Some p" "u < length ps" "f (ps ! u) = Some p" by blast
      then show ?thesis by (intro exI [of _ u]) (cases "u = t", auto)
    qed
  qed
  then show ?thesis by (auto simp: owned_def)
qed

lemma sole_upd:
  assumes "t < length ps" "sole f ps" "f pc = None \<or> f pc = f (ps ! t) \<or> the (f pc) \<notin> owned f ps"
  shows "sole f (ps[t := pc])"
  using assms unfolding sole_def owned_def
  by (auto simp: nth_list_update) (metis option.sel)+

lemma ownedI: "pc \<in> set ps \<Longrightarrow> f pc = Some p \<Longrightarrow> p \<in> owned f ps"
  by (auto simp: owned_def in_set_conv_nth)

lemma owned_set: "owned f ps = {p. \<exists>pc\<in>set ps. f pc = Some p}"
  unfolding owned_def by (metis in_set_conv_nth)

lemma soleD: "sole f ps \<Longrightarrow> t < length ps \<Longrightarrow> u < length ps \<Longrightarrow> f (ps ! t) = Some p \<Longrightarrow> f (ps ! u) = Some p \<Longrightarrow> t = u"
  by (simp add: sole_def)

section \<open>Counting\<close>

lemma filter_update:
  "t < length ps \<Longrightarrow> length (filter P (ps[t := pc])) + (if P (ps ! t) then 1 else 0) = length (filter P ps) + (if P pc then 1 else (0::nat))"
proof (induction ps arbitrary: t)
  case (Cons p ps)
  then show ?case by (cases t) auto
qed simp

end
