(* ===== verification/RingRace.thy ===== *)
theory RingRace
  imports RingQueue Threads
begin

text \<open>
  The ring as threads run it: \<^verbatim>\<open>claim\<close>, \<^verbatim>\<open>publish\<close>, \<^verbatim>\<open>advanceCommit\<close>, \<^verbatim>\<open>dequeue\<close> and \<^verbatim>\<open>release\<close> broken into
  their accesses to shared memory, any number of producers and consumers, any interleaving. Go's atomics
  are sequentially consistent; the plain stores of \<^verbatim>\<open>publish\<close> are steps of their own. The plain loads with which
  \<^verbatim>\<open>dequeue\<close> fills a record are one step: the invariant shows that nobody writes to a cell that is being read.
\<close>

section \<open>One access\<close>

datatype ring_pc =
    RIdle
  | Cl_load entry | Cl_seq entry u64 | Cl_cas entry u64
  | Pb_store entry u64 nat | Pb_seq entry u64
  | Ad_load | Ad_tail u64 | Ad_seq u64 | Ad_cas u64
  | Dq_head | Dq_commit u64 | Dq_cas u64 | Dq_seq u64 | Dq_bad u64 | Dq_read u64 | Rd u64 Record

text \<open>The plain stores of \<^verbatim>\<open>publish\<close>, in order: payload, ticket, time stamp, key, length, epoch, checksum, flags.\<close>

definition fill_store :: "nat \<Rightarrow> mem \<Rightarrow> ring \<Rightarrow> u64 \<Rightarrow> entry \<Rightarrow> mem" where
  "fill_store k m r pos e =
     (let c = cell r pos in
      if k = 0 then fst (copyIntoPayload m c (e_payload e))
      else if k = 1 then ptrStore64 m (fieldAt c offTicket) (e_ticket e)
      else if k = 2 then ptrStore64 m (fieldAt c offTimestamp) (e_timestamp e)
      else if k = 3 then ptrStore64 m (fieldAt c offKey) (e_key e)
      else if k = 4 then ptrStore64 m (fieldAt c offLength) (of_nat (length (e_payload e)))
      else if k = 5 then ptrStore64 m (fieldAt c offEpoch) (r_epoch r)
      else if k = 6 then ptrStore32 m (fieldAt c offChecksum) (e_checksum e)
      else ptrStore32 m (fieldAt c offFlags) (e_flags e OR FlagCommitted))"

fun ring_exec :: "ring_pc \<Rightarrow> mem \<Rightarrow> ring \<Rightarrow> ring_pc \<times> mem \<times> ring" where
  "ring_exec RIdle m r = (RIdle, m, r)"
| "ring_exec (Cl_load e) m r = (Cl_seq e (r_tail r), m, r)"
| "ring_exec (Cl_seq e pos) m r =
     (let dif = sint (ptrLoad64 m (fieldAt (cell r pos) offSeq) - pos)
      in (if dif = 0 then Cl_cas e pos else if dif < 0 then RIdle else Cl_load e, m, r))"
| "ring_exec (Cl_cas e pos) m r =
     (case atomicCAS64 (r_tail r) pos (pos + 1) of (t, ok) \<Rightarrow>
        (if ok then Pb_store e pos 0 else Cl_load e, m, r\<lparr>r_tail := t\<rparr>))"
| "ring_exec (Pb_store e pos k) m r = (if k < 7 then Pb_store e pos (k + 1) else Pb_seq e pos, fill_store k m r pos e, r)"
| "ring_exec (Pb_seq e pos) m r = (Ad_load, ptrStore64 m (fieldAt (cell r pos) offSeq) (pos + 1), r)"
| "ring_exec Ad_load m r = (Ad_tail (r_commit r), m, r)"
| "ring_exec (Ad_tail c) m r = (if c = r_tail r then RIdle else Ad_seq c, m, r)"
| "ring_exec (Ad_seq c) m r = (if ptrLoad64 m (fieldAt (cell r c) offSeq) \<noteq> c + 1 then RIdle else Ad_cas c, m, r)"
| "ring_exec (Ad_cas c) m r = (case atomicCAS64 (r_commit r) c (c + 1) of (c', ok) \<Rightarrow> (Ad_load, m, r\<lparr>r_commit := c'\<rparr>))"
| "ring_exec Dq_head m r = (Dq_commit (r_head r), m, r)"
| "ring_exec (Dq_commit pos) m r = (if pos \<ge> r_commit r then RIdle else Dq_cas pos, m, r)"
| "ring_exec (Dq_cas pos) m r =
     (case atomicCAS64 (r_head r) pos (pos + 1) of (h, ok) \<Rightarrow> (if \<not> ok then Dq_head else Dq_seq pos, m, r\<lparr>r_head := h\<rparr>))"
| "ring_exec (Dq_seq pos) m r = (if ptrLoad64 m (fieldAt (cell r pos) offSeq) \<noteq> pos + 1 then Dq_bad pos else Dq_read pos, m, r)"
| "ring_exec (Dq_bad pos) m r = (RIdle, release m r pos, r)"
| "ring_exec (Dq_read pos) m r = (Rd pos (load_record m r pos zero_Record), m, r)"
| "ring_exec (Rd pos rec) m r = (RIdle, release m r pos, r)"

text \<open>The position a thread is writing, and the one it is reading.\<close>

fun wpos :: "ring_pc \<Rightarrow> nat option" where
  "wpos (Pb_store e pos k) = Some (unat pos)"
| "wpos (Pb_seq e pos) = Some (unat pos)"
| "wpos _ = None"

fun rpos :: "ring_pc \<Rightarrow> nat option" where
  "rpos (Dq_seq pos) = Some (unat pos)"
| "rpos (Dq_bad pos) = Some (unat pos)"
| "rpos (Dq_read pos) = Some (unat pos)"
| "rpos (Rd pos rec) = Some (unat pos)"
| "rpos _ = None"

text \<open>The position a thread has taken and not yet looked at.\<close>

fun tpos :: "ring_pc \<Rightarrow> nat option" where
  "tpos (Dq_seq pos) = Some (unat pos)"
| "tpos (Dq_bad pos) = Some (unat pos)"
| "tpos (Dq_read pos) = Some (unat pos)"
| "tpos _ = None"

text \<open>Two logs beside the state, newest first: what was published and what consumers were shown, each with its position.\<close>

definition published :: "ring_pc \<Rightarrow> (nat \<times> entry) list \<Rightarrow> (nat \<times> entry) list" where
  "published pc P = (case pc of Pb_seq e pos \<Rightarrow> (unat pos, e) # P | _ \<Rightarrow> P)"

definition shown :: "ring_pc \<Rightarrow> mem \<Rightarrow> ring \<Rightarrow> (nat \<times> entry) list \<Rightarrow> (nat \<times> entry) list" where
  "shown pc m r D = (case pc of Dq_read pos \<Rightarrow> (unat pos, delivered m (load_record m r pos zero_Record)) # D | _ \<Rightarrow> D)"

text \<open>Runs of \<open>n\<close> threads over a freshly initialised ring of at least two cells. An idle thread may start to put or to
  take; a tail near \<open>2 ^ 64\<close> is not passed.\<close>

inductive ring_race :: "nat \<Rightarrow> mem \<Rightarrow> ring \<Rightarrow> ring_pc list \<Rightarrow> (nat \<times> entry) list \<Rightarrow> (nat \<times> entry) list \<Rightarrow> bool" for n where
  init: "initRing m base cells payloadCap epoch = Inr (m', r) \<Longrightarrow>
    unat payloadCap + 127 < 2 ^ 64 \<Longrightarrow> unat cells * unat (cellStrideFor payloadCap) \<le> 2 ^ 64 \<Longrightarrow>
    2 \<le> unat cells \<Longrightarrow> ring_race n m' r (replicate n RIdle) [] []"
| put: "ring_race n m r ps P D \<Longrightarrow> t < n \<Longrightarrow> ps ! t = RIdle \<Longrightarrow> length (e_payload e) \<le> unat (r_payloadCap r) \<Longrightarrow>
    ring_race n m r (ps[t := Cl_load e]) P D"
| get: "ring_race n m r ps P D \<Longrightarrow> t < n \<Longrightarrow> ps ! t = RIdle \<Longrightarrow> ring_race n m r (ps[t := Dq_head]) P D"
| exec: "ring_race n m r ps P D \<Longrightarrow> t < n \<Longrightarrow> ring_exec (ps ! t) m r = (pc, m', r') \<Longrightarrow> rT r + rcap r + 1 < 2 ^ 64 \<Longrightarrow>
    ring_race n m' r' (ps[t := pc]) (published (ps ! t) P) (shown (ps ! t) m r D)"

section \<open>The invariant\<close>

text \<open>How far a claimed cell has been filled.\<close>

definition filled :: "nat \<Rightarrow> ring \<Rightarrow> cellv \<Rightarrow> entry \<Rightarrow> bool" where
  "filled k r v e \<longleftrightarrow> length (e_payload e) \<le> unat (r_payloadCap r) \<and>
     (0 < k \<longrightarrow> take (length (e_payload e)) (cv_payload v) = e_payload e) \<and> (1 < k \<longrightarrow> cv_ticket v = e_ticket e) \<and>
     (2 < k \<longrightarrow> cv_timestamp v = e_timestamp e) \<and> (3 < k \<longrightarrow> cv_key v = e_key e) \<and>
     (4 < k \<longrightarrow> cv_length v = of_nat (length (e_payload e))) \<and> (5 < k \<longrightarrow> cv_epoch v = r_epoch r) \<and>
     (6 < k \<longrightarrow> cv_checksum v = e_checksum e) \<and> (7 < k \<longrightarrow> cv_flags v = e_flags e OR FlagCommitted)"

text \<open>What a thread may rely on at each point, whatever the others do.\<close>

fun pc_ok :: "mem \<Rightarrow> ring \<Rightarrow> nat set \<Rightarrow> nat set \<Rightarrow> ring_pc \<Rightarrow> bool" where
  "pc_ok m r W R (Cl_load e) \<longleftrightarrow> length (e_payload e) \<le> unat (r_payloadCap r)"
| "pc_ok m r W R (Cl_seq e pos) \<longleftrightarrow> length (e_payload e) \<le> unat (r_payloadCap r) \<and> unat pos \<le> rT r"
| "pc_ok m r W R (Cl_cas e pos) \<longleftrightarrow> length (e_payload e) \<le> unat (r_payloadCap r) \<and> unat pos \<le> rT r \<and>
     (unat pos = rT r \<longrightarrow> \<not> ring_full r W R)"
| "pc_ok m r W R (Pb_store e pos k) \<longleftrightarrow> k \<le> 7 \<and> filled k r (read_cell m r (rslot r pos)) e"
| "pc_ok m r W R (Pb_seq e pos) \<longleftrightarrow> filled 8 r (read_cell m r (rslot r pos)) e"
| "pc_ok m r W R (Ad_tail c) \<longleftrightarrow> unat c \<le> rC r"
| "pc_ok m r W R (Ad_seq c) \<longleftrightarrow> unat c \<le> rC r \<and> unat c < rT r"
| "pc_ok m r W R (Ad_cas c) \<longleftrightarrow> unat c \<le> rC r \<and> (unat c = rC r \<longrightarrow> rC r < rT r \<and> rC r \<notin> W)"
| "pc_ok m r W R (Dq_cas pos) \<longleftrightarrow> unat pos < rC r"
| "pc_ok m r W R (Dq_bad pos) \<longleftrightarrow> False"
| "pc_ok m r W R (Rd pos rec) \<longleftrightarrow> rec = load_record m r pos zero_Record"
| "pc_ok m r W R _ \<longleftrightarrow> True"

text \<open>A thread that will look at the commit index again before it leaves.\<close>

fun minds_commit :: "ring \<Rightarrow> ring_pc \<Rightarrow> bool" where
  "minds_commit r Ad_load \<longleftrightarrow> True"
| "minds_commit r (Ad_tail c) \<longleftrightarrow> c = r_commit r"
| "minds_commit r (Ad_seq c) \<longleftrightarrow> c = r_commit r"
| "minds_commit r (Ad_cas c) \<longleftrightarrow> True"
| "minds_commit r _ \<longleftrightarrow> False"

text \<open>The entry published at a position.\<close>

definition plog :: "(nat \<times> entry) list \<Rightarrow> nat \<Rightarrow> entry" where
  "plog P p = the (map_of P p)"

lemma plog_Cons [simp]: "plog ((p, e) # P) = (plog P)(p := e)"
  by (simp add: plog_def fun_eq_iff)

definition logs_ok :: "ring \<Rightarrow> ring_pc list \<Rightarrow> (nat \<times> entry) list \<Rightarrow> (nat \<times> entry) list \<Rightarrow> bool" where
  "logs_ok r ps P D \<longleftrightarrow> distinct (map fst P) \<and> fst ` set P = {..<rT r} - owned wpos ps \<and>
     distinct (map fst D) \<and> {..<rH r} = fst ` set D \<union> owned tpos ps \<and> fst ` set D \<inter> owned tpos ps = {} \<and>
     (\<forall>(p, e)\<in>set D. e = committed_entry (plog P p))"

definition commit_minded :: "ring \<Rightarrow> ring_pc list \<Rightarrow> bool" where
  "commit_minded r ps \<longleftrightarrow> rC r < rT r \<longrightarrow> rC r \<notin> owned wpos ps \<longrightarrow> (\<exists>pc\<in>set ps. minds_commit r pc)"

definition race_inv :: "nat \<Rightarrow> mem \<Rightarrow> ring \<Rightarrow> ring_pc list \<Rightarrow> (nat \<times> entry) list \<Rightarrow> (nat \<times> entry) list \<Rightarrow> bool" where
  "race_inv n m r ps P D \<longleftrightarrow> length ps = n \<and> ring_inv0 m r (owned wpos ps) (owned rpos ps) (plog P) \<and>
     sole wpos ps \<and> sole rpos ps \<and> (\<forall>pc\<in>set ps. pc_ok m r (owned wpos ps) (owned rpos ps) pc) \<and>
     commit_minded r ps \<and> logs_ok r ps P D"

lemma race_invD:
  assumes "race_inv n m r ps P D"
  shows "length ps = n" "ring_inv0 m r (owned wpos ps) (owned rpos ps) (plog P)" "sole wpos ps" "sole rpos ps"
    "\<And>t. t < n \<Longrightarrow> pc_ok m r (owned wpos ps) (owned rpos ps) (ps ! t)" "commit_minded r ps" "logs_ok r ps P D"
  using assms by (auto simp: race_inv_def)

section \<open>Ownership\<close>

lemma owned_idle: "set ps \<subseteq> {RIdle} \<Longrightarrow> owned wpos ps = {} \<and> owned rpos ps = {} \<and> owned tpos ps = {}"
  by (auto simp: owned_def) (metis in_mono nth_mem singletonD option.distinct(1) wpos.simps rpos.simps tpos.simps)+

lemma tpos_rpos: "tpos pc = Some p \<Longrightarrow> rpos pc = Some p"
  by (cases pc) auto

lemma sole_tpos: "sole rpos ps \<Longrightarrow> sole tpos ps"
  using tpos_rpos unfolding sole_def by (metis not_Some_eq)

text \<open>Two threads never work in the same cell.\<close>

definition hold :: "ring_pc \<Rightarrow> nat option" where
  "hold pc = (case wpos pc of Some p \<Rightarrow> Some p | None \<Rightarrow> rpos pc)"

section \<open>What a step of another thread leaves alone\<close>

lemma filled_cursors [simp]:
  "filled k (r\<lparr>r_tail := a, r_commit := b, r_head := c\<rparr>) = filled k r"
  by (simp add: filled_def fun_eq_iff)

lemma cell_cursors [simp]:
  "cell (r\<lparr>r_tail := a, r_commit := b, r_head := c\<rparr>) = cell r"
  by (simp add: cell_def fun_eq_iff)

lemma load_record_cursors [simp]:
  "load_record m (r\<lparr>r_tail := a, r_commit := b, r_head := c\<rparr>) = load_record m r"
  by (simp add: load_record_def fun_eq_iff)

lemma pc_stable:
  assumes "pc_ok m r W R pc" "r' = r\<lparr>r_tail := a, r_commit := b, r_head := c\<rparr>" "ring_geom r" "rT r \<le> rT r'" "rC r \<le> rC r'"
    and full: "rT r' = rT r \<Longrightarrow> ring_full r' W' R' \<Longrightarrow> ring_full r W R"
    and comm: "rC r' = rC r \<Longrightarrow> rC r < rT r \<Longrightarrow> rC r \<notin> W \<Longrightarrow> rC r \<notin> W'"
    and view: "\<And>p. hold pc = Some p \<Longrightarrow> read_cell m' r (p mod rcap r) = read_cell m r (p mod rcap r)"
  shows "pc_ok m' r' W' R' pc"
proof (cases pc)
  case (Cl_cas e pos)
  show ?thesis
  proof (cases "unat pos = rT r'")
    case True
    then have "rT r' = rT r" using assms(1,4) by (simp add: Cl_cas)
    then show ?thesis using assms(1,2) full by (auto simp: Cl_cas)
  next
    case False
    then show ?thesis using assms(1,2,4) by (simp add: Cl_cas)
  qed
next
  case (Ad_cas c)
  show ?thesis
  proof (cases "unat c = rC r'")
    case True
    then have "rC r' = rC r" using assms(1,5) by (simp add: Ad_cas)
    then show ?thesis using assms(1,4) comm True by (simp add: Ad_cas)
  next
    case False
    then show ?thesis using assms(1,5) by (simp add: Ad_cas)
  qed
next
  case (Rd pos rec)
  then have "read_cell m' r (rslot r pos) = read_cell m r (rslot r pos)" using view by (simp add: hold_def)
  then have "load_record m' r pos zero_Record = load_record m r pos zero_Record"
    using load_record_view [OF assms(3) refl] by simp
  then show ?thesis using assms(1,2) by (simp add: Rd)
next
  case (Pb_store e pos k)
  then show ?thesis using assms(1,2) view by (simp add: hold_def)
next
  case (Pb_seq e pos)
  then show ?thesis using assms(1,2) view by (simp add: hold_def)
qed (use assms in auto)

text \<open>The window of positions in use: what threads hold sits in different cells.\<close>

lemma hold_owned: "hold pc = Some p \<Longrightarrow> pc \<in> set ps \<Longrightarrow> p \<in> owned wpos ps \<union> owned rpos ps"
  by (auto simp: hold_def ownedI split: option.splits)

lemma held_window:
  assumes "ring_inv0 m r W R L" "p \<in> W \<union> R"
  shows "p < rT r" "rT r \<le> p + rcap r"
  using assms(2) ring_inv0D(3-5,7-9) [OF assms(1)] by fastforce+

lemma held_apart:
  assumes "ring_inv0 m r (owned wpos ps) (owned rpos ps) L" "sole wpos ps" "sole rpos ps"
    and "t < length ps" "u < length ps" "t \<noteq> u" "hold (ps ! t) = Some p" "hold (ps ! u) = Some q"
  shows "p mod rcap r \<noteq> q mod rcap r"
proof
  assume "p mod rcap r = q mod rcap r"
  moreover have o: "p \<in> owned wpos ps \<union> owned rpos ps" "q \<in> owned wpos ps \<union> owned rpos ps"
    using hold_owned [OF assms(7)] hold_owned [OF assms(8)] assms(4,5) by simp_all
  ultimately have pq: "p = q" using window_slots held_window [OF assms(1)] by metis
  have "\<not> (p \<in> owned wpos ps \<and> p \<in> owned rpos ps)" using ring_inv0D(3,7,8) [OF assms(1)] by fastforce
  moreover have "p \<in> owned wpos ps" if "wpos (ps ! t) = Some p \<or> wpos (ps ! u) = Some p"
    using that assms(4,5) ownedI nth_mem by metis
  moreover have "p \<in> owned rpos ps" if "rpos (ps ! t) = Some p \<or> rpos (ps ! u) = Some p"
    using that assms(4,5) ownedI nth_mem by metis
  ultimately show False
    using assms(2-8) pq unfolding hold_def sole_def by (auto split: option.splits) 
qed

section \<open>Steps\<close>

text \<open>A step of one thread keeps the invariant if it keeps the ring's, touches no cell but its own, and leaves the moving thread
  where it should be.\<close>

lemma race_step:
  assumes inv: "race_inv n m r ps P D" and t: "t < n" and r': "r' = r\<lparr>r_tail := a, r_commit := b, r_head := c\<rparr>"
    and W': "W' = (owned wpos ps - set_option (wpos (ps ! t))) \<union> set_option (wpos pc)"
    and R': "R' = (owned rpos ps - set_option (rpos (ps ! t))) \<union> set_option (rpos pc)"
    and ring: "ring_inv0 m' r' W' R' (plog P')"
    and new: "wpos pc = None \<or> wpos pc = wpos (ps ! t) \<or> the (wpos pc) \<notin> owned wpos ps"
      "rpos pc = None \<or> rpos pc = rpos (ps ! t) \<or> the (rpos pc) \<notin> owned rpos ps"
    and mono: "rT r \<le> rT r'" "rC r \<le> rC r'"
    and full: "rT r' = rT r \<Longrightarrow> ring_full r' W' R' \<Longrightarrow> ring_full r (owned wpos ps) (owned rpos ps)"
    and comm: "rC r' = rC r \<Longrightarrow> rC r < rT r \<Longrightarrow> rC r \<notin> owned wpos ps \<Longrightarrow> rC r \<notin> W'"
    and view: "\<And>j. j < rcap r \<Longrightarrow> (\<forall>p. hold (ps ! t) = Some p \<longrightarrow> j \<noteq> p mod rcap r) \<Longrightarrow> read_cell m' r j = read_cell m r j"
    and ok: "pc_ok m' r' W' R' pc"
    and minds: "commit_minded r' (ps[t := pc])" and logs: "logs_ok r' (ps[t := pc]) P' D'"
  shows "race_inv n m' r' (ps[t := pc]) P' D'"
proof -
  note I = race_invD [OF inv]
  note g = ring_inv0D(1) [OF I(2)]
  have t': "t < length ps" using t I(1) by simp
  have o: "owned wpos (ps[t := pc]) = W'" "owned rpos (ps[t := pc]) = R'"
    unfolding W' R' by (rule owned_upd [OF t' I(3)], rule owned_upd [OF t' I(4)])
  have "pc_ok m' r' W' R' (ps[t := pc] ! u)" if u: "u < n" for u
  proof (cases "u = t")
    case False
    have "read_cell m' r (p mod rcap r) = read_cell m r (p mod rcap r)" if "hold (ps ! u) = Some p" for p
      using held_apart [OF I(2-4)] view [of "p mod rcap r"] ring_geom_pos [OF g] that False t u I(1) by fastforce
    then show ?thesis using pc_stable [OF I(5) [OF u] r' g mono full comm] False by simp
  qed (use ok t' in simp)
  moreover have "sole wpos (ps[t := pc])" "sole rpos (ps[t := pc])" by (rule sole_upd [OF t' I(3) new(1)], rule sole_upd [OF t' I(4) new(2)])
  ultimately show ?thesis
    using ring minds logs I(1) by (simp add: race_inv_def o all_set_conv_all_nth)
qed

lemma minded_step:
  assumes "commit_minded r ps" "t < length ps" "r_commit r' = r_commit r" "minds_commit r (ps ! t) \<Longrightarrow> minds_commit r' pc"
    and "rC r < rT r' \<Longrightarrow> rC r \<notin> owned wpos (ps[t := pc]) \<Longrightarrow> rC r < rT r \<and> rC r \<notin> owned wpos ps"
  shows "commit_minded r' (ps[t := pc])"
proof (unfold commit_minded_def, intro impI)
  assume "rC r' < rT r'" "rC r' \<notin> owned wpos (ps[t := pc])"
  then obtain u where u: "u < length ps" "minds_commit r (ps ! u)"
    using assms(1,3,5) by (auto simp: commit_minded_def in_set_conv_nth)
  have same: "minds_commit r' pc' = minds_commit r pc'" for pc' by (cases pc') (simp_all add: assms(3))
  show "\<exists>pc'\<in>set (ps[t := pc]). minds_commit r' pc'"
  proof (cases "u = t")
    case True
    then show ?thesis using u assms(4) set_update_memI [OF assms(2)] by blast
  next
    case False
    then have "ps ! u \<in> set (ps[t := pc])" using u(1) by (metis length_list_update nth_list_update_neq nth_mem)
    then show ?thesis using u(2) same by blast
  qed
qed

lemma minded_new: "t < length ps \<Longrightarrow> minds_commit r pc \<Longrightarrow> commit_minded r (ps[t := pc])"
  by (auto simp: commit_minded_def set_update_memI intro!: bexI)

text \<open>Steps that change neither memory nor a cursor.\<close>

lemma race_local:
  assumes inv: "race_inv n m r ps P D" and t: "t < n"
    and same: "wpos pc = wpos (ps ! t)" "rpos pc = rpos (ps ! t)" "tpos pc = tpos (ps ! t)"
    and ok: "pc_ok m r (owned wpos ps) (owned rpos ps) pc"
    and minds: "minds_commit r (ps ! t) \<Longrightarrow> rC r < rT r \<Longrightarrow> rC r \<notin> owned wpos ps \<Longrightarrow> minds_commit r pc"
  shows "race_inv n m r (ps[t := pc]) P D"
proof -
  note I = race_invD [OF inv]
  have t': "t < length ps" using t I(1) by simp
  have sub: "set_option (f (ps ! t)) \<subseteq> owned f ps" for f using t' by (auto simp: owned_def)
  have o: "owned f (ps[t := pc]) = owned f ps" if "f pc = f (ps ! t)" "sole f ps" for f
    using owned_upd [OF t' that(2), of pc] that(1) sub [of f] by auto
  note oo = o [OF same(1) I(3)] o [OF same(2) I(4)] o [OF same(3) sole_tpos [OF I(4)]]
  have m: "commit_minded r (ps[t := pc])"
  proof (cases "rC r < rT r \<and> rC r \<notin> owned wpos ps")
    case True
    then show ?thesis using minded_step [OF I(6) t' refl] minds by blast
  next
    case False
    then show ?thesis by (simp add: commit_minded_def oo)
  qed
  have l: "logs_ok r (ps[t := pc]) P D" using I(7) by (simp add: logs_ok_def oo)
  show ?thesis
    by (rule race_step [OF inv t, where a = "r_tail r" and b = "r_commit r" and c = "r_head r"])
      (use I ok m l same sub [of wpos] sub [of rpos] in \<open>simp_all add: Un_absorb2 Diff_partition Un_commute\<close>)
qed

text \<open>Steps that move a cursor or write to memory.\<close>

lemma race_claim:
  assumes inv: "race_inv n m r ps P D" and t: "t < n" and pc: "ps ! t = Cl_cas e (r_tail r)"
    and room: "rT r + rcap r + 1 < 2 ^ 64"
  shows "race_inv n m (r\<lparr>r_tail := r_tail r + 1\<rparr>) (ps[t := Pb_store e (r_tail r) 0]) P D"
proof -
  note I = race_invD [OF inv]
  let ?r = "r\<lparr>r_tail := r_tail r + 1\<rparr>" and ?ps = "ps[t := Pb_store e (r_tail r) 0]"
  note i = ring_inv0D [OF I(2)]
  have t': "t < length ps" using t I(1) by simp
  have T: "unat (r_tail r + 1) = rT r + 1" using room by (simp add: unat_add1)
  have ok: "\<not> ring_full r (owned wpos ps) (owned rpos ps)" "length (e_payload e) \<le> unat (r_payloadCap r)"
    using I(5) [OF t] by (simp_all add: pc)
  have nW: "rT r \<notin> owned wpos ps" using i(7) by auto
  have o: "owned wpos ?ps = insert (rT r) (owned wpos ps)" "owned tpos ?ps = owned tpos ps"
    using owned_upd [OF t' I(3)] owned_upd [OF t' sole_tpos [OF I(4)]] by (simp_all add: pc)
  have "commit_minded ?r ?ps" by (rule minded_step [OF I(6) t']) (auto simp: pc o T)
  moreover have "logs_ok ?r ?ps P D" using I(7) nW by (auto simp: logs_ok_def o T)
  moreover have "ring_inv0 m ?r (insert (rT r) (owned wpos ps)) (owned rpos ps) (plog P)"
    by (rule claim_inv0 [OF I(2) ok(1) room])
  ultimately show ?thesis
    by (intro race_step [OF inv t, where a = "r_tail r + 1" and b = "r_commit r" and c = "r_head r"
        and W' = "insert (rT r) (owned wpos ps)" and R' = "owned rpos ps"])
      (use T ok nW in \<open>auto simp: pc filled_def\<close>)
qed

lemma fill_store_view:
  assumes g: "ring_geom r" and len: "length (e_payload e) \<le> unat (r_payloadCap r)"
  shows "j < rcap r \<Longrightarrow> j \<noteq> rslot r pos \<Longrightarrow> read_cell (fill_store k m r pos e) r j = read_cell m r j"
    "cv_seq (read_cell (fill_store k m r pos e) r (rslot r pos)) = cv_seq (read_cell m r (rslot r pos))"
  using assms by (simp_all add: fill_store_def Let_def cell_cellB mem_simps)

lemma fill_store_filled:
  assumes g: "ring_geom r" and f: "filled k r (read_cell m r (rslot r pos)) e" and k: "k \<le> 7"
  shows "filled (Suc k) r (read_cell (fill_store k m r pos e) r (rslot r pos)) e"
proof -
  have "length (e_payload e) \<le> unat (r_payloadCap r)" using f by (simp add: filled_def)
  moreover have "k \<in> {0, 1, 2, 3, 4, 5, 6, 7}" using k by auto
  ultimately show ?thesis using f g by (auto simp: filled_def fill_store_def Let_def cell_cellB mem_simps)
qed

lemma filled_holds: "filled 8 r v e \<Longrightarrow> holds r (v\<lparr>cv_seq := s\<rparr>) e"
  by (simp add: filled_def holds_def)

lemma race_fill:
  assumes inv: "race_inv n m r ps P D" and t: "t < n" and pc: "ps ! t = Pb_store e pos k"
  shows "race_inv n (fill_store k m r pos e) r (ps[t := if k < 7 then Pb_store e pos (k + 1) else Pb_seq e pos]) P D"
    (is "race_inv n ?m r (ps[t := ?pc]) P D")
proof -
  note I = race_invD [OF inv]
  note g = ring_inv0D(1) [OF I(2)]
  have t': "t < length ps" using t I(1) by simp
  have f: "filled k r (read_cell m r (rslot r pos)) e" "k \<le> 7" using I(5) [OF t] by (simp_all add: pc)
  then have len: "length (e_payload e) \<le> unat (r_payloadCap r)" by (simp add: filled_def)
  have w: "unat pos \<in> owned wpos ps" by (rule ownedI [OF nth_mem [OF t']]) (simp add: pc)
  have s: "wpos ?pc = Some (unat pos)" "rpos ?pc = None" "tpos ?pc = None" by simp_all
  have o: "owned wpos (ps[t := ?pc]) = owned wpos ps" "owned tpos (ps[t := ?pc]) = owned tpos ps"
    using owned_upd [OF t' I(3), of ?pc] owned_upd [OF t' sole_tpos [OF I(4)], of ?pc] w by (auto simp: pc s)
  have "ring_inv0 ?m r (owned wpos ps) (owned rpos ps) (plog P)"
    by (rule fill_inv0 [OF I(2) w]) (use g len fill_store_view in \<open>simp_all add: ring_geom_pos\<close>)
  moreover have "pc_ok ?m r W R ?pc" for W R
    using fill_store_filled [OF g f] f(2) by (cases "k = 7") (auto simp: eval_nat_numeral)
  moreover have "commit_minded r (ps[t := ?pc])" by (rule minded_step [OF I(6) t']) (auto simp: pc o)
  moreover have "logs_ok r (ps[t := ?pc]) P D" using I(7) by (simp add: logs_ok_def o)
  ultimately show ?thesis
    by (intro race_step [OF inv t, where a = "r_tail r" and b = "r_commit r" and c = "r_head r"
        and W' = "owned wpos ps" and R' = "owned rpos ps"])
      (use w in \<open>auto simp: pc hold_def insert_absorb fill_store_view(1) [OF g len]\<close>)
qed

lemma race_publish:
  assumes inv: "race_inv n m r ps P D" and t: "t < n" and pc: "ps ! t = Pb_seq e pos"
  shows "race_inv n (ptrStore64 m (fieldAt (cell r pos) offSeq) (pos + 1)) r (ps[t := Ad_load]) ((unat pos, e) # P) D"
    (is "race_inv n ?m r _ _ _")
proof -
  note I = race_invD [OF inv]
  note i = ring_inv0D [OF I(2)]
  have t': "t < length ps" using t I(1) by simp
  have f: "filled 8 r (read_cell m r (rslot r pos)) e" using I(5) [OF t] by (simp add: pc)
  have w: "unat pos \<in> owned wpos ps" by (rule ownedI [OF nth_mem [OF t']]) (simp add: pc)
  have view: "read_cell ?m r j = (if j = rslot r pos then (read_cell m r j)\<lparr>cv_seq := pos + 1\<rparr> else read_cell m r j)"
    if "j < rcap r" for j using that i(1) by (simp add: cell_cellB mem_simps)
  have o: "owned wpos (ps[t := Ad_load]) = owned wpos ps - {unat pos}" "owned tpos (ps[t := Ad_load]) = owned tpos ps"
    using owned_upd [OF t' I(3)] owned_upd [OF t' sole_tpos [OF I(4)]] by (simp_all add: pc)
  have win: "rC r \<le> unat pos" "unat pos < rT r" using i(7) w by auto
  have "ring_inv0 ?m r (owned wpos ps - {unat pos}) (owned rpos ps) (plog ((unat pos, e) # P))"
    unfolding plog_Cons
    by (rule publish_inv0 [OF I(2) w]) (use i(1) filled_holds [OF f] in \<open>simp_all add: view ring_geom_pos\<close>)
  moreover have "commit_minded r (ps[t := Ad_load])" by (rule minded_new [OF t']) simp
  moreover have "logs_ok r (ps[t := Ad_load]) ((unat pos, e) # P) D"
  proof -
    have "p \<noteq> unat pos" if "(p, d) \<in> set D" for p d
    proof -
      have "p \<in> {..<rH r}" using I(7) that unfolding logs_ok_def by (metis UnI1 fst_conv imageI)
      then show ?thesis using win i(3) by simp
    qed
    moreover have "unat pos \<notin> fst ` set P" using I(7) w by (simp add: logs_ok_def)
    ultimately show ?thesis using I(7) w win by (auto simp: logs_ok_def o)
  qed
  ultimately show ?thesis
    by (intro race_step [OF inv t, where a = "r_tail r" and b = "r_commit r" and c = "r_head r"
        and W' = "owned wpos ps - {unat pos}" and R' = "owned rpos ps"])
      (auto simp: pc hold_def view ring_full_def Let_def)
qed

lemma race_advance:
  assumes inv: "race_inv n m r ps P D" and t: "t < n" and pc: "ps ! t = Ad_cas (r_commit r)"
  shows "race_inv n m (r\<lparr>r_commit := r_commit r + 1\<rparr>) (ps[t := Ad_load]) P D"
proof -
  note I = race_invD [OF inv]
  have t': "t < length ps" using t I(1) by simp
  have lt: "rC r < rT r" "rC r \<notin> owned wpos ps" using I(5) [OF t] by (simp_all add: pc)
  note A = advance_inv0 [OF I(2) lt]
  have o: "owned wpos (ps[t := Ad_load]) = owned wpos ps" "owned tpos (ps[t := Ad_load]) = owned tpos ps"
    using owned_upd [OF t' I(3)] owned_upd [OF t' sole_tpos [OF I(4)]] by (simp_all add: pc)
  have "commit_minded (r\<lparr>r_commit := r_commit r + 1\<rparr>) (ps[t := Ad_load])" by (rule minded_new [OF t']) simp
  moreover have "logs_ok (r\<lparr>r_commit := r_commit r + 1\<rparr>) (ps[t := Ad_load]) P D" using I(7) by (simp add: logs_ok_def o)
  ultimately show ?thesis
    by (intro race_step [OF inv t, where a = "r_tail r" and b = "r_commit r + 1" and c = "r_head r"
        and W' = "owned wpos ps" and R' = "owned rpos ps"])
      (use A in \<open>auto simp: pc ring_full_def Let_def\<close>)
qed

lemma race_take:
  assumes inv: "race_inv n m r ps P D" and t: "t < n" and pc: "ps ! t = Dq_cas (r_head r)"
  shows "race_inv n m (r\<lparr>r_head := r_head r + 1\<rparr>) (ps[t := Dq_seq (r_head r)]) P D"
proof -
  note I = race_invD [OF inv]
  note i = ring_inv0D [OF I(2)]
  have t': "t < length ps" using t I(1) by simp
  have lt: "rH r < rC r" using I(5) [OF t] by (simp add: pc)
  note h = head_committed [OF I(2) lt]
  let ?r = "r\<lparr>r_head := r_head r + 1\<rparr>" and ?ps = "ps[t := Dq_seq (r_head r)]"
  have o: "owned wpos ?ps = owned wpos ps" "owned tpos ?ps = insert (rH r) (owned tpos ps)"
    using owned_upd [OF t' I(3)] owned_upd [OF t' sole_tpos [OF I(4)]] by (simp_all add: pc)
  have "commit_minded ?r ?ps" by (rule minded_step [OF I(6) t']) (auto simp: pc o)
  moreover have "logs_ok ?r ?ps P D"
  proof -
    have "fst ` set D \<subseteq> {..<rH r}" using I(7) unfolding logs_ok_def by blast
    then have "rH r \<notin> fst ` set D" by blast
    moreover have "{..<rH r + 1} = insert (rH r) {..<rH r}" by auto
    ultimately show ?thesis using I(7) by (simp add: logs_ok_def o h(4))
  qed
  moreover have "ring_inv0 m ?r (owned wpos ps) (insert (rH r) (owned rpos ps)) (plog P)" by (rule take_inv0 [OF I(2) lt])
  moreover have "rH r \<notin> owned rpos ps" using i(8) by auto
  ultimately show ?thesis
    by (intro race_step [OF inv t, where a = "r_tail r" and b = "r_commit r" and c = "r_head r + 1"
        and W' = "owned wpos ps" and R' = "insert (rH r) (owned rpos ps)"])
      (use h(4) in \<open>auto simp: pc ring_full_def Let_def\<close>)
qed

text \<open>The cell of a position that was taken still holds what was published there.\<close>

lemma taken_holds:
  assumes inv: "race_inv n m r ps P D" and t: "t < n" and pc: "rpos (ps ! t) = Some (unat pos)"
  shows "unat pos \<in> owned rpos ps" "cv_seq (read_cell m r (rslot r pos)) = pos + 1"
    "holds r (read_cell m r (rslot r pos)) (plog P (unat pos))"
proof -
  note I = race_invD [OF inv]
  note i = ring_inv0D [OF I(2)]
  show R: "unat pos \<in> owned rpos ps" by (rule ownedI [OF nth_mem, where f = rpos]) (use pc t I(1) in simp_all)
  have "slot_ok m r (owned wpos ps) (owned rpos ps) (plog P) (unat pos)"
    using held_window [OF I(2), of "unat pos"] R by (intro i(10)) auto
  moreover have "unat pos \<notin> owned wpos ps" using R i(3,7,8) by fastforce
  ultimately show "cv_seq (read_cell m r (rslot r pos)) = pos + 1" "holds r (read_cell m r (rslot r pos)) (plog P (unat pos))"
    using R by (simp_all add: slot_ok_def Let_def add.commute)
qed

lemma race_read:
  assumes inv: "race_inv n m r ps P D" and t: "t < n" and pc: "ps ! t = Dq_read pos"
  shows "race_inv n m r (ps[t := Rd pos (load_record m r pos zero_Record)]) P
    ((unat pos, delivered m (load_record m r pos zero_Record)) # D)" (is "race_inv n m r ?ps P ?D")
proof -
  note I = race_invD [OF inv]
  have t': "t < length ps" using t I(1) by simp
  have "rpos (ps ! t) = Some (unat pos)" by (simp add: pc)
  note T = taken_holds [OF inv t this]
  have d: "delivered m (load_record m r pos zero_Record) = committed_entry (plog P (unat pos))"
    by (rule load_record_delivered [OF ring_inv0D(1) [OF I(2)] T(3)])
  have o: "owned wpos ?ps = owned wpos ps" "owned tpos ?ps = owned tpos ps - {unat pos}"
    using owned_upd [OF t' I(3)] owned_upd [OF t' sole_tpos [OF I(4)]] by (simp_all add: pc)
  have tk: "unat pos \<in> owned tpos ps" by (rule ownedI [OF nth_mem [OF t']]) (simp add: pc)
  have "commit_minded r ?ps" by (rule minded_step [OF I(6) t']) (auto simp: pc o)
  moreover have "logs_ok r ?ps P ?D" using I(7) tk unfolding logs_ok_def o by (auto simp: d)
  ultimately show ?thesis
    by (intro race_step [OF inv t, where a = "r_tail r" and b = "r_commit r" and c = "r_head r"
        and W' = "owned wpos ps" and R' = "owned rpos ps"])
      (use I(2) T(1) in \<open>auto simp: pc\<close>)
qed

lemma race_release:
  assumes inv: "race_inv n m r ps P D" and t: "t < n" and pc: "ps ! t = Rd pos rec"
  shows "race_inv n (release m r pos) r (ps[t := RIdle]) P D"
proof -
  note I = race_invD [OF inv]
  note g = ring_inv0D(1) [OF I(2)]
  have t': "t < length ps" using t I(1) by simp
  have "rpos (ps ! t) = Some (unat pos)" by (simp add: pc)
  note R = taken_holds(1) [OF inv t this]
  have o: "owned wpos (ps[t := RIdle]) = owned wpos ps" "owned tpos (ps[t := RIdle]) = owned tpos ps"
    using owned_upd [OF t' I(3)] owned_upd [OF t' sole_tpos [OF I(4)]] by (simp_all add: pc)
  have "commit_minded r (ps[t := RIdle])" by (rule minded_step [OF I(6) t']) (auto simp: pc o)
  moreover have "logs_ok r (ps[t := RIdle]) P D" using I(7) by (simp add: logs_ok_def o)
  ultimately show ?thesis
    by (intro race_step [OF inv t, where a = "r_tail r" and b = "r_commit r" and c = "r_head r"
        and W' = "owned wpos ps" and R' = "owned rpos ps - {unat pos}"])
      (use release_inv0 [OF I(2) R] in \<open>auto simp: pc hold_def release_view [OF g] ring_full_def Let_def\<close>)
qed

section \<open>Every step keeps the invariant\<close>

lemma race_init:
  assumes "initRing m base cells payloadCap epoch = Inr (m', r)" "unat payloadCap + 127 < 2 ^ 64"
    "unat cells * unat (cellStrideFor payloadCap) \<le> 2 ^ 64" "2 \<le> unat cells"
  shows "race_inv n m' r (replicate n RIdle) [] []"
proof -
  note g = initRing_geom [OF assms(1-3)]
  have o: "owned wpos (replicate n RIdle) = {} \<and> owned rpos (replicate n RIdle) = {} \<and> owned tpos (replicate n RIdle) = {}"
    by (rule owned_idle) auto
  have "ring_inv0 m' r {} {} (plog [])" by (rule ring_invD(1) [OF initRing_inv [OF assms]])
  then show ?thesis
    using o g by (auto simp: race_inv_def commit_minded_def logs_ok_def sole_def)
qed

lemma tail_free:
  assumes inv: "ring_inv0 m r W R L" and "ptrLoad64 m (fieldAt (cell r pos) offSeq) = pos" "pos = r_tail r"
  shows "\<not> ring_full r W R"
proof
  assume "ring_full r W R"
  from tail_seq(2) [OF inv refl this] obtain d where
    d: "1 \<le> d" "d \<le> rT r" "cv_seq (read_cell m r (rslot r (r_tail r))) = of_nat (rT r - d)" by blast
  then have "r_tail r = of_nat (rT r - d)"
    using assms(2,3) by (simp add: cell_cellB [OF ring_inv0D(1) [OF inv]] read_cell_loads)
  then have "rT r = rT r - d" using unat_of_nat64 [of "rT r - d"] unat_lt64 [of "r_tail r"] by simp
  then show False using d(1,2) by simp
qed

lemma race_exec:
  assumes inv: "race_inv n m r ps P D" and t: "t < n" and run: "ring_exec (ps ! t) m r = (pc, m', r')"
    and room: "rT r + rcap r + 1 < 2 ^ 64"
  shows "race_inv n m' r' (ps[t := pc]) (published (ps ! t) P) (shown (ps ! t) m r D)"
proof -
  note I = race_invD [OF inv]
  note i = ring_inv0D [OF I(2)] and ok = I(5) [OF t] and loc = race_local [OF inv t]
  note D = published_def shown_def
  show ?thesis
  proof (cases "ps ! t")
    case RIdle
    then show ?thesis using run inv by (simp add: D list_update_same_conv I(1) t) (metis list_update_id)
  next
    case (Cl_load e)
    then show ?thesis using run ok loc [of pc] by (auto simp: D)
  next
    case (Cl_seq e pos)
    have "\<not> ring_full r (owned wpos ps) (owned rpos ps)"
      if "ptrLoad64 m (fieldAt (cell r pos) offSeq) = pos" "unat pos = rT r"
      using tail_free [OF I(2) that(1)] that(2) by (simp add: word_unat_eq_iff)
    moreover have "sint w = 0 \<longleftrightarrow> w = 0" for w :: u64 by (rule signed_eq_0_iff)
    ultimately show ?thesis using run ok loc [of pc] Cl_seq by (auto simp: D Let_def split: if_splits)
  next
    case (Cl_cas e pos)
    then show ?thesis
      using run ok loc [of pc] race_claim [OF inv t _ room, of e] by (auto simp: D atomicCAS64_def split: if_splits)
  next
    case (Pb_store e pos k)
    then show ?thesis using run race_fill [OF inv t] by (auto simp: D)
  next
    case (Pb_seq e pos)
    then show ?thesis using run race_publish [OF inv t] by (auto simp: D)
  next
    case Ad_load
    then show ?thesis using run loc [of pc] by (auto simp: D)
  next
    case (Ad_tail c)
    moreover have "unat c < rT r" if "c \<noteq> r_tail r"
      using that ok i(4) Ad_tail by (simp add: word_unat_eq_iff le_neq_implies_less)
    ultimately show ?thesis using run ok loc [of pc] by (auto simp: D split: if_splits)
  next
    case (Ad_seq c)
    moreover have "c = r_commit r \<longleftrightarrow> unat c = rC r" by (simp add: word_unat_eq_iff)
    ultimately show ?thesis
      using run ok loc [of pc] commit_seq [OF I(2)] by (auto simp: D split: if_splits)
  next
    case (Ad_cas c)
    then show ?thesis
      using run loc [of pc] race_advance [OF inv t] by (auto simp: D atomicCAS64_def split: if_splits)
  next
    case Dq_head
    then show ?thesis using run loc [of pc] by (auto simp: D)
  next
    case (Dq_commit pos)
    then show ?thesis using run loc [of pc] by (auto simp: D word_le_nat_alt not_le split: if_splits)
  next
    case (Dq_cas pos)
    then show ?thesis
      using run loc [of pc] race_take [OF inv t] by (auto simp: D atomicCAS64_def split: if_splits)
  next
    case (Dq_seq pos)
    moreover from this have "ptrLoad64 m (fieldAt (cell r pos) offSeq) = pos + 1"
      using taken_holds(2) [OF inv t] by (simp add: cell_cellB [OF i(1)] read_cell_loads)
    ultimately show ?thesis using run loc [of pc] by (auto simp: D)
  next
    case (Dq_bad pos)
    then show ?thesis using ok by simp
  next
    case (Dq_read pos)
    then show ?thesis using run race_read [OF inv t] by (auto simp: D)
  next
    case (Rd pos rec)
    then show ?thesis using run race_release [OF inv t] by (auto simp: D)
  qed
qed

lemma ring_race_inv: "ring_race n m r ps P D \<Longrightarrow> race_inv n m r ps P D"
proof (induction rule: ring_race.induct)
  case (init m base cells payloadCap epoch m' r)
  then show ?case by (rule race_init)
next
  case (put m r ps P D t e)
  then show ?case using race_local [OF put.IH put.hyps(2), of "Cl_load e"] by simp
next
  case (get m r ps P D t)
  then show ?case using race_local [OF get.IH get.hyps(2), of Dq_head] by simp
next
  case (exec m r ps P D t pc m' r')
  then show ?case using race_exec [OF exec.IH] by blast
qed

end
