(* ===== verification/RingRaceThms.thy ===== *)
theory RingRaceThms
  imports RingRace RingProps
begin

text \<open>What the ring guarantees when the accesses of its callers interleave, and that a caller that is left alone does what
  the definitions of \<^verbatim>\<open>ring.go\<close>'s functions say.\<close>

section \<open>Running alone\<close>

fun ring_solo :: "nat \<Rightarrow> ring_pc \<Rightarrow> mem \<Rightarrow> ring \<Rightarrow> ring_pc \<times> mem \<times> ring" where
  "ring_solo 0 pc m r = (pc, m, r)"
| "ring_solo (Suc k) pc m r = (case ring_exec pc m r of (pc1, m1, r1) \<Rightarrow> ring_solo k pc1 m1 r1)"

lemma ring_solo_add:
  "ring_solo j pc m r = (pc1, m1, r1) \<Longrightarrow> ring_solo (j + k) pc m r = ring_solo k pc1 m1 r1"
  by (induction j arbitrary: pc m r) (auto split: prod.splits)

lemma solo_advance: "\<exists>k. ring_solo k Ad_load m r = (RIdle, m, advanceCommit m r)"
proof (induction m r rule: advanceCommit.induct)
  case (1 m r)
  let ?c = "r_commit r" and ?r = "r\<lparr>r_commit := r_commit r + 1\<rparr>"
  consider "?c = r_tail r" | "?c \<noteq> r_tail r" "ptrLoad64 m (fieldAt (cell r ?c) offSeq) \<noteq> ?c + 1"
    | "?c \<noteq> r_tail r" "ptrLoad64 m (fieldAt (cell r ?c) offSeq) = ?c + 1" by blast
  then show ?case
  proof cases
    case 1
    then show ?thesis by (intro exI [of _ 2]) (simp add: numeral_2_eq_2 advanceCommit.simps)
  next
    case 2
    then show ?thesis by (intro exI [of _ 3]) (simp add: numeral_3_eq_3 advanceCommit.simps Let_def)
  next
    case 3
    have "\<not> ptrLoad64 m (fieldAt (cell r ?c) offSeq) \<noteq> ?c + 1" "(?c + 1, True) = atomicCAS64 ?c ?c (?c + 1)"
      using 3 by simp_all
    from "1.IH" [OF refl 3(1) this] obtain k where k: "ring_solo k Ad_load m ?r = (RIdle, m, advanceCommit m ?r)" by blast
    have "advanceCommit m r = advanceCommit m ?r" using 3 by (subst advanceCommit.simps) (simp add: Let_def atomicCAS64_def)
    moreover have "ring_solo 4 Ad_load m r = (Ad_load, m, ?r)" using 3 by (simp add: eval_nat_numeral atomicCAS64_def)
    ultimately show ?thesis using k ring_solo_add by metis
  qed
qed

lemma solo_stores:
  "ring_solo 9 (Pb_store e pos 0) m r =
     (Ad_load, fst (publish_stores m r pos (e_ticket e) (e_key e) (e_timestamp e) (e_flags e) (e_payload e) (e_checksum e)), r)"
  by (simp add: eval_nat_numeral fill_store_def publish_stores_def Let_def case_prod_beta copyIntoPayload_count)

lemma solo_publish:
  assumes "ring_publish m r pos (e_ticket e) (e_key e) (e_timestamp e) (e_flags e) (e_payload e) (e_checksum e) = (n, m', r')"
  shows "\<exists>k. ring_solo k (Pb_store e pos 0) m r = (RIdle, m', r')"
proof -
  obtain k where "ring_solo k Ad_load m' r = (RIdle, m', advanceCommit m' r)" using solo_advance by blast
  moreover have "ring_solo 9 (Pb_store e pos 0) m r = (Ad_load, m', r)" "r' = advanceCommit m' r"
    using assms solo_stores by (auto simp: ring_publish_def case_prod_beta)
  ultimately show ?thesis using ring_solo_add by metis
qed

text \<open>A claim that returns did not find the cell ahead of its position.\<close>

lemma claim_not_ahead:
  "claim m r = Some x \<Longrightarrow> sint (ptrLoad64 m (fieldAt (cell r (r_tail r)) offSeq) - r_tail r) \<le> 0"
  by (erule claim.raw_induct [rotated]) (auto simp: Let_def split: if_splits)

lemma solo_claim:
  assumes "claim m r = Some ((pos, ok), r')"
  shows "\<exists>k\<le>3. ring_solo k (Cl_load e) m r = (if ok then Pb_store e pos 0 else RIdle, m, r')"
proof -
  let ?d = "sint (ptrLoad64 m (fieldAt (cell r (r_tail r)) offSeq) - r_tail r)"
  consider "?d = 0" | "?d < 0" using claim_not_ahead [OF assms] by linarith
  then show ?thesis
  proof cases
    case 1
    then show ?thesis
      using assms by (subst (asm) claim.simps, intro exI [of _ 3]) (auto simp: Let_def numeral_3_eq_3 atomicCAS64_def)
  next
    case 2
    then show ?thesis
      using assms by (subst (asm) claim.simps, intro exI [of _ 2]) (auto simp: Let_def numeral_2_eq_2)
  qed
qed

lemma solo_dequeue:
  assumes "dequeue m r zero_Record = ((pos, ok), rec, m', r')"
  shows "\<exists>k. ring_solo k Dq_head m r = (if ok then Rd pos rec else RIdle, m', r')"
proof (cases "r_head r \<ge> r_commit r")
  case True
  then show ?thesis using assms by (subst (asm) dequeue.simps, intro exI [of _ 2]) (auto simp: Let_def numeral_2_eq_2)
next
  case False
  then show ?thesis
    using assms by (subst (asm) dequeue.simps, intro exI [of _ 5]) (auto simp: Let_def eval_nat_numeral atomicCAS64_def split: if_splits)
qed

section \<open>Concrete runs\<close>

lemma unat_suc_le: "unat (x + 1 :: u64) \<le> Suc (unat x)"
  using unat_add1 [of x] unat_lt64 [of "x + 1"] by (cases "unat x + 1 < 2 ^ 64") auto

lemma exec_tail: "ring_exec pc m r = (pc', m', r') \<Longrightarrow> rT r' \<le> rT r + 1 \<and> r_capacity r' = r_capacity r"
  by (cases "(pc, m, r)" rule: ring_exec.cases)
    (auto simp: Let_def atomicCAS64_def unat_suc_le split: if_splits)

lemma race_solo:
  "ring_race n m r ps P D \<Longrightarrow> t < n \<Longrightarrow> ring_solo k (ps ! t) m r = (pc, m', r') \<Longrightarrow> rT r + rcap r + k + 1 < 2 ^ 64 \<Longrightarrow>
   \<exists>P' D'. ring_race n m' r' (ps[t := pc]) P' D'"
proof (induction k arbitrary: m r ps P D)
  case 0
  then have "ps[t := pc] = ps" "m' = m" "r' = r" by auto
  then show ?case using "0.prems"(1) by metis
next
  case (Suc k)
  obtain pc1 m1 r1 where e: "ring_exec (ps ! t) m r = (pc1, m1, r1)" by (metis prod_cases3)
  from Suc.prems(1,2) e have r: "ring_race n m1 r1 (ps[t := pc1]) (published (ps ! t) P) (shown (ps ! t) m r D)"
    using Suc.prems(4) by (intro ring_race.exec) auto
  have "t < length ps" using race_invD(1) [OF ring_race_inv [OF Suc.prems(1)]] Suc.prems(2) by simp
  then show ?case
    using Suc.IH [OF r Suc.prems(2)] Suc.prems(3,4) exec_tail [OF e] e by simp
qed

text \<open>Past the claim a caller does not move the tail, however long it runs.\<close>

fun claiming :: "ring_pc \<Rightarrow> bool" where
  "claiming (Cl_load e) \<longleftrightarrow> True"
| "claiming (Cl_seq e pos) \<longleftrightarrow> True"
| "claiming (Cl_cas e pos) \<longleftrightarrow> True"
| "claiming _ \<longleftrightarrow> False"

lemma exec_past_claim:
  "ring_exec pc m r = (pc', m', r') \<Longrightarrow> \<not> claiming pc \<Longrightarrow> \<not> claiming pc' \<and> r_tail r' = r_tail r \<and> r_capacity r' = r_capacity r"
  by (cases "(pc, m, r)" rule: ring_exec.cases) (auto simp: Let_def atomicCAS64_def split: if_splits)

lemma race_past_claim:
  "ring_race n m r ps P D \<Longrightarrow> t < n \<Longrightarrow> ring_solo k (ps ! t) m r = (pc, m', r') \<Longrightarrow> \<not> claiming (ps ! t) \<Longrightarrow>
   rT r + rcap r + 1 < 2 ^ 64 \<Longrightarrow> \<exists>P' D'. ring_race n m' r' (ps[t := pc]) P' D'"
proof (induction k arbitrary: m r ps P D)
  case 0
  then have "ps[t := pc] = ps" "m' = m" "r' = r" by auto
  then show ?case using "0.prems"(1) by metis
next
  case (Suc k)
  obtain pc1 m1 r1 where e: "ring_exec (ps ! t) m r = (pc1, m1, r1)" by (metis prod_cases3)
  note r = ring_race.exec [OF Suc.prems(1,2) e Suc.prems(5)]
  have "t < length ps" using race_invD(1) [OF ring_race_inv [OF Suc.prems(1)]] Suc.prems(2) by simp
  then show ?case
    using Suc.IH [OF r Suc.prems(2)] Suc.prems(3,4,5) exec_past_claim [OF e] e by simp
qed

abbreviation demo_entry :: entry where
  "demo_entry \<equiv> entry_of 1 42 5 0 [1, 2, 3] 0"

lemma demo_entry_fields:
  "e_ticket demo_entry = 1" "e_key demo_entry = 42" "e_timestamp demo_entry = 5" "e_flags demo_entry = 0"
  "e_payload demo_entry = [1, 2, 3]" "e_checksum demo_entry = 0"
  by (simp_all add: entry_of_def)

lemma demo_publish:
  "ring_publish (fst demo_init) ((snd demo_init)\<lparr>r_tail := 1\<rparr>) 0 (e_ticket demo_entry) (e_key demo_entry) (e_timestamp demo_entry)
     (e_flags demo_entry) (e_payload demo_entry) (e_checksum demo_entry) = (fst demo_pub, fst (snd demo_pub), snd (snd demo_pub))"
  unfolding demo_entry_fields by (rule demo_pub_eq)

lemma demo_race: "ring_race 2 (fst demo_init) (snd demo_init) [RIdle, RIdle] [] []"
proof -
  have "[RIdle, RIdle] = replicate 2 RIdle" by (simp add: numeral_2_eq_2)
  then show ?thesis using ring_race.init [OF demo_init_eq, of 2] by (simp add: demo_consts)
qed

text \<open>The first thread has claimed a position; it has published it; the second thread holds the record.\<close>

lemma demo_race_claimed:
  "\<exists>P D. ring_race 2 (fst demo_init) ((snd demo_init)\<lparr>r_tail := 1\<rparr>) [Pb_store demo_entry 0 0, RIdle] P D"
proof -
  have r: "ring_race 2 (fst demo_init) (snd demo_init) [Cl_load demo_entry, RIdle] [] []"
    using ring_race.put [OF demo_race, of 0 demo_entry] by (simp add: demo_init_ring entry_of_def)
  obtain k where "k \<le> 3" "ring_solo k (Cl_load demo_entry) (fst demo_init) (snd demo_init) =
      (Pb_store demo_entry 0 0, fst demo_init, (snd demo_init)\<lparr>r_tail := 1\<rparr>)"
    using solo_claim [OF demo_claim, of demo_entry] by auto
  then show ?thesis using race_solo [OF r, of 0 k] by (simp add: demo_init_ring)
qed

lemma demo_race_published:
  "\<exists>P D. ring_race 2 (fst (snd demo_pub)) (snd (snd demo_pub)) [RIdle, RIdle] P D"
proof -
  obtain P D where r: "ring_race 2 (fst demo_init) ((snd demo_init)\<lparr>r_tail := 1\<rparr>) [Pb_store demo_entry 0 0, RIdle] P D"
    using demo_race_claimed by blast
  obtain k where "ring_solo k (Pb_store demo_entry 0 0) (fst demo_init) ((snd demo_init)\<lparr>r_tail := 1\<rparr>) =
      (RIdle, fst (snd demo_pub), snd (snd demo_pub))"
    using solo_publish [OF demo_publish] by blast
  then show ?thesis using race_past_claim [OF r, of 0 k] by (simp add: demo_init_ring)
qed

lemma demo_race_reading:
  "\<exists>m r rec P D. ring_race 2 m r [RIdle, Rd 0 rec] P D \<and> r_head r = 1 \<and> r_tail r = 1 \<and> r_capacity r = 2"
proof -
  obtain P D where r: "ring_race 2 (fst (snd demo_pub)) (snd (snd demo_pub)) [RIdle, RIdle] P D" using demo_race_published by blast
  from ring_race.get [OF r, of 1] have g: "ring_race 2 (fst (snd demo_pub)) (snd (snd demo_pub)) [RIdle, Dq_head] P D" by simp
  note I = ring_reach_inv [OF demo_reach_published]
  obtain k where "ring_solo k Dq_head (fst (snd demo_pub)) (snd (snd demo_pub)) =
      (Rd 0 (load_record (fst (snd demo_pub)) ((snd (snd demo_pub))\<lparr>r_head := 1\<rparr>) 0 zero_Record), fst (snd demo_pub),
       (snd (snd demo_pub))\<lparr>r_head := 1\<rparr>)"
    using solo_dequeue [of "fst (snd demo_pub)" "snd (snd demo_pub)"] dequeue_step(1) [OF I] by (auto simp: demo_published_ring)
  then show ?thesis using race_past_claim [OF g, of 1 k] by (fastforce simp: demo_published_ring)
qed

lemma demo_race_two_writers:
  "\<exists>m r ps P D. ring_race 2 m r ps P D \<and> hold (ps ! 0) = Some 0 \<and> hold (ps ! 1) = Some 1 \<and> r_capacity r = 2"
proof -
  let ?r = "(snd demo_init)\<lparr>r_tail := 1\<rparr>"
  obtain P D where r: "ring_race 2 (fst demo_init) ?r [Pb_store demo_entry 0 0, RIdle] P D" using demo_race_claimed by blast
  from ring_race.put [OF r, of 1 demo_entry]
  have p: "ring_race 2 (fst demo_init) ?r [Pb_store demo_entry 0 0, Cl_load demo_entry] P D"
    by (simp add: demo_init_ring entry_of_def)
  have "claim (fst demo_init) ?r = Some ((1, True), ?r\<lparr>r_tail := 2\<rparr>)"
    using claim_free [OF ring_invD(1) [OF ring_reach_inv [OF demo_reach_claimed]]] by (simp add: demo_init_ring ring_full_def)
  from solo_claim [OF this, of demo_entry] obtain k where "k \<le> 3"
    "ring_solo k (Cl_load demo_entry) (fst demo_init) ?r = (Pb_store demo_entry 1 0, fst demo_init, ?r\<lparr>r_tail := 2\<rparr>)" by auto
  then obtain P' D' where "ring_race 2 (fst demo_init) (?r\<lparr>r_tail := 2\<rparr>) [Pb_store demo_entry 0 0, Pb_store demo_entry 1 0] P' D'"
    using race_solo [OF p, of 1 k] by (auto simp: demo_init_ring)
  then show ?thesis by (intro exI conjI) (assumption, simp_all add: hold_def demo_init_ring)
qed

section \<open>Theorems\<close>

text \<open>
  A caller that is left alone does what the function says: running the accesses of \<^verbatim>\<open>claim\<close> and \<^verbatim>\<open>publish\<close> one by one
  ends, where \<open>ring_put\<close> ends, whenever \<^verbatim>\<open>claim\<close> returns at all, and running those of \<^verbatim>\<open>dequeue\<close> and \<^verbatim>\<open>release\<close> ends
  where \<open>ring_take\<close> ends, after showing the same record, from any state of ring and memory.
\<close>
theorem ring_solo_sequential:
  "(\<forall>m' r' ok. ring_put (m, r) e = Some ((m', r'), ok) \<longrightarrow> (\<exists>k. ring_solo k (Cl_load e) m r = (RIdle, m', r'))) \<and>
   (\<forall>m' r'. ring_take (m, r) = (None, m', r') \<longrightarrow> (\<exists>k. ring_solo k Dq_head m r = (RIdle, m', r'))) \<and>
   (\<forall>d m' r'. ring_take (m, r) = (Some d, m', r') \<longrightarrow>
      (\<exists>k pos rec m1. ring_solo k Dq_head m r = (Rd pos rec, m1, r') \<and> delivered m1 rec = d \<and>
         ring_solo (k + 1) Dq_head m r = (RIdle, m', r')))"
proof (intro conjI allI impI)
  fix m' r' ok assume "ring_put (m, r) e = Some ((m', r'), ok)"
  then obtain pos b r1 where c: "claim m r = Some ((pos, b), r1)"
    and p: "if b then \<exists>n. ring_publish m r1 pos (e_ticket e) (e_key e) (e_timestamp e) (e_flags e) (e_payload e)
      (e_checksum e) = (n, m', r') else m' = m \<and> r' = r1"
    by (auto simp: ring_put_def split: option.splits prod.splits if_splits)
  obtain k where k: "ring_solo k (Cl_load e) m r = (if b then Pb_store e pos 0 else RIdle, m, r1)" using solo_claim [OF c] by blast
  show "\<exists>k. ring_solo k (Cl_load e) m r = (RIdle, m', r')"
  proof (cases b)
    case True
    then obtain j where "ring_solo j (Pb_store e pos 0) m r1 = (RIdle, m', r')" using p solo_publish by (metis (full_types))
    then show ?thesis using k True ring_solo_add by (metis (full_types))
  qed (use k p in auto)
next
  fix m' r' assume "ring_take (m, r) = (None, m', r')"
  then obtain pos rec where "dequeue m r zero_Record = ((pos, False), rec, m', r')"
    by (auto simp: ring_take_def split: prod.splits if_splits)
  then show "\<exists>k. ring_solo k Dq_head m r = (RIdle, m', r')" using solo_dequeue by fastforce
next
  fix d m' r' assume "ring_take (m, r) = (Some d, m', r')"
  then obtain pos rec m1 where d: "dequeue m r zero_Record = ((pos, True), rec, m1, r')" "d = delivered m1 rec" "m' = release m1 r' pos"
    by (auto simp: ring_take_def split: prod.splits if_splits)
  then obtain k where k: "ring_solo k Dq_head m r = (Rd pos rec, m1, r')" using solo_dequeue by fastforce
  have "ring_solo (k + 1) Dq_head m r = (RIdle, m', r')" using ring_solo_add [OF k, of 1] d(3) by simp
  then show "\<exists>k pos rec m1. ring_solo k Dq_head m r = (Rd pos rec, m1, r') \<and> delivered m1 rec = d \<and>
      ring_solo (k + 1) Dq_head m r = (RIdle, m', r')" using k d(2) by blast
qed

theorem ring_solo_sequential_witness:
  "\<exists>k m' r'. ring_solo k (Cl_load demo_entry) (fst demo_init) (snd demo_init) = (RIdle, m', r') \<and> r_tail r' = 1"
proof -
  have "ring_put demo_init demo_entry = Some ((fst (snd demo_pub), snd (snd demo_pub)), True)"
    using demo_claim demo_pub_eq by (simp add: ring_put_def case_prod_beta entry_of_def)
  then have "ring_put (fst demo_init, snd demo_init) demo_entry = Some ((fst (snd demo_pub), snd (snd demo_pub)), True)" by simp
  from ring_solo_sequential [THEN conjunct1, rule_format, OF this] show ?thesis using demo_published_ring(1) by blast
qed

text \<open>
  C23: Exactly-once delivery under any interleaving of any number of producers and consumers. Every claimed position is
  published at most once, and is published unless its producer is still writing it; every consumed position is shown at
  most once, and has been shown unless its consumer is just about to load it; and what is shown at a position is, byte for byte,
  what was published there, with the committed flag set.
\<close>
theorem ring_race_delivers_once:
  assumes "ring_race n m r ps P D"
  shows "distinct (map fst P) \<and> fst ` set P = {..<rT r} - owned wpos ps \<and>
    distinct (map fst D) \<and> fst ` set D = {..<rH r} - owned tpos ps \<and>
    (\<forall>(p, d)\<in>set D. \<exists>e. (p, e) \<in> set P \<and> d = committed_entry e)"
proof -
  note I = race_invD [OF ring_race_inv [OF assms]]
  note i = ring_inv0D [OF I(2)]
  have L: "distinct (map fst P)" "fst ` set P = {..<rT r} - owned wpos ps" "distinct (map fst D)"
    "{..<rH r} = fst ` set D \<union> owned tpos ps" "fst ` set D \<inter> owned tpos ps = {}"
    "\<And>p d. (p, d) \<in> set D \<Longrightarrow> d = committed_entry (plog P p)"
    using I(7) unfolding logs_ok_def by auto
  have "\<exists>e. (p, e) \<in> set P \<and> d = committed_entry e" if d: "(p, d) \<in> set D" for p d
  proof -
    have "p \<in> fst ` set D" using d by force
    then have "p < rH r" using L(4) by blast
    then have "p < rT r" "p \<notin> owned wpos ps" using i(3,4,7) by auto
    then obtain e where "map_of P p = Some e" using L(2) by (metis DiffI domD dom_map_of_conv_image_fst lessThan_iff)
    then show ?thesis using L(6) [OF d] by (auto simp: plog_def dest: map_of_SomeD)
  qed
  moreover have "fst ` set D = {..<rH r} - owned tpos ps" using L(4,5) by blast
  ultimately show ?thesis using L(1-3) by auto
qed

theorem ring_race_delivers_once_witness:
  "\<exists>m r ps P D. ring_race 2 m r ps P D \<and> map fst D = [0] \<and> fst ` set P = {0}"
proof -
  obtain m r rec P D where r: "ring_race 2 m r [RIdle, Rd 0 rec] P D" "r_head r = 1" "r_tail r = 1"
    using demo_race_reading by (elim exE conjE)
  have o: "owned wpos [RIdle, Rd 0 rec] = {}" "owned tpos [RIdle, Rd 0 rec] = {}"
    by (simp_all add: owned_set)
  have z: "{..<rH r} = {0}" "{..<rT r} = {0}" using r(2,3) by (simp_all add: lessThan_Suc)
  note T = ring_race_delivers_once [OF r(1), unfolded o z Diff_empty]
  have d: "distinct (map fst D)" by (rule T [THEN conjunct2, THEN conjunct2, THEN conjunct1])
  have e: "fst ` set D = {0}" by (rule T [THEN conjunct2, THEN conjunct2, THEN conjunct2, THEN conjunct1])
  have f: "fst ` set P = {0}" by (rule T [THEN conjunct2, THEN conjunct1])
  have "length (map fst D) = Suc 0" using distinct_card [OF d] e by simp
  then obtain x where x: "map fst D = [x]" by (metis length_0_conv length_Suc_conv)
  then have "x \<in> {0}" unfolding e [symmetric] by (metis list.set_intros(1) list.set_map)
  then have "map fst D = [0]" using x by simp
  with r(1) f show ?thesis by (intro exI [of _ m] exI [of _ r] exI [of _ "[RIdle, Rd 0 rec]"] exI [of _ P] exI [of _ D]) simp
qed

text \<open>
  C24: Cells are owned. Under any interleaving, two threads that hold a position, to write it or to read it, are in
  different cells; the branch of \<^verbatim>\<open>dequeue\<close> that its comment calls structurally unreachable is never taken; and while a
  consumer holds a record, the bytes it sees are those it was shown when it loaded it.
\<close>
theorem ring_race_exclusive:
  assumes "ring_race n m r ps P D" "t < n"
  shows "(\<forall>u<n. \<forall>p q. t \<noteq> u \<longrightarrow> hold (ps ! t) = Some p \<longrightarrow> hold (ps ! u) = Some q \<longrightarrow> p mod rcap r \<noteq> q mod rcap r) \<and>
    (\<forall>pos. ps ! t \<noteq> Dq_bad pos) \<and>
    (\<forall>pos rec. ps ! t = Rd pos rec \<longrightarrow> (unat pos, delivered m rec) \<in> set D)"
proof (intro conjI allI impI)
  note inv = ring_race_inv [OF assms(1)]
  note I = race_invD [OF inv]
  show "p mod rcap r \<noteq> q mod rcap r" if "u < n" "t \<noteq> u" "hold (ps ! t) = Some p" "hold (ps ! u) = Some q" for u p q
    using held_apart [OF I(2-4)] that assms(2) I(1) by blast
  show "ps ! t \<noteq> Dq_bad pos" for pos using I(5) [OF assms(2)] by auto
  fix pos rec assume pc: "ps ! t = Rd pos rec"
  have "rpos (ps ! t) = Some (unat pos)" by (simp add: pc)
  note T = taken_holds [OF inv assms(2) this]
  have rec: "rec = load_record m r pos zero_Record" using I(5) [OF assms(2)] by (simp add: pc)
  have d: "delivered m rec = committed_entry (plog P (unat pos))"
    unfolding rec by (rule load_record_delivered [OF ring_inv0D(1) [OF I(2)] T(3)])
  have "unat pos \<notin> owned tpos ps"
  proof
    assume "unat pos \<in> owned tpos ps"
    then obtain u where u: "u < n" "tpos (ps ! u) = Some (unat pos)" using I(1) by (auto simp: owned_def)
    then have "u = t" using soleD [OF I(4), of u t "unat pos"] tpos_rpos [OF u(2)] I(1) assms(2) by (simp add: pc)
    then show False using u(2) pc by simp
  qed
  moreover have "unat pos < rH r" using ring_inv0D(8) [OF I(2)] T(1) by auto
  ultimately have "unat pos \<in> fst ` set D" using I(7) unfolding logs_ok_def by blast
  then obtain e where "(unat pos, e) \<in> set D" by auto
  then show "(unat pos, delivered m rec) \<in> set D" using I(7) d unfolding logs_ok_def by fastforce
qed

theorem ring_race_exclusive_witness:
  "\<exists>m r ps P D. ring_race 2 m r ps P D \<and> hold (ps ! 0) = Some 0 \<and> hold (ps ! 1) = Some 1 \<and> 0 mod rcap r \<noteq> 1 mod rcap r"
proof -
  obtain m r ps P D where r: "ring_race 2 m r ps P D" "hold (ps ! 0) = Some 0" "hold (ps ! 1) = Some 1"
    using demo_race_two_writers by blast
  have "0 mod rcap r \<noteq> 1 mod rcap r" using ring_race_exclusive [OF r(1), of 0] r(2,3) by fastforce
  then show ?thesis using r by blast
qed

text \<open>
  C25: Nothing is left behind. Whatever interleaving came before, once every caller has returned the commit index has caught up with
  the tail, although no caller owns the job; every claimed position has been published and every consumed one shown; and the
  ring is again the bounded queue of the sequential theory, holding what was published and not yet shown, in the order of the claims.
\<close>
theorem ring_race_quiesces:
  assumes "ring_race n m r ps P D" "set ps \<subseteq> {RIdle}"
  shows "r_commit r = r_tail r \<and> quiet (m, r) \<and> fst ` set P = {..<rT r} \<and> fst ` set D = {..<rH r} \<and>
    ring_items (m, r) = map (\<lambda>p. committed_entry (plog P p)) [rH r..<rT r]"
proof -
  note I = race_invD [OF ring_race_inv [OF assms(1)]]
  have o: "owned wpos ps = {}" "owned rpos ps = {}" "owned tpos ps = {}" using owned_idle [OF assms(2)] by blast+
  have "\<not> (\<exists>pc\<in>set ps. minds_commit r pc)" using assms(2) by auto
  then have c: "rC r = rT r" using I(6) ring_inv0D(4) [OF I(2)] by (auto simp: commit_minded_def o)
  then have inv: "ring_inv m r {} {} (plog P)" using I(2) by (simp add: ring_inv_def o)
  have "quiet (m, r)" using inv by (auto simp: quiet_def)
  moreover have "ring_items (m, r) = map (\<lambda>p. committed_entry (plog P p)) [rH r..<rT r]" using ring_items_log [OF inv] c by simp
  moreover have "r_commit r = r_tail r" using c by (simp add: word_unat_eq_iff)
  ultimately show ?thesis using I(7) by (simp add: logs_ok_def o)
qed

theorem ring_race_quiesces_witness:
  "\<exists>m r P D. ring_race 2 m r [RIdle, RIdle] P D \<and> r_commit r = 1 \<and> length (ring_items (m, r)) = 1"
proof -
  obtain P D where r: "ring_race 2 (fst (snd demo_pub)) (snd (snd demo_pub)) [RIdle, RIdle] P D" using demo_race_published by blast
  have "r_commit (snd (snd demo_pub)) = 1" "length (ring_items (fst (snd demo_pub), snd (snd demo_pub))) = 1"
    using ring_race_quiesces [OF r] by (simp_all add: demo_published_ring)
  then show ?thesis using r by blast
qed

end
