(* ===== verification/LookupRace.thy ===== *)
theory LookupRace
  imports IndexRace RingRaceThms ShardInv
begin

text \<open>
  \<^verbatim>\<open>lookup\<close> as a thread runs it while others write: every load may see a different memory. \<open>M i\<close> is the memory at the
  \<open>i\<close>-th load; nothing is assumed about how one relates to the next, so whatever the other threads do is covered.
\<close>

section \<open>Lookup in a changing memory\<close>

definition lookup_bucket_at :: "(nat \<Rightarrow> mem) \<Rightarrow> nat \<Rightarrow> u64 \<Rightarrow> u64 \<Rightarrow> ring \<Rightarrow> Record \<Rightarrow> error + Record" where
  "lookup_bucket_at M i b key r rec =
     (let ticket = ptrLoad64 (M i) (fieldAt b offIdxTicket) in
      if ticket = 0 then Inl ErrNotFound
      else let slot = ptrLoad64 (M (i + 1)) (fieldAt b offIdxSlot) in
      if slot \<ge> r_capacity r then Inl ErrNotFound
      else let c = cellAt (r_base r) slot (r_stride r) in
      if ptrLoad64 (M (i + 2)) (fieldAt c offKey) \<noteq> key then Inl ErrNotFound
      else if ptrLoad32 (M (i + 3)) (fieldAt c offFlags) AND FlagCommitted = 0 then Inl ErrNotFound
      else let n = ptrLoad64 (M (i + 4)) (fieldAt c offLength) in
      if n > r_payloadCap r then Inl ErrNotFound
      else let rec' = rec\<lparr>Ticket := ptrLoad64 (M (i + 5)) (fieldAt c offTicket),
                          Timestamp := ptrLoad64 (M (i + 6)) (fieldAt c offTimestamp),
                          Key := key,
                          Epoch := ptrLoad64 (M (i + 7)) (fieldAt c offEpoch),
                          Checksum := ptrLoad32 (M (i + 8)) (fieldAt c offChecksum),
                          Flags := ptrLoad32 (M (i + 9)) (fieldAt c offFlags),
                          Slot := slot,
                          Payload := payloadSlice c n\<rparr>
      in if ptrLoad64 (M (i + 10)) (fieldAt c offKey) \<noteq> key then Inl ErrNotFound else Inr rec')"

fun lookup_probes_at :: "nat list \<Rightarrow> (nat \<Rightarrow> mem) \<Rightarrow> nat \<Rightarrow> keyIndex \<Rightarrow> u64 \<Rightarrow> u64 \<Rightarrow> ring \<Rightarrow> Record \<Rightarrow> error + Record" where
  "lookup_probes_at [] M i x h key r rec = Inl ErrNotFound"
| "lookup_probes_at (probe # ps) M i x h key r rec =
     (let b = probeBucket x h probe; cur = ptrLoad64 (M i) (fieldAt b offIdxKey) in
      if cur = 0 then Inl ErrNotFound
      else if cur \<noteq> key then lookup_probes_at ps M (i + 1) x h key r rec
      else lookup_bucket_at M (i + 1) b key r rec)"

definition index_lookup_at :: "(nat \<Rightarrow> mem) \<Rightarrow> keyIndex \<Rightarrow> u64 \<Rightarrow> ring \<Rightarrow> Record \<Rightarrow> error + Record" where
  "index_lookup_at M x key r rec =
     (if key = 0 then Inl ErrConfig
      else let h = hashKey key AND x_mask x in lookup_probes_at [0..<maxProbe] M 0 x h key r rec)"

lemma lookup_at_still: "index_lookup_at (\<lambda>_. m) x key r rec = index_lookup m x key r rec"
proof -
  have "lookup_probes_at ps (\<lambda>_. m) i x h key r rec = lookup_probes ps m x h key r rec" for ps i h
    by (induction ps arbitrary: i) (simp_all add: lookup_bucket_at_def lookup_bucket_def Let_def)
  then show ?thesis by (simp add: index_lookup_at_def index_lookup_def)
qed

text \<open>What the loads of a successful lookup saw.\<close>

lemma lookup_at_bucket:
  assumes "index_lookup_at M x key r rec = Inr rec'"
  obtains i b where "lookup_bucket_at M i b key r rec = Inr rec'" "key \<noteq> 0"
proof -
  have "\<exists>j b. lookup_bucket_at M j b key r rec = Inr rec'" if "lookup_probes_at ps M i x h key r rec = Inr rec'" for ps i h
    using that by (induction ps arbitrary: i) (auto simp: Let_def split: if_splits)
  moreover have "key \<noteq> 0" "lookup_probes_at [0..<maxProbe] M 0 x (hashKey key AND x_mask x) key r rec = Inr rec'"
    using assms by (auto simp: index_lookup_at_def Let_def split: if_splits)
  ultimately show ?thesis using that by blast
qed

lemma lookup_bucket_at_cell:
  assumes "lookup_bucket_at M i b key r rec = Inr rec'"
  defines "v \<equiv> \<lambda>j. read_cell (M (i + j)) r (unat (Slot rec'))"
  shows "Slot rec' < r_capacity r" "cv_key (v 2) = key" "cv_key (v 10) = key" "cv_length (v 4) \<le> r_payloadCap r"
    "rec' = rec\<lparr>Ticket := cv_ticket (v 5), Timestamp := cv_timestamp (v 6), Key := key, Epoch := cv_epoch (v 7),
       Checksum := cv_checksum (v 8), Flags := cv_flags (v 9), Slot := Slot rec',
       Payload := payloadSlice (cellB r (unat (Slot rec'))) (cv_length (v 4))\<rparr>"
proof -
  have "cellAt (r_base r) s (r_stride r) = cellB r (unat s)" for s by (simp add: cellB_def)
  note u = assms(1) [unfolded lookup_bucket_at_def Let_def this read_cell_loads]
  show "Slot rec' < r_capacity r" "cv_key (v 2) = key" "cv_key (v 10) = key" "cv_length (v 4) \<le> r_payloadCap r"
    "rec' = rec\<lparr>Ticket := cv_ticket (v 5), Timestamp := cv_timestamp (v 6), Key := key, Epoch := cv_epoch (v 7),
       Checksum := cv_checksum (v 8), Flags := cv_flags (v 9), Slot := Slot rec',
       Payload := payloadSlice (cellB r (unat (Slot rec'))) (cv_length (v 4))\<rparr>"
    using u by (auto simp: v_def not_le not_less split: if_splits)
qed

text \<open>A payload slice of admissible length lies inside the ring's bytes.\<close>

lemma payload_inside:
  assumes g: "ring_geom r" and s: "slot < r_capacity r" and n: "n \<le> r_payloadCap r" and k: "k < sl_len (payloadSlice (cellB r (unat slot)) n)"
  shows "unat (sl_ptr (payloadSlice (cellB r (unat slot)) n) + of_nat k - r_base r) < rcap r * unat (r_stride r)"
proof -
  let ?S = "unat (r_stride r)"
  have nz: "n \<noteq> 0" "k < unat n" using k by (auto simp: payloadSlice_def nil_slice_def split: if_splits)
  have "unat (r_payloadCap r) + 64 \<le> ?S" using g cellStrideFor_bounds(1) [of "r_payloadCap r"] by (simp add: ring_geom_def)
  moreover have "unat n \<le> unat (r_payloadCap r)" using n by (simp add: word_le_nat_alt)
  ultimately have off: "64 + k + 1 \<le> ?S" using nz by linarith
  have i: "unat slot < rcap r" using s by (simp add: word_less_nat_alt)
  have "(unat slot + 1) * ?S \<le> rcap r * ?S" using i by (intro mult_le_mono1) simp
  then have lt: "unat slot * ?S + (64 + k) < rcap r * ?S" using off by simp
  have "sl_ptr (payloadSlice (cellB r (unat slot)) n) + of_nat k = cellB r (unat slot) + of_nat (64 + k)"
    using nz by (simp add: payloadSlice_def payloadAt_def HeaderSize_def)
  then have "sl_ptr (payloadSlice (cellB r (unat slot)) n) + of_nat k - r_base r = of_nat (unat slot * ?S + (64 + k))"
    unfolding cellB_offset by simp
  moreover have "unat slot * ?S + (64 + k) < 2 ^ 64" using lt ring_geom_fits [OF g] by linarith
  ultimately have "unat (sl_ptr (payloadSlice (cellB r (unat slot)) n) + of_nat k - r_base r) = unat slot * ?S + (64 + k)"
    by (simp only: unat_of_nat64)
  with lt show ?thesis by linarith
qed

text \<open>
  C28: A lookup that races is confined. Whatever other threads write between its loads, a \<^verbatim>\<open>Lookup\<close> that succeeds names
  the key it was asked for and a cell of the ring whose key word twice read as that key, and every byte of the payload slice it
  hands out lies inside the ring's memory; and if the cell it names did not change meanwhile, the record is exactly that cell's.
\<close>
theorem lookup_race_confined:
  assumes "ring_geom r" "index_lookup_at M x key r rec = Inr rec'"
  shows "key \<noteq> 0 \<and> Key rec' = key \<and> Slot rec' < r_capacity r \<and>
    (\<exists>i j. i < j \<and> cv_key (read_cell (M i) r (unat (Slot rec'))) = key \<and> cv_key (read_cell (M j) r (unat (Slot rec'))) = key) \<and>
    (\<forall>k < sl_len (Payload rec'). unat (sl_ptr (Payload rec') + of_nat k - r_base r) < rcap r * unat (r_stride r)) \<and>
    (\<forall>v. (\<forall>i. read_cell (M i) r (unat (Slot rec')) = v) \<longrightarrow> rec' = cell_record r key (Slot rec') v rec)"
proof -
  obtain i b where b: "lookup_bucket_at M i b key r rec = Inr rec'" "key \<noteq> 0" using lookup_at_bucket [OF assms(2)] .
  note C = lookup_bucket_at_cell [OF b(1)]
  have k: "Key rec' = key" "Payload rec' = payloadSlice (cellB r (unat (Slot rec'))) (cv_length (read_cell (M (i + 4)) r (unat (Slot rec'))))"
    by (subst C(5), simp)+
  have t: "\<exists>i j. i < j \<and> cv_key (read_cell (M i) r (unat (Slot rec'))) = key \<and> cv_key (read_cell (M j) r (unat (Slot rec'))) = key"
    using C(2,3) by (intro exI [of _ "i + 2"] exI [of _ "i + 10"]) simp
  have "rec' = cell_record r key (Slot rec') v rec" if "\<forall>i. read_cell (M i) r (unat (Slot rec')) = v" for v
    using C(5) that by (simp add: cell_record_def)
  moreover have "unat (sl_ptr (Payload rec') + of_nat n - r_base r) < rcap r * unat (r_stride r)" if "n < sl_len (Payload rec')" for n
    using payload_inside [OF assms(1) C(1,4)] that unfolding k(2) by blast
  ultimately show ?thesis using b(2) k(1) C(1) t by blast
qed

section \<open>Torn reads\<close>

lemma claim_tail: "claim m r = Some ((pos, True), r1) \<Longrightarrow> pos = r_tail r \<and> r1 = r\<lparr>r_tail := r_tail r + 1\<rparr>"
proof -
  have "snd (fst y) \<longrightarrow> fst (fst y) = r_tail r \<and> snd y = r\<lparr>r_tail := r_tail r + 1\<rparr>" if "claim m r = Some y" for m r y
    using that by (rule claim.raw_induct [rotated]) (auto simp: Let_def atomicCAS64_def split: if_splits)
  then show "claim m r = Some ((pos, True), r1) \<Longrightarrow> pos = r_tail r \<and> r1 = r\<lparr>r_tail := r_tail r + 1\<rparr>" by fastforce
qed

lemma index_lookup_cursors: "index_lookup m x key (r\<lparr>r_tail := t\<rparr>) = index_lookup m x key r"
proof -
  have "lookup_probes ps m x h key (r\<lparr>r_tail := t\<rparr>) rec = lookup_probes ps m x h key r rec" for ps h rec
    by (induction ps) (simp_all add: lookup_bucket_def Let_def)
  then show ?thesis by (simp add: index_lookup_def fun_eq_iff)
qed

lemma mask_slot: "ring_geom r \<Longrightarrow> unat (pos AND r_mask r) = rslot r pos"
proof -
  assume g: "ring_geom r"
  then obtain k where "k < 64" "r_capacity r = 2 ^ k" by (auto simp: ring_geom_def isPow2_iff)
  then show ?thesis using g by (simp add: ring_geom_def and_mask_mod unat_pow2)
qed

text \<open>The first three stores of \<^verbatim>\<open>publish\<close>: payload, ticket, time stamp; the key comes later.\<close>

lemma three_stores:
  fixes m :: mem and pos :: u64
  assumes g: "shard_geom r x" and len: "length (e_payload e) \<le> unat (r_payloadCap r)"
  defines "m3 \<equiv> fill_store 2 (fill_store 1 (fill_store 0 m r pos e) r pos e) r pos e"
  shows "ring_solo 3 (Pb_store e pos 0) m r = (Pb_store e pos 3, m3, r)" "index_region m3 x = index_region m x"
    "read_cell m3 r (rslot r pos) = (read_cell m r (rslot r pos))\<lparr>cv_ticket := e_ticket e, cv_timestamp := e_timestamp e,
       cv_payload := e_payload e @ drop (length (e_payload e)) (cv_payload (read_cell m r (rslot r pos)))\<rparr>"
proof -
  note rg = shard_geomD(1) [OF g]
  show "ring_solo 3 (Pb_store e pos 0) m r = (Pb_store e pos 3, m3, r)" by (simp add: m3_def numeral_eq_Suc)
  show "index_region m3 x = index_region m x"
    using g len by (simp add: m3_def fill_store_def Let_def cell_cellB [OF rg] cell_store_frame copy_frame rslot_less [OF rg])
  show "read_cell m3 r (rslot r pos) = (read_cell m r (rslot r pos))\<lparr>cv_ticket := e_ticket e, cv_timestamp := e_timestamp e,
       cv_payload := e_payload e @ drop (length (e_payload e)) (cv_payload (read_cell m r (rslot r pos)))\<rparr>"
    using rg len by (simp add: m3_def fill_store_def Let_def cell_cellB mem_simps)
qed

text \<open>
  C39: A lookup can mix two records. In any state of a shard, if the cell that \<^verbatim>\<open>Lookup\<close> finds for a key is the
  one a producer of another key claims next, then after the first three stores of \<^verbatim>\<open>publish\<close> the lookup still succeeds:
  key, flags and length of the old record pass every check, the one after the copy included, while ticket, time stamp and
  the payload bytes are already those of the other key.
\<close>
theorem lookup_torn_read:
  assumes "shard_geom r x" "index_inv m x" "ring_inv m r W R L" "claim m r = Some ((pos, True), r1)"
    and "index_lookup m x key r rec = Inr rec1" "Slot rec1 = pos AND r_mask r"
    and "length (e_payload e) \<le> unat (r_payloadCap r)" "sl_len (Payload rec1) \<le> length (e_payload e)"
  shows "\<exists>m3 rec3. ring_solo 3 (Pb_store e pos 0) m r1 = (Pb_store e pos 3, m3, r1) \<and>
    index_lookup m3 x key r1 rec = Inr rec3 \<and> Key rec3 = key \<and> Ticket rec3 = e_ticket e \<and> Timestamp rec3 = e_timestamp e \<and>
    slice_bytes m3 (Payload rec3) = take (sl_len (Payload rec1)) (e_payload e)"
proof -
  have r1: "r1 = r\<lparr>r_tail := r_tail r + 1\<rparr>" using claim_tail [OF assms(4)] by simp
  note g = shard_geomD(1) [OF assms(1)]
  have g1: "shard_geom r1 x" "length (e_payload e) \<le> unat (r_payloadCap r1)" using assms(1,7) by (simp_all add: r1)
  define m3 where "m3 = fill_store 2 (fill_store 1 (fill_store 0 m r1 pos e) r1 pos e) r1 pos e"
  note T = three_stores [OF g1, where m = m and pos = pos, folded m3_def]
  define v where "v = read_cell m r (rslot r pos)"
  have v3: "read_cell m3 r (rslot r pos) = v\<lparr>cv_ticket := e_ticket e, cv_timestamp := e_timestamp e,
       cv_payload := e_payload e @ drop (length (e_payload e)) (cv_payload v)\<rparr>" (is "_ = ?v3")
    using T(3) by (simp add: r1 v_def)
  note ix = index_region_cong [OF index_invD(1) [OF assms(2)] T(2)]
  have inv3: "index_inv m3 x" using ix(1) assms(2) by simp
  obtain t s where h: "key \<noteq> 0" "idx_map m x key = Some (t, s)" "cell_confirms r key (t, s) (read_cell m r (unat s))"
    "rec1 = cell_record r key s (read_cell m r (unat s)) rec"
    using assms(5) index_lookup_eq [OF assms(2), of key r rec] by (auto simp: Let_def split: if_splits option.splits)
  have s: "s = pos AND r_mask r" "unat s = rslot r pos" using h(4) assms(6) mask_slot [OF g] by (simp_all add: cell_record_def)
  have c3: "cell_confirms r key (t, s) ?v3" using h(3) by (simp add: cell_confirms_def s(2) v_def)
  have l: "index_lookup m3 x key r1 rec = Inr (cell_record r key s ?v3 rec)"
    using index_lookup_eq [OF inv3, of key r rec] h(1,2) ix(2) c3 v3 s(2) by (simp add: index_lookup_cursors r1)
  have n: "unat (cv_length v) \<le> unat (r_payloadCap r)" using h(3) by (simp add: cell_confirms_def s(2) v_def word_le_nat_alt)
  have len: "sl_len (Payload rec1) = unat (cv_length v)"
    using h(4) by (simp add: cell_record_def s(2) v_def payloadSlice_def nil_slice_def)
  have "slice_bytes m3 (Payload (cell_record r key s ?v3 rec)) = take (unat (cv_length v)) (cv_payload ?v3)"
    using payloadSlice_bytes [OF n, of m3 "rslot r pos"] v3 by (simp add: cell_record_def s(2))
  then have "slice_bytes m3 (Payload (cell_record r key s ?v3 rec)) = take (sl_len (Payload rec1)) (e_payload e)"
    using assms(8) len by simp
  then show ?thesis using T(1) l by (intro exI conjI) (assumption, assumption, simp_all add: cell_record_def)
qed

section \<open>A shard where it happens\<close>

text \<open>The ring of the small shard one step on: a second producer has claimed position 1 and stalls, the record of position 0 has
  been consumed, and the index has learnt of it.\<close>

definition demo_r2 :: ring where
  "demo_r2 = demo_r\<lparr>r_tail := 2, r_head := 1\<rparr>"

lemma demo_ring2:
  "ring_inv (release demo_m demo_r2 0) demo_r2 {1} {} (\<lambda>_. entry_of 1 42 5 0 [1, 2, 3] 0)"
proof -
  let ?L = "\<lambda>_ :: nat. entry_of 1 42 5 0 [1, 2, 3] 0"
  have i: "ring_inv (fst (snd demo_pub)) demo_r {} {} ?L"
    using ring_reach_inv [OF demo_reach_published [of ?L]] by (simp add: fun_upd_idem)
  have "ring_region demo_m demo_r = ring_region (fst (snd demo_pub)) demo_r"
    using init_buckets_frame [OF demo_shard order_refl] initIndex_okD(4) [OF demo_index_eq] by simp
  from ring_inv_cong [OF this [symmetric] i] have j: "ring_inv demo_m demo_r {} {} ?L" .
  have "ring_inv demo_m (demo_r\<lparr>r_tail := 2\<rparr>) {1} {} ?L"
    using claim_inv [OF j] by (simp add: demo_published_ring ring_full_def)
  from dequeue_step(2) [OF this] have "ring_inv demo_m demo_r2 {1} {0} ?L"
    by (simp add: demo_published_ring demo_r2_def)
  from release_inv [OF this, of 0] show ?thesis by simp
qed

lemma demo_shard2:
  "\<exists>m x rec. shard_geom demo_r2 x \<and> index_inv m x \<and> ring_inv m demo_r2 {1} {} (\<lambda>_. entry_of 1 42 5 0 [1, 2, 3] 0) \<and>
     claim m demo_r2 = Some ((2, True), demo_r2\<lparr>r_tail := 3\<rparr>) \<and> index_lookup m x 42 demo_r2 zero_Record = Inr rec \<and>
     Slot rec = 0 \<and> sl_len (Payload rec) = 3"
proof -
  let ?m = "release demo_m demo_r2 0"
  have g: "shard_geom demo_r2 demo_x" using demo_shard by (simp add: demo_r2_def)
  note rg = shard_geomD [OF g]
  note ix = index_region_cong [OF rg(2) release_frame [OF g, of demo_m 0]]
  have inv: "index_inv ?m demo_x" "idx_map ?m demo_x = Map.empty" using ix demo_inv by simp_all
  have empty: "probe_key ?m demo_x 42 p = 0" for p
    using inv(2) idx_map_at [OF inv(1), of "probe_ix demo_x 42 p"] rg(2) by (fastforce simp: probe_key_def)
  have "find (\<lambda>p. probe_key ?m demo_x 42 p \<in> {0, 42}) [0..<maxProbe] = Some 0" by (simp add: empty maxProbe_def upt_rec)
  then obtain m x where u: "upsert ?m demo_x 42 1 0 demo_r2 = (m, x, None)"
    using upsert_view [OF rg(2,1), of 42 ?m 1 0] empty by simp
  have post: "index_inv m x" "same_table demo_x x" "ring_region m demo_r2 = ring_region ?m demo_r2"
    using upsert_correct [OF inv(1) g, of 42 1 0] u by (simp_all add: upsert_post_def)
  have r: "ring_inv m demo_r2 {1} {} (\<lambda>_. entry_of 1 42 5 0 [1, 2, 3] 0)"
    by (rule ring_inv_cong [OF post(3) [symmetric] demo_ring2])
  have v: "read_cell ?m demo_r2 0 = (read_cell demo_m demo_r 0)\<lparr>cv_seq := 2\<rparr>"
    using release_view [OF rg(1), of 0 demo_m 0] ring_geom_pos [OF rg(1)] by (simp add: demo_r2_def demo_published_ring)
  have "cell_confirms demo_r2 42 (1, 0) (read_cell ?m demo_r2 (unat 0))"
    unfolding unat_0 v using demo_view by (simp add: cell_confirms_def demo_r2_def demo_published_ring)
  from upsert_then_lookup_gen [OF inv(1) g u _ this] inv(2)
  have l: "index_lookup m x 42 demo_r2 zero_Record = Inr (cell_record demo_r2 42 0 (read_cell ?m demo_r2 0) zero_Record)" by simp
  have "claim m demo_r2 = Some ((2, True), demo_r2\<lparr>r_tail := 3\<rparr>)"
    using claim_free [OF ring_invD(1) [OF r]] by (simp add: ring_full_def demo_r2_def demo_published_ring)
  moreover have "shard_geom demo_r2 x" using same_table_geom [OF post(2)] g by simp
  moreover have "sl_len (Payload (cell_record demo_r2 42 0 (read_cell ?m demo_r2 0) zero_Record)) = 3"
    using demo_view(2) by (simp add: cell_record_def v payloadSlice_def)
  ultimately show ?thesis using post(1) r l by (intro exI conjI) (assumption+, simp_all add: cell_record_def)
qed

theorem lookup_torn_read_witness:
  "\<exists>m x m3 r1 rec3. index_inv m x \<and> claim m demo_r2 = Some ((2, True), r1) \<and>
     ring_solo 3 (Pb_store (entry_of 9 77 6 0 [7, 8, 9] 0) 2 0) m r1 = (Pb_store (entry_of 9 77 6 0 [7, 8, 9] 0) 2 3, m3, r1) \<and>
     index_lookup m3 x 42 r1 zero_Record = Inr rec3 \<and> Key rec3 = 42 \<and> Ticket rec3 = 9 \<and> slice_bytes m3 (Payload rec3) = [7, 8, 9]"
proof -
  obtain m x rec where d: "shard_geom demo_r2 x" "index_inv m x" "ring_inv m demo_r2 {1} {} (\<lambda>_. entry_of 1 42 5 0 [1, 2, 3] 0)"
    "claim m demo_r2 = Some ((2, True), demo_r2\<lparr>r_tail := 3\<rparr>)" "index_lookup m x 42 demo_r2 zero_Record = Inr rec"
    "Slot rec = 0" "sl_len (Payload rec) = 3" using demo_shard2 by (elim exE conjE)
  have "r_mask demo_r2 = 1" using shard_geomD(1) [OF d(1)] by (simp add: ring_geom_def demo_r2_def demo_published_ring)
  then have s: "Slot rec = 2 AND r_mask demo_r2" using d(6) by simp
  have p: "length (e_payload (entry_of 9 77 6 0 [7, 8, 9] 0)) \<le> unat (r_payloadCap demo_r2)"
    "sl_len (Payload rec) \<le> length (e_payload (entry_of 9 77 6 0 [7, 8, 9] 0))"
    by (simp_all add: entry_of_def demo_r2_def demo_published_ring d(7))
  have "take (sl_len (Payload rec)) (e_payload (entry_of 9 77 6 0 [7, 8, 9] 0)) = [7, 8, 9]" "e_ticket (entry_of 9 77 6 0 [7, 8, 9] 0) = 9"
    by (simp_all add: d(7) entry_of_def)
  with lookup_torn_read [OF d(1-5) s p] d(2,4) show ?thesis by (elim exE conjE, intro exI conjI) (assumption+, simp_all)
qed

theorem lookup_race_confined_witness:
  "\<exists>M x rec. index_lookup_at M x 42 demo_r2 zero_Record = Inr rec \<and> Key rec = 42 \<and> Slot rec < r_capacity demo_r2"
proof -
  obtain m x rec where d: "shard_geom demo_r2 x" "index_lookup m x 42 demo_r2 zero_Record = Inr rec"
    using demo_shard2 by (elim exE conjE)
  then have l: "index_lookup_at (\<lambda>_. m) x 42 demo_r2 zero_Record = Inr rec" by (simp add: lookup_at_still)
  from lookup_race_confined [OF shard_geomD(1) [OF d(1)] l] l show ?thesis by blast
qed

end
