(* ===== verification/UpsertSteps.thy ===== *)
theory UpsertSteps
  imports IndexRace
begin

text \<open>
  \<^verbatim>\<open>upsert\<close> as threads run it: every access to a bucket, to a cell and to a counter is a step of its own, and any number of
  producers, with the same or different keys, interleave them on one table.
\<close>

section \<open>One access at a time\<close>

text \<open>Where a producer stands. \<open>U1\<close> is the first pass, \<open>U2\<close> the second; the numbers are the attempt and the probe. \<open>Un\<close> is
  a new bucket being filled, \<open>Up\<close> the update of the bucket of a known key, \<open>Ur\<close> a reclaimed bucket being filled.\<close>

datatype ups_pc =
    U1_load nat nat | U1_cas nat nat | U1_reload nat nat
  | Un_slot nat | Un_ticket nat | Un_live nat | Up_upd nat upd_pc | U_coll nat
  | U2_load nat nat | U2_slot nat nat u64 | U2_cell nat nat u64 u64 | U2_cas nat nat u64
  | Ur_slot nat | Ur_ticket nat | Ur_count | U_full | U_ret "error option"

definition ups_start :: "u64 \<Rightarrow> ups_pc" where
  "ups_start key = (if key = 0 then U_ret (Some ErrConfig) else U1_load 0 0)"

definition next1 :: "nat \<Rightarrow> nat \<Rightarrow> ups_pc" where
  "next1 attempt probe = (if probe + 1 < maxProbe then U1_load attempt (probe + 1) else U2_load attempt 0)"

definition next2 :: "nat \<Rightarrow> nat \<Rightarrow> ups_pc" where
  "next2 attempt probe = (if probe + 1 < maxProbe then U2_load attempt (probe + 1) else U_full)"

definition after_update :: "nat \<Rightarrow> ups_pc" where
  "after_update probe = (if probe > 0 then U_coll probe else U_ret None)"

definition key_word :: "keyIndex \<Rightarrow> u64 \<Rightarrow> nat \<Rightarrow> u64" where
  "key_word x key probe = fieldAt (probeBucket x (hashKey key AND x_mask x) probe) offIdxKey"

fun ups_exec :: "ring \<Rightarrow> u64 \<times> u64 \<times> u64 \<Rightarrow> ups_pc \<Rightarrow> mem \<Rightarrow> keyIndex \<Rightarrow> ups_pc \<times> mem \<times> keyIndex" where
  "ups_exec r (key, ticket, slot) (U1_load a p) m x =
     (let cur = ptrLoad64 m (key_word x key p) in
      (if cur = 0 then U1_cas a p else if cur = key then Up_upd p Upd_load else next1 a p, m, x))"
| "ups_exec r (key, ticket, slot) (U1_cas a p) m x =
     (case ptrCAS64 m (key_word x key p) 0 key of (m', ok) \<Rightarrow> (if ok then Un_slot p else U1_reload a p, m', x))"
| "ups_exec r (key, ticket, slot) (U1_reload a p) m x =
     (let cur = ptrLoad64 m (key_word x key p) in (if cur = key then Up_upd p Upd_load else next1 a p, m, x))"
| "ups_exec r (key, ticket, slot) (Un_slot p) m x =
     (Un_ticket p, ptrStore64 m (fieldAt (probeBucket x (hashKey key AND x_mask x) p) offIdxSlot) slot, x)"
| "ups_exec r (key, ticket, slot) (Un_ticket p) m x =
     (Un_live p, ptrStore64 m (fieldAt (probeBucket x (hashKey key AND x_mask x) p) offIdxTicket) ticket, x)"
| "ups_exec r (key, ticket, slot) (Un_live p) m x = (after_update p, m, x\<lparr>x_live := fst (atomicAdd64 (x_live x) 1)\<rparr>)"
| "ups_exec r (key, ticket, slot) (Up_upd p u) m x =
     (case upd_exec (probeBucket x (hashKey key AND x_mask x) p) (ticket, slot) u m of (u', m') \<Rightarrow>
        (if u' = Upd_done then after_update p else Up_upd p u', m', x))"
| "ups_exec r (key, ticket, slot) (U_coll p) m x = (U_ret None, m, add_collides x p)"
| "ups_exec r (key, ticket, slot) (U2_load a p) m x =
     (let cur = ptrLoad64 m (key_word x key p) in
      (if cur = 0 \<or> cur = key then (if a + 1 < 2 then U1_load (a + 1) 0 else U_full) else U2_slot a p cur, m, x))"
| "ups_exec r (key, ticket, slot) (U2_slot a p cur) m x =
     (let s = ptrLoad64 m (fieldAt (probeBucket x (hashKey key AND x_mask x) p) offIdxSlot) in
      (if s \<ge> r_capacity r then U2_cas a p cur else U2_cell a p cur s, m, x))"
| "ups_exec r (key, ticket, slot) (U2_cell a p cur s) m x =
     (if ptrLoad64 m (fieldAt (cellAt (r_base r) s (r_stride r)) offKey) \<noteq> cur then U2_cas a p cur else next2 a p, m, x)"
| "ups_exec r (key, ticket, slot) (U2_cas a p cur) m x =
     (case ptrCAS64 m (key_word x key p) cur key of (m', ok) \<Rightarrow> (if ok then Ur_slot p else next2 a p, m', x))"
| "ups_exec r (key, ticket, slot) (Ur_slot p) m x =
     (Ur_ticket p, ptrStore64 m (fieldAt (probeBucket x (hashKey key AND x_mask x) p) offIdxSlot) slot, x)"
| "ups_exec r (key, ticket, slot) (Ur_ticket p) m x =
     (Ur_count, ptrStore64 m (fieldAt (probeBucket x (hashKey key AND x_mask x) p) offIdxTicket) ticket, x)"
| "ups_exec r (key, ticket, slot) Ur_count m x = (U_ret None, m, x\<lparr>x_reclaims := fst (atomicAdd64 (x_reclaims x) 1)\<rparr>)"
| "ups_exec r (key, ticket, slot) U_full m x =
     (U_ret (Some ErrIndexFull), m, x\<lparr>x_overflows := fst (atomicAdd64 (x_overflows x) 1)\<rparr>)"
| "ups_exec r (key, ticket, slot) (U_ret e) m x = (U_ret e, m, x)"

text \<open>\<open>ups_reach r jobs m0 x0 ps m x\<close>: producers with keys, tickets and slots \<open>jobs\<close>, started in \<open>m0\<close>, can come to stand at
  \<open>ps\<close>; in between, anything may happen outside the table.\<close>

inductive ups_reach :: "ring \<Rightarrow> (u64 \<times> u64 \<times> u64) list \<Rightarrow> mem \<Rightarrow> keyIndex \<Rightarrow> ups_pc list \<Rightarrow> mem \<Rightarrow> keyIndex \<Rightarrow> bool"
  for r jobs m0 x0 where
  start: "ups_reach r jobs m0 x0 (map (\<lambda>j. ups_start (fst j)) jobs) m0 x0"
| exec: "ups_reach r jobs m0 x0 ps m x \<Longrightarrow> t < length jobs \<Longrightarrow> ups_exec r (jobs ! t) (ps ! t) m x = (pc, m', x') \<Longrightarrow>
    ups_reach r jobs m0 x0 (ps[t := pc]) m' x'"
| other: "ups_reach r jobs m0 x0 ps m x \<Longrightarrow> index_region m' x = index_region m x \<Longrightarrow> ups_reach r jobs m0 x0 ps m' x"

section \<open>Running alone\<close>

fun ups_solo :: "nat \<Rightarrow> ring \<Rightarrow> u64 \<times> u64 \<times> u64 \<Rightarrow> ups_pc \<Rightarrow> mem \<Rightarrow> keyIndex \<Rightarrow> ups_pc \<times> mem \<times> keyIndex" where
  "ups_solo 0 r j pc m x = (pc, m, x)"
| "ups_solo (Suc k) r j pc m x = (case ups_exec r j pc m x of (pc1, m1, x1) \<Rightarrow> ups_solo k r j pc1 m1 x1)"

lemma ups_solo_add:
  "ups_solo i r j pc m x = (pc1, m1, x1) \<Longrightarrow> ups_solo (i + k) r j pc m x = ups_solo k r j pc1 m1 x1"
  by (induction i arbitrary: pc m x) (auto split: prod.splits)

lemma ups_solo_then:
  assumes "ups_solo i r j pc m x = (pc1, m1, x1)" "\<exists>k. ups_solo k r j pc1 m1 x1 = res"
  shows "\<exists>k. ups_solo k r j pc m x = res"
  using assms ups_solo_add by metis

lemma ups_solo_cont:
  assumes "ups_solo i r j pc m x = y" "\<exists>k. ups_solo k r j (fst y) (fst (snd y)) (snd (snd y)) = res"
  shows "\<exists>k. ups_solo k r j pc m x = res"
  using ups_solo_then [of i r j pc m x "fst y" "fst (snd y)" "snd (snd y)"] assms by simp

lemma cons_upt: "q # ps = [p..<n] \<longleftrightarrow> p < n \<and> q = p \<and> ps = [p + 1..<n]"
  by (auto simp: upt_rec [of p])

lemma ups_solo_step: "\<exists>k. ups_solo k r j pc1 m1 x1 = res \<Longrightarrow> ups_exec r j pc m x = (pc1, m1, x1) \<Longrightarrow> \<exists>k. ups_solo k r j pc m x = res"
  by (rule ups_solo_then [of 1]) simp_all

lemma solo_after_update: "\<exists>k. ups_solo k r (key, ticket, slot) (after_update p) m x = (U_ret None, m, add_collides x p)"
  by (rule exI [of _ "if p > 0 then 1 else 0"]) (simp add: after_update_def add_collides_def)

lemma solo_update:
  "\<exists>k. ups_solo k r (key, ticket, slot) (Up_upd p Upd_load) m x =
     (U_ret None, updateMonotonic m (probeBucket x (hashKey key AND x_mask x) p) ticket slot, add_collides x p)"
proof (cases "ptrLoad64 m (fieldAt (probeBucket x (hashKey key AND x_mask x) p) offIdxTicket) \<ge> ticket")
  case True
  then show ?thesis
    by (intro ups_solo_step [OF solo_after_update]) (simp add: updateMonotonic_eq)
next
  case False
  then show ?thesis
    by (intro ups_solo_then [of 3, OF _ solo_after_update])
      (simp add: numeral_eq_Suc updateMonotonic_eq ptrCAS64_def bump_bucket_def Let_def)
qed

lemma solo_insert:
  assumes "ptrLoad64 m (key_word x key p) = 0"
  shows "\<exists>k. ups_solo k r (key, ticket, slot) (U1_load a p) m x =
    (U_ret None, set_bucket m (probeBucket x (hashKey key AND x_mask x) p) key ticket slot,
     add_collides (x\<lparr>x_live := fst (atomicAdd64 (x_live x) 1)\<rparr>) p)"
  using assms
  by (intro ups_solo_then [of 5, OF _ solo_after_update])
    (simp add: numeral_eq_Suc ptrCAS64_def set_bucket_def Let_def key_word_def)

lemma solo_pass1:
  "ps = [p..<maxProbe] \<Longrightarrow>
   \<exists>k. ups_solo k r (key, ticket, slot) (if p < maxProbe then U1_load a p else U2_load a 0) m x =
     (case upsert_pass1 ps m x (hashKey key AND x_mask x) key ticket slot of
        Some (m', x') \<Rightarrow> (U_ret None, m', x') | None \<Rightarrow> (U2_load a 0, m, x))"
proof (induction ps arbitrary: p)
  case Nil
  then have "\<not> p < maxProbe" by (metis upt_conv_Cons list.distinct(1))
  then show ?case by (intro exI [of _ 0]) simp
next
  case (Cons q ps)
  have q: "q = p" "p < maxProbe" "ps = [p + 1..<maxProbe]" using Cons.prems by (auto simp: cons_upt)
  let ?kw = "key_word x key p"
  note kw = key_word_def [of x key p, symmetric]
  let ?b = "probeBucket x (hashKey key AND x_mask x) p"
  consider (empty) "ptrLoad64 m ?kw = 0" | (mine) "ptrLoad64 m ?kw = key" "key \<noteq> 0" | (other) "ptrLoad64 m ?kw \<noteq> 0" "ptrLoad64 m ?kw \<noteq> key"
    by metis
  then show ?case
  proof cases
    case empty
    then have "upsert_pass1 (q # ps) m x (hashKey key AND x_mask x) key ticket slot =
        Some (set_bucket m ?b key ticket slot, add_collides (x\<lparr>x_live := fst (atomicAdd64 (x_live x) 1)\<rparr>) p)"
      by (simp add: q(1) kw Let_def ptrCAS64_def set_bucket_def)
    then show ?thesis using solo_insert [OF empty] q(2) by simp
  next
    case mine
    then have "upsert_pass1 (q # ps) m x (hashKey key AND x_mask x) key ticket slot =
        Some (updateMonotonic m ?b ticket slot, add_collides x p)" by (simp add: q(1) kw Let_def)
    moreover have "ups_exec r (key, ticket, slot) (U1_load a p) m x = (Up_upd p Upd_load, m, x)" using mine by simp
    ultimately show ?thesis using ups_solo_step [OF solo_update] q(2) by simp
  next
    case other
    then have "upsert_pass1 (q # ps) m x (hashKey key AND x_mask x) key ticket slot =
        upsert_pass1 ps m x (hashKey key AND x_mask x) key ticket slot" by (simp add: q(1) kw Let_def)
    moreover have "ups_exec r (key, ticket, slot) (U1_load a p) m x =
        (if p + 1 < maxProbe then U1_load a (p + 1) else U2_load a 0, m, x)" using other by (simp add: next1_def)
    ultimately show ?thesis using ups_solo_step [OF Cons.IH [OF q(3)]] q(2) by simp
  qed
qed

lemma solo_reclaim:
  assumes "ptrLoad64 m (key_word x key p) = cur"
  shows "\<exists>k. ups_solo k r (key, ticket, slot) (U2_cas a p cur) m x =
    (U_ret None, set_bucket m (probeBucket x (hashKey key AND x_mask x) p) key ticket slot,
     x\<lparr>x_reclaims := fst (atomicAdd64 (x_reclaims x) 1)\<rparr>)"
  using assms by (intro exI [of _ 4]) (simp add: numeral_eq_Suc ptrCAS64_def set_bucket_def key_word_def)

lemma solo_dead:
  assumes "ptrLoad64 m (key_word x key p) = cur" "cur \<noteq> 0" "cur \<noteq> key"
  defines "b \<equiv> probeBucket x (hashKey key AND x_mask x) p"
  shows "\<exists>k. ups_solo k r (key, ticket, slot) (U2_load a p) m x = (if isDead m b cur r then U2_cas a p cur else next2 a p, m, x)"
proof (cases "ptrLoad64 m (fieldAt b offIdxSlot) \<ge> r_capacity r")
  case True
  then show ?thesis
    using assms(1-3) by (intro exI [of _ 2]) (simp add: numeral_eq_Suc isDead_def Let_def b_def)
next
  case False
  then show ?thesis
    using assms(1-3) by (intro exI [of _ 3]) (simp add: numeral_eq_Suc isDead_def Let_def b_def)
qed

lemma solo_pass2:
  "ps = [p..<maxProbe] \<Longrightarrow>
   \<exists>k. ups_solo k r (key, ticket, slot) (if p < maxProbe then U2_load a p else U_full) m x =
     (case upsert_pass2 ps m x (hashKey key AND x_mask x) key ticket slot r of
        Reclaimed m' x' \<Rightarrow> (U_ret None, m', x')
      | Retry m' \<Rightarrow> (if a + 1 < 2 then U1_load (a + 1) 0 else U_full, m', x)
      | Exhausted m' \<Rightarrow> (U_full, m', x))"
proof (induction ps arbitrary: p)
  case Nil
  then have "\<not> p < maxProbe" by (metis upt_conv_Cons list.distinct(1))
  then show ?case by (intro exI [of _ 0]) simp
next
  case (Cons q ps)
  have q: "q = p" "p < maxProbe" "ps = [p + 1..<maxProbe]" using Cons.prems by (auto simp: cons_upt)
  let ?b = "probeBucket x (hashKey key AND x_mask x) p" and ?cur = "ptrLoad64 m (key_word x key p)"
  note kw = key_word_def [of x key p, symmetric]
  show ?case
  proof (cases "?cur = 0 \<or> ?cur = key")
    case True
    then show ?thesis using q(1,2) kw by (intro exI [of _ 1]) (auto simp: Let_def)
  next
    case False
    then obtain k where k: "ups_solo k r (key, ticket, slot) (U2_load a p) m x =
        (if isDead m ?b ?cur r then U2_cas a p ?cur else next2 a p, m, x)" using solo_dead [OF refl] by blast
    show ?thesis
    proof (cases "isDead m ?b ?cur r")
      case True
      then have "upsert_pass2 (q # ps) m x (hashKey key AND x_mask x) key ticket slot r =
          Reclaimed (set_bucket m ?b key ticket slot) (x\<lparr>x_reclaims := fst (atomicAdd64 (x_reclaims x) 1)\<rparr>)"
        using False by (simp add: q(1) kw Let_def ptrCAS64_def set_bucket_def)
      then show ?thesis using ups_solo_cont [OF k] solo_reclaim [OF refl] True q(2) by simp
    next
      case live: False
      then have "upsert_pass2 (q # ps) m x (hashKey key AND x_mask x) key ticket slot r =
          upsert_pass2 ps m x (hashKey key AND x_mask x) key ticket slot r" using False by (simp add: q(1) kw Let_def)
      then show ?thesis using ups_solo_cont [OF k] Cons.IH [OF q(3)] live q(2) by (simp add: next2_def)
    qed
  qed
qed

lemma pass2_memory:
  "upsert_pass2 ps m x h key ticket slot r = Retry m' \<or> upsert_pass2 ps m x h key ticket slot r = Exhausted m' \<Longrightarrow> m' = m"
  by (induction ps) (auto simp: Let_def ptrCAS64_def split: if_splits)

lemma solo_attempts:
  "a + n = 2 \<Longrightarrow> \<exists>k. ups_solo k r (key, ticket, slot) (if n > 0 then U1_load a 0 else U_full) m x =
     (case upsert_attempts n m x (hashKey key AND x_mask x) key ticket slot r of (m', x', e) \<Rightarrow> (U_ret e, m', x'))"
proof (induction n arbitrary: a)
  case 0
  then show ?case by (intro exI [of _ 1]) simp
next
  case (Suc n)
  let ?h = "hashKey key AND x_mask x"
  have full: "\<exists>k. ups_solo k r (key, ticket, slot) U_full m x =
      (U_ret (Some ErrIndexFull), m, x\<lparr>x_overflows := fst (atomicAdd64 (x_overflows x) 1)\<rparr>)" by (intro exI [of _ 1]) simp
  obtain k1 where k1: "ups_solo k1 r (key, ticket, slot) (U1_load a 0) m x =
     (case upsert_pass1 [0..<maxProbe] m x ?h key ticket slot of
        Some (m', x') \<Rightarrow> (U_ret None, m', x') | None \<Rightarrow> (U2_load a 0, m, x))"
    using solo_pass1 [of "[0..<maxProbe]" 0 r key ticket slot a m x] by (auto simp: maxProbe_def)
  show ?case
  proof (cases "upsert_pass1 [0..<maxProbe] m x ?h key ticket slot")
    case None
    obtain k2 where k2: "ups_solo k2 r (key, ticket, slot) (U2_load a 0) m x =
      (case upsert_pass2 [0..<maxProbe] m x ?h key ticket slot r of
        Reclaimed m' x' \<Rightarrow> (U_ret None, m', x')
      | Retry m' \<Rightarrow> (if a + 1 < 2 then U1_load (a + 1) 0 else U_full, m', x)
      | Exhausted m' \<Rightarrow> (U_full, m', x))"
      using solo_pass2 [of "[0..<maxProbe]" 0 r key ticket slot a m x] by (auto simp: maxProbe_def)
    have s: "\<exists>k. ups_solo k r (key, ticket, slot) (if a + 1 < 2 then U1_load (a + 1) 0 else U_full) m x =
       (case upsert_attempts n m x ?h key ticket slot r of (m', x', e) \<Rightarrow> (U_ret e, m', x'))"
      using Suc.IH [of "a + 1"] Suc.prems by (cases "n = 0") (auto simp: not_less)
    have "\<exists>k. ups_solo k r (key, ticket, slot) (U2_load a 0) m x =
       (case upsert_attempts (Suc n) m x ?h key ticket slot r of (m', x', e) \<Rightarrow> (U_ret e, m', x'))"
    proof (cases "upsert_pass2 [0..<maxProbe] m x ?h key ticket slot r")
      case (Reclaimed m' x')
      then show ?thesis using k2 None by (intro exI [of _ k2]) simp
    next
      case (Retry m')
      moreover from this have "m' = m" using pass2_memory by blast
      ultimately show ?thesis using ups_solo_cont [OF k2] s None by simp
    next
      case (Exhausted m')
      moreover from this have "m' = m" using pass2_memory by blast
      ultimately show ?thesis using ups_solo_cont [OF k2] full None by simp
    qed
    then show ?thesis using ups_solo_cont [OF k1] None by simp
  next
    case (Some y)
    then show ?thesis using k1 by (auto split: prod.splits)
  qed
qed

text \<open>A producer that is left alone does what \<^verbatim>\<open>upsert\<close> says.\<close>

lemma solo_upsert:
  "\<exists>k. ups_solo k r (key, ticket, slot) (ups_start key) m x =
     (case upsert m x key ticket slot r of (m', x', e) \<Rightarrow> (U_ret e, m', x'))"
proof (cases "key = 0")
  case True
  then show ?thesis by (intro exI [of _ 0]) (simp add: ups_start_def upsert_def)
next
  case False
  then show ?thesis using solo_attempts [of 0 2 r key ticket slot m x] by (simp add: ups_start_def upsert_def Let_def)
qed

end
