(* ===== verification/UpsertRace.thy ===== *)
theory UpsertRace
  imports Threads UpsertSteps
begin

text \<open>
  Producers in \<^verbatim>\<open>upsert\<close> under any interleaving: what the table keeps, and what it does not. Chains never break and the live
  counter comes out right; but two producers of one key can each take a bucket for it.
\<close>

section \<open>What every interleaving keeps\<close>

lemma same_table_view:
  assumes "same_table x x'"
  shows "read_bucket m x' = read_bucket m x" "x_buckets x' = x_buckets x" "probe_ix x' = probe_ix x" "index_geom x' = index_geom x"
    "probe_key m x' = probe_key m x" "occupied m x' = occupied m x" "index_region m x' = index_region m x"
    "probeBucket x' = probeBucket x" "x_mask x' = x_mask x"
  using assms
  by (simp_all add: same_table_def read_bucket_def bucketB_def probe_ix_def index_geom_def probe_key_def occupied_def
      index_region_def probeBucket_def bucket_def fun_eq_iff)

text \<open>Every key sits within \<^verbatim>\<open>maxProbe\<close> steps of its home with no empty bucket before it.\<close>

definition chains_ok :: "mem \<Rightarrow> keyIndex \<Rightarrow> bool" where
  "chains_ok m x \<longleftrightarrow> (\<forall>i<xcap x. bkey m x i \<noteq> 0 \<longrightarrow> (\<exists>p<maxProbe. probe_ix x (bkey m x i) p = i \<and>
     (\<forall>q<p. probe_key m x (bkey m x i) q \<noteq> 0)))"

text \<open>What a producer knows of the buckets it has passed.\<close>

fun ups_ok :: "mem \<Rightarrow> keyIndex \<Rightarrow> u64 \<Rightarrow> ups_pc \<Rightarrow> bool" where
  "ups_ok m x key (U1_load a p) \<longleftrightarrow> key \<noteq> 0 \<and> p < maxProbe \<and> (\<forall>q<p. probe_key m x key q \<noteq> 0)"
| "ups_ok m x key (U1_cas a p) \<longleftrightarrow> key \<noteq> 0 \<and> p < maxProbe \<and> (\<forall>q<p. probe_key m x key q \<noteq> 0)"
| "ups_ok m x key (U1_reload a p) \<longleftrightarrow> key \<noteq> 0 \<and> p < maxProbe \<and> (\<forall>q<p + 1. probe_key m x key q \<noteq> 0)"
| "ups_ok m x key (U2_load a p) \<longleftrightarrow> key \<noteq> 0 \<and> p < maxProbe \<and> (\<forall>q<maxProbe. probe_key m x key q \<noteq> 0)"
| "ups_ok m x key (U2_slot a p cur) \<longleftrightarrow> key \<noteq> 0 \<and> p < maxProbe \<and> cur \<noteq> 0 \<and> (\<forall>q<maxProbe. probe_key m x key q \<noteq> 0)"
| "ups_ok m x key (U2_cell a p cur s) \<longleftrightarrow> key \<noteq> 0 \<and> p < maxProbe \<and> cur \<noteq> 0 \<and> (\<forall>q<maxProbe. probe_key m x key q \<noteq> 0)"
| "ups_ok m x key (U2_cas a p cur) \<longleftrightarrow> key \<noteq> 0 \<and> p < maxProbe \<and> cur \<noteq> 0 \<and> (\<forall>q<maxProbe. probe_key m x key q \<noteq> 0)"
| "ups_ok m x key _ \<longleftrightarrow> True"

text \<open>Between winning an empty bucket and counting it.\<close>

fun filling :: "ups_pc \<Rightarrow> bool" where
  "filling (Un_slot p) \<longleftrightarrow> True"
| "filling (Un_ticket p) \<longleftrightarrow> True"
| "filling (Un_live p) \<longleftrightarrow> True"
| "filling _ \<longleftrightarrow> False"

definition keys_grow :: "mem \<Rightarrow> mem \<Rightarrow> keyIndex \<Rightarrow> bool" where
  "keys_grow m m' x \<longleftrightarrow> (\<forall>i<xcap x. bkey m x i \<noteq> 0 \<longrightarrow> bkey m' x i \<noteq> 0)"

lemma keys_growD: "keys_grow m m' x \<Longrightarrow> index_geom x \<Longrightarrow> probe_key m x key q \<noteq> 0 \<Longrightarrow> probe_key m' x key q \<noteq> 0"
  by (simp add: keys_grow_def probe_key_def)

lemma ups_ok_grow: "ups_ok m x key pc \<Longrightarrow> keys_grow m m' x \<Longrightarrow> index_geom x \<Longrightarrow> ups_ok m' x key pc"
  using keys_growD by (cases pc) (auto dest: keys_growD)

text \<open>A step writes no key word, or takes one bucket for its key.\<close>

definition takes :: "mem \<Rightarrow> mem \<Rightarrow> keyIndex \<Rightarrow> u64 \<Rightarrow> nat \<Rightarrow> bool" where
  "takes m m' x key p \<longleftrightarrow> (\<forall>i<xcap x. bkey m' x i = (if i = probe_ix x key p then key else bkey m x i))"

lemma key_word_load: "index_geom x \<Longrightarrow> ptrLoad64 m (key_word x key p) = probe_key m x key p"
  by (simp add: key_word_def probeBucket_view probe_key_def read_bucket_loads)

lemma key_word_store:
  "index_geom x \<Longrightarrow> i < xcap x \<Longrightarrow>
   bkey (ptrStore64 m (key_word x key p) v) x i = (if i = probe_ix x key p then v else bkey m x i)"
  by (simp add: key_word_def probeBucket_view mem_simps)

lemma takes_store: "index_geom x \<Longrightarrow> takes m (ptrStore64 m (key_word x key p) key) x key p"
  by (simp add: takes_def key_word_store)

lemma other_word_store:
  assumes "index_geom x" "i < xcap x"
  shows "bkey (ptrStore64 m (fieldAt (probeBucket x (hashKey key AND x_mask x) p) offIdxSlot) v) x i = bkey m x i"
    "bkey (ptrStore64 m (fieldAt (probeBucket x (hashKey key AND x_mask x) p) offIdxTicket) v) x i = bkey m x i"
  using assms by (simp_all add: probeBucket_view mem_simps)

lemma upd_exec_keys:
  assumes "index_geom x" "i < xcap x" "upd_exec (probeBucket x (hashKey key AND x_mask x) p) (ticket, slot) u m = (u', m')"
  shows "bkey m' x i = bkey m x i"
  using assms other_word_store [OF assms(1,2)] by (cases u) (auto simp: Let_def ptrCAS64_def split: if_splits)

lemma ups_exec_effect:
  assumes g: "index_geom x" and ok: "ups_ok m x key pc" and run: "ups_exec r (key, ticket, slot) pc m x = (pc', m', x')"
  shows "same_table x x' \<and>
    ((\<exists>p<maxProbe. key \<noteq> 0 \<and> takes m m' x key p \<and> (\<forall>q<p. probe_key m x key q \<noteq> 0) \<and> x_live x' = x_live x \<and> \<not> filling pc \<and>
        filling pc' = (probe_key m x key p = 0)) \<or>
     (\<forall>i<xcap x. bkey m' x i = bkey m x i) \<and> x_live x' + (if filling pc' then 1 else 0) = x_live x + (if filling pc then 1 else 0))"
proof (cases pc)
  case (U1_cas a p)
  show ?thesis
  proof (cases "probe_key m x key p = 0")
    case True
    then have "m' = ptrStore64 m (key_word x key p) key" "x' = x" "pc' = Un_slot p"
      using run by (auto simp: U1_cas ptrCAS64_def key_word_load [OF g])
    then show ?thesis using True ok takes_store [OF g, of m key p] by (auto simp: U1_cas same_table_def)
  qed (use run in \<open>auto simp: U1_cas same_table_def ptrCAS64_def key_word_load [OF g]\<close>)
next
  case (U2_cas a p cur)
  show ?thesis
  proof (cases "probe_key m x key p = cur")
    case True
    then have "m' = ptrStore64 m (key_word x key p) key" "x' = x" "pc' = Ur_slot p"
      using run by (auto simp: U2_cas ptrCAS64_def key_word_load [OF g])
    then show ?thesis using True ok takes_store [OF g, of m key p] by (auto simp: U2_cas same_table_def)
  qed (use run in \<open>auto simp: U2_cas same_table_def ptrCAS64_def key_word_load [OF g] next2_def split: if_splits\<close>)
next
  case (Up_upd p u)
  then show ?thesis
    using run upd_exec_keys [OF g] by (auto simp: same_table_def after_update_def split: if_splits prod.splits)
qed (use run other_word_store [OF g] in
    \<open>auto simp: same_table_def Let_def next1_def next2_def after_update_def add_collides_def atomicAdd64_def split: if_splits\<close>)

lemma ups_exec_ok:
  assumes g: "index_geom x" and ok: "ups_ok m x key pc" and run: "ups_exec r (key, ticket, slot) pc m x = (pc', m', x')"
    and grow: "keys_grow m m' x"
  shows "ups_ok m' x key pc'"
proof -
  have mx: "0 < maxProbe" by (simp add: maxProbe_def)
  have last: "ups_ok m x key (next1 a p)" if "key \<noteq> 0" "p < maxProbe" "\<forall>q<p. probe_key m x key q \<noteq> 0" "probe_key m x key p \<noteq> 0" for a p
  proof -
    have "q < p \<or> q = p" if "q < Suc p" for q using that by auto
    then show ?thesis using that mx by (auto simp: next1_def not_less) (metis Suc_leI order.strict_trans2 less_SucI not_less_eq)
  qed
  show ?thesis
  proof (cases pc)
    case (U1_load a p)
    then show ?thesis using run ok last [of p a] by (auto simp: Let_def key_word_load [OF g] split: if_splits)
  next
    case (U1_reload a p)
    then show ?thesis using run ok last [of p a] by (auto simp: Let_def key_word_load [OF g] split: if_splits)
  next
    case (U1_cas a p)
    then show ?thesis
      using run ok by (auto simp: ptrCAS64_def key_word_load [OF g] less_Suc_eq split: if_splits)
  qed (use run ok mx in
      \<open>auto simp: Let_def key_word_load [OF g] next2_def after_update_def ptrCAS64_def split: if_splits prod.splits\<close>)
qed

lemma balance: "x' + b = x + a \<Longrightarrow> n' + a = n + b \<Longrightarrow> x + n = x' + (n' :: u64)"
proof -
  assume "x' + b = x + a" "n' + a = n + b"
  then have "(x + a) + (n + b) = (x' + b) + (n' + a)" by simp
  then show ?thesis by (simp add: algebra_simps)
qed

lemma takes_facts:
  assumes g: "index_geom x" and tk: "takes m m' x key p" and key: "key \<noteq> 0" and p: "p < maxProbe" "\<forall>q<p. probe_key m x key q \<noteq> 0"
  shows "keys_grow m m' x" "chains_ok m x \<Longrightarrow> chains_ok m' x"
    "occupied m' x = occupied m x + (if probe_key m x key p = 0 then 1 else 0)"
proof -
  let ?i = "probe_ix x key p"
  have i: "?i < xcap x" using g by simp
  show gr: "keys_grow m m' x" using tk key by (simp add: keys_grow_def takes_def)
  show "chains_ok m' x" if c: "chains_ok m x"
    unfolding chains_ok_def
  proof (intro allI impI)
    fix j assume j: "j < xcap x" "bkey m' x j \<noteq> 0"
    show "\<exists>p<maxProbe. probe_ix x (bkey m' x j) p = j \<and> (\<forall>q<p. probe_key m' x (bkey m' x j) q \<noteq> 0)"
    proof (cases "j = ?i")
      case True
      then show ?thesis using p keys_growD [OF gr g] tk j(1) by (intro exI [of _ p]) (simp add: takes_def)
    next
      case False
      then have "bkey m' x j = bkey m x j" using tk j(1) by (simp add: takes_def)
      then show ?thesis using c j keys_growD [OF gr g] by (metis chains_ok_def)
    qed
  qed
  have "{j. j < xcap x \<and> bkey m' x j \<noteq> 0} = insert ?i {j. j < xcap x \<and> bkey m x j \<noteq> 0}"
    using tk key i by (auto simp: takes_def split: if_splits)
  then show "occupied m' x = occupied m x + (if probe_key m x key p = 0 then 1 else 0)"
    using i by (simp add: occupied_def probe_key_def card_insert_if)
qed

lemma ups_ok_table: "same_table x x' \<Longrightarrow> ups_ok m x' key pc = ups_ok m x key pc"
  by (cases pc) (simp_all add: same_table_view)

definition ups_inv :: "(u64 \<times> u64 \<times> u64) list \<Rightarrow> mem \<Rightarrow> keyIndex \<Rightarrow> ups_pc list \<Rightarrow> mem \<Rightarrow> keyIndex \<Rightarrow> bool" where
  "ups_inv jobs m0 x0 ps m x \<longleftrightarrow> length ps = length jobs \<and> same_table x0 x \<and> keys_grow m0 m x \<and> chains_ok m x \<and>
     (\<forall>i<xcap x. bkey m x i = bkey m0 x0 i \<or> bkey m x i \<in> fst ` set jobs) \<and>
     (\<forall>t<length jobs. ups_ok m x (fst (jobs ! t)) (ps ! t)) \<and>
     of_nat (occupied m x) = x_live x + of_nat (length (filter filling ps))"

text \<open>What a step does to the table as a whole; \<open>n\<close> and \<open>n'\<close> count the producers that are filling a new bucket.\<close>

lemma ups_exec_table:
  assumes g: "index_geom x" and ok: "ups_ok m x key pc" and run: "ups_exec r (key, ticket, slot) pc m x = (pc', m', x')"
    and chains: "chains_ok m x" and live: "of_nat (occupied m x) = x_live x + of_nat n"
    and n: "n' + (if filling pc then 1 else 0) = n + (if filling pc' then 1 else (0 :: nat))"
  shows "keys_grow m m' x" "chains_ok m' x" "i < xcap x \<Longrightarrow> bkey m' x i \<in> {bkey m x i, key}"
    "of_nat (occupied m' x) = x_live x' + of_nat n'"
proof -
  note E = ups_exec_effect [OF g ok run, THEN conjunct2]
  have "keys_grow m m' x \<and> chains_ok m' x \<and> (\<forall>i<xcap x. bkey m' x i \<in> {bkey m x i, key}) \<and> of_nat (occupied m' x) = x_live x' + of_nat n'"
    using E
  proof (elim disjE exE conjE)
    fix p
    assume p: "p < maxProbe" "key \<noteq> 0" "takes m m' x key p" "\<forall>q<p. probe_key m x key q \<noteq> 0" "x_live x' = x_live x"
      "\<not> filling pc" "filling pc' = (probe_key m x key p = 0)"
    note T = takes_facts [OF g p(3,2,1,4)]
    have "of_nat (occupied m' x) = x_live x' + of_nat n'" using n T(3) p(5-7) live by (cases "filling pc'") auto
    then show ?thesis using T(1,2) chains p(3) by (auto simp: takes_def)
  next
    assume same: "\<forall>i<xcap x. bkey m' x i = bkey m x i"
      and l: "x_live x' + (if filling pc' then 1 else 0) = x_live x + (if filling pc then 1 else 0)"
    have "probe_key m' x = probe_key m x" using same g by (simp add: probe_key_def fun_eq_iff)
    then have "chains_ok m' x" using chains same by (simp add: chains_ok_def)
    moreover have "occupied m' x = occupied m x" using same by (auto simp: occupied_def intro: arg_cong [where f = card])
    moreover have "of_nat n' + (if filling pc then 1 else 0) = of_nat n + (if filling pc' then 1 else (0 :: u64))"
      using arg_cong [OF n, where f = "of_nat :: nat \<Rightarrow> u64"] by (simp split: if_splits)
    ultimately show ?thesis using balance [OF l] live same by (simp add: keys_grow_def)
  qed
  then show "keys_grow m m' x" "chains_ok m' x" "i < xcap x \<Longrightarrow> bkey m' x i \<in> {bkey m x i, key}"
    "of_nat (occupied m' x) = x_live x' + of_nat n'" by blast+
qed

lemma ups_inv_exec:
  assumes inv: "ups_inv jobs m0 x0 ps m x" and g: "index_geom x" and t: "t < length jobs"
    and run: "ups_exec r (jobs ! t) (ps ! t) m x = (pc, m', x')"
  shows "ups_inv jobs m0 x0 (ps[t := pc]) m' x'"
proof -
  obtain key ticket slot where j: "jobs ! t = (key, ticket, slot)" by (metis prod_cases3)
  have I: "length ps = length jobs" "same_table x0 x" "keys_grow m0 m x" "chains_ok m x"
    "\<And>i. i < xcap x \<Longrightarrow> bkey m x i = bkey m0 x0 i \<or> bkey m x i \<in> fst ` set jobs"
    "\<And>u. u < length jobs \<Longrightarrow> ups_ok m x (fst (jobs ! u)) (ps ! u)"
    "of_nat (occupied m x) = x_live x + of_nat (length (filter filling ps))" using inv by (auto simp: ups_inv_def)
  have ok: "ups_ok m x key (ps ! t)" using I(6) [OF t] j by simp
  have kj: "key \<in> fst ` set jobs" using t j by (metis fst_conv imageI nth_mem)
  have t': "t < length ps" using I(1) t by simp
  have st: "same_table x x'" using ups_exec_effect [OF g ok run [unfolded j]] by blast
  note A = ups_exec_table [OF g ok run [unfolded j] I(4,7) filter_update [OF t', of filling pc]]
  have "ups_ok m' x (fst (jobs ! u)) (ps[t := pc] ! u)" if u: "u < length jobs" for u
  proof (cases "u = t")
    case True
    then show ?thesis using ups_exec_ok [OF g ok run [unfolded j] A(1)] t' j by simp
  next
    case False
    then show ?thesis using ups_ok_grow [OF I(6) [OF u] A(1) g] by simp
  qed
  moreover have "keys_grow m0 m' x" using A(1) I(3) by (simp add: keys_grow_def)
  moreover have "bkey m' x i = bkey m0 x0 i \<or> bkey m' x i \<in> fst ` set jobs" if "i < xcap x" for i
    using A(3) [OF that] I(5) [OF that] kj by (metis insert_iff singletonD)
  moreover have "same_table x0 x'" using I(2) st by (simp add: same_table_def)
  ultimately show ?thesis
    using A(2,4) I(1) by (simp add: ups_inv_def keys_grow_def chains_ok_def ups_ok_table [OF st] same_table_view [OF st])
qed

lemma ups_reach_inv:
  assumes "ups_reach r jobs m0 x0 ps m x" "index_inv m0 x0" "x_live x0 = of_nat (occupied m0 x0)"
  shows "ups_inv jobs m0 x0 ps m x"
  using assms(1)
proof (induction rule: ups_reach.induct)
  case start
  have "ups_ok m0 x0 key (ups_start key)" for key by (simp add: ups_start_def maxProbe_def)
  moreover have "\<not> filling (ups_start key)" for key by (simp add: ups_start_def)
  ultimately show ?case
    using assms(2,3) by (simp add: ups_inv_def same_table_def keys_grow_def chains_ok_def index_inv_def filter_empty_conv)
next
  case (exec ps m x t pc m' x')
  have "index_geom x" using exec.IH index_invD(1) [OF assms(2)] same_table_view(4) by (auto simp: ups_inv_def)
  then show ?case using ups_inv_exec [OF exec.IH] exec.hyps by blast
next
  case (other ps m x m')
  have g: "index_geom x" using other.IH index_invD(1) [OF assms(2)] same_table_view(4) by (auto simp: ups_inv_def)
  have same: "read_bucket m' x i = read_bucket m x i" if "i < xcap x" for i by (rule read_bucket_cong [OF other.hyps(2) that])
  then have "probe_key m' x = probe_key m x" "occupied m' x = occupied m x"
    using g by (auto simp: probe_key_def occupied_def fun_eq_iff intro: arg_cong [where f = card])
  moreover from this have "ups_ok m' x key pc = ups_ok m x key pc" for key pc by (cases pc) simp_all
  ultimately show ?case using other.IH same by (simp add: ups_inv_def keys_grow_def chains_ok_def)
qed

text \<open>
  C27: Chains never break. However the accesses of any number of producers in \<^verbatim>\<open>upsert\<close> interleave, with anything else
  going on outside the table, a bucket that was occupied stays occupied, every key in the table is an old one or one of a producer's, every key is
  within \<^verbatim>\<open>maxProbe\<close> steps of its home bucket with no empty bucket before it, so that a probe finds it, and when all
  producers have returned the live counter is the number of occupied buckets.
\<close>
theorem upsert_race_chains:
  assumes "ups_reach r jobs m0 x0 ps m x" "index_inv m0 x0" "x_live x0 = of_nat (occupied m0 x0)"
  shows "(\<forall>i<xcap x. (bkey m0 x0 i \<noteq> 0 \<longrightarrow> bkey m x i \<noteq> 0) \<and> (bkey m x i = bkey m0 x0 i \<or> bkey m x i \<in> fst ` set jobs) \<and>
      (bkey m x i \<noteq> 0 \<longrightarrow> (\<exists>p<maxProbe. probe_ix x (bkey m x i) p = i \<and> (\<forall>q<p. probe_key m x (bkey m x i) q \<noteq> 0)))) \<and>
    ((\<forall>pc\<in>set ps. \<exists>e. pc = U_ret e) \<longrightarrow> x_live x = of_nat (occupied m x))"
proof -
  note I = ups_reach_inv [OF assms, unfolded ups_inv_def keys_grow_def chains_ok_def]
  have "bkey m0 x0 i = bkey m0 x i" for i using I same_table_view(1) by metis
  moreover have "filter filling ps = []" if "\<forall>pc\<in>set ps. \<exists>e. pc = U_ret e" using that by (auto simp: filter_empty_conv)
  ultimately show ?thesis using I by auto
qed

section \<open>Two producers of one key\<close>

lemma ups_reach_solo:
  "ups_reach r jobs m0 x0 ps m x \<Longrightarrow> t < length jobs \<Longrightarrow> ups_solo k r (jobs ! t) (ps ! t) m x = (pc, m', x') \<Longrightarrow>
   length ps = length jobs \<Longrightarrow> ups_reach r jobs m0 x0 (ps[t := pc]) m' x'"
proof (induction k arbitrary: ps m x)
  case 0
  then have "ps[t := pc] = ps" "m' = m" "x' = x" by auto
  then show ?case using "0.prems"(1) by metis
next
  case (Suc k)
  obtain pc1 m1 x1 where e: "ups_exec r (jobs ! t) (ps ! t) m x = (pc1, m1, x1)" by (metis prod_cases3)
  from ups_reach.exec [OF Suc.prems(1,2) e] show ?case
    using Suc.IH [of "ps[t := pc1]" m1 x1] Suc.prems(2-4) e by simp
qed

lemma full_pass1:
  assumes "index_geom x" "key \<noteq> 0" "\<forall>p<maxProbe. probe_key m x key p \<notin> {0, key}"
  shows "\<exists>k. ups_solo k r (key, ticket, slot) (ups_start key) m x = (U2_load 0 0, m, x)"
proof -
  have "upsert_pass1 [0..<maxProbe] m x (hashKey key AND x_mask x) key ticket slot = None"
  proof -
    have "find (\<lambda>p. probe_key m x key p \<in> {0, key}) [0..<maxProbe] = None" using assms(3) by (simp add: find_None_iff)
    then show ?thesis by (simp only: pass1_view [OF assms(1,2)] option.case)
  qed
  then show ?thesis
    using solo_pass1 [of "[0..<maxProbe]" 0 r key ticket slot 0 m x] assms(2) by (simp add: ups_start_def maxProbe_def)
qed

lemma dead_to_cas:
  assumes "index_geom x" "ring_geom r" "probe_key m x key p \<notin> {0, key}" "entry_dead m r (read_bucket m x (probe_ix x key p))"
  shows "\<exists>k. ups_solo k r (key, ticket, slot) (U2_load a p) m x = (U2_cas a p (probe_key m x key p), m, x)"
  using solo_dead [OF key_word_load [OF assms(1)], of m key p r ticket slot a] assms(3,4) isDead_view [OF assms(2)]
  by (simp add: probeBucket_view [OF assms(1)] probe_key_def)

lemma reclaim_view:
  assumes "index_geom x"
  shows "\<exists>k. ups_solo k r (key, ticket, slot) (U2_cas a p (probe_key m x key p)) m x =
    (U_ret None, set_bucket m (bucketB x (probe_ix x key p)) key ticket slot, x\<lparr>x_reclaims := fst (atomicAdd64 (x_reclaims x) 1)\<rparr>)"
  using solo_reclaim [OF key_word_load [OF assms], where m = m and key = key and p = p and r = r and ticket = ticket and slot = slot and a = a]
  by (simp add: probeBucket_view [OF assms])

lemma probe_step: "2 \<le> xcap x \<Longrightarrow> probe_ix x key 0 \<noteq> probe_ix x key 1"
  using mod_Suc [of "unat (hashKey key)" "xcap x"] by (auto simp: probe_ix_def)

text \<open>The interleaving: both producers pass the first pass; the second finds the first bucket dead and is stopped before its
  compare-and-swap; the first reclaims that bucket; the second fails, goes on, and reclaims the next one.\<close>

lemma two_reclaims:
  assumes g: "index_geom x" "ring_geom r" and k: "key \<noteq> 0" "\<forall>p<maxProbe. probe_key m x key p \<notin> {0, key}"
    and d0: "entry_dead m r (read_bucket m x (probe_ix x key 0))"
    and m1: "m1 = set_bucket m (bucketB x (probe_ix x key 0)) key t1 s1"
    and d1: "entry_dead m1 r (read_bucket m1 x (probe_ix x key 1))" "probe_key m1 x key 1 \<notin> {0, key}" "probe_key m1 x key 0 = key"
  defines "bump \<equiv> \<lambda>x. x\<lparr>x_reclaims := fst (atomicAdd64 (x_reclaims x) 1)\<rparr>"
  shows "ups_reach r [(key, t1, s1), (key, t2, s2)] m x [U_ret None, U_ret None]
    (set_bucket m1 (bucketB x (probe_ix x key 1)) key t2 s2) (bump (bump x))"
proof -
  let ?jobs = "[(key, t1, s1), (key, t2, s2)]"
  have st: "same_table x (bump x)" by (simp add: bump_def same_table_def)
  note V = same_table_view [OF st]
  have bB: "bucketB (bump x) = bucketB x" by (simp add: bump_def bucketB_def fun_eq_iff)
  have bb: "(bump x)\<lparr>x_reclaims := fst (atomicAdd64 (x_reclaims (bump x)) 1)\<rparr> = bump (bump x)" by (simp add: bump_def)
  have mx: "0 < maxProbe" "1 < maxProbe" "0 + 1 < maxProbe" by (simp_all add: maxProbe_def)
  have c0: "probe_key m x key 0 \<notin> {0, key}" using k(2) mx(1) by blast
  note go = ups_reach_solo [of r ?jobs m x]
  have r0: "ups_reach r ?jobs m x [ups_start key, ups_start key] m x" using ups_reach.start [of r ?jobs m x] by simp
  obtain k1 where "ups_solo k1 r (key, t1, s1) (ups_start key) m x = (U2_load 0 0, m, x)" using full_pass1 [OF g(1) k] by blast
  from go [OF r0, of 0 k1] this have r1: "ups_reach r ?jobs m x [U2_load 0 0, ups_start key] m x" by simp
  obtain k2 where "ups_solo k2 r (key, t2, s2) (ups_start key) m x = (U2_load 0 0, m, x)" using full_pass1 [OF g(1) k] by blast
  from go [OF r1, of 1 k2] this have r2: "ups_reach r ?jobs m x [U2_load 0 0, U2_load 0 0] m x" by simp
  obtain k3 where "ups_solo k3 r (key, t2, s2) (U2_load 0 0) m x = (U2_cas 0 0 (probe_key m x key 0), m, x)"
    using dead_to_cas [OF g c0 d0] by blast
  from go [OF r2, of 1 k3] this have r3: "ups_reach r ?jobs m x [U2_load 0 0, U2_cas 0 0 (probe_key m x key 0)] m x" by simp
  obtain k4 where "ups_solo k4 r (key, t1, s1) (U2_load 0 0) m x = (U2_cas 0 0 (probe_key m x key 0), m, x)"
    using dead_to_cas [OF g c0 d0] by blast
  from go [OF r3, of 0 k4] this
  have r4: "ups_reach r ?jobs m x [U2_cas 0 0 (probe_key m x key 0), U2_cas 0 0 (probe_key m x key 0)] m x" by simp
  obtain k5 where "ups_solo k5 r (key, t1, s1) (U2_cas 0 0 (probe_key m x key 0)) m x = (U_ret None, m1, bump x)"
    using reclaim_view [OF g(1), of r key t1 s1 0 0 m] unfolding m1 bump_def by blast
  from go [OF r4, of 0 k5] this have r5: "ups_reach r ?jobs m x [U_ret None, U2_cas 0 0 (probe_key m x key 0)] m1 (bump x)" by simp
  have g': "index_geom (bump x)" using g(1) V(4) by simp
  have "ups_exec r (key, t2, s2) (U2_cas 0 0 (probe_key m x key 0)) m1 (bump x) = (U2_load 0 1, m1, bump x)"
    using c0 d1(3) mx(3) by (auto simp: ptrCAS64_def key_word_load [OF g'] V(5) next2_def)
  then have "ups_solo 1 r (key, t2, s2) (U2_cas 0 0 (probe_key m x key 0)) m1 (bump x) = (U2_load 0 1, m1, bump x)"
    by (simp del: ups_exec.simps)
  from go [OF r5, of 1 1] this have r6: "ups_reach r ?jobs m x [U_ret None, U2_load 0 1] m1 (bump x)" by simp
  obtain k7 where "ups_solo k7 r (key, t2, s2) (U2_load 0 1) m1 (bump x) = (U2_cas 0 1 (probe_key m1 x key 1), m1, bump x)"
    using dead_to_cas [OF g' g(2), of m1 key 1 t2 s2 0] d1(1,2) by (auto simp: V)
  from go [OF r6, of 1 k7] this have r7: "ups_reach r ?jobs m x [U_ret None, U2_cas 0 1 (probe_key m1 x key 1)] m1 (bump x)" by simp
  obtain k8 where "ups_solo k8 r (key, t2, s2) (U2_cas 0 1 (probe_key m1 x key 1)) m1 (bump x) =
      (U_ret None, set_bucket m1 (bucketB x (probe_ix x key 1)) key t2 s2, bump (bump x))"
    using reclaim_view [OF g', of r key t2 s2 0 1 m1] unfolding V bB bb by blast
  from go [OF r7, of 1 k8] this show ?thesis by simp
qed

text \<open>\<^verbatim>\<open>lookup\<close> stops at the first bucket that has the key.\<close>

lemma lookup_first_bucket:
  assumes "index_geom x" "key \<noteq> 0" "read_bucket m x (probe_ix x key 0) = \<lparr>bv_key = key, bv_ticket = t, bv_slot = s\<rparr>"
    and "cell_confirms r key (t, s) (read_cell m r (unat s))"
  shows "index_lookup m x key r rec = Inr (cell_record r key s (read_cell m r (unat s)) rec)"
proof -
  have "find (\<lambda>p. probe_key m x key p \<in> {0, key}) [0..<maxProbe] = Some 0"
    using assms(3) by (simp add: maxProbe_def upt_rec probe_key_def)
  then show ?thesis
    using lookup_probes_view [of x key "[0..<maxProbe]" m r rec] assms lookup_bucket_view [OF refl, of m x "probe_ix x key 0" key r rec]
    by (simp add: index_lookup_def Let_def probe_key_def hint_def cell_confirms_def)
qed

text \<open>
  C40: A key can end up in two buckets. When the probe sequence of a key is full of other keys and its first two buckets are
  dead, two producers of that key can interleave so that each reclaims one of them: the producer whose compare-and-swap fails goes on to
  the next probe without looking at what the winner stored. Both return success, the table is no longer well formed, and
  \<^verbatim>\<open>lookup\<close>, which stops at the first match, returns the record of the first producer, even when the second's is newer.
\<close>
theorem upsert_race_duplicates:
  assumes "index_inv m x" "shard_geom r x" "2 \<le> xcap x" "key \<noteq> 0" "\<forall>p<maxProbe. probe_key m x key p \<notin> {0, key}"
    and "\<forall>p<2. entry_dead m r (read_bucket m x (probe_ix x key p))"
    and "cell_confirms r key (t1, s1) (read_cell m r (unat s1))"
  shows "\<exists>m' x'. ups_reach r [(key, t1, s1), (key, t2, s2)] m x [U_ret None, U_ret None] m' x' \<and>
    read_bucket m' x' (probe_ix x key 0) = \<lparr>bv_key = key, bv_ticket = t1, bv_slot = s1\<rparr> \<and>
    read_bucket m' x' (probe_ix x key 1) = \<lparr>bv_key = key, bv_ticket = t2, bv_slot = s2\<rparr> \<and> \<not> index_inv m' x' \<and>
    index_lookup m' x' key r rec = Inr (cell_record r key s1 (read_cell m r (unat s1)) rec)"
proof -
  note g = shard_geomD [OF assms(2)]
  let ?i = "probe_ix x key 0" and ?j = "probe_ix x key 1"
  have i: "?i < xcap x" "?j < xcap x" "?i \<noteq> ?j" using g(2) probe_step [OF assms(3)] by simp_all
  define m1 where "m1 = set_bucket m (bucketB x ?i) key t1 s1"
  define m2 where "m2 = set_bucket m1 (bucketB x ?j) key t2 s2"
  have b1: "read_bucket m1 x k = (if k = ?i then \<lparr>bv_key = key, bv_ticket = t1, bv_slot = s1\<rparr> else read_bucket m x k)" if "k < xcap x" for k
    using set_bucket_view [OF g(2) i(1) that] by (simp add: m1_def)
  have b2: "read_bucket m2 x k = (if k = ?j then \<lparr>bv_key = key, bv_ticket = t2, bv_slot = s2\<rparr> else read_bucket m1 x k)" if "k < xcap x" for k
    using set_bucket_view [OF g(2) i(2) that] by (simp add: m2_def)
  have cells: "read_cell m1 r k = read_cell m r k \<and> read_cell m2 r k = read_cell m r k" if "k < rcap r" for k
  proof -
    have "ring_region m1 r = ring_region m r" "ring_region m2 r = ring_region m r"
      using set_bucket_frame [OF assms(2)] i(1,2) by (simp_all add: m1_def m2_def)
    then show ?thesis using read_cell_cong [OF g(1) _ that] by blast
  qed
  have jb: "read_bucket m1 x ?j = read_bucket m x ?j" using b1 [OF i(2)] i(3) by simp
  have "entry_dead m1 r v = entry_dead m r v" for v using cells by (simp add: entry_dead_def word_less_nat_alt)
  then have d: "entry_dead m r (read_bucket m x ?i)" "entry_dead m1 r (read_bucket m1 x ?j)" using assms(6) jb by simp_all
  have p: "probe_key m1 x key 1 \<notin> {0, key}" "probe_key m1 x key 0 = key"
    using assms(5) jb b1 [OF i(1)] by (simp_all add: probe_key_def maxProbe_def)
  define x' where "x' = x\<lparr>x_reclaims := fst (atomicAdd64 (fst (atomicAdd64 (x_reclaims x) 1)) 1)\<rparr>"
  have run: "ups_reach r [(key, t1, s1), (key, t2, s2)] m x [U_ret None, U_ret None] m2 x'"
    using two_reclaims [OF g(2,1) assms(4,5) d(1) m1_def d(2) p] by (simp add: m2_def x'_def)
  have st: "same_table x x'" by (simp add: x'_def same_table_def)
  note V = same_table_view [OF st]
  have b: "read_bucket m2 x ?i = \<lparr>bv_key = key, bv_ticket = t1, bv_slot = s1\<rparr>" "read_bucket m2 x ?j = \<lparr>bv_key = key, bv_ticket = t2, bv_slot = s2\<rparr>"
    using b1 b2 i by simp_all
  have "\<not> index_inv m2 x'" using index_invD(2) [of m2 x' ?i ?j] b i assms(4) by (auto simp: V)
  moreover have "read_cell m2 r (unat s1) = read_cell m r (unat s1)" using cells assms(7) by (simp add: cell_confirms_def word_less_nat_alt)
  then have "index_lookup m2 x' key r rec = Inr (cell_record r key s1 (read_cell m r (unat s1)) rec)"
    using lookup_first_bucket [of x' key m2 t1 s1 r rec] g(2) assms(4,7) b(1) by (simp add: V)
  ultimately show ?thesis using run b by (intro exI conjI) (assumption, simp_all add: V)
qed

theorem upsert_race_chains_witness:
  "\<exists>m x. ups_reach demo_r [(42, 1, 0)] demo_m demo_x [U_ret None] m x \<and> x_live x = of_nat (occupied m x)"
proof -
  obtain m x where u: "upsert demo_m demo_x 42 1 0 demo_r = (m, x, None)" using demo_upsert by blast
  obtain k where k: "ups_solo k demo_r (42, 1, 0) (ups_start 42) demo_m demo_x = (U_ret None, m, x)"
    using solo_upsert [of demo_r 42 1 0 demo_m demo_x] u by auto
  have "ups_reach demo_r [(42, 1, 0)] demo_m demo_x [ups_start 42] demo_m demo_x"
    using ups_reach.start [of demo_r "[(42, 1, 0)]" demo_m demo_x] by simp
  from ups_reach_solo [OF this, of 0 k] k have r: "ups_reach demo_r [(42, 1, 0)] demo_m demo_x [U_ret None] m x" by simp
  from upsert_race_chains [OF r demo_inv(1,3)] r show ?thesis by auto
qed

text \<open>The small table, full of keys whose records are gone.\<close>

definition demo_full :: mem where
  "demo_full = fold (\<lambda>i m. set_bucket m (bucketB demo_x i) (of_nat (i + 1)) 1 99) [0..<4] demo_m"

lemma demo_full_facts:
  "xcap demo_x = 4" "i < 4 \<Longrightarrow> read_bucket demo_full demo_x i = \<lparr>bv_key = of_nat (i + 1), bv_ticket = 1, bv_slot = 99\<rparr>"
  "ring_region demo_full demo_r = ring_region demo_m demo_r"
proof -
  note g = shard_geomD [OF demo_shard]
  show c: "xcap demo_x = 4" using initIndex_okD(3) [OF demo_index_eq] by simp
  have "i < 4 \<Longrightarrow> i = 0 \<or> i = 1 \<or> i = 2 \<or> i = 3" by auto
  then show "i < 4 \<Longrightarrow> read_bucket demo_full demo_x i = \<lparr>bv_key = of_nat (i + 1), bv_ticket = 1, bv_slot = 99\<rparr>"
    by (auto simp: demo_full_def upt_rec set_bucket_view [OF g(2)] c)
  show "ring_region demo_full demo_r = ring_region demo_m demo_r"
    by (simp add: demo_full_def upt_rec set_bucket_frame [OF demo_shard] c)
qed

lemma demo_full_inv: "index_inv demo_full demo_x" "probe_key demo_full demo_x 42 p \<notin> {0, 42}"
proof -
  note g = shard_geomD [OF demo_shard]
  have key: "bkey demo_full demo_x i = of_nat (i + 1)" if "i < 4" for i using demo_full_facts(2) [OF that] by simp
  have u: "unat (of_nat (i + 1) :: u64) = i + 1" if "i < 4" for i
    by (rule unat_of_nat64) (use that in simp)
  have nz: "bkey demo_full demo_x i \<notin> {0, 42}" if "i < 4" for i
    using u [OF that] key [OF that] that by (auto simp: word_unat_eq_iff)
  then show "probe_key demo_full demo_x 42 p \<notin> {0, 42}" for p
    using probe_ix_less [OF g(2), of 42 p] by (simp add: probe_key_def demo_full_facts(1))
  have reach: "\<exists>p<maxProbe. probe_ix demo_x k p = i" if "i < 4" for k i
  proof -
    have "(h + (i + 3 * h) mod 4) mod 4 = i" for h :: nat using that by presburger
    then show ?thesis by (intro exI [of _ "(i + 3 * unat (hashKey k)) mod 4"]) (simp add: probe_ix_def demo_full_facts(1) maxProbe_def)
  qed
  have "probe_key demo_full demo_x k p \<noteq> 0" for k p
    using nz probe_ix_less [OF g(2), of k p] by (simp add: probe_key_def demo_full_facts(1))
  moreover have "i = j" if "i < 4" "j < 4" "bkey demo_full demo_x i = bkey demo_full demo_x j" for i j
    using that key u by (metis add_right_cancel)
  ultimately show "index_inv demo_full demo_x" using g(2) reach by (simp add: index_inv_def demo_full_facts(1))
qed

theorem upsert_race_duplicates_witness:
  "\<exists>m x rec. ups_reach demo_r [(42, 1, 0), (42, 2, 1)] demo_full demo_x [U_ret None, U_ret None] m x \<and> \<not> index_inv m x \<and>
     index_lookup m x 42 demo_r zero_Record = Inr rec \<and> Ticket rec = 1"
proof -
  note g = shard_geomD [OF demo_shard]
  have c: "read_cell demo_full demo_r 0 = read_cell demo_m demo_r 0"
    by (rule read_cell_cong [OF g(1) demo_full_facts(3)]) (simp add: demo_published_ring)
  have "cell_confirms demo_r 42 (1, 0) (read_cell demo_full demo_r (unat 0))"
    unfolding unat_0 c by (simp add: cell_confirms_def demo_view demo_published_ring)
  moreover have "\<forall>p<2. entry_dead demo_full demo_r (read_bucket demo_full demo_x (probe_ix demo_x 42 p))"
    using probe_ix_less [OF g(2), of 42] demo_full_facts(2) by (simp add: demo_full_facts(1) entry_dead_def demo_published_ring)
  moreover have "2 \<le> xcap demo_x" "(42 :: u64) \<noteq> 0" "\<forall>p<maxProbe. probe_key demo_full demo_x 42 p \<notin> {0, 42}"
    using demo_full_inv(2) by (simp_all add: demo_full_facts(1))
  moreover have "Ticket (cell_record demo_r 42 0 (read_cell demo_full demo_r (unat 0)) zero_Record) = 1"
    unfolding unat_0 c by (simp add: cell_record_def demo_view)
  ultimately show ?thesis using upsert_race_duplicates [OF demo_full_inv(1) demo_shard, of 42 1 0 2 1 zero_Record] by blast
qed

end
