(* ===== verification/PublishSteps.thy ===== *)
theory PublishSteps
  imports Engine Threads
begin

text \<open>
  \<^verbatim>\<open>publish\<close> as producers run it side by side: the checks, the gate, the ticket, the claim, the stores, the counters, the index
  and the saturation test are steps of their own, and any number of producers take them in any order, while
  consumers take records and clear latches in between. Each step is one call of a component (the ring, the index, the latch or
  a counter); what happens when the accesses inside those calls interleave too is the subject of \<open>RingRace\<close>,
  \<open>UpsertRace\<close> and \<open>LatchRace\<close>.
\<close>

section \<open>Steps of a producer\<close>

text \<open>The arguments of a call; \<open>j_now\<close> is what \<^verbatim>\<open>time.Now\<close> would answer in it.\<close>

record pjob =
  j_key :: u64
  j_payload :: "u8 list"
  j_flags :: u32
  j_now :: u64

datatype pub_pc =
    Pu_idle
  | Pu_check pjob
  | Pu_gate pjob
  | Pu_reject
  | Pu_ticket pjob
  | Pu_claim pjob u64
  | Pu_refuse pjob
  | Pu_drop pjob
  | Pu_store pjob u64 u64
  | Pu_count pjob u64 u64
  | Pu_index pjob u64 u64
  | Pu_level pjob u64
  | Pu_hot pjob "error + u64"
  | Pu_ret "error + u64"

abbreviation jshard :: "Vaultage \<Rightarrow> pjob \<Rightarrow> nat" where "jshard v j \<equiv> shard_of v (j_key j)"

definition jentry :: "Vaultage \<Rightarrow> pjob \<Rightarrow> u64 \<Rightarrow> entry" where
  "jentry v j ticket = entry_of ticket (j_key j) (now_ts v (j_now j)) (j_flags j) (j_payload j) (digest v (j_payload j))"

fun pub_step :: "pub_pc \<Rightarrow> mem \<Rightarrow> Vaultage \<Rightarrow> (pub_pc \<times> mem \<times> Vaultage) outcome" where
  "pub_step (Pu_check j) m v =
     (if j_key j = 0 then Returned (Pu_ret (Inl ErrConfig), m, v)
      else if length (j_payload j) > unat (v_payloadCap v) then Returned (Pu_ret (Inl ErrPayloadTooLarge), m, v)
      else if v_nil v then NilDeref
      else if ctl_running (v_ctl v) = 0 then Returned (Pu_ret (Inl ErrClosed), m, v)
      else Returned (Pu_gate j, m, v))"
| "pub_step (Pu_gate j) m v = Returned (if isClosed (v_valve v) then Pu_reject else Pu_ticket j, m, v)"
| "pub_step Pu_reject m v = Returned (Pu_ret (Inl ErrBackpressure), m, v\<lparr>v_valve := reject (v_valve v)\<rparr>)"
| "pub_step (Pu_ticket j) m v =
     (case atomicAdd64 (ctl_ticket (v_ctl v)) 1 of (t, ticket) \<Rightarrow>
        Returned (Pu_claim j ticket, m, v\<lparr>v_ctl := (v_ctl v)\<lparr>ctl_ticket := t\<rparr>\<rparr>))"
| "pub_step (Pu_claim j ticket) m v =
     (let i = jshard v j in
      case claim m (sh_ring (v_shards v ! i)) of
        None \<Rightarrow> Hangs
      | Some ((pos, ok), r) \<Rightarrow>
          Returned (if ok then Pu_store j ticket pos else Pu_refuse j, m, upd_shard i (sh_ring_update (\<lambda>_. r)) v))"
| "pub_step (Pu_refuse j) m v =
     Returned (Pu_drop j, m, upd_shard (jshard v j) (\<lambda>s. s\<lparr>sh_rejected := fst (atomicAdd64 (sh_rejected s) 1)\<rparr>) v)"
| "pub_step (Pu_drop j) m v =
     Returned (Pu_hot j (Inl ErrShardFull), m, v\<lparr>v_ctl := (v_ctl v)\<lparr>ctl_dropped := fst (atomicAdd64 (ctl_dropped (v_ctl v)) 1)\<rparr>\<rparr>)"
| "pub_step (Pu_store j ticket pos) m v =
     (let i = jshard v j;
          sum = (if c_Checksums (v_cfg v) then checksum32 (j_payload j) else 0);
          (n, m1, r1) = ring_publish m (sh_ring (v_shards v ! i)) pos ticket (j_key j) (now_ts v (j_now j)) (j_flags j)
            (j_payload j) sum
      in Returned (Pu_count j ticket pos, m1, upd_shard i (sh_ring_update (\<lambda>_. r1)) v))"
| "pub_step (Pu_count j ticket pos) m v =
     Returned (Pu_index j ticket pos, m, upd_shard (jshard v j) (\<lambda>s. s\<lparr>sh_ingested := fst (atomicAdd64 (sh_ingested s) 1)\<rparr>) v)"
| "pub_step (Pu_index j ticket pos) m v =
     (let i = jshard v j; sh = v_shards v ! i;
          (m1, x1, err) = upsert m (sh_index sh) (j_key j) ticket (pos AND r_mask (sh_ring sh)) (sh_ring sh)
      in Returned (Pu_level j ticket, m1, upd_shard i (sh_index_update (\<lambda>_. x1)) v))"
| "pub_step (Pu_level j ticket) m v =
     Returned (if occupancyPct (sh_ring (v_shards v ! jshard v j)) \<ge> c_HighWaterPct (v_cfg v) then Pu_hot j (Inr ticket)
       else Pu_ret (Inr ticket), m, v)"
| "pub_step (Pu_hot j res) m v = Returned (Pu_ret res, m, markSaturated v (jshard v j))"
| "pub_step pc m v = Returned (pc, m, v)"

text \<open>Past the first checks a step reaches for the control blocks; once \<^verbatim>\<open>Close\<close> has cleared the pointers that is a
  dereference of nil.\<close>

fun derefs :: "pub_pc \<Rightarrow> bool" where
  "derefs (Pu_ticket j) = True"
| "derefs (Pu_claim j t) = True"
| "derefs (Pu_refuse j) = True"
| "derefs (Pu_drop j) = True"
| "derefs (Pu_store j t pos) = True"
| "derefs (Pu_count j t pos) = True"
| "derefs (Pu_index j t pos) = True"
| "derefs (Pu_level j t) = True"
| "derefs (Pu_hot j r) = True"
| "derefs _ = False"

definition pub_exec :: "pub_pc \<Rightarrow> mem \<Rightarrow> Vaultage \<Rightarrow> (pub_pc \<times> mem \<times> Vaultage) outcome" where
  "pub_exec pc m v = (if derefs pc \<and> v_nil v then NilDeref else pub_step pc m v)"

fun pub_solo :: "nat \<Rightarrow> pub_pc \<Rightarrow> mem \<Rightarrow> Vaultage \<Rightarrow> (pub_pc \<times> mem \<times> Vaultage) outcome" where
  "pub_solo 0 pc m v = Returned (pc, m, v)"
| "pub_solo (Suc k) pc m v =
     (case pub_exec pc m v of Returned (pc', m', v') \<Rightarrow> pub_solo k pc' m' v' | NilDeref \<Rightarrow> NilDeref | Hangs \<Rightarrow> Hangs)"

text \<open>A producer that is left alone does what \<^verbatim>\<open>publish\<close> does, in at most nine steps.\<close>

lemma solo_ret [simp]: "pub_solo k (Pu_ret res) m v = Returned (Pu_ret res, m, v)"
  by (induction k) (simp_all add: pub_exec_def)

lemma markSaturated_nil [simp]: "v_nil (markSaturated v i) = v_nil v"
  by (simp add: markSaturated_def Let_def split: prod.split)

lemma shard_of_upd [simp]:
  "shard_of (v\<lparr>v_shards := s\<rparr>) = shard_of v" "shard_of (v\<lparr>v_ctl := c\<rparr>) = shard_of v" "shard_of (v\<lparr>v_valve := g\<rparr>) = shard_of v"
  by (simp_all add: shard_of_def route_def fun_eq_iff)

lemma pub_solo_publish:
  assumes "shard_of v (j_key j) < nsh v"
  shows "pub_solo 9 (Pu_check j) m v =
    (case publish m v (j_key j) (j_payload j) (j_flags j) (j_now j) of
       Returned (res, m', v') \<Rightarrow> Returned (Pu_ret res, m', v') | NilDeref \<Rightarrow> NilDeref | Hangs \<Rightarrow> Hangs)"
  using assms by (simp add: eval_nat_numeral pub_exec_def publish_def publish_claimed_def Let_def atomicAdd64_def shard_of_def [symmetric] now_ts_def split: option.split prod.split)

section \<open>Runs\<close>

text \<open>Two logs beside the state, newest first: what was stored, and what consumers were shown, each with its shard and
  position.\<close>

type_synonym publog = "((nat \<times> nat) \<times> entry) list"

definition stored :: "pub_pc \<Rightarrow> Vaultage \<Rightarrow> publog \<Rightarrow> publog" where
  "stored pc v P = (case pc of Pu_store j t pos \<Rightarrow> ((jshard v j, unat pos), jentry v j t) # P | _ \<Rightarrow> P)"

text \<open>No counter is about to wrap.\<close>

definition race_room :: "Vaultage \<Rightarrow> bool" where
  "race_room v \<longleftrightarrow> unat (ctl_ticket (v_ctl v)) + 1 < 2 ^ 64 \<and> (\<forall>i<nsh v. rT (rg v i) + rcap (rg v i) + 1 < 2 ^ 64)"

text \<open>A consumer's round: \<^verbatim>\<open>dequeue\<close>, the handler, \<^verbatim>\<open>release\<close> and the counter.\<close>

definition take_one :: "nat \<Rightarrow> mem \<Rightarrow> Vaultage \<Rightarrow> Record \<Rightarrow> (u64 \<times> entry \<times> mem \<times> Vaultage) option" where
  "take_one i m v rec =
     (case dequeue m (sh_ring (v_shards v ! i)) rec of ((pos, ok), rec1, m1, r1) \<Rightarrow>
        if \<not> ok then None
        else Some (pos, delivered m1 rec1, release m1 r1 pos,
          upd_shard i (\<lambda>s. s\<lparr>sh_ring := r1, sh_consumed := fst (atomicAdd64 (sh_consumed s) 1)\<rparr>) v))"

inductive pub_race :: "'k sys \<Rightarrow> nat \<Rightarrow> mem \<Rightarrow> Vaultage \<Rightarrow> pub_pc list \<Rightarrow> publog \<Rightarrow> publog \<Rightarrow> bool" for S :: "'k sys" and n where
  start: "New S gomaxprocs t1 t2 cfg0 m k = Some (Inr v, m', k') \<Longrightarrow> config_fits (v_cfg v) \<Longrightarrow>
    pub_race S n m' v (replicate n Pu_idle) [] []"
| call: "pub_race S n m v ps P D \<Longrightarrow> t < n \<Longrightarrow> ps ! t = Pu_idle \<or> ps ! t = Pu_ret res \<Longrightarrow>
    pub_race S n m v (ps[t := Pu_check j]) P D"
| exec: "pub_race S n m v ps P D \<Longrightarrow> t < n \<Longrightarrow> race_room v \<Longrightarrow> pub_exec (ps ! t) m v = Returned (pc, m', v') \<Longrightarrow>
    pub_race S n m' v' (ps[t := pc]) (stored (ps ! t) v P) D"
| take_rec: "pub_race S n m v ps P D \<Longrightarrow> i < nsh v \<Longrightarrow> take_one i m v rec = Some (pos, e, m', v') \<Longrightarrow>
    pub_race S n m' v' ps P (((i, unat pos), e) # D)"
| cool: "pub_race S n m v ps P D \<Longrightarrow> i < nsh v \<Longrightarrow> pub_race S n m (markDrained v i) ps P D"
| tick: "pub_race S n m v ps P D \<Longrightarrow> pub_race S n m (clockTick v unixnano) ps P D"

end
