(* ===== verification/PublishRace.thy ===== *)
theory PublishRace
  imports PublishSteps
begin

text \<open>
  The shards of an engine whose producers race: the ring of every shard keeps its invariant, with the positions that
  producers have claimed and not yet stored in as the writers and those that consumers hold as the readers, and the index
  keeps its own. \<open>pub_core\<close> asks nothing of the latch and the gate, so that it also covers an engine that is being closed.
\<close>

section \<open>Lanes\<close>

definition lane_ok :: "mem \<Rightarrow> ring \<Rightarrow> keyIndex \<Rightarrow> nat set \<Rightarrow> nat set \<Rightarrow> (nat \<Rightarrow> entry) \<Rightarrow> bool" where
  "lane_ok m r x W R L \<longleftrightarrow> shard_geom r x \<and> ring_inv m r W R L \<and> index_inv m x \<and> x_live x = of_nat (occupied m x)"

definition lanes_ok :: "mem \<Rightarrow> Vaultage \<Rightarrow> (nat \<Rightarrow> nat set) \<Rightarrow> (nat \<Rightarrow> nat set) \<Rightarrow> (nat \<Rightarrow> nat \<Rightarrow> entry) \<Rightarrow> bool" where
  "lanes_ok m v W R G \<longleftrightarrow> nsh v = unat (v_shardN v) \<and> isPow2 (v_shardN v) \<and> v_shardMsk v = v_shardN v - 1 \<and>
     (\<forall>i<nsh v. lane_ok m (rg v i) (ix v i) (W i) (R i) (G i) \<and> r_payloadCap (rg v i) = v_payloadCap v) \<and>
     (\<forall>i<nsh v. \<forall>j<nsh v. i \<noteq> j \<longrightarrow>
        apart (r_base (rg v i)) (shard_span (rg v i) (ix v i)) (r_base (rg v j)) (shard_span (rg v j) (ix v j)))"

lemma lane_okD:
  assumes "lane_ok m r x W R L"
  shows "shard_geom r x" "ring_inv m r W R L" "index_inv m x" "x_live x = of_nat (occupied m x)"
  using assms by (simp_all add: lane_ok_def)

lemma lanes_okD:
  assumes "lanes_ok m v W R G"
  shows "0 < nsh v" "nsh v = unat (v_shardN v)" "isPow2 (v_shardN v)" "v_shardMsk v = v_shardN v - 1"
    "\<And>i. i < nsh v \<Longrightarrow> lane_ok m (rg v i) (ix v i) (W i) (R i) (G i)"
    "\<And>i. i < nsh v \<Longrightarrow> r_payloadCap (rg v i) = v_payloadCap v"
    "\<And>i j. i < nsh v \<Longrightarrow> j < nsh v \<Longrightarrow> i \<noteq> j \<Longrightarrow>
        apart (r_base (rg v i)) (shard_span (rg v i) (ix v i)) (r_base (rg v j)) (shard_span (rg v j) (ix v j))"
  using assms unfolding lanes_ok_def by (auto simp: isPow2_def unat_gt_0)

lemma lanes_shard_of: "lanes_ok m v W R G \<Longrightarrow> shard_of v key < nsh v"
  using lanes_okD(2-4) route_less by blast

lemma lane_mem:
  assumes "lane_ok m r x W R L" "index_region m' x = index_region m x" "ring_inv m' r' W' R' L'" "shard_geom r' x"
  shows "lane_ok m' r' x W' R' L'"
  using assms index_region_cong [OF shard_geomD(2) [OF lane_okD(1) [OF assms(1)]] assms(2)] by (simp add: lane_ok_def)

lemma lane_frame:
  assumes ok: "lane_ok m r x W R L" and w: "writes_within q n m m'" and ap: "apart q n (r_base r) (shard_span r x)"
  shows "lane_ok m' r x W R L"
proof -
  note I = lane_okD [OF ok]
  note reg = span_regions [OF I(1) w ap]
  show ?thesis by (rule lane_mem [OF ok reg(2) ring_inv_cong [OF reg(1) [symmetric] I(2)] I(1)])
qed

text \<open>One lane moves, the others stay.\<close>

lemma lane_step:
  assumes ok: "lanes_ok m v W R G" and i: "i < nsh v"
    and lane: "lane_ok m' (sh_ring sh) (sh_index sh) Wi Ri Gi"
    and same: "r_payloadCap (sh_ring sh) = r_payloadCap (rg v i)" "r_base (sh_ring sh) = r_base (rg v i)"
      "shard_span (sh_ring sh) (sh_index sh) = shard_span (rg v i) (ix v i)"
    and w: "writes_within (r_base (rg v i)) (shard_span (rg v i) (ix v i)) m m'"
  shows "lanes_ok m' (v\<lparr>v_shards := (v_shards v)[i := sh]\<rparr>) (W(i := Wi)) (R(i := Ri)) (G(i := Gi))"
proof -
  note E = lanes_okD [OF ok]
  let ?v = "v\<lparr>v_shards := (v_shards v)[i := sh]\<rparr>"
  have sh: "v_shards ?v ! j = (if j = i then sh else v_shards v ! j)" if "j < nsh v" for j using that i by simp
  have others: "lane_ok m' (rg v j) (ix v j) (W j) (R j) (G j)" if "j < nsh v" "j \<noteq> i" for j
    using lane_frame [OF E(5) [OF that(1)] w] E(7) [OF i that(1)] that(2) by simp
  have A: "\<forall>j<nsh v. lane_ok m' (rg ?v j) (ix ?v j) ((W(i := Wi)) j) ((R(i := Ri)) j) ((G(i := Gi)) j) \<and> r_payloadCap (rg ?v j) = v_payloadCap v"
    using E(6) sh others lane same(1) i by simp
  have geo: "r_base (rg ?v j) = r_base (rg v j)" "shard_span (rg ?v j) (ix ?v j) = shard_span (rg v j) (ix v j)"
    if "j < nsh v" for j using sh [OF that] same(2,3) by simp_all
  have B: "apart (r_base (rg ?v a)) (shard_span (rg ?v a) (ix ?v a)) (r_base (rg ?v b)) (shard_span (rg ?v b) (ix ?v b))"
    if "a < nsh v" "b < nsh v" "a \<noteq> b" for a b using E(7) [OF that] geo that by presburger
  show ?thesis unfolding lanes_ok_def using E(1-4) A B by simp
qed

text \<open>What the lanes do not depend on.\<close>

definition same_lanes :: "Vaultage \<Rightarrow> Vaultage \<Rightarrow> bool" where
  "same_lanes v v' \<longleftrightarrow> nsh v' = nsh v \<and> (\<forall>i<nsh v. rg v' i = rg v i \<and> ix v' i = ix v i) \<and>
     v_shardN v' = v_shardN v \<and> v_shardMsk v' = v_shardMsk v \<and> v_payloadCap v' = v_payloadCap v"

lemma lanes_cong: "same_lanes v v' \<Longrightarrow> lanes_ok m v' W R G = lanes_ok m v W R G"
  by (auto simp: same_lanes_def lanes_ok_def)

lemma same_lanes_shard_of: "same_lanes v v' \<Longrightarrow> shard_of v' = shard_of v"
  by (simp add: same_lanes_def shard_of_def route_def fun_eq_iff)

lemma same_lanes_latch: "same_but_latch v v' \<Longrightarrow> same_lanes v v'"
  by (simp add: same_lanes_def same_but_latchD)

section \<open>What each call does to a lane\<close>

lemma lane_claim:
  assumes "lane_ok m r x W R L" "rT r + rcap r + 1 < 2 ^ 64"
  obtains "ring_full r W R" "claim m r = Some ((0, False), r)"
  | "\<not> ring_full r W R" "claim m r = Some ((r_tail r, True), r\<lparr>r_tail := r_tail r + 1\<rparr>)"
      "lane_ok m (r\<lparr>r_tail := r_tail r + 1\<rparr>) x (insert (rT r) W) R L" "unat (r_tail r + 1) = rT r + 1" "rT r \<notin> W"
proof (cases "ring_full r W R")
  case True
  then show ?thesis using claim_full [OF ring_invD(1) [OF lane_okD(2) [OF assms(1)]]] that(1) by blast
next
  case False
  note I = lane_okD [OF assms(1)]
  have "rT r \<notin> W" using ring_inv0D(7) [OF ring_invD(1) [OF I(2)]] by auto
  moreover have "unat (r_tail r + 1) = rT r + 1" using assms(2) by (simp add: unat_add1)
  moreover have "lane_ok m (r\<lparr>r_tail := r_tail r + 1\<rparr>) x (insert (rT r) W) R L"
    by (rule lane_mem [OF assms(1) refl claim_inv [OF I(2) False assms(2)]]) (simp add: I(1))
  ultimately show ?thesis using claim_free [OF ring_invD(1) [OF I(2)] False] False that(2) by blast
qed

lemma lane_store:
  assumes ok: "lane_ok m r x W R L" and p: "unat pos \<in> W" and len: "length payload \<le> unat (r_payloadCap r)"
  obtains m' c where
    "ring_publish m r pos ticket key ts flags payload checksum = (of_nat (length payload), m', r\<lparr>r_commit := c\<rparr>)"
    "lane_ok m' (r\<lparr>r_commit := c\<rparr>) x (W - {unat pos}) R (L(unat pos := entry_of ticket key ts flags payload checksum))"
    "writes_within (r_base r) (shard_span r x) m m'"
proof -
  note I = lane_okD [OF ok]
  obtain m' c where r: "ring_publish m r pos ticket key ts flags payload checksum = (of_nat (length payload), m', r\<lparr>r_commit := c\<rparr>)"
    and m': "m' = fst (publish_stores m r pos ticket key ts flags payload checksum)"
    and inv: "ring_inv m' (r\<lparr>r_commit := c\<rparr>) (W - {unat pos}) R (L(unat pos := entry_of ticket key ts flags payload checksum))"
    by (rule ring_publish_spec [OF I(2) p len])
  have "lane_ok m' (r\<lparr>r_commit := c\<rparr>) x (W - {unat pos}) R (L(unat pos := entry_of ticket key ts flags payload checksum))"
    by (rule lane_mem [OF ok _ inv]) (use publish_frame [OF I(1) len] I(1) in \<open>simp_all add: m'\<close>)
  with r that publish_within [OF I(1) len] show ?thesis by (simp add: m')
qed

lemma lane_upsert:
  assumes ok: "lane_ok m r x W R L" and u: "upsert m x key ticket slot r = (m', x', err)"
  shows "lane_ok m' r x' W R L" "same_table x x'" "writes_within (r_base r) (shard_span r x) m m'"
proof -
  note I = lane_okD [OF ok]
  have post: "index_inv m' x'" "same_table x x'" "ring_region m' r = ring_region m r" "x_live x' = of_nat (occupied m' x')"
    using upsert_correct [OF I(3,1), of key ticket slot] u I(4) by (simp_all add: upsert_post_def)
  then show "lane_ok m' r x' W R L" "same_table x x'"
    using ring_inv_cong [OF post(3) [symmetric] I(2)] same_table_geom [OF post(2)] I(1) by (simp_all add: lane_ok_def)
  show "writes_within (r_base r) (shard_span r x) m m'" using upsert_within [OF I(1), of m key ticket slot] u by simp
qed

text \<open>What a consumer has copied out of the cell of position \<open>pos\<close>.\<close>

definition copied :: "ring \<Rightarrow> u64 \<Rightarrow> Record \<Rightarrow> entry \<Rightarrow> bool" where
  "copied r pos rec e \<longleftrightarrow> Ticket rec = e_ticket e \<and> Timestamp rec = e_timestamp e \<and> Key rec = e_key e \<and>
     Flags rec = e_flags e OR FlagCommitted \<and> Checksum rec = e_checksum e \<and>
     Payload rec = payloadSlice (cellB r (rslot r pos)) (of_nat (length (e_payload e)))"

lemma copied_load:
  assumes "ring_geom r" "holds r (read_cell m r (rslot r pos)) e"
  shows "copied r pos (load_record m r pos rec) e"
  using assms(2) by (simp add: load_record_view [OF assms(1) refl] copied_def holds_def)

text \<open>The handler sees what was stored as long as the cell still holds it.\<close>

lemma copied_delivered:
  assumes g: "ring_geom r" and c: "copied r pos rec e" and h: "holds r (read_cell m r (rslot r pos)) e"
  shows "delivered m rec = committed_entry e"
proof -
  have "delivered m rec = delivered m (load_record m r pos rec)"
    using c copied_load [OF g h, of rec] by (simp add: delivered_def copied_def)
  then show ?thesis using load_record_delivered [OF g h] by simp
qed

lemma lane_dequeue:
  assumes ok: "lane_ok m r x W R L" and d: "dequeue m r rec = ((pos, True), rec', m', r')"
  shows "pos = r_head r" "m' = m" "r' = r\<lparr>r_head := r_head r + 1\<rparr>" "unat (r_head r + 1) = rH r + 1" "rH r < rC r"
    "copied r' pos rec' (L (rH r))" "lane_ok m r' x W (insert (rH r) R) L"
proof -
  note I = lane_okD [OF ok]
  note d' = dequeue_okE [OF I(2) d]
  show eq: "pos = r_head r" "m' = m" "r' = r\<lparr>r_head := r_head r + 1\<rparr>" "rH r < rC r" using d' by blast+
  show "unat (r_head r + 1) = rH r + 1" by (rule head_committed(4) [OF ring_invD(1) [OF I(2)] d'(1)])
  have g: "shard_geom r' x" using I(1) eq(3) by simp
  show "copied r' pos rec' (L (rH r))"
    unfolding d'(5) by (rule copied_load) (use d'(7) eq shard_geomD(1) [OF g] in simp_all)
  show "lane_ok m r' x W (insert (rH r) R) L"
    by (rule lane_mem [OF ok refl _ g]) (use d'(6) eq in simp)
qed

lemma lane_release:
  assumes ok: "lane_ok m r x W R L" and "unat pos \<in> R"
  shows "lane_ok (release m r pos) r x W (R - {unat pos}) L" "writes_within (r_base r) (shard_span r x) m (release m r pos)"
proof -
  note I = lane_okD [OF ok]
  show "lane_ok (release m r pos) r x W (R - {unat pos}) L"
    by (rule lane_mem [OF ok _ release_inv [OF I(2) assms(2)] I(1)]) (rule release_frame [OF I(1)])
  show "writes_within (r_base r) (shard_span r x) m (release m r pos)" by (rule release_within [OF I(1)])
qed

lemma lane_held:
  assumes "lane_ok m r x W R L" "p \<in> R"
  shows "holds r (read_cell m r (p mod rcap r)) (L p)"
proof -
  note I = ring_inv0D [OF ring_invD(1) [OF lane_okD(2) [OF assms(1)]]]
  have "p < rH r" "rT r \<le> p + rcap r" using I(8,9) assms(2) by auto
  moreover from this(1) have "p \<notin> W" using I(3,7) by auto
  ultimately show ?thesis using I(3,4) I(10) [of p] assms(2) by (auto simp: slot_ok_def Let_def)
qed

lemma lane_take:
  assumes ok: "lane_ok m r x W {} L" and d: "dequeue m r rec = ((pos, True), rec', m', r')"
  shows "pos = r_head r" "m' = m" "r' = r\<lparr>r_head := r_head r + 1\<rparr>" "unat (r_head r + 1) = rH r + 1" "rH r < rC r"
    "delivered m' rec' = committed_entry (L (rH r))" "lane_ok (release m' r' pos) r' x W {} L"
    "writes_within (r_base r) (shard_span r x) m (release m' r' pos)"
proof -
  note D = lane_dequeue [OF ok d]
  show "pos = r_head r" "m' = m" "r' = r\<lparr>r_head := r_head r + 1\<rparr>" "unat (r_head r + 1) = rH r + 1" "rH r < rC r" by fact+
  note R = lane_release [OF D(7), of pos]
  have "rH r mod rcap r' = rslot r' pos" "ring_geom r'" using D(1,3) shard_geomD(1) [OF lane_okD(1) [OF D(7)]] by simp_all
  then show "delivered m' rec' = committed_entry (L (rH r))"
    using copied_delivered [OF _ D(6)] lane_held [OF D(7), of "rH r"] D(2) by simp
  show "lane_ok (release m' r' pos) r' x W {} L" "writes_within (r_base r) (shard_span r x) m (release m' r' pos)"
    using R D(1-3) by simp_all
qed

section \<open>Threads and logs\<close>

definition glog :: "publog \<Rightarrow> nat \<Rightarrow> nat \<Rightarrow> entry" where
  "glog P i p = the (map_of P (i, p))"

lemma glog_Cons [simp]: "glog (((i, p), e) # P) = (glog P)(i := (glog P i)(p := e))"
  by (simp add: glog_def fun_eq_iff)

text \<open>The position a producer has claimed and not yet stored in.\<close>

fun writes :: "Vaultage \<Rightarrow> pub_pc \<Rightarrow> (nat \<times> nat) option" where
  "writes v (Pu_store j t pos) = Some (jshard v j, unat pos)"
| "writes v _ = None"

definition writing :: "Vaultage \<Rightarrow> pub_pc list \<Rightarrow> nat \<Rightarrow> nat set" where
  "writing v ps i = {p. (i, p) \<in> owned (writes v) ps}"

text \<open>Past the checks, the payload fits and the key is not 0.\<close>

fun job_ok :: "Vaultage \<Rightarrow> pub_pc \<Rightarrow> bool" where
  "job_ok v (Pu_gate j) = (j_key j \<noteq> 0 \<and> length (j_payload j) \<le> unat (v_payloadCap v))"
| "job_ok v (Pu_ticket j) = (j_key j \<noteq> 0 \<and> length (j_payload j) \<le> unat (v_payloadCap v))"
| "job_ok v (Pu_claim j t) = (j_key j \<noteq> 0 \<and> length (j_payload j) \<le> unat (v_payloadCap v))"
| "job_ok v (Pu_store j t pos) = (j_key j \<noteq> 0 \<and> length (j_payload j) \<le> unat (v_payloadCap v))"
| "job_ok v _ = True"

definition claimed :: "Vaultage \<Rightarrow> (nat \<times> nat) set" where
  "claimed v = {(i, p). i < nsh v \<and> p < rT (rg v i)}"

definition consumed :: "Vaultage \<Rightarrow> nat \<Rightarrow> nat" where
  "consumed v i = (if i < nsh v then rH (rg v i) else 0)"

text \<open>The positions of a shard that consumers were shown, the latest first.\<close>

definition shown_at :: "publog \<Rightarrow> nat \<Rightarrow> nat list" where
  "shown_at D i = map (\<lambda>x. snd (fst x)) (filter (\<lambda>x. fst (fst x) = i) D)"

lemma shown_at_Cons [simp]: "shown_at (((i, p), e) # D) = (shown_at D)(i := p # shown_at D i)"
  by (simp add: shown_at_def fun_eq_iff)

lemma shown_at_set: "((i, p), e) \<in> set D \<Longrightarrow> p \<in> set (shown_at D i)"
  by (force simp: shown_at_def)

text \<open>\<open>seen i\<close> positions of shard \<open>i\<close> have been shown to a handler.\<close>

definition plogs_ok :: "Vaultage \<Rightarrow> pub_pc list \<Rightarrow> (nat \<Rightarrow> nat) \<Rightarrow> publog \<Rightarrow> publog \<Rightarrow> bool" where
  "plogs_ok v ps seen P D \<longleftrightarrow> distinct (map fst P) \<and> fst ` set P = claimed v - owned (writes v) ps \<and>
     (\<forall>i. shown_at D i = rev [0..<seen i]) \<and> (\<forall>i. seen i \<le> consumed v i) \<and>
     (\<forall>((i, p), e)\<in>set D. e = committed_entry (glog P i p)) \<and> (\<forall>((i, p), e)\<in>set P. shard_of v (e_key e) = i)"

lemma plogs_okD:
  assumes "plogs_ok v ps seen P D"
  shows "distinct (map fst P)" "fst ` set P = claimed v - owned (writes v) ps" "\<And>i. shown_at D i = rev [0..<seen i]"
    "\<And>i p e. ((i, p), e) \<in> set D \<Longrightarrow> e = committed_entry (glog P i p)"
    "\<And>i p e. ((i, p), e) \<in> set P \<Longrightarrow> shard_of v (e_key e) = i"
    "\<And>i. seen i \<le> consumed v i"
  using assms unfolding plogs_ok_def by auto

definition pub_core :: "nat \<Rightarrow> mem \<Rightarrow> Vaultage \<Rightarrow> pub_pc list \<Rightarrow> (nat \<Rightarrow> nat set) \<Rightarrow> (nat \<Rightarrow> nat) \<Rightarrow> publog \<Rightarrow> publog \<Rightarrow> bool" where
  "pub_core n m v ps R seen P D \<longleftrightarrow> length ps = n \<and> lanes_ok m v (writing v ps) R (glog P) \<and> sole (writes v) ps \<and>
     (\<forall>pc\<in>set ps. job_ok v pc) \<and> plogs_ok v ps seen P D"

lemma pub_coreD:
  assumes "pub_core n m v ps R seen P D"
  shows "length ps = n" "lanes_ok m v (writing v ps) R (glog P)" "sole (writes v) ps"
    "\<And>t. t < n \<Longrightarrow> job_ok v (ps ! t)" "plogs_ok v ps seen P D" "\<forall>pc\<in>set ps. job_ok v pc"
  using assms by (auto simp: pub_core_def)

text \<open>With consumers that take a record, show it and release it in one go.\<close>

definition pub_inv :: "nat \<Rightarrow> mem \<Rightarrow> Vaultage \<Rightarrow> pub_pc list \<Rightarrow> publog \<Rightarrow> publog \<Rightarrow> bool" where
  "pub_inv n m v ps P D \<longleftrightarrow> pub_core n m v ps (\<lambda>_. {}) (consumed v) P D \<and> latch_ok v \<and> \<not> v_nil v"

lemma pub_invD:
  assumes "pub_inv n m v ps P D"
  shows "length ps = n" "lanes_ok m v (writing v ps) (\<lambda>_. {}) (glog P)" "latch_ok v" "sole (writes v) ps"
    "\<And>t. t < n \<Longrightarrow> job_ok v (ps ! t)" "plogs_ok v ps (consumed v) P D" "\<not> v_nil v"
  using assms by (auto simp: pub_inv_def pub_core_def)

lemma pub_inv_core: "pub_inv n m v ps P D \<Longrightarrow> pub_core n m v ps (\<lambda>_. {}) (consumed v) P D"
  by (simp add: pub_inv_def)

text \<open>Steps that leave the lanes alone.\<close>

lemma writes_cong: "shard_of v' = shard_of v \<Longrightarrow> writes v' = writes v"
  by (rule ext, case_tac x) simp_all

lemma writes_upd [simp]:
  "writes (v\<lparr>v_shards := s\<rparr>) = writes v" "writes (v\<lparr>v_ctl := c\<rparr>) = writes v"
  "writing (v\<lparr>v_shards := s\<rparr>) = writing v" "writing (v\<lparr>v_ctl := c\<rparr>) = writing v"
  by (simp_all add: writing_def fun_eq_iff writes_cong [of "v\<lparr>v_shards := s\<rparr>" v] writes_cong [of "v\<lparr>v_ctl := c\<rparr>" v])

lemma job_ok_cong: "v_payloadCap v' = v_payloadCap v \<Longrightarrow> job_ok v' = job_ok v"
  by (rule ext, case_tac x) simp_all

lemma owned_same: "t < length ps \<Longrightarrow> f pc = f (ps ! t) \<Longrightarrow> owned f (ps[t := pc]) = owned f ps"
  unfolding owned_def by (auto simp: nth_list_update)

lemma sole_same: "t < length ps \<Longrightarrow> f pc = f (ps ! t) \<Longrightarrow> sole f ps \<Longrightarrow> sole f (ps[t := pc])"
  by (rule sole_upd) simp_all

lemma same_lanes_cursors: "same_lanes v v' \<Longrightarrow> claimed v' = claimed v \<and> consumed v' = consumed v"
  by (auto simp: same_lanes_def claimed_def consumed_def fun_eq_iff)

lemma core_still:
  assumes inv: "pub_core n m v ps R seen P D" and s: "same_lanes v v'"
  shows "pub_core n m v' ps R seen P D"
proof -
  note I = pub_coreD [OF inv]
  have so: "shard_of v' = shard_of v" and pc: "v_payloadCap v' = v_payloadCap v"
    using s by (simp_all add: same_lanes_shard_of) (simp add: same_lanes_def)
  note w = writes_cong [OF so] job_ok_cong [OF pc] so
  have "plogs_ok v' ps seen P D" using I(5) same_lanes_cursors [OF s] by (simp add: plogs_ok_def w)
  moreover have "writing v' ps = writing v ps" by (simp add: writing_def w fun_eq_iff)
  ultimately show ?thesis using inv lanes_cong [OF s] by (simp add: pub_core_def w)
qed

lemma core_local:
  assumes inv: "pub_core n m v ps R seen P D" and t: "t < n" and w: "writes v pc = writes v (ps ! t)" and j: "job_ok v pc"
  shows "pub_core n m v (ps[t := pc]) R seen P D"
proof -
  note I = pub_coreD [OF inv]
  have t': "t < length ps" using t I(1) by simp
  note o = owned_same [OF t' w]
  have "writing v (ps[t := pc]) = writing v ps" by (simp add: writing_def o fun_eq_iff)
  moreover have "plogs_ok v (ps[t := pc]) seen P D" using I(5) by (simp add: plogs_ok_def o)
  moreover have "\<forall>pc'\<in>set (ps[t := pc]). job_ok v pc'" using inv j set_update_subset_insert [of ps t pc] by (auto simp: pub_core_def)
  ultimately show ?thesis using I(1,2) sole_same [OF t' w I(3)] by (simp add: pub_core_def)
qed

text \<open>Steps that move one lane.\<close>

lemma latch_lane:
  assumes "latch_ok v" "i < nsh v" "sh_hot sh = sh_hot (v_shards v ! i)"
  shows "latch_ok (v\<lparr>v_shards := (v_shards v)[i := sh]\<rparr>)"
proof -
  have "hots (v\<lparr>v_shards := (v_shards v)[i := sh]\<rparr>) = hots v"
    using assms(2,3) list_update_id [of "map sh_hot (v_shards v)" i] by (simp add: hots_def map_update)
  then show ?thesis using assms(1) by (simp add: latch_ok_def)
qed

lemma core_lane:
  assumes inv: "pub_core n m v ps R seen P D" and i: "i < nsh v"
    and ps': "length ps' = n" "sole (writes v) ps'" "\<forall>pc\<in>set ps'. job_ok v pc"
    and lane: "lane_ok m' (sh_ring sh) (sh_index sh) (writing v ps' i) (R' i) (glog P' i)"
    and same: "r_payloadCap (sh_ring sh) = r_payloadCap (rg v i)" "r_base (sh_ring sh) = r_base (rg v i)"
      "shard_span (sh_ring sh) (sh_index sh) = shard_span (rg v i) (ix v i)"
    and others: "\<And>j. j \<noteq> i \<Longrightarrow> writing v ps' j = writing v ps j \<and> glog P' j = glog P j \<and> R' j = R j"
    and w: "writes_within (r_base (rg v i)) (shard_span (rg v i) (ix v i)) m m'"
    and logs: "plogs_ok (v\<lparr>v_shards := (v_shards v)[i := sh]\<rparr>) ps' seen' P' D'"
  shows "pub_core n m' (v\<lparr>v_shards := (v_shards v)[i := sh]\<rparr>) ps' R' seen' P' D'"
proof -
  note I = pub_coreD [OF inv]
  let ?v = "v\<lparr>v_shards := (v_shards v)[i := sh]\<rparr>"
  have c: "writes ?v = writes v" "job_ok ?v = job_ok v" by (rule writes_cong, simp, rule job_ok_cong, simp)
  have "(writing v ps)(i := writing v ps' i) = writing ?v ps'" "(glog P)(i := glog P' i) = glog P'" "R(i := R' i) = R'"
    using others by (auto simp: fun_eq_iff writing_def c)
  with lane_step [OF I(2) i lane same w] have "lanes_ok m' ?v (writing ?v ps') R' (glog P')" by simp
  then show ?thesis using ps' logs by (simp add: pub_core_def c)
qed

lemma core_jobs: "pub_core n m v ps R seen P D \<Longrightarrow> job_ok v pc \<Longrightarrow> \<forall>pc'\<in>set (ps[t := pc]). job_ok v pc'"
  using set_update_subset_insert [of ps t pc] by (auto simp: pub_core_def)

lemma writing_upd:
  assumes "pub_core n m v ps R seen P D" "t < n"
  shows "owned (writes v) (ps[t := pc]) = (owned (writes v) ps - set_option (writes v (ps ! t))) \<union> set_option (writes v pc)"
    "writing v (ps[t := pc]) i = (writing v ps i - {p. writes v (ps ! t) = Some (i, p)}) \<union> {p. writes v pc = Some (i, p)}"
  using owned_upd [of t ps "writes v" pc] pub_coreD(1,3) [OF assms(1)] assms(2) by (auto simp: writing_def)

lemma core_claim:
  assumes inv: "pub_core n m v ps R seen P D" and t: "t < n" "ps ! t = Pu_claim j tk" and room: "race_room v"
    and run: "pub_step (ps ! t) m v = Returned (pc, m', v')"
  shows "pub_core n m' v' (ps[t := pc]) R seen P D"
proof -
  note I = pub_coreD [OF inv]
  note E = lanes_okD [OF I(2)]
  define i where "i = jshard v j"
  have i: "i < nsh v" using lanes_shard_of [OF I(2)] by (simp add: i_def)
  have rm: "rT (rg v i) + rcap (rg v i) + 1 < 2 ^ 64" using room i by (simp add: race_room_def)
  have jb: "job_ok v (Pu_claim j tk)" using I(4) [OF t(1)] t(2) by simp
  show ?thesis
    using E(5) [OF i] rm
  proof (cases rule: lane_claim)
    case 1
    then have "pc = Pu_refuse j" "m' = m" "v' = v" using run t(2) by (simp_all add: i_def [symmetric])
    then show ?thesis using core_local [OF inv t(1), of "Pu_refuse j"] t(2) by simp
  next
    case 2
    let ?r = "rg v i"
    have eq: "pc = Pu_store j tk (r_tail ?r)" "m' = m"
      "v' = v\<lparr>v_shards := (v_shards v)[i := (v_shards v ! i)\<lparr>sh_ring := ?r\<lparr>r_tail := r_tail ?r + 1\<rparr>\<rparr>]\<rparr>"
      using run t(2) 2(2) by (simp_all add: i_def [symmetric])
    have W: "writing v (ps[t := pc]) k = (if k = i then insert (rT ?r) (writing v ps i) else writing v ps k)" for k
      using writing_upd(2) [OF inv t(1)] t(2) by (auto simp: eq i_def [symmetric])
    have O: "owned (writes v) (ps[t := pc]) = insert (i, rT ?r) (owned (writes v) ps)"
      using writing_upd(1) [OF inv t(1)] t(2) by (auto simp: eq i_def [symmetric])
    have c: "claimed v' = insert (i, rT ?r) (claimed v)" "consumed v' = consumed v" "(i, rT ?r) \<notin> claimed v"
      using 2(4) i by (auto simp: claimed_def consumed_def eq nth_list_update less_Suc_eq fun_eq_iff split: if_splits)
    have w: "writes v' = writes v" "shard_of v' = shard_of v" by (rule writes_cong, simp_all add: eq)
    have logs: "plogs_ok v' (ps[t := pc]) seen P D"
      using I(5) c(3) by (auto simp: plogs_ok_def w O c)
    have s: "sole (writes v) (ps[t := pc])"
      by (rule sole_upd) (use I(1,3) t 2(5) in \<open>simp_all add: eq i_def [symmetric] writing_def\<close>)
    have jobs: "\<forall>pc'\<in>set (ps[t := pc]). job_ok v pc'" using core_jobs [OF inv, of pc t] jb by (simp add: eq)
    show ?thesis
      using logs unfolding eq(2,3)
      by (intro core_lane [OF inv i _ s jobs]) (use I(1) 2(3) W in simp_all)
  qed
qed

lemma store_run:
  assumes inv: "pub_core n m v ps R seen P D" and t: "t < n" "ps ! t = Pu_store j tk pos" and i: "i = jshard v j"
  obtains m1 c where "pub_step (ps ! t) m v = Returned (Pu_count j tk pos, m1, upd_shard i (sh_ring_update (\<lambda>_. (rg v i)\<lparr>r_commit := c\<rparr>)) v)"
    "lane_ok m1 ((rg v i)\<lparr>r_commit := c\<rparr>) (ix v i) (writing v ps i - {unat pos}) (R i) ((glog P i)(unat pos := jentry v j tk))"
    "writes_within (r_base (rg v i)) (shard_span (rg v i) (ix v i)) m m1" "(i, unat pos) \<in> owned (writes v) ps"
proof -
  note I = pub_coreD [OF inv]
  note E = lanes_okD [OF I(2)]
  have lt: "i < nsh v" using lanes_shard_of [OF I(2)] by (simp add: i)
  have own: "(i, unat pos) \<in> owned (writes v) ps"
    using ownedI [of "ps ! t" ps "writes v" "(i, unat pos)"] nth_mem [of t ps] t I(1) by (simp add: i)
  then have p: "unat pos \<in> writing v ps i" by (simp add: writing_def)
  have len: "length (j_payload j) \<le> unat (r_payloadCap (rg v i))" using I(4) [OF t(1)] t(2) E(6) [OF lt] by simp
  obtain m1 c where "ring_publish m (rg v i) pos tk (j_key j) (now_ts v (j_now j)) (j_flags j) (j_payload j) (digest v (j_payload j)) =
      (of_nat (length (j_payload j)), m1, (rg v i)\<lparr>r_commit := c\<rparr>)"
    and "lane_ok m1 ((rg v i)\<lparr>r_commit := c\<rparr>) (ix v i) (writing v ps i - {unat pos}) (R i) ((glog P i)(unat pos := jentry v j tk))"
    and "writes_within (r_base (rg v i)) (shard_span (rg v i) (ix v i)) m m1"
    unfolding jentry_def by (rule lane_store [OF E(5) [OF lt] p len])
  then show thesis using that own t(2) by (simp add: i [symmetric] digest_def)
qed

lemma core_store:
  assumes inv: "pub_core n m v ps R seen P D" and t: "t < n" "ps ! t = Pu_store j tk pos"
    and run: "pub_step (ps ! t) m v = Returned (pc, m', v')"
  shows "pub_core n m' v' (ps[t := pc]) R seen (stored (ps ! t) v P) D"
proof -
  note I = pub_coreD [OF inv]
  note E = lanes_okD [OF I(2)]
  define i where "i = jshard v j"
  let ?r = "rg v i" and ?P = "((i, unat pos), jentry v j tk) # P"
  have i: "i < nsh v" using lanes_shard_of [OF I(2)] by (simp add: i_def)
  obtain m1 c where st1: "pub_step (ps ! t) m v = Returned (Pu_count j tk pos, m1, upd_shard i (sh_ring_update (\<lambda>_. ?r\<lparr>r_commit := c\<rparr>)) v)"
    and lane: "lane_ok m1 (?r\<lparr>r_commit := c\<rparr>) (ix v i) (writing v ps i - {unat pos}) (R i) ((glog P i)(unat pos := jentry v j tk))"
    and w: "writes_within (r_base ?r) (shard_span ?r (ix v i)) m m1" and own: "(i, unat pos) \<in> owned (writes v) ps"
    by (rule store_run [OF inv t i_def])
  have eq: "pc = Pu_count j tk pos" "m' = m1" "v' = upd_shard i (sh_ring_update (\<lambda>_. ?r\<lparr>r_commit := c\<rparr>)) v"
    using run unfolding st1 by simp_all
  have p: "unat pos \<in> writing v ps i" using own by (simp add: writing_def)
  have st: "stored (ps ! t) v P = ?P" by (simp add: stored_def t(2) i_def)
  have W: "writing v (ps[t := pc]) k = (if k = i then writing v ps i - {unat pos} else writing v ps k)" for k
    using writing_upd(2) [OF inv t(1)] t(2) by (auto simp: eq i_def [symmetric])
  have O: "owned (writes v) (ps[t := pc]) = owned (writes v) ps - {(i, unat pos)}"
    using writing_upd(1) [OF inv t(1)] t(2) by (auto simp: eq i_def [symmetric])
  have ring: "rH ?r \<le> unat pos" "unat pos < rT ?r"
    using p ring_inv0D(3,7) [OF ring_invD(1) [OF lane_okD(2) [OF E(5) [OF i]]]] by auto
  have c: "claimed v' = claimed v" "consumed v' = consumed v" "(i, unat pos) \<in> claimed v" "consumed v i \<le> unat pos"
    using i ring by (auto simp: claimed_def consumed_def eq nth_list_update fun_eq_iff split: if_splits)
  have wr: "writes v' = writes v" "shard_of v' = shard_of v" by (rule writes_cong, simp_all add: eq)
  note l = plogs_okD [OF I(5)]
  have D: "e = committed_entry (glog ?P k p)" if "((k, p), e) \<in> set D" for k p e
  proof -
    have "p < consumed v k" using shown_at_set [OF that] l(3) l(6) [of k] by simp
    then have "(k, p) \<noteq> (i, unat pos)" using c(4) by auto
    then have "glog ?P k p = glog P k p" by (auto simp: glog_def)
    then show ?thesis using l(4) [OF that] by simp
  qed
  have key: "shard_of v (e_key (jentry v j tk)) = i" by (simp add: jentry_def entry_of_def i_def)
  have "fst ` set ?P = claimed v - (owned (writes v) ps - {(i, unat pos)})" "(i, unat pos) \<notin> fst ` set P"
    using l(2) c(3) own by auto
  then have logs: "plogs_ok v' (ps[t := pc]) seen ?P D"
    unfolding plogs_ok_def wr O c using l(1,3,5,6) D key by (auto simp del: glog_Cons)
  have s: "sole (writes v) (ps[t := pc])" by (rule sole_upd) (use I(1,3) t in \<open>simp_all add: eq\<close>)
  have jobs: "\<forall>pc'\<in>set (ps[t := pc]). job_ok v pc'" using core_jobs [OF inv, of pc t] by (simp add: eq)
  show ?thesis
    using logs unfolding eq(2,3) st
    by (intro core_lane [OF inv i _ s jobs]) (use I(1) lane W w in simp_all)
qed

lemma core_index:
  assumes inv: "pub_core n m v ps R seen P D" and t: "t < n" "ps ! t = Pu_index j tk pos"
    and run: "pub_step (ps ! t) m v = Returned (pc, m', v')"
  shows "pub_core n m' v' (ps[t := pc]) R seen P D"
proof -
  note I = pub_coreD [OF inv]
  define i where "i = jshard v j"
  have i: "i < nsh v" using lanes_shard_of [OF I(2)] by (simp add: i_def)
  obtain m1 x1 err where u: "upsert m (ix v i) (j_key j) tk (pos AND r_mask (rg v i)) (rg v i) = (m1, x1, err)"
    by (cases "upsert m (ix v i) (j_key j) tk (pos AND r_mask (rg v i)) (rg v i)")
  have eq: "pc = Pu_level j tk" "m' = m1" "v' = v\<lparr>v_shards := (v_shards v)[i := (v_shards v ! i)\<lparr>sh_index := x1\<rparr>]\<rparr>"
    using run t(2) u by (simp_all add: i_def [symmetric])
  have inv1: "pub_core n m v (ps[t := pc]) R seen P D" by (rule core_local [OF inv t(1)]) (simp_all add: eq t(2))
  note I1 = pub_coreD [OF inv1]
  note L = lane_upsert [OF lanes_okD(5) [OF I1(2) i] u]
  have c: "claimed v' = claimed v" "consumed v' = consumed v"
    using i by (auto simp: claimed_def consumed_def eq nth_list_update fun_eq_iff split: if_splits)
  have wr: "writes v' = writes v" "shard_of v' = shard_of v" by (rule writes_cong, simp_all add: eq)
  have "plogs_ok v' (ps[t := pc]) seen P D" using I1(5) by (simp add: plogs_ok_def c wr)
  then show ?thesis
    unfolding eq(2,3)
    by (intro core_lane [OF inv1 i I1(1,3)]) (use L inv1 in \<open>simp_all add: pub_core_def same_table_def\<close>)
qed

text \<open>A consumer takes a record, shows it to a handler and gives the cell back.\<close>

lemma core_dequeue:
  assumes inv: "pub_core n m v ps R seen P D" and i: "i < nsh v" and d: "dequeue m (rg v i) rec = ((pos, True), rec1, m1, r1)"
    and r: "sh_ring sh = r1" "sh_index sh = ix v i"
  shows "pub_core n m (v\<lparr>v_shards := (v_shards v)[i := sh]\<rparr>) ps (R(i := insert (unat pos) (R i))) seen P D"
    "copied r1 pos rec1 (glog P i (unat pos))" "unat pos = rH (rg v i)" "rH r1 = unat pos + 1" "m1 = m"
    "r1 = (rg v i)\<lparr>r_head := r_head (rg v i) + 1\<rparr>"
proof -
  note I = pub_coreD [OF inv]
  let ?v = "v\<lparr>v_shards := (v_shards v)[i := sh]\<rparr>"
  note L = lane_dequeue [OF lanes_okD(5) [OF I(2) i] d]
  have c: "claimed ?v = claimed v" "consumed ?v = (consumed v)(i := rH (rg v i) + 1)" "consumed v i = rH (rg v i)"
    using i L(3,4) by (auto simp: claimed_def consumed_def nth_list_update fun_eq_iff r split: if_splits)
  have wr: "writes ?v = writes v" "shard_of ?v = shard_of v" by (rule writes_cong, simp_all)
  have le: "seen j \<le> consumed ?v j" for j using plogs_okD(6) [OF I(5), of j] c by (cases "j = i") simp_all
  have "plogs_ok ?v ps seen P D" using I(5) le unfolding plogs_ok_def c(1) wr by blast
  then show "pub_core n m ?v ps (R(i := insert (unat pos) (R i))) seen P D"
    by (intro core_lane [OF inv i I(1,3,6)]) (use L in \<open>simp_all add: r\<close>)
  show "copied r1 pos rec1 (glog P i (unat pos))" "unat pos = rH (rg v i)" "rH r1 = unat pos + 1" "m1 = m"
    "r1 = (rg v i)\<lparr>r_head := r_head (rg v i) + 1\<rparr>" using L by simp_all
qed

lemma core_show:
  assumes inv: "pub_core n m v ps R seen P D" and i: "i < nsh v" and pos: "unat pos \<in> R i" "unat pos = seen i"
    and c: "copied (rg v i) pos rec (glog P i (unat pos))"
  shows "delivered m rec = committed_entry (glog P i (unat pos))"
    "pub_core n m v ps R (seen(i := seen i + 1)) P (((i, unat pos), delivered m rec) # D)"
proof -
  note I = pub_coreD [OF inv]
  note L = lanes_okD(5) [OF I(2) i]
  have g: "ring_geom (rg v i)" by (rule shard_geomD(1) [OF lane_okD(1) [OF L]])
  show d: "delivered m rec = committed_entry (glog P i (unat pos))"
    by (rule copied_delivered [OF g c]) (use lane_held [OF L pos(1)] in simp)
  have "unat pos < rH (rg v i)" using ring_inv0D(8) [OF ring_invD(1) [OF lane_okD(2) [OF L]]] pos(1) by auto
  then have "seen i + 1 \<le> consumed v i" using i pos(2) by (simp add: consumed_def)
  then show "pub_core n m v ps R (seen(i := seen i + 1)) P (((i, unat pos), delivered m rec) # D)"
    using inv d pos(2) by (auto simp: pub_core_def plogs_ok_def)
qed

lemma core_release:
  assumes inv: "pub_core n m v ps R seen P D" and i: "i < nsh v" and pos: "unat pos \<in> R i"
  shows "pub_core n (release m (rg v i) pos) v ps (R(i := R i - {unat pos})) seen P D"
proof -
  note I = pub_coreD [OF inv]
  note L = lane_release [OF lanes_okD(5) [OF I(2) i] pos]
  have id: "v\<lparr>v_shards := (v_shards v)[i := v_shards v ! i]\<rparr> = v" by simp
  show ?thesis
    by (subst id [symmetric], rule core_lane [OF inv i I(1,3,6)]) (use L I(5) in simp_all)
qed

lemma pub_take:
  assumes inv: "pub_core n m v ps (\<lambda>_. {}) (consumed v) P D" and i: "i < nsh v" and run: "take_one i m v rec = Some (pos, e, m', v')"
  shows "pub_core n m' v' ps (\<lambda>_. {}) (consumed v') P (((i, unat pos), e) # D)"
proof -
  let ?r = "rg v i"
  obtain rec1 m1 r1 where d: "dequeue m ?r rec = ((pos, True), rec1, m1, r1)" and e: "e = delivered m1 rec1" "m' = release m1 r1 pos"
    "v' = upd_shard i (\<lambda>s. s\<lparr>sh_ring := r1, sh_consumed := fst (atomicAdd64 (sh_consumed s) 1)\<rparr>) v"
    using run by (auto simp: take_one_def split: prod.splits if_splits)
  note C = core_dequeue [OF inv i d, where sh = "(v_shards v ! i)\<lparr>sh_ring := r1, sh_consumed := fst (atomicAdd64 (sh_consumed (v_shards v ! i)) 1)\<rparr>", simplified, folded e(3)]
  have i': "i < nsh v'" "rg v' i = r1" using i by (simp_all add: e(3))
  have seen: "unat pos = consumed v i" "consumed v' = (consumed v)(i := consumed v i + 1)"
    using i C(3-6) by (auto simp: consumed_def e(3) nth_list_update fun_eq_iff)
  note S = core_show [OF C(1) i'(1) _ seen(1), of rec1]
  have "pub_core n m v' ps ((\<lambda>_. {})(i := {unat pos})) (consumed v') P (((i, unat pos), e) # D)"
    using S(2) C(2,5) i'(2) seen(2) e(1) by simp
  moreover have "((\<lambda>_. {})(i := {unat pos}))(i := ((\<lambda>_. {})(i := {unat pos})) i - {unat pos}) = (\<lambda>_ :: nat. {})" by auto
  ultimately show ?thesis using core_release [of n m v' ps "(\<lambda>_. {})(i := {unat pos})" "consumed v'" P _ i pos] i' e(2) C(5) by simp
qed

text \<open>The remaining steps only move counters and the latch.\<close>

lemma latch_valve_reject: "latch_ok v \<Longrightarrow> latch_ok (v\<lparr>v_valve := reject (v_valve v)\<rparr>)"
  by (auto simp: latch_ok_def hots_def reject_def isClosed_def gate_wf_def)

lemma latch_ctl: "latch_ok v \<Longrightarrow> ctl_saturated c = ctl_saturated (v_ctl v) \<Longrightarrow> latch_ok (v\<lparr>v_ctl := c\<rparr>)"
  by (simp add: latch_ok_def hots_def)

lemma core_count_step:
  assumes inv: "pub_core n m v ps R seen P D" and t: "t < n"
    and run: "pub_step (ps ! t) m v = Returned (pc, m', v')"
    and pc: "\<forall>j tk. ps ! t \<noteq> Pu_claim j tk" "\<forall>j tk pos. ps ! t \<noteq> Pu_store j tk pos \<and> ps ! t \<noteq> Pu_index j tk pos"
  shows "pub_core n m' v' (ps[t := pc]) R seen P D"
proof -
  note I = pub_coreD [OF inv]
  note jb = I(4) [OF t]
  have sh: "jshard v j < nsh v" for j using lanes_shard_of [OF I(2)] .
  have m: "m' = m" using run pc by (cases "ps ! t") (auto split: if_splits prod.splits)
  have "same_lanes v v'"
    using run pc sh same_lanes_latch [OF markSaturated_same [OF sh]]
    by (cases "ps ! t") (auto simp: same_lanes_def nth_list_update split: if_splits prod.splits)
  then have v: "pub_core n m v' ps R seen P D" using core_still [OF inv] by blast
  have "writes v' pc = writes v' (ps ! t) \<and> job_ok v' pc"
    using run pc jb by (cases "ps ! t") (auto split: if_splits prod.splits)
  then show ?thesis using core_local [OF v t] m by blast
qed

lemma core_step:
  assumes inv: "pub_core n m v ps R seen P D" and t: "t < n" and room: "race_room v"
    and run: "pub_step (ps ! t) m v = Returned (pc, m', v')"
  shows "pub_core n m' v' (ps[t := pc]) R seen (stored (ps ! t) v P) D"
proof -
  have none: "stored (ps ! t) v P = P" if "\<forall>j tk pos. ps ! t \<noteq> Pu_store j tk pos"
    using that by (simp add: stored_def split: pub_pc.splits)
  consider (claim) j tk where "ps ! t = Pu_claim j tk" | (store) j tk pos where "ps ! t = Pu_store j tk pos"
    | (index) j tk pos where "ps ! t = Pu_index j tk pos"
    | (rest) "\<forall>j tk. ps ! t \<noteq> Pu_claim j tk" "\<forall>j tk pos. ps ! t \<noteq> Pu_store j tk pos \<and> ps ! t \<noteq> Pu_index j tk pos"
    by blast
  then show ?thesis
  proof cases
    case claim
    then show ?thesis using core_claim [OF inv t claim room run] none by simp
  next
    case store
    then show ?thesis using core_store [OF inv t store run] by simp
  next
    case index
    then show ?thesis using core_index [OF inv t index run] none by simp
  next
    case rest
    then show ?thesis using core_count_step [OF inv t run rest] none by simp
  qed
qed

text \<open>What producers and consumers leave to \<^verbatim>\<open>New\<close> and \<^verbatim>\<open>Close\<close>.\<close>

definition same_shell :: "Vaultage \<Rightarrow> Vaultage \<Rightarrow> bool" where
  "same_shell v v' \<longleftrightarrow> v_nil v' = v_nil v \<and> v_closed v' = v_closed v \<and> v_arenas v' = v_arenas v \<and>
     v_ctlArena v' = v_ctlArena v \<and> v_cfg v' = v_cfg v \<and> ctl_running (v_ctl v') = ctl_running (v_ctl v)"

lemma latch_shell: "same_shell v (markSaturated v i)" "same_shell v (markDrained v i)"
  by (simp_all add: same_shell_def markSaturated_def markDrained_def Let_def split: prod.splits)

lemma step_shell: "pub_step pc m v = Returned (pc', m', v') \<Longrightarrow> same_shell v v'"
  by (cases pc) (auto simp: Let_def latch_shell split: if_splits prod.splits option.splits, auto simp: same_shell_def)

text \<open>The latch, and what a step of a producer leaves to the consumers.\<close>

lemma step_latch:
  assumes "latch_ok v" "\<And>j. jshard v j < nsh v" "pub_step pc m v = Returned (pc', m', v')"
  shows "latch_ok v'"
  using assms(3) latch_lane [OF assms(1,2)] markSaturated_latch(1) [OF assms(1,2)] assms(1)
  by (cases pc) (auto simp: Let_def latch_valve_reject split: if_splits prod.splits option.splits intro: latch_ctl)

lemma claim_head: "claim m r = Some (x, r') \<Longrightarrow> r_head r' = r_head r"
proof -
  have "r_head (snd y) = r_head r" if "claim m r = Some y" for m r y
    using that by (rule claim.raw_induct [rotated]) (auto simp: Let_def atomicCAS64_def split: if_splits)
  then show "claim m r = Some (x, r') \<Longrightarrow> r_head r' = r_head r" by fastforce
qed

lemma advanceCommit_head: "r_head (advanceCommit m r) = r_head r"
  by (induction m r rule: advanceCommit.induct) (subst advanceCommit.simps, simp add: Let_def split: prod.split)

lemma step_head:
  assumes "pub_step pc m v = Returned (pc', m', v')" "\<And>j. jshard v j < nsh v"
  shows "nsh v' = nsh v \<and> (\<forall>i<nsh v. r_head (rg v' i) = r_head (rg v i))"
proof (cases pc)
  case (Pu_hot j res)
  then show ?thesis using assms(1) same_lanes_latch [OF markSaturated_same [OF assms(2)]] by (auto simp: same_lanes_def)
qed (use assms(1) in \<open>auto simp: Let_def nth_list_update assms(2) ring_publish_def advanceCommit_head dest: claim_head
  split: if_splits prod.splits option.splits\<close>)

lemma step_consumed:
  assumes "pub_step pc m v = Returned (pc', m', v')" "\<And>j. jshard v j < nsh v"
  shows "consumed v' = consumed v"
  using step_head [OF assms] by (auto simp: consumed_def fun_eq_iff)

lemma pub_exec_inv:
  assumes inv: "pub_inv n m v ps P D" and t: "t < n" and room: "race_room v"
    and run: "pub_exec (ps ! t) m v = Returned (pc, m', v')"
  shows "pub_inv n m' v' (ps[t := pc]) (stored (ps ! t) v P) D"
proof -
  have run': "pub_step (ps ! t) m v = Returned (pc, m', v')" using run by (simp add: pub_exec_def split: if_splits)
  have sh: "jshard v j < nsh v" for j using lanes_shard_of [OF pub_invD(2) [OF inv]] .
  show ?thesis
    using core_step [OF pub_inv_core [OF inv] t room run'] step_latch [OF pub_invD(3) [OF inv] sh run'] step_consumed [OF run' sh]
      step_shell [OF run'] pub_invD(7) [OF inv] by (simp add: pub_inv_def same_shell_def)
qed

lemma pub_still:
  assumes "pub_inv n m v ps P D" "same_lanes v v'" "latch_ok v'" "same_shell v v'"
  shows "pub_inv n m v' ps P D"
  using assms core_still [of n m v ps "\<lambda>_. {}" "consumed v" P D v'] same_lanes_cursors [OF assms(2)]
  by (simp add: pub_inv_def same_shell_def)

lemma pub_local:
  assumes "pub_inv n m v ps P D" "t < n" "writes v pc = writes v (ps ! t)" "job_ok v pc"
  shows "pub_inv n m v (ps[t := pc]) P D"
  using assms core_local by (simp add: pub_inv_def)

lemma take_latch:
  assumes "latch_ok v" "i < nsh v" "take_one i m v rec = Some (pos, e, m', v')"
  shows "latch_ok v'" "v_nil v' = v_nil v"
  using assms(3) latch_lane [OF assms(1,2)] by (auto simp: take_one_def split: prod.splits if_splits)

lemma engine_lanes:
  assumes "engine_inv m v G"
  shows "lanes_ok m v (\<lambda>_. {}) (\<lambda>_. {}) G"
proof -
  note E = engine_coreD [OF engine_invD(1) [OF assms]]
  have "lane_ok m (rg v i) (ix v i) {} {} (G i)" if "i < nsh v" for i using shard_invD [OF E(5) [OF that]] by (simp add: lane_ok_def)
  then show ?thesis unfolding lanes_ok_def using E(1-4,6,9) by blast
qed

lemma pub_start:
  assumes "\<And>G. engine_inv m v G" "\<And>i. i < nsh v \<Longrightarrow> r_tail (rg v i) = 0 \<and> r_head (rg v i) = 0"
  shows "pub_inv n m v (replicate n Pu_idle) [] []"
proof -
  have o: "owned (writes v) (replicate n Pu_idle) = {}" by (auto simp: owned_def)
  then have "writing v (replicate n Pu_idle) = (\<lambda>_. {})" by (auto simp: writing_def)
  moreover have "claimed v = {}" "consumed v = (\<lambda>_. 0)" using assms(2) by (auto simp: claimed_def consumed_def)
  ultimately show ?thesis
    using engine_lanes [OF assms(1)] engine_invD(2) [OF assms(1)] engine_coreD(1) [OF engine_invD(1) [OF assms(1)]] o
    by (simp add: pub_inv_def pub_core_def plogs_ok_def sole_def shown_at_def)
qed

context os_memory
begin

lemma pub_race_inv: "pub_race S n m v ps P D \<Longrightarrow> pub_inv n m v ps P D"
proof (induction rule: pub_race.induct)
  case (start gomaxprocs t1 t2 cfg0 m k v m' k')
  then show ?case
    using New_stack [OF start] historyD(1) [OF New_history [OF start]] by (intro pub_start) (auto simp: fresh_engine_def)
next
  case (call m v ps P D t res j)
  then show ?case using pub_local [of n m v ps P D t "Pu_check j"] by auto
next
  case (exec m v ps P D t pc m' v')
  then show ?case using pub_exec_inv by blast
next
  case (take_rec m v ps P D i rec pos e m' v')
  note core = pub_inv_core [OF take_rec.IH]
  show ?case
    using pub_take [OF core take_rec.hyps(2,3)] take_latch [OF pub_invD(3) [OF take_rec.IH] take_rec.hyps(2,3)]
      pub_invD(7) [OF take_rec.IH] by (simp add: pub_inv_def)
next
  case (cool m v ps P D i)
  note I = pub_invD [OF cool.IH]
  show ?case
    using pub_still [OF cool.IH same_lanes_latch [OF markDrained_same [OF cool.hyps(2)]] markDrained_latch(1) [OF I(3) cool.hyps(2)]
      latch_shell(2)] .
next
  case (tick m v ps P D unixnano)
  note I = pub_invD [OF tick.IH]
  show ?case
    by (rule pub_still [OF tick.IH]) (use I(3) in \<open>simp_all add: clockTick_def same_lanes_def latch_ctl same_shell_def\<close>)
qed

end

end
