(* ===== verification/PublishCounts.thy ===== *)
theory PublishCounts
  imports PublishRace
begin

text \<open>
  The books of an engine whose producers race: every ticket is with one producer, in one record, or dropped, and the counters
  of the shards lag behind their cursors by exactly the producers that have not yet counted.
\<close>

section \<open>Counters\<close>

abbreviation cnt :: "('a \<Rightarrow> bool) \<Rightarrow> 'a list \<Rightarrow> nat" where "cnt Q ps \<equiv> length (filter Q ps)"

text \<open>Producers that have a ticket and have neither claimed a position nor counted the ticket as dropped; those that have
  claimed a position and not yet counted the record; those that have counted a refusal in the shard and not yet in the engine.\<close>

fun undecided :: "pub_pc \<Rightarrow> bool" where
  "undecided (Pu_claim j t) = True"
| "undecided (Pu_refuse j) = True"
| "undecided (Pu_drop j) = True"
| "undecided _ = False"

fun uncounted :: "Vaultage \<Rightarrow> nat \<Rightarrow> pub_pc \<Rightarrow> bool" where
  "uncounted v i (Pu_store j t pos) = (jshard v j = i)"
| "uncounted v i (Pu_count j t pos) = (jshard v j = i)"
| "uncounted v i _ = False"

fun dropping :: "pub_pc \<Rightarrow> bool" where
  "dropping (Pu_drop j) = True"
| "dropping _ = False"

definition counts_ok :: "Vaultage \<Rightarrow> pub_pc list \<Rightarrow> bool" where
  "counts_ok v ps \<longleftrightarrow>
     unat (ctl_ticket (v_ctl v)) = (\<Sum>i<nsh v. rT (rg v i)) + unat (ctl_dropped (v_ctl v)) + cnt undecided ps \<and>
     (\<forall>i<nsh v. sh_ingested (v_shards v ! i) + of_nat (cnt (uncounted v i) ps) = r_tail (rg v i) \<and>
        sh_consumed (v_shards v ! i) = r_head (rg v i)) \<and>
     (\<Sum>i<nsh v. sh_rejected (v_shards v ! i)) = ctl_dropped (v_ctl v) + of_nat (cnt dropping ps)"

lemma counts_okD:
  assumes "counts_ok v ps"
  shows "unat (ctl_ticket (v_ctl v)) = (\<Sum>i<nsh v. rT (rg v i)) + unat (ctl_dropped (v_ctl v)) + cnt undecided ps"
    "\<And>i. i < nsh v \<Longrightarrow> sh_ingested (v_shards v ! i) + of_nat (cnt (uncounted v i) ps) = r_tail (rg v i)"
    "\<And>i. i < nsh v \<Longrightarrow> sh_consumed (v_shards v ! i) = r_head (rg v i)"
    "(\<Sum>i<nsh v. sh_rejected (v_shards v ! i)) = ctl_dropped (v_ctl v) + of_nat (cnt dropping ps)"
  using assms by (simp_all add: counts_ok_def)

lemma uncounted_cong: "shard_of v' = shard_of v \<Longrightarrow> uncounted v' = uncounted v"
  by (intro ext, case_tac xa) simp_all

lemma cnt_same: "t < length ps \<Longrightarrow> Q pc = Q (ps ! t) \<Longrightarrow> cnt Q (ps[t := pc]) = cnt Q ps"
  using filter_update [of t ps Q pc] by (auto split: if_splits)

text \<open>What the counters do not depend on.\<close>

definition same_tally :: "Vaultage \<Rightarrow> Vaultage \<Rightarrow> bool" where
  "same_tally v v' \<longleftrightarrow> nsh v' = nsh v \<and> shard_of v' = shard_of v \<and> ctl_ticket (v_ctl v') = ctl_ticket (v_ctl v) \<and>
     ctl_dropped (v_ctl v') = ctl_dropped (v_ctl v) \<and>
     (\<forall>i<nsh v. r_tail (rg v' i) = r_tail (rg v i) \<and> r_head (rg v' i) = r_head (rg v i) \<and>
        sh_ingested (v_shards v' ! i) = sh_ingested (v_shards v ! i) \<and> sh_consumed (v_shards v' ! i) = sh_consumed (v_shards v ! i) \<and>
        sh_rejected (v_shards v' ! i) = sh_rejected (v_shards v ! i))"

lemma same_tally_refl [simp]: "same_tally v v"
  by (simp add: same_tally_def)

lemma same_tally_latch: "same_but_latch v v' \<Longrightarrow> same_tally v v'"
proof -
  assume s: "same_but_latch v v'"
  note S = same_but_latchD [OF s]
  show ?thesis using S by (simp add: same_tally_def shard_of_def route_def fun_eq_iff)
qed

lemma counts_still:
  assumes "counts_ok v ps" "same_tally v v'" "t < length ps" "undecided pc = undecided (ps ! t)"
    "\<And>i. uncounted v i pc = uncounted v i (ps ! t)" "dropping pc = dropping (ps ! t)"
  shows "counts_ok v' (ps[t := pc])"
proof -
  note C = counts_okD [OF assms(1)]
  have v: "nsh v' = nsh v" "ctl_ticket (v_ctl v') = ctl_ticket (v_ctl v)" "ctl_dropped (v_ctl v') = ctl_dropped (v_ctl v)"
    and so: "shard_of v' = shard_of v" using assms(2) by (simp_all add: same_tally_def)
  have s: "(\<Sum>i<nsh v. rT (rg v' i)) = (\<Sum>i<nsh v. rT (rg v i))"
    "(\<Sum>i<nsh v. sh_rejected (v_shards v' ! i)) = (\<Sum>i<nsh v. sh_rejected (v_shards v ! i))"
    using assms(2) by (auto simp: same_tally_def intro!: sum.cong)
  have c: "cnt undecided (ps[t := pc]) = cnt undecided ps" "\<And>i. cnt (uncounted v i) (ps[t := pc]) = cnt (uncounted v i) ps"
    "cnt dropping (ps[t := pc]) = cnt dropping ps" using cnt_same [OF assms(3)] assms(4-6) by blast+
  show ?thesis
    using C assms(2) c
    by (simp add: counts_ok_def v s uncounted_cong [OF so]) (simp add: same_tally_def)
qed

lemma counts_ticket:
  assumes "counts_ok v ps" "race_room v" "t < length ps" "ps ! t = Pu_ticket j"
  shows "counts_ok (v\<lparr>v_ctl := (v_ctl v)\<lparr>ctl_ticket := ctl_ticket (v_ctl v) + 1\<rparr>\<rparr>) (ps[t := Pu_claim j tk])"
proof -
  let ?v = "v\<lparr>v_ctl := (v_ctl v)\<lparr>ctl_ticket := ctl_ticket (v_ctl v) + 1\<rparr>\<rparr>" and ?pc = "Pu_claim j tk"
  note C = counts_okD [OF assms(1)]
  have "unat (ctl_ticket (v_ctl v) + 1) = unat (ctl_ticket (v_ctl v)) + 1" using assms(2) by (intro unat_add1) (simp add: race_room_def)
  moreover have "uncounted ?v = uncounted v" by (rule uncounted_cong) simp
  moreover have "cnt undecided (ps[t := ?pc]) = cnt undecided ps + 1" using filter_update [OF assms(3), of undecided ?pc] assms(4) by simp
  moreover have "cnt (uncounted v i) (ps[t := ?pc]) = cnt (uncounted v i) ps" for i by (rule cnt_same [OF assms(3)]) (simp add: assms(4))
  moreover have "cnt dropping (ps[t := ?pc]) = cnt dropping ps" by (rule cnt_same [OF assms(3)]) (simp add: assms(4))
  ultimately show ?thesis using C by (simp add: counts_ok_def)
qed

lemma counts_claim:
  assumes "counts_ok v ps" "t < length ps" "ps ! t = Pu_claim j tk" "i = jshard v j" "i < nsh v"
    and tail: "unat (r_tail (rg v i) + 1) = rT (rg v i) + 1"
  shows "counts_ok (upd_shard i (sh_ring_update (\<lambda>_. (rg v i)\<lparr>r_tail := r_tail (rg v i) + 1\<rparr>)) v) (ps[t := Pu_store j tk pos])"
proof -
  let ?v = "upd_shard i (sh_ring_update (\<lambda>_. (rg v i)\<lparr>r_tail := r_tail (rg v i) + 1\<rparr>)) v" and ?pc = "Pu_store j tk pos"
  note C = counts_okD [OF assms(1)]
  have "uncounted ?v = uncounted v" by (rule uncounted_cong) simp
  moreover have "cnt undecided (ps[t := ?pc]) + 1 = cnt undecided ps" using filter_update [OF assms(2), of undecided ?pc] assms(3) by simp
  moreover have "cnt (uncounted v k) (ps[t := ?pc]) = cnt (uncounted v k) ps + (if k = i then 1 else 0)" for k
    using filter_update [OF assms(2), of "uncounted v k" ?pc] assms(3,4) by auto
  moreover have "cnt dropping (ps[t := ?pc]) = cnt dropping ps" by (rule cnt_same [OF assms(2)]) (simp add: assms(3))
  moreover have "(\<Sum>k<nsh v. rT (rg ?v k)) = (\<Sum>k<nsh v. rT (rg v k)) + 1"
    using sum_upd [of i "nsh v" "\<lambda>k. rT (rg ?v k)" "\<lambda>k. rT (rg v k)"] assms(5) tail by simp
  moreover have "(\<Sum>k<nsh v. sh_rejected (v_shards ?v ! k)) = (\<Sum>k<nsh v. sh_rejected (v_shards v ! k))"
    using assms(5) by (intro sum.cong) (auto simp: nth_list_update)
  ultimately show ?thesis using C assms(5) by (simp add: counts_ok_def nth_list_update)
qed

lemma sum_upd_word:
  fixes f :: "nat \<Rightarrow> u64"
  assumes "i < n" "\<And>j. j < n \<Longrightarrow> j \<noteq> i \<Longrightarrow> g j = f j" "g i = f i + 1"
  shows "(\<Sum>j<n. g j) = (\<Sum>j<n. f j) + 1"
proof -
  have "(\<Sum>j<n. g j) = g i + (\<Sum>j\<in>{..<n} - {i}. g j)" "(\<Sum>j<n. f j) = f i + (\<Sum>j\<in>{..<n} - {i}. f j)"
    using assms(1) by (simp_all add: sum.remove)
  moreover have "(\<Sum>j\<in>{..<n} - {i}. g j) = (\<Sum>j\<in>{..<n} - {i}. f j)" using assms(2) by (intro sum.cong) auto
  ultimately show ?thesis using assms(3) by simp
qed

lemma counts_refuse:
  assumes "counts_ok v ps" "t < length ps" "ps ! t = Pu_refuse j" "i < nsh v"
  shows "counts_ok (upd_shard i (\<lambda>s. s\<lparr>sh_rejected := sh_rejected s + 1\<rparr>) v) (ps[t := Pu_drop j])"
proof -
  let ?v = "upd_shard i (\<lambda>s. s\<lparr>sh_rejected := sh_rejected s + 1\<rparr>) v" and ?pc = "Pu_drop j"
  note C = counts_okD [OF assms(1)]
  have "uncounted ?v = uncounted v" by (rule uncounted_cong) simp
  moreover have "cnt undecided (ps[t := ?pc]) = cnt undecided ps" by (rule cnt_same [OF assms(2)]) (simp add: assms(3))
  moreover have "cnt (uncounted v k) (ps[t := ?pc]) = cnt (uncounted v k) ps" for k by (rule cnt_same [OF assms(2)]) (simp add: assms(3))
  moreover have "cnt dropping (ps[t := ?pc]) = cnt dropping ps + 1" using filter_update [OF assms(2), of dropping ?pc] assms(3) by simp
  moreover have "(\<Sum>k<nsh v. rT (rg ?v k)) = (\<Sum>k<nsh v. rT (rg v k))"
    using assms(4) by (intro sum.cong) (auto simp: nth_list_update)
  moreover have "(\<Sum>k<nsh v. sh_rejected (v_shards ?v ! k)) = (\<Sum>k<nsh v. sh_rejected (v_shards v ! k)) + 1"
    by (rule sum_upd_word [OF assms(4)]) (use assms(4) in simp_all)
  ultimately show ?thesis using C assms(4) by (simp add: counts_ok_def nth_list_update)
qed

lemma counts_drop:
  assumes "counts_ok v ps" "t < length ps" "ps ! t = Pu_drop j"
  shows "counts_ok (v\<lparr>v_ctl := (v_ctl v)\<lparr>ctl_dropped := ctl_dropped (v_ctl v) + 1\<rparr>\<rparr>) (ps[t := Pu_hot j res])"
proof -
  let ?v = "v\<lparr>v_ctl := (v_ctl v)\<lparr>ctl_dropped := ctl_dropped (v_ctl v) + 1\<rparr>\<rparr>" and ?pc = "Pu_hot j res"
  note C = counts_okD [OF assms(1)]
  have u: "cnt undecided (ps[t := ?pc]) + 1 = cnt undecided ps" using filter_update [OF assms(2), of undecided ?pc] assms(3) by simp
  then have "unat (ctl_dropped (v_ctl v)) + 1 < 2 ^ 64" using C(1) unat_lt64 [of "ctl_ticket (v_ctl v)"] by simp
  then have "unat (ctl_dropped (v_ctl v) + 1) = unat (ctl_dropped (v_ctl v)) + 1" by (simp add: unat_add1)
  moreover have "uncounted ?v = uncounted v" by (rule uncounted_cong) simp
  moreover have "cnt (uncounted v k) (ps[t := ?pc]) = cnt (uncounted v k) ps" for k by (rule cnt_same [OF assms(2)]) (simp add: assms(3))
  moreover have "cnt dropping ps = cnt dropping (ps[t := ?pc]) + 1" using filter_update [OF assms(2), of dropping ?pc] assms(3) by simp
  ultimately show ?thesis using C u by (simp add: counts_ok_def)
qed

lemma counts_count:
  assumes "counts_ok v ps" "t < length ps" "ps ! t = Pu_count j tk pos" "i = jshard v j" "i < nsh v"
  shows "counts_ok (upd_shard i (\<lambda>s. s\<lparr>sh_ingested := sh_ingested s + 1\<rparr>) v) (ps[t := Pu_index j tk pos])"
proof -
  let ?v = "upd_shard i (\<lambda>s. s\<lparr>sh_ingested := sh_ingested s + 1\<rparr>) v" and ?pc = "Pu_index j tk pos"
  note C = counts_okD [OF assms(1)]
  have "uncounted ?v = uncounted v" by (rule uncounted_cong) simp
  moreover have "cnt undecided (ps[t := ?pc]) = cnt undecided ps" by (rule cnt_same [OF assms(2)]) (simp add: assms(3))
  moreover have "sh_ingested (v_shards ?v ! k) + of_nat (cnt (uncounted v k) (ps[t := ?pc])) = r_tail (rg ?v k)" if "k < nsh v" for k
  proof -
    have "of_nat (cnt (uncounted v k) ps) = of_nat (cnt (uncounted v k) (ps[t := ?pc])) + (if k = i then 1 else 0 :: u64)"
      using arg_cong [OF filter_update [OF assms(2), of "uncounted v k" ?pc], of "of_nat :: nat \<Rightarrow> u64"] assms(3,4) by auto
    then show ?thesis using C(2) [OF that] assms(5) that by (cases "k = i") (simp_all add: algebra_simps)
  qed
  moreover have "cnt dropping (ps[t := ?pc]) = cnt dropping ps" by (rule cnt_same [OF assms(2)]) (simp add: assms(3))
  moreover have "(\<Sum>k<nsh v. rT (rg ?v k)) = (\<Sum>k<nsh v. rT (rg v k))"
    "(\<Sum>k<nsh v. sh_rejected (v_shards ?v ! k)) = (\<Sum>k<nsh v. sh_rejected (v_shards v ! k))"
    using assms(5) by (auto simp: nth_list_update intro!: sum.cong)
  ultimately show ?thesis using C assms(5) by (simp add: counts_ok_def nth_list_update) 
qed

lemma counts_take:
  assumes "counts_ok v ps" "i < nsh v"
  shows "counts_ok (upd_shard i (\<lambda>s. s\<lparr>sh_ring := (sh_ring s)\<lparr>r_head := r_head (sh_ring s) + 1\<rparr>, sh_consumed := sh_consumed s + 1\<rparr>) v) ps"
proof -
  let ?v = "upd_shard i (\<lambda>s. s\<lparr>sh_ring := (sh_ring s)\<lparr>r_head := r_head (sh_ring s) + 1\<rparr>, sh_consumed := sh_consumed s + 1\<rparr>) v"
  note C = counts_okD [OF assms(1)]
  have "uncounted ?v = uncounted v" by (rule uncounted_cong) simp
  moreover have "(\<Sum>k<nsh v. rT (rg ?v k)) = (\<Sum>k<nsh v. rT (rg v k))"
    "(\<Sum>k<nsh v. sh_rejected (v_shards ?v ! k)) = (\<Sum>k<nsh v. sh_rejected (v_shards v ! k))"
    using assms(2) by (auto simp: nth_list_update intro!: sum.cong)
  ultimately show ?thesis using C assms(2) by (simp add: counts_ok_def nth_list_update)
qed

lemma counts_exec:
  assumes inv: "pub_inv n m v ps P D" and t: "t < n" and room: "race_room v" and ok: "counts_ok v ps"
    and run: "pub_exec (ps ! t) m v = Returned (pc, m', v')"
  shows "counts_ok v' (ps[t := pc])"
proof -
  have run': "pub_step (ps ! t) m v = Returned (pc, m', v')" using run by (simp add: pub_exec_def split: if_splits)
  note I = pub_invD [OF inv]
  note E = lanes_okD [OF I(2)]
  have t': "t < length ps" using t I(1) by simp
  have sh: "jshard v j < nsh v" for j using lanes_shard_of [OF I(2)] .
  note still = counts_still [OF ok _ t', of v' pc]
  show ?thesis
  proof (cases "ps ! t")
    case (Pu_ticket j)
    then show ?thesis using counts_ticket [OF ok room t' Pu_ticket] run' by (auto simp: atomicAdd64_def)
  next
    case (Pu_claim j tk)
    have rm: "rT (rg v (jshard v j)) + rcap (rg v (jshard v j)) + 1 < 2 ^ 64" using room sh by (simp add: race_room_def)
    show ?thesis
      using E(5) [OF sh] rm
    proof (cases rule: lane_claim)
      case 1
      then show ?thesis using run' Pu_claim by (intro still) auto
    next
      case 2
      then show ?thesis using counts_claim [OF ok t' Pu_claim refl sh 2(4)] run' Pu_claim by (auto simp: Let_def)
    qed
  next
    case (Pu_refuse j)
    then show ?thesis using counts_refuse [OF ok t' Pu_refuse sh] run' by (auto simp: atomicAdd64_def)
  next
    case (Pu_drop j)
    then show ?thesis using counts_drop [OF ok t' Pu_drop] run' by (auto simp: atomicAdd64_def)
  next
    case (Pu_store j tk pos)
    obtain m1 c where "pub_step (ps ! t) m v =
        Returned (Pu_count j tk pos, m1, upd_shard (jshard v j) (sh_ring_update (\<lambda>_. (rg v (jshard v j))\<lparr>r_commit := c\<rparr>)) v)"
      by (rule store_run [OF pub_inv_core [OF inv] t Pu_store refl])
    then show ?thesis using run' Pu_store sh by (intro still) (auto simp: same_tally_def nth_list_update)
  next
    case (Pu_count j tk pos)
    then show ?thesis using counts_count [OF ok t' Pu_count refl sh] run' by (auto simp: atomicAdd64_def)
  next
    case (Pu_index j tk pos)
    then show ?thesis using run' sh by (intro still) (auto simp: same_tally_def nth_list_update Let_def split: prod.splits)
  next
    case (Pu_hot j res)
    then show ?thesis using run' same_tally_latch [OF markSaturated_same [OF sh]] by (intro still) auto
  qed (use run' in \<open>intro still; auto simp: same_tally_def split: if_splits\<close>)+
qed

section \<open>Tickets\<close>

text \<open>The ticket a producer holds for a record that is not yet stored.\<close>

fun ticket_of :: "pub_pc \<Rightarrow> u64 option" where
  "ticket_of (Pu_claim j t) = Some t"
| "ticket_of (Pu_store j t pos) = Some t"
| "ticket_of _ = None"

definition tickets_ok :: "Vaultage \<Rightarrow> pub_pc list \<Rightarrow> publog \<Rightarrow> bool" where
  "tickets_ok v ps P \<longleftrightarrow> sole ticket_of ps \<and> distinct (map (\<lambda>x. e_ticket (snd x)) P) \<and>
     owned ticket_of ps \<inter> (\<lambda>x. e_ticket (snd x)) ` set P = {} \<and>
     (\<forall>t \<in> owned ticket_of ps \<union> (\<lambda>x. e_ticket (snd x)) ` set P. t \<noteq> 0 \<and> t \<le> ctl_ticket (v_ctl v))"

lemma tickets_okD:
  assumes "tickets_ok v ps P"
  shows "sole ticket_of ps" "distinct (map (\<lambda>x. e_ticket (snd x)) P)" "owned ticket_of ps \<inter> (\<lambda>x. e_ticket (snd x)) ` set P = {}"
    "\<And>t. t \<in> owned ticket_of ps \<or> t \<in> (\<lambda>x. e_ticket (snd x)) ` set P \<Longrightarrow> t \<noteq> 0 \<and> t \<le> ctl_ticket (v_ctl v)"
  using assms by (auto simp: tickets_ok_def)

lemma tickets_still:
  assumes ok: "tickets_ok v ps P" and t: "t < length ps" and c: "ctl_ticket (v_ctl v') = ctl_ticket (v_ctl v)"
    and pc: "ticket_of pc = None \<or> ticket_of pc = ticket_of (ps ! t)"
  shows "tickets_ok v' (ps[t := pc]) P"
proof -
  note T = tickets_okD [OF ok]
  have "set_option (ticket_of (ps ! t)) \<subseteq> owned ticket_of ps" using t by (auto simp: owned_def)
  then have "owned ticket_of (ps[t := pc]) \<subseteq> owned ticket_of ps" using owned_upd [OF t T(1), of pc] pc by auto
  moreover have "sole ticket_of (ps[t := pc])" using sole_upd [OF t T(1)] pc by blast
  ultimately show ?thesis using T c unfolding tickets_ok_def by (auto simp: subset_iff)
qed

lemma tickets_issue:
  assumes ok: "tickets_ok v ps P" and t: "t < length ps" and room: "race_room v" and none: "ticket_of (ps ! t) = None"
    and c: "ctl_ticket (v_ctl v') = ctl_ticket (v_ctl v) + 1" and pc: "ticket_of pc = Some (ctl_ticket (v_ctl v) + 1)"
  shows "tickets_ok v' (ps[t := pc]) P"
proof -
  note T = tickets_okD [OF ok]
  let ?new = "ctl_ticket (v_ctl v) + 1"
  have u: "unat ?new = unat (ctl_ticket (v_ctl v)) + 1" using room by (intro unat_add1) (simp add: race_room_def)
  have old: "t \<noteq> ?new \<and> t \<le> ?new" if "t \<le> ctl_ticket (v_ctl v)" for t using that u by (auto simp: word_le_nat_alt)
  have fresh: "?new \<notin> owned ticket_of ps" "?new \<notin> (\<lambda>x. e_ticket (snd x)) ` set P" using T(4) old by blast+
  have o: "owned ticket_of (ps[t := pc]) = insert ?new (owned ticket_of ps)" using owned_upd [OF t T(1), of pc] none pc by simp
  have "sole ticket_of (ps[t := pc])" by (rule sole_upd [OF t T(1)]) (use fresh pc in simp)
  moreover have "?new \<noteq> 0" using u by (metis add_is_0 unat_0 zero_neq_one)
  ultimately show ?thesis unfolding tickets_ok_def o c using T(2,3) fresh T(4) old by auto
qed

lemma tickets_store:
  assumes ok: "tickets_ok v ps P" and t: "t < length ps" and c: "ctl_ticket (v_ctl v') = ctl_ticket (v_ctl v)"
    and pc: "ticket_of pc = None" "ticket_of (ps ! t) = Some (e_ticket (snd x))"
  shows "tickets_ok v' (ps[t := pc]) (x # P)"
proof -
  note T = tickets_okD [OF ok]
  have own: "e_ticket (snd x) \<in> owned ticket_of ps" using t pc(2) by (auto simp: owned_def)
  have o: "owned ticket_of (ps[t := pc]) = owned ticket_of ps - {e_ticket (snd x)}" using owned_upd [OF t T(1), of pc] pc by simp
  have "sole ticket_of (ps[t := pc])" by (rule sole_upd [OF t T(1)]) (simp add: pc)
  then show ?thesis unfolding tickets_ok_def o c using T own by auto
qed

lemma tickets_exec:
  assumes ok: "tickets_ok v ps P" and t: "t < length ps" and room: "race_room v"
    and run: "pub_exec (ps ! t) m v = Returned (pc, m', v')"
  shows "tickets_ok v' (ps[t := pc]) (stored (ps ! t) v P)"
proof -
  have run': "pub_step (ps ! t) m v = Returned (pc, m', v')" using run by (simp add: pub_exec_def split: if_splits)
  have hot: "ctl_ticket (v_ctl (markSaturated v i)) = ctl_ticket (v_ctl v)" for i
    by (simp add: markSaturated_def Let_def split: prod.split)
  show ?thesis
  proof (cases "ps ! t")
    case (Pu_ticket j)
    then show ?thesis
      using run' tickets_issue [OF ok t room, of v' pc] by (auto simp: atomicAdd64_def stored_def)
  next
    case (Pu_store j tk pos)
    then show ?thesis
      using run' tickets_store [OF ok t, of v' pc "((jshard v j, unat pos), jentry v j tk)"]
      by (auto simp: stored_def jentry_def entry_of_def Let_def split: prod.splits)
  next
    case (Pu_claim j tk)
    then show ?thesis
      using run' by (auto simp: stored_def Let_def split: option.splits prod.splits intro!: tickets_still [OF ok t])
  next
    case (Pu_ret res)
    have "pc = Pu_ret res" "v' = v" using run' unfolding Pu_ret by simp_all
    then show ?thesis using tickets_still [OF ok t, of v' pc] Pu_ret by (simp add: stored_def)
  qed (use run' hot in \<open>auto simp: stored_def Let_def split: if_splits prod.splits intro!: tickets_still [OF ok t]\<close>)
qed

section \<open>All runs\<close>

lemma counts_stay: "counts_ok v ps \<Longrightarrow> same_tally v v' \<Longrightarrow> counts_ok v' ps"
proof (cases ps)
  case Nil
  assume "counts_ok v ps" "same_tally v v'"
  then show ?thesis using Nil by (auto simp: counts_ok_def same_tally_def intro!: sum.cong)
next
  case (Cons p qs)
  assume "counts_ok v ps" "same_tally v v'"
  then show ?thesis using counts_still [of v ps v' 0 p] Cons by simp
qed

context os_memory
begin

lemma pub_race_books: "pub_race S n m v ps P D \<Longrightarrow> counts_ok v ps \<and> tickets_ok v ps P"
proof (induction rule: pub_race.induct)
  case (start gomaxprocs t1 t2 cfg0 m k v m' k')
  have f: "fresh_engine (v_cfg v) t1 t2 v" using New_stack [OF start] by blast
  have H: "history_ok m' v undefined (\<lambda>_. []) []" by (rule New_history [OF start])
  note E = engine_coreD [OF engine_invD(1) [OF historyD(1) [OF H]]]
  have "cnt Q (replicate n Pu_idle) = 0" if "\<not> Q Pu_idle" for Q using that by simp
  moreover have "owned ticket_of (replicate n Pu_idle) = {}" by (auto simp: owned_def)
  moreover have "sh_rejected (v_shards v ! i) = 0" if "i < nsh v" for i using f that by (simp add: fresh_engine_def)
  ultimately show ?case
    using f E(7,8) by (simp add: counts_ok_def tickets_ok_def fresh_engine_def sole_def)
next
  case (call m v ps P D t res j)
  have t: "t < length ps" using pub_invD(1) [OF pub_race_inv [OF call.hyps(1)]] call.hyps(2) by simp
  show ?case
    using counts_still [OF _ same_tally_refl t, of v "Pu_check j"] tickets_still [of v ps P t v "Pu_check j"] call.IH call.hyps(3) t by auto
next
  case (exec m v ps P D t pc m' v')
  note I = pub_race_inv [OF exec.hyps(1)]
  have t: "t < length ps" using pub_invD(1) [OF I] exec.hyps(2) by simp
  show ?case
    using counts_exec [OF I exec.hyps(2,3) _ exec.hyps(4)] tickets_exec [OF _ t exec.hyps(3,4)] exec.IH by blast
next
  case (take_rec m v ps P D i rec pos e m' v')
  note L = lanes_okD(5) [OF pub_invD(2) [OF pub_race_inv [OF take_rec.hyps(1)]] take_rec.hyps(2)]
  have v': "v' = upd_shard i (\<lambda>s. s\<lparr>sh_ring := (sh_ring s)\<lparr>r_head := r_head (sh_ring s) + 1\<rparr>, sh_consumed := sh_consumed s + 1\<rparr>) v"
    using take_rec.hyps(3) lane_take(3) [OF L] by (auto simp: take_one_def atomicAdd64_def split: prod.splits if_splits)
  show ?case using counts_take [OF _ take_rec.hyps(2), of ps] take_rec.IH by (simp add: v' tickets_ok_def)
next
  case (cool m v ps P D i)
  note s = markDrained_same [OF cool.hyps(2)]
  show ?case using counts_stay [OF _ same_tally_latch [OF s], of ps] cool.IH same_but_latchD(15) [OF s] by (simp add: tickets_ok_def)
next
  case (tick m v ps P D unixnano)
  have "same_tally v (clockTick v unixnano)" by (simp add: clockTick_def same_tally_def)
  then show ?case using counts_stay [of v ps "clockTick v unixnano"] tick.IH by (simp add: tickets_ok_def) (simp add: clockTick_def)
qed

end

end
