(* ===== verification/PublishWater.thy ===== *)
theory PublishWater
  imports PublishRace
begin

text \<open>
  Backpressure while producers race: a shard at or above the high-water mark is hot, or some producer is on its way to
  test it.
\<close>

section \<open>No shard fills up unnoticed\<close>

fun will_test :: "Vaultage \<Rightarrow> nat \<Rightarrow> pub_pc \<Rightarrow> bool" where
  "will_test v i (Pu_store j t pos) = (jshard v j = i)"
| "will_test v i (Pu_count j t pos) = (jshard v j = i)"
| "will_test v i (Pu_index j t pos) = (jshard v j = i)"
| "will_test v i (Pu_level j t) = (jshard v j = i)"
| "will_test v i (Pu_hot j res) = (jshard v j = i)"
| "will_test v i _ = False"

definition noticed :: "Vaultage \<Rightarrow> pub_pc list \<Rightarrow> nat \<Rightarrow> bool" where
  "noticed v ps i \<longleftrightarrow> (c_HighWaterPct (v_cfg v) \<le> occupancyPct (rg v i) \<longrightarrow> hots v ! i = 1 \<or> (\<exists>pc\<in>set ps. will_test v i pc))"

definition marked :: "Vaultage \<Rightarrow> pub_pc list \<Rightarrow> bool" where
  "marked v ps \<longleftrightarrow> marks_ok v \<and> (\<forall>i<nsh v. noticed v ps i)"

lemma will_test_cong: "shard_of v' = shard_of v \<Longrightarrow> will_test v' = will_test v"
  by (intro ext, case_tac xa) simp_all

lemma lane_occupancy:
  assumes "lane_ok m r x W R L" "rcap r \<le> 2 ^ 57"
  shows "unat (occupancyPct r) = (rT r - rH r) * 100 div rcap r"
proof -
  note I = ring_inv0D [OF ring_invD(1) [OF lane_okD(2) [OF assms(1)]]]
  have le: "rH r \<le> rT r" "rT r - rH r \<le> rcap r" using I(3-5) by linarith+
  have "(rT r - rH r) * 100 \<le> 2 ^ 57 * 100" using le(2) assms(2) by (intro mult_le_mono1) linarith
  then show ?thesis by (intro occupancy_unat le) simp
qed

text \<open>A step that leaves a shard's occupancy and flag alone and does not give up a test keeps it noticed.\<close>

lemma noticed_still:
  assumes "noticed v ps i" "t < length ps" "v_cfg v' = v_cfg v" "shard_of v' = shard_of v"
    and "occupancyPct (rg v' i) = occupancyPct (rg v i)" "hots v' ! i = hots v ! i"
    and "will_test v i (ps ! t) \<Longrightarrow> will_test v i pc"
  shows "noticed v' (ps[t := pc]) i"
proof -
  have "\<exists>q\<in>set (ps[t := pc]). will_test v i q" if "\<exists>q\<in>set ps. will_test v i q"
  proof -
    from that obtain u where u: "u < length ps" "will_test v i (ps ! u)" by (auto simp: in_set_conv_nth)
    then have "u < length (ps[t := pc]) \<and> will_test v i (ps[t := pc] ! u)" using assms(7) by (cases "u = t") simp_all
    then show ?thesis by (metis nth_mem)
  qed
  then show ?thesis using assms(1,3,5,6) by (auto simp: noticed_def will_test_cong [OF assms(4)])
qed

definition same_marks :: "Vaultage \<Rightarrow> Vaultage \<Rightarrow> bool" where
  "same_marks v v' \<longleftrightarrow> nsh v' = nsh v \<and> v_cfg v' = v_cfg v \<and> shard_of v' = shard_of v \<and>
     (\<forall>i<nsh v. r_capacity (rg v' i) = r_capacity (rg v i))"

lemma same_marks_refl [simp]: "same_marks v v"
  by (simp add: same_marks_def)

lemma marked_step:
  assumes "marked v ps" "same_marks v v'" "\<And>i. i < nsh v \<Longrightarrow> noticed v ps i \<Longrightarrow> noticed v' ps' i"
  shows "marked v' ps'"
  using assms marks_ok_cong [of v v'] by (simp add: marked_def same_marks_def)

lemma marked_upd:
  assumes ok: "marked v ps" and t: "t < length ps" and k: "k < nsh v"
    and sh: "sh_hot sh = sh_hot (v_shards v ! k)" "r_capacity (sh_ring sh) = r_capacity (rg v k)"
      "occupancyPct (sh_ring sh) = occupancyPct (rg v k) \<or> will_test v k pc"
    and pc: "\<And>i. will_test v i (ps ! t) \<Longrightarrow> will_test v i pc"
  shows "marked (v\<lparr>v_shards := (v_shards v)[k := sh]\<rparr>) (ps[t := pc])"
proof (rule marked_step [OF ok])
  let ?v = "v\<lparr>v_shards := (v_shards v)[k := sh]\<rparr>"
  show "same_marks v ?v" using k sh(2) by (simp add: same_marks_def nth_list_update)
  fix i
  assume i: "i < nsh v" "noticed v ps i"
  show "noticed ?v (ps[t := pc]) i"
  proof (cases "will_test v i pc")
    case True
    have "pc \<in> set (ps[t := pc])" using t by (simp add: set_update_memI)
    moreover have "will_test ?v = will_test v" by (rule will_test_cong) simp
    ultimately show ?thesis using True by (auto simp: noticed_def)
  next
    case False
    have "hots ?v ! i = hots v ! i" "occupancyPct (rg ?v i) = occupancyPct (rg v i)"
      using k i(1) sh False by (cases "i = k"; simp add: hots_nth)+
    then show ?thesis using noticed_still [OF i(2) t, of ?v pc] pc by simp
  qed
qed

lemma noticed_hot:
  assumes "latch_ok v" "k < nsh v" "i < nsh v" "noticed v ps i" "t < length ps" "i \<noteq> k \<Longrightarrow> will_test v i (ps ! t) \<Longrightarrow> will_test v i pc"
  shows "noticed (markSaturated v k) (ps[t := pc]) i"
proof -
  note S = same_but_latchD [OF markSaturated_same [OF assms(2)]]
  note H = markSaturated_latch(2) [OF assms(1,2)]
  have so: "shard_of (markSaturated v k) = shard_of v" using S(9) by (simp add: shard_of_def route_def fun_eq_iff)
  show ?thesis
  proof (cases "i = k")
    case True
    then show ?thesis using H assms(2) by (simp add: noticed_def)
  next
    case False
    then show ?thesis using noticed_still [OF assms(4,5) S(6) so] S(2) [OF assms(3)] H assms(6) by simp
  qed
qed

lemma marked_exec:
  assumes inv: "pub_inv n m v ps P D" and t: "t < n" and room: "race_room v" and ok: "marked v ps"
    and run: "pub_exec (ps ! t) m v = Returned (pc, m', v')"
  shows "marked v' (ps[t := pc])"
proof -
  have run': "pub_step (ps ! t) m v = Returned (pc, m', v')" using run by (simp add: pub_exec_def split: if_splits)
  note I = pub_invD [OF inv]
  note E = lanes_okD [OF I(2)]
  have t': "t < length ps" using t I(1) by simp
  have sh: "jshard v j < nsh v" for j using lanes_shard_of [OF I(2)] .
  note upd = marked_upd [OF ok t']
  have occ: "occupancyPct (r\<lparr>r_commit := c\<rparr>) = occupancyPct r" for r c by (simp add: occupancyPct_def pending_def Let_def)
  have still: "marked v' (ps[t := pc])"
    if "same_marks v v'" "v_shards v' = v_shards v" "\<And>i. will_test v i (ps ! t) \<Longrightarrow> will_test v i pc"
    by (rule marked_step [OF ok that(1)])
      (use that noticed_still [OF _ t'] in \<open>auto simp: same_marks_def hots_def\<close>)
  show ?thesis
  proof (cases "ps ! t")
    case (Pu_claim j tk)
    have rm: "rT (rg v (jshard v j)) + rcap (rg v (jshard v j)) + 1 < 2 ^ 64" using room sh by (simp add: race_room_def)
    show ?thesis
      using E(5) [OF sh] rm
    proof (cases rule: lane_claim)
      case 1
      then have "pc = Pu_refuse j" "v' = v" using run' Pu_claim by (simp_all add: Let_def)
      then show ?thesis using Pu_claim by (intro still) simp_all
    next
      case 2
      then show ?thesis using run' Pu_claim sh by (auto simp: Let_def intro!: upd)
    qed
  next
    case (Pu_store j tk pos)
    obtain m1 c where "pub_step (ps ! t) m v =
        Returned (Pu_count j tk pos, m1, upd_shard (jshard v j) (sh_ring_update (\<lambda>_. (rg v (jshard v j))\<lparr>r_commit := c\<rparr>)) v)"
      by (rule store_run [OF pub_inv_core [OF inv] t Pu_store refl])
    then show ?thesis using run' Pu_store sh occ by (auto intro!: upd)
  next
    case (Pu_level j tk)
    let ?high = "c_HighWaterPct (v_cfg v) \<le> occupancyPct (rg v (jshard v j))"
    have eq: "v' = v" "pc = (if ?high then Pu_hot j (Inr tk) else Pu_ret (Inr tk))" using run' unfolding Pu_level by auto
    show ?thesis
    proof (rule marked_step [OF ok])
      show "noticed v' (ps[t := pc]) i" if "i < nsh v" "noticed v ps i" for i
      proof (cases "i = jshard v j \<and> \<not> ?high")
        case True
        then show ?thesis by (simp add: noticed_def eq(1))
      next
        case False
        then show ?thesis by (intro noticed_still [OF that(2) t']) (auto simp: eq Pu_level)
      qed
    qed (simp add: eq)
  next
    case (Pu_hot j res)
    have eq: "v' = markSaturated v (jshard v j)" "pc = Pu_ret res" using run' unfolding Pu_hot by simp_all
    note S = same_but_latchD [OF markSaturated_same [OF sh, of j]]
    have "same_marks v v'" using S by (simp add: eq same_marks_def shard_of_def route_def fun_eq_iff)
    then show ?thesis
      by (rule marked_step [OF ok]) (use noticed_hot [OF I(3) sh _ _ t'] in \<open>simp add: eq Pu_hot\<close>)
  next
    case (Pu_index j tk pos)
    then show ?thesis using run' sh by (auto simp: Let_def split: prod.splits intro!: upd)
  next
    case (Pu_count j tk pos)
    then show ?thesis using run' sh by (auto intro!: upd)
  next
    case (Pu_refuse j)
    then show ?thesis using run' sh by (auto intro!: upd)
  next
    case (Pu_ret res)
    have "pc = Pu_ret res" "v' = v" using run' unfolding Pu_ret by simp_all
    then show ?thesis using Pu_ret by (intro still) simp_all
  next
    case Pu_idle
    have "pc = Pu_idle" "v' = v" using run' unfolding Pu_idle by simp_all
    then show ?thesis using Pu_idle by (intro still) simp_all
  qed (use run' in \<open>intro still; auto simp: same_marks_def split: if_splits prod.splits\<close>)+
qed

lemma noticed_lower:
  assumes "noticed v ps i" "v_cfg v' = v_cfg v" "shard_of v' = shard_of v" "occupancyPct (rg v' i) \<le> occupancyPct (rg v i)"
    and "hots v' ! i = hots v ! i \<or> occupancyPct (rg v' i) < c_HighWaterPct (v_cfg v)"
  shows "noticed v' ps i"
  using assms by (auto simp: noticed_def will_test_cong [OF assms(3)])

lemma marked_take:
  assumes inv: "pub_inv n m v ps P D" and i: "i < nsh v" and ok: "marked v ps"
    and run: "take_one i m v rec = Some (pos, e, m', v')"
  shows "marked v' ps"
proof (rule marked_step [OF ok])
  note L = lanes_okD(5) [OF pub_invD(2) [OF inv] i]
  have cap: "rcap (rg v i) \<le> 2 ^ 57" using ok i by (simp add: marked_def marks_ok_def)
  obtain rec1 m1 r1 where d: "dequeue m (rg v i) rec = ((pos, True), rec1, m1, r1)"
    and v': "v' = upd_shard i (\<lambda>s. s\<lparr>sh_ring := r1, sh_consumed := fst (atomicAdd64 (sh_consumed s) 1)\<rparr>) v"
    using run by (auto simp: take_one_def split: prod.splits if_splits)
  note T = lane_take [OF L d]
  have r1: "rT r1 = rT (rg v i)" "rH r1 = rH (rg v i) + 1" "rcap r1 = rcap (rg v i)" using T(3,4) by simp_all
  have "unat (occupancyPct r1) \<le> unat (occupancyPct (rg v i))"
    using lane_occupancy [OF L cap] lane_occupancy [OF T(7)] cap by (simp add: r1 div_le_mono)
  then have occ: "occupancyPct r1 \<le> occupancyPct (rg v i)" by (simp add: word_le_nat_alt)
  show "same_marks v v'" using i r1(3) by (simp add: v' same_marks_def nth_list_update T(3))
  show "noticed v' ps k" if "k < nsh v" "noticed v ps k" for k
    by (rule noticed_lower [OF that(2)]) (use occ i that(1) in \<open>auto simp: v' nth_list_update hots_nth\<close>)
qed

lemma marked_cool:
  assumes "latch_ok v" "i < nsh v" "marked v ps"
  shows "marked (markDrained v i) ps"
proof (rule marked_step [OF assms(3)])
  note S = same_but_latchD [OF markDrained_same [OF assms(2)]]
  note H = markDrained_latch(2) [OF assms(1,2)]
  have so: "shard_of (markDrained v i) = shard_of v" using S(9) by (simp add: shard_of_def route_def fun_eq_iff)
  show "same_marks v (markDrained v i)" using S so by (simp add: same_marks_def)
  have low: "c_LowWaterPct (v_cfg v) < c_HighWaterPct (v_cfg v)" using assms(3) marksD(1) by (simp add: marked_def)
  show "noticed (markDrained v i) ps k" if "k < nsh v" "noticed v ps k" for k
    by (rule noticed_lower [OF that(2) S(6) so]) (use S(2) [OF that(1)] H low in \<open>cases "k = i"; auto\<close>)+
qed

context os_memory
begin

lemma pub_race_marked: "pub_race S n m v ps P D \<Longrightarrow> marked v ps"
proof (induction rule: pub_race.induct)
  case (start gomaxprocs t1 t2 cfg0 m k v m' k')
  show ?case
    using historyD(2) [OF New_history [OF start]] by (auto simp: water_ok_def marked_def noticed_def mark_ok_def)
next
  case (call m v ps P D t res j)
  have t: "t < length ps" using pub_invD(1) [OF pub_race_inv [OF call.hyps(1)]] call.hyps(2) by simp
  show ?case
    by (rule marked_step [OF call.IH same_marks_refl]) (use noticed_still [OF _ t refl refl refl refl] call.hyps(3) in auto)
next
  case (exec m v ps P D t pc m' v')
  then show ?case using marked_exec [OF pub_race_inv] by blast
next
  case (take_rec m v ps P D i rec pos e m' v')
  then show ?case using marked_take [OF pub_race_inv] by blast
next
  case (cool m v ps P D i)
  then show ?case using marked_cool [OF pub_invD(3) [OF pub_race_inv]] by blast
next
  case (tick m v ps P D unixnano)
  show ?case
    by (rule marked_step [OF tick.IH])
      (auto simp: clockTick_def same_marks_def noticed_def hots_def will_test_cong [of "v\<lparr>v_ctl := c\<rparr>" v for c])
qed

end

end
