(* ===== verification/PublishThms.thy ===== *)
theory PublishThms
  imports PublishCounts PublishWater EngineThms
begin

text \<open>What an engine guarantees, and what it does not, while producers race through \<^verbatim>\<open>publish\<close>.\<close>

section \<open>Producers behind a closed gate\<close>

text \<open>Runs in which only producers move.\<close>

inductive pub_run :: "mem \<Rightarrow> Vaultage \<Rightarrow> pub_pc list \<Rightarrow> mem \<Rightarrow> Vaultage \<Rightarrow> pub_pc list \<Rightarrow> bool" for m0 v0 ps0 where
  here: "pub_run m0 v0 ps0 m0 v0 ps0"
| call: "pub_run m0 v0 ps0 m v ps \<Longrightarrow> t < length ps \<Longrightarrow> ps ! t = Pu_idle \<or> ps ! t = Pu_ret res \<Longrightarrow>
    pub_run m0 v0 ps0 m v (ps[t := Pu_check j])"
| exec: "pub_run m0 v0 ps0 m v ps \<Longrightarrow> t < length ps \<Longrightarrow> race_room v \<Longrightarrow> pub_exec (ps ! t) m v = Returned (pc, m', v') \<Longrightarrow>
    pub_run m0 v0 ps0 m' v' (ps[t := pc])"

fun ticketing :: "pub_pc \<Rightarrow> bool" where
  "ticketing (Pu_ticket j) = True"
| "ticketing _ = False"

text \<open>A producer that has passed the gate and not yet claimed.\<close>

fun past_gate :: "pub_pc \<Rightarrow> bool" where
  "past_gate (Pu_ticket j) = True"
| "past_gate (Pu_claim j t) = True"
| "past_gate _ = False"

text \<open>How many positions have ever been claimed.\<close>

definition total_tails :: "Vaultage \<Rightarrow> nat" where
  "total_tails v = (\<Sum>i<nsh v. rT (rg v i))"

lemma total_tails_frame [simp]:
  "total_tails (v\<lparr>v_ctl := c\<rparr>) = total_tails v" "total_tails (v\<lparr>v_valve := g\<rparr>) = total_tails v"
  by (simp_all add: total_tails_def)

lemma tails_upd:
  assumes "race_room v" "r_tail (sh_ring sh) = r_tail (rg v i) \<or> r_tail (sh_ring sh) = r_tail (rg v i) + 1 \<and> d = 1"
  shows "total_tails (v\<lparr>v_shards := (v_shards v)[i := sh]\<rparr>) \<le> total_tails v + d"
proof (cases "i < nsh v")
  case True
  let ?v = "v\<lparr>v_shards := (v_shards v)[i := sh]\<rparr>"
  have "unat (r_tail (rg v i) + 1) = rT (rg v i) + 1" using assms(1) True by (intro unat_add1) (auto simp: race_room_def)
  then have "rT (rg ?v i) \<le> rT (rg v i) + d" using assms(2) True by auto
  then show ?thesis
    using sum_upd [of i "nsh v" "\<lambda>j. rT (rg ?v j)" "\<lambda>j. rT (rg v j)"] True by (simp add: total_tails_def)
qed (simp add: total_tails_def)

lemma markSaturated_frame:
  "nsh (markSaturated v i) = nsh v" "total_tails (markSaturated v i) = total_tails v"
  "ctl_ticket (v_ctl (markSaturated v i)) = ctl_ticket (v_ctl v)"
  "isClosed (v_valve v) \<Longrightarrow> isClosed (v_valve (markSaturated v i))"
proof -
  have "rg (markSaturated v i) k = rg v k" if "k < nsh v" for k
    using that by (cases "k = i") (auto simp: markSaturated_def Let_def atomicCAS64_def split: prod.splits)
  then show "nsh (markSaturated v i) = nsh v" "total_tails (markSaturated v i) = total_tails v"
    by (auto simp: markSaturated_def Let_def total_tails_def split: prod.splits)
  show "ctl_ticket (v_ctl (markSaturated v i)) = ctl_ticket (v_ctl v)"
    "isClosed (v_valve v) \<Longrightarrow> isClosed (v_valve (markSaturated v i))"
    by (auto simp: markSaturated_def Let_def atomicCAS64_def shut_def isClosed_def split: prod.splits)
qed

lemma claim_tails:
  assumes "claim m r = Some ((pos, ok), r')"
  shows "r_tail r' = (if ok then r_tail r + 1 else r_tail r)"
proof -
  have "r_tail (snd y) = (if snd (fst y) then r_tail r + 1 else r_tail r)" if "claim m r = Some y" for m r y
    using that by (rule claim.raw_induct [rotated]) (auto simp: Let_def atomicCAS64_def split: if_splits)
  from this [OF assms] show ?thesis by simp
qed

lemma advanceCommit_tail: "r_tail (advanceCommit m r) = r_tail r"
proof (induction m r rule: advanceCommit.induct)
  case (1 m r)
  then show ?case by (subst advanceCommit.simps) (auto simp: Let_def atomicCAS64_def)
qed

lemma ring_publish_tail: "ring_publish m r pos ticket key ts flags payload checksum = (n, m', r') \<Longrightarrow> r_tail r' = r_tail r"
  by (auto simp: ring_publish_def Let_def advanceCommit_tail split: prod.splits)

lemma closed_exec:
  assumes room: "race_room v" and closed: "isClosed (v_valve v)" and run: "pub_exec pc m v = Returned (pc', m', v')"
  shows "isClosed (v_valve v') \<and> nsh v' = nsh v \<and>
    total_tails v' + of_bool (past_gate pc') \<le> total_tails v + of_bool (past_gate pc) \<and>
    unat (ctl_ticket (v_ctl v')) + of_bool (ticketing pc') \<le> unat (ctl_ticket (v_ctl v)) + of_bool (ticketing pc)"
proof -
  have run': "pub_step pc m v = Returned (pc', m', v')" using run by (simp add: pub_exec_def split: if_splits)
  have tick: "unat (ctl_ticket (v_ctl v) + 1) = unat (ctl_ticket (v_ctl v)) + 1"
    using room by (intro unat_add1) (simp add: race_room_def)
  note up = tails_upd [OF room]
  show ?thesis
  proof (cases pc)
    case (Pu_claim j tk)
    obtain pos ok r where c: "claim m (rg v (jshard v j)) = Some ((pos, ok), r)"
      using run' Pu_claim by (auto simp: Let_def split: option.splits)
    let ?sh = "(v_shards v ! jshard v j)\<lparr>sh_ring := r\<rparr>"
    have "total_tails (v\<lparr>v_shards := (v_shards v)[jshard v j := ?sh]\<rparr>) \<le> total_tails v + of_bool ok"
      by (rule up) (use claim_tails [OF c] in simp)
    then show ?thesis using run' Pu_claim c closed by (cases ok) (auto simp: Let_def)
  next
    case (Pu_store j tk pos)
    obtain n1 m1 r where p: "ring_publish m (rg v (jshard v j)) pos tk (j_key j) (now_ts v (j_now j)) (j_flags j) (j_payload j)
        (if c_Checksums (v_cfg v) then checksum32 (j_payload j) else 0) = (n1, m1, r)" using prod_cases3 by blast
    let ?sh = "(v_shards v ! jshard v j)\<lparr>sh_ring := r\<rparr>"
    have "total_tails (v\<lparr>v_shards := (v_shards v)[jshard v j := ?sh]\<rparr>) \<le> total_tails v + 0"
      by (rule up) (use ring_publish_tail [OF p] in simp)
    then show ?thesis using run' Pu_store p closed by (auto simp: Let_def)
  next
    case (Pu_index j tk pos)
    then show ?thesis using run' closed up [of "(v_shards v ! jshard v j)\<lparr>sh_index := x\<rparr>" "jshard v j" 0 for x]
      by (auto simp: Let_def split: prod.splits)
  next
    case (Pu_count j tk pos)
    then show ?thesis using run' closed up [of "(v_shards v ! jshard v j)\<lparr>sh_ingested := x\<rparr>" "jshard v j" 0 for x] by auto
  next
    case (Pu_refuse j)
    then show ?thesis using run' closed up [of "(v_shards v ! jshard v j)\<lparr>sh_rejected := x\<rparr>" "jshard v j" 0 for x] by auto
  next
    case (Pu_hot j res)
    then show ?thesis using run' closed markSaturated_frame by auto
  next
    case (Pu_ticket j)
    then show ?thesis using run' closed tick by (auto simp: atomicAdd64_def)
  qed (use run' closed in \<open>auto simp: reject_def isClosed_def split: if_splits\<close>)
qed

lemma closed_run:
  assumes "pub_run m v ps m' v' ps'" "isClosed (v_valve v)"
  shows "isClosed (v_valve v') \<and> nsh v' = nsh v \<and> total_tails v' + cnt past_gate ps' \<le> total_tails v + cnt past_gate ps \<and>
    unat (ctl_ticket (v_ctl v')) + cnt ticketing ps' \<le> unat (ctl_ticket (v_ctl v)) + cnt ticketing ps"
  using assms
proof (induction rule: pub_run.induct)
  case (call m1 v1 ps1 t res j)
  have "cnt past_gate (ps1[t := Pu_check j]) = cnt past_gate ps1" "cnt ticketing (ps1[t := Pu_check j]) = cnt ticketing ps1"
    using call.hyps(2,3) by (auto intro!: cnt_same)
  then show ?case using call.IH call.prems by simp
next
  case (exec m1 v1 ps1 t pc m2 v2)
  have c: "isClosed (v_valve v1)" using exec.IH exec.prems by blast
  show ?case
    using closed_exec [OF exec.hyps(3) c exec.hyps(4)] exec.IH exec.prems filter_update [OF exec.hyps(2), of past_gate pc]
      filter_update [OF exec.hyps(2), of ticketing pc] by (auto simp: of_bool_def split: if_splits)
qed simp

section \<open>Runs with room to spare\<close>

definition room_for :: "nat \<Rightarrow> Vaultage \<Rightarrow> bool" where
  "room_for d v \<longleftrightarrow> unat (ctl_ticket (v_ctl v)) + d < 2 ^ 64 \<and> (\<forall>i<nsh v. rT (rg v i) + rcap (rg v i) + d < 2 ^ 64)"

lemma room_race: "room_for d v \<Longrightarrow> 0 < d \<Longrightarrow> race_room v"
  unfolding room_for_def race_room_def by force

lemma room_upd:
  assumes "room_for (Suc d) v" "i < nsh v" "r_capacity (sh_ring sh) = r_capacity (rg v i)" "rT (sh_ring sh) \<le> rT (rg v i) + 1"
  shows "room_for d (v\<lparr>v_shards := (v_shards v)[i := sh]\<rparr>)"
  using assms unfolding room_for_def by (force simp: nth_list_update)

lemma room_exec:
  assumes inv: "pub_inv n m v ps P D" and t: "t < n" and room: "room_for (Suc d) v"
    and run: "pub_exec (ps ! t) m v = Returned (pc, m', v')"
  shows "room_for d v'"
proof -
  have run': "pub_step (ps ! t) m v = Returned (pc, m', v')" using run by (simp add: pub_exec_def split: if_splits)
  note I = pub_invD [OF inv]
  note E = lanes_okD [OF I(2)]
  have sh: "jshard v j < nsh v" for j using lanes_shard_of [OF I(2)] .
  have rr: "race_room v" using room_race [OF room] by simp
  have up: "room_for d (v\<lparr>v_shards := (v_shards v)[jshard v j := s]\<rparr>)"
    if "r_capacity (sh_ring s) = r_capacity (rg v (jshard v j))" "rT (sh_ring s) \<le> rT (rg v (jshard v j)) + 1" for j s
    by (rule room_upd [OF room sh that])
  have less: "room_for d v" using room unfolding room_for_def by force
  show ?thesis
  proof (cases "ps ! t")
    case (Pu_claim j tk)
    have rm: "rT (rg v (jshard v j)) + rcap (rg v (jshard v j)) + 1 < 2 ^ 64" using rr sh by (simp add: race_room_def)
    show ?thesis
      using E(5) [OF sh] rm
    proof (cases rule: lane_claim)
      case 1
      then show ?thesis using run' Pu_claim less by (simp add: Let_def)
    next
      case 2
      then show ?thesis using run' Pu_claim by (auto simp: Let_def intro!: up)
    qed
  next
    case (Pu_store j tk pos)
    obtain m1 c where "pub_step (ps ! t) m v =
        Returned (Pu_count j tk pos, m1, upd_shard (jshard v j) (sh_ring_update (\<lambda>_. (rg v (jshard v j))\<lparr>r_commit := c\<rparr>)) v)"
      by (rule store_run [OF pub_inv_core [OF inv] t Pu_store refl])
    then show ?thesis using run' by (auto intro!: up)
  next
    case (Pu_ticket j)
    have "unat (ctl_ticket (v_ctl v) + 1) = unat (ctl_ticket (v_ctl v)) + 1"
      using rr by (intro unat_add1) (simp add: race_room_def)
    then show ?thesis using run' Pu_ticket room less by (auto simp: atomicAdd64_def room_for_def)
  next
    case (Pu_hot j res)
    have "v' = markSaturated v (jshard v j)" using run' unfolding Pu_hot by simp
    then show ?thesis
      using less same_but_latchD(1,2) [OF markSaturated_same [OF sh, of j]] markSaturated_frame(3)
      by (simp add: room_for_def)
  next
    case (Pu_index j tk pos)
    then show ?thesis using run' by (auto simp: Let_def split: prod.splits intro!: up)
  next
    case (Pu_count j tk pos)
    then show ?thesis using run' by (auto intro!: up)
  next
    case (Pu_refuse j)
    then show ?thesis using run' by (auto intro!: up)
  qed (use run' less in \<open>auto simp: room_for_def split: if_splits\<close>)
qed

context os_memory
begin

lemma race_solo_run:
  assumes "pub_race S n m v ps P D" "t < n" "room_for (k + d) v" "pub_solo k (ps ! t) m v = Returned (pc, m', v')"
  shows "\<exists>P'. pub_race S n m' v' (ps[t := pc]) P' D \<and> room_for d v'"
  using assms
proof (induction k arbitrary: m v ps P)
  case 0
  have "ps[t := pc] = ps" using 0(4) by auto
  then show ?case using 0 by auto
next
  case (Suc k)
  obtain pc1 m1 v1 where e: "pub_exec (ps ! t) m v = Returned (pc1, m1, v1)"
    "pub_solo k pc1 m1 v1 = Returned (pc, m', v')" using Suc.prems(4) by (auto split: outcome.splits)
  have inv: "pub_inv n m v ps P D" by (rule pub_race_inv [OF Suc.prems(1)])
  have r1: "pub_race S n m1 v1 (ps[t := pc1]) (stored (ps ! t) v P) D"
    by (rule pub_race.exec [OF Suc.prems(1,2) room_race [OF Suc.prems(3)] e(1)]) simp
  have "room_for (k + d) v1" using room_exec [OF inv Suc.prems(2) _ e(1), of "k + d"] Suc.prems(3) by simp
  from Suc.IH [OF r1 Suc.prems(2) this] e(2) pub_invD(1) [OF inv] Suc.prems(2) show ?case by simp
qed

end

section \<open>Theorems\<close>

lemma glog_stored:
  assumes "pub_inv n m v ps P D" "((i, p), e) \<in> set D"
  shows "((i, p), glog P i p) \<in> set P"
proof -
  note I = pub_invD [OF assms(1)]
  note l = plogs_okD [OF I(6)]
  have "p < consumed v i" using shown_at_set [OF assms(2)] l(3) by simp
  then have i: "i < nsh v" "p < rH (rg v i)" by (simp_all add: consumed_def split: if_splits)
  note R = ring_inv0D [OF ring_invD(1) [OF lane_okD(2) [OF lanes_okD(5) [OF I(2) i(1)]]]]
  have "p < rT (rg v i)" "p \<notin> writing v ps i" using R(3,4,7) i(2) by auto
  then have "(i, p) \<in> fst ` set P" using l(2) i(1) by (simp add: claimed_def writing_def)
  then show ?thesis using map_of_SomeD [of P "(i, p)"] by (auto simp: glog_def dest: weak_map_of_SomeI)
qed

text \<open>
  C19: Delivery when producers race. However the phases of any number of \<^verbatim>\<open>publish\<close> calls interleave with each other and with
  consumers, every claimed position is stored in at most once, and has been unless its producer is still on the way; no ticket is in
  two records; the consumers of a shard are shown its positions without gap and in order, each once; and
  what they are shown is, byte for byte, what a producer stored there, in the shard its key routes to.
\<close>
theorem publish_race_delivers:
  assumes "vm_laws K mapped" "S \<in> {linux_sys K, darwin_sys K}" "pub_race S n m v ps P D"
  shows "distinct (map fst P) \<and> fst ` set P = {(i, p). i < nsh v \<and> p < rT (rg v i)} - owned (writes v) ps \<and>
    distinct (map (\<lambda>x. e_ticket (snd x)) P) \<and> (\<forall>i<nsh v. shown_at D i = rev [0..<rH (rg v i)]) \<and>
    (\<forall>((i, p), e)\<in>set D. \<exists>e'. ((i, p), e') \<in> set P \<and> e = committed_entry e' \<and> shard_of v (e_key e') = i)"
proof -
  note os = platform_os [OF assms(1,2)]
  note inv = os_memory.pub_race_inv [OF os assms(3)]
  note l = plogs_okD [OF pub_invD(6) [OF inv]]
  have "distinct (map (\<lambda>x. e_ticket (snd x)) P)" using os_memory.pub_race_books [OF os assms(3)] tickets_okD(2) by blast
  moreover have "\<exists>e'. ((i, p), e') \<in> set P \<and> e = committed_entry e' \<and> shard_of v (e_key e') = i" if "((i, p), e) \<in> set D" for i p e
    using glog_stored [OF inv that] l(4) [OF that] l(5) by blast
  ultimately show ?thesis using l(1-3) by (auto simp: claimed_def consumed_def)
qed

fun returned :: "pub_pc \<Rightarrow> bool" where
  "returned Pu_idle = True"
| "returned (Pu_ret res) = True"
| "returned _ = False"

lemma returned_none:
  assumes "\<forall>pc\<in>set ps. returned pc"
  shows "cnt undecided ps = 0" "cnt (uncounted v i) ps = 0" "cnt dropping ps = 0" "writing v ps i = {}"
    "\<not> (\<exists>pc\<in>set ps. will_test v i pc)"
proof -
  have "\<not> undecided pc \<and> \<not> uncounted v i pc \<and> \<not> dropping pc \<and> writes v pc = None \<and> \<not> will_test v i pc" if "pc \<in> set ps" for pc
    using assms that by (cases pc) auto
  then show "cnt undecided ps = 0" "cnt (uncounted v i) ps = 0" "cnt dropping ps = 0" "writing v ps i = {}"
    "\<not> (\<exists>pc\<in>set ps. will_test v i pc)" by (auto simp: writing_def owned_set)
qed

text \<open>
  C20: The books balance again. Whatever interleaving came before, when every producer has returned the counters are exact: each
  shard has counted as many records as positions were claimed, the commit index has caught up, its consumers have counted what they
  took, the ring is a quiet queue of the records stored and not yet shown, every ticket is a record or was counted as dropped, and
  the refusals the shards counted add up to the drops the engine counted.
\<close>
theorem publish_race_books:
  assumes "vm_laws K mapped" "S \<in> {linux_sys K, darwin_sys K}" "pub_race S n m v ps P D" "\<forall>pc\<in>set ps. returned pc"
  shows "(\<forall>i<nsh v. sh_ingested (v_shards v ! i) = r_tail (rg v i) \<and> r_commit (rg v i) = r_tail (rg v i) \<and>
      sh_consumed (v_shards v ! i) = r_head (rg v i) \<and> quiet (m, rg v i) \<and>
      ring_items (m, rg v i) = map (\<lambda>p. committed_entry (glog P i p)) [rH (rg v i)..<rT (rg v i)]) \<and>
    unat (ctl_ticket (v_ctl v)) = (\<Sum>i<nsh v. rT (rg v i)) + unat (ctl_dropped (v_ctl v)) \<and>
    (\<Sum>i<nsh v. sh_rejected (v_shards v ! i)) = ctl_dropped (v_ctl v)"
proof -
  note os = platform_os [OF assms(1,2)]
  note L = lanes_okD(5) [OF pub_invD(2) [OF os_memory.pub_race_inv [OF os assms(3)]]]
  note none = returned_none [OF assms(4)]
  have C: "counts_ok v ps" using os_memory.pub_race_books [OF os assms(3)] by blast
  have "sh_ingested (v_shards v ! i) = r_tail (rg v i) \<and> r_commit (rg v i) = r_tail (rg v i) \<and>
      sh_consumed (v_shards v ! i) = r_head (rg v i) \<and> quiet (m, rg v i) \<and>
      ring_items (m, rg v i) = map (\<lambda>p. committed_entry (glog P i p)) [rH (rg v i)..<rT (rg v i)]" if "i < nsh v" for i
  proof -
    have inv: "ring_inv m (rg v i) {} {} (glog P i)" using lane_okD(2) [OF L [OF that]] none(4) by simp
    then have "r_commit (rg v i) = r_tail (rg v i)" using quiet_commit by (simp add: word_unat_eq_iff)
    then show ?thesis
      using inv counts_okD(2,3) [OF C that] none(2) ring_items_log [OF inv] by (auto simp: quiet_def)
  qed
  then show ?thesis using counts_okD(1,4) [OF C] none(1,3) by simp
qed


text \<open>
  C22: A closed gate bounds what still gets in. Once the gate is closed, however producers go on, and as long as no consumer
  reopens it, at most the producers that had already passed the gate can still claim a position, and only those of them that had no
  ticket yet can still draw one.
\<close>
theorem closed_gate_bounds_overshoot:
  assumes "pub_run m v ps m' v' ps'" "isClosed (v_valve v)"
  shows "isClosed (v_valve v') \<and> total_tails v' \<le> total_tails v + length (filter past_gate ps) \<and>
    unat (ctl_ticket (v_ctl v')) \<le> unat (ctl_ticket (v_ctl v)) + length (filter ticketing ps)"
  using closed_run [OF assms] by linarith

section \<open>Tickets and positions\<close>

context os_memory
begin

text \<open>One step of a producer whose next point is known.\<close>

lemma race_exec1:
  assumes "pub_race S n m v ps P D" "t < n" "ps ! t = pc0" "room_for (Suc d) v" "pub_exec pc0 m v = Returned (pc, m', v')"
  shows "pub_race S n m' v' (ps[t := pc]) (stored pc0 v P) D" "room_for d v'" "ps[t := pc] ! t = pc"
proof -
  note inv = pub_race_inv [OF assms(1)]
  show "pub_race S n m' v' (ps[t := pc]) (stored pc0 v P) D"
    using pub_race.exec [OF assms(1,2) room_race [OF assms(4)]] assms(3,5) by auto
  show "room_for d v'" using room_exec [OF inv assms(2,4)] assms(3,5) by simp
  show "ps[t := pc] ! t = pc" using pub_invD(1) [OF inv] assms(2) by simp
qed

lemma race_to_claim:
  assumes r: "pub_race S n m v ps P D" and t: "t < n" "ps ! t = Pu_idle" and a: "admits v (j_key j) (j_payload j)"
    and room: "room_for (3 + d) v" and v': "v' = v\<lparr>v_ctl := (v_ctl v)\<lparr>ctl_ticket := ctl_ticket (v_ctl v) + 1\<rparr>\<rparr>"
  shows "pub_race S n m v' (ps[t := Pu_claim j (ctl_ticket (v_ctl v) + 1)]) P D" "room_for d v'"
proof -
  have len: "t < length ps" using pub_invD(1) [OF pub_race_inv [OF r]] t(1) by simp
  have r1: "pub_race S n m v (ps[t := Pu_check j]) P D" "ps[t := Pu_check j] ! t = Pu_check j"
    using pub_race.call [OF r t(1)] t(2) len by auto
  have 2: "pub_exec (Pu_check j) m v = Returned (Pu_gate j, m, v)" "pub_exec (Pu_gate j) m v = Returned (Pu_ticket j, m, v)"
    "pub_exec (Pu_ticket j) m v = Returned (Pu_claim j (ctl_ticket (v_ctl v) + 1), m, v')"
    using a by (simp_all add: pub_exec_def admits_def atomicAdd64_def v')
  have room': "room_for (Suc (Suc (Suc d))) v" using room by (simp add: numeral_3_eq_3)
  note r2 = race_exec1 [OF r1(1) t(1) r1(2) room' 2(1)]
  note r3 = race_exec1 [OF r2(1) t(1) r2(3) r2(2) 2(2)]
  note r4 = race_exec1 [OF r3(1) t(1) r3(3) r3(2) 2(3)]
  show "pub_race S n m v' (ps[t := Pu_claim j (ctl_ticket (v_ctl v) + 1)]) P D" "room_for d v'"
    using r4 by (simp_all add: stored_def)
qed

text \<open>A producer that claims while no other is storing gets the next position and stores in it.\<close>

lemma race_claim_store:
  assumes r: "pub_race S n m v ps P D" and t: "t < n" "ps ! t = Pu_claim j tk" and room: "room_for (2 + d) v"
    and i: "i = jshard v j" and W: "writing v ps i = {}" and free: "rT (rg v i) < rH (rg v i) + rcap (rg v i)"
  obtains m' v' where
    "pub_race S n m' v' (ps[t := Pu_count j tk (r_tail (rg v i))]) (((i, rT (rg v i)), jentry v j tk) # P) D"
    "room_for d v'" "shard_of v' = shard_of v" "nsh v' = nsh v" "rT (rg v' i) = rT (rg v i) + 1" "rH (rg v' i) = rH (rg v i)"
    "rcap (rg v' i) = rcap (rg v i)" "writing v' (ps[t := Pu_count j tk (r_tail (rg v i))]) i = {}"
proof -
  note inv = pub_race_inv [OF r]
  note I = pub_invD [OF inv]
  have lt: "i < nsh v" using lanes_shard_of [OF I(2)] by (simp add: i)
  let ?r = "rg v i" and ?v1 = "upd_shard i (sh_ring_update (\<lambda>_. (rg v i)\<lparr>r_tail := r_tail (rg v i) + 1\<rparr>)) v"
  let ?ps1 = "ps[t := Pu_store j tk (r_tail ?r)]" and ?ps2 = "ps[t := Pu_count j tk (r_tail ?r)]"
  have room': "room_for (Suc (Suc d)) v" using room by simp
  have rm: "rT ?r + rcap ?r + 1 < 2 ^ 64" using room_race [OF room'] lt by (simp add: race_room_def)
  then have tail: "unat (r_tail ?r + 1) = rT ?r + 1" by (simp add: unat_add1)
  have "\<not> ring_full ?r {} {}" using free by (auto simp: ring_full_def Let_def)
  then have "claim m ?r = Some ((r_tail ?r, True), ?r\<lparr>r_tail := r_tail ?r + 1\<rparr>)"
    using claim_free [OF ring_invD(1) [OF lane_okD(2) [OF lanes_okD(5) [OF I(2) lt]]]] W by simp
  then have "pub_exec (Pu_claim j tk) m v = Returned (Pu_store j tk (r_tail ?r), m, ?v1)"
    using I(7) by (simp add: pub_exec_def i [symmetric] Let_def)
  note r1 = race_exec1 [OF r t room' this]
  note inv1 = pub_race_inv [OF r1(1)]
  have i1: "i = jshard ?v1 j" by (simp add: i)
  obtain m2 c where "pub_step (?ps1 ! t) m ?v1 = Returned (Pu_count j tk (r_tail ?r), m2,
      upd_shard i (sh_ring_update (\<lambda>_. (rg ?v1 i)\<lparr>r_commit := c\<rparr>)) ?v1)"
    by (rule store_run [OF pub_inv_core [OF inv1] t(1) r1(3) i1])
  then have e: "pub_exec (Pu_store j tk (r_tail ?r)) m ?v1 = Returned (Pu_count j tk (r_tail ?r), m2,
      upd_shard i (sh_ring_update (\<lambda>_. (rg ?v1 i)\<lparr>r_commit := c\<rparr>)) ?v1)" (is "_ = Returned (_, _, ?v2)")
    using r1(3) pub_invD(7) [OF inv1] by (simp add: pub_exec_def)
  note r2 = race_exec1 [OF r1(1) t(1) r1(3,2) e]
  have en: "jentry ?v1 j tk = jentry v j tk" by (simp add: jentry_def now_ts_def digest_def)
  have so: "shard_of ?v2 = shard_of v" by simp
  have "writing v ?ps2 i = {}" using writing_upd(2) [OF pub_inv_core [OF inv] t(1), of "Pu_count j tk (r_tail ?r)" i] W by simp
  then have w2: "writing ?v2 ?ps2 i = {}" by simp
  have "pub_race S n m2 ?v2 ?ps2 (((i, rT ?r), jentry v j tk) # P) D"
    using r2(1) by (simp add: stored_def en i [symmetric])
  then show thesis by (rule that) (use r2(2) so w2 lt tail in simp_all)
qed

lemma race_take_one:
  assumes r: "pub_race S n m v ps P D" and i: "i < nsh v" and W: "writing v ps i = {}" and lt: "rH (rg v i) < rT (rg v i)"
  obtains m' v' where "pub_race S n m' v' ps P (((i, rH (rg v i)), committed_entry (glog P i (rH (rg v i)))) # D)"
    "nsh v' = nsh v" "writing v' ps i = {}" "rH (rg v' i) = rH (rg v i) + 1" "rT (rg v' i) = rT (rg v i)"
proof -
  note inv = pub_race_inv [OF r]
  note L = lanes_okD(5) [OF pub_invD(2) [OF inv] i, unfolded W]
  have "rC (rg v i) = rT (rg v i)" using quiet_commit [OF lane_okD(2) [OF L]] .
  then have d: "dequeue m (rg v i) zero_Record = ((r_head (rg v i), True), load_record m ((rg v i)\<lparr>r_head := r_head (rg v i) + 1\<rparr>)
      (r_head (rg v i)) zero_Record, m, (rg v i)\<lparr>r_head := r_head (rg v i) + 1\<rparr>)"
    using dequeue_step(1) [OF lane_okD(2) [OF L]] lt by simp
  note T = lane_take [OF L d]
  let ?v = "upd_shard i (\<lambda>s. s\<lparr>sh_ring := (rg v i)\<lparr>r_head := r_head (rg v i) + 1\<rparr>, sh_consumed := fst (atomicAdd64 (sh_consumed s) 1)\<rparr>) v"
  have "take_one i m v zero_Record = Some (r_head (rg v i), committed_entry (glog P i (rH (rg v i))),
      release m ((rg v i)\<lparr>r_head := r_head (rg v i) + 1\<rparr>) (r_head (rg v i)), ?v)"
    using d T(6) by (simp add: take_one_def)
  from pub_race.take_rec [OF r i this] show thesis by (rule that) (use i T(4) W in simp_all)
qed

text \<open>Of two producers with their tickets in hand, the second overtakes the first.\<close>

lemma race_overtake:
  assumes r: "pub_race S 2 m v [Pu_claim j1 tk1, Pu_claim j2 tk2] P D" and room: "room_for (2 + (2 + 0)) v"
    and i: "i = jshard v j1" "i = jshard v j2" and empty: "rT (rg v i) = rH (rg v i)"
  shows "\<exists>m' v' ps' P' e1 e2. pub_race S 2 m' v' ps' P' (((i, rT (rg v i) + 1), e1) # ((i, rT (rg v i)), e2) # D) \<and>
    e_key e1 = j_key j1 \<and> e_payload e1 = j_payload j1 \<and> e_ticket e1 = tk1 \<and>
    e_key e2 = j_key j2 \<and> e_payload e2 = j_payload j2 \<and> e_ticket e2 = tk2"
proof -
  note I = pub_invD [OF pub_race_inv [OF r]]
  have lt: "i < nsh v" using lanes_shard_of [OF I(2)] by (simp add: i)
  have two: "2 \<le> rcap (rg v i)" using ring_inv0D(2) [OF ring_invD(1) [OF lane_okD(2) [OF lanes_okD(5) [OF I(2) lt]]]] .
  define p where "p = rT (rg v i)"
  have W: "writing v [Pu_claim j1 tk1, Pu_claim j2 tk2] i = {}" by (auto simp: writing_def owned_set)
  obtain m3 v3 q3 where r3: "pub_race S 2 m3 v3 [Pu_claim j1 tk1, Pu_count j2 tk2 q3] (((i, p), jentry v j2 tk2) # P) D"
    "room_for (2 + 0) v3" "shard_of v3 = shard_of v" "nsh v3 = nsh v" "rT (rg v3 i) = p + 1" "rH (rg v3 i) = p"
    "rcap (rg v3 i) = rcap (rg v i)" "writing v3 [Pu_claim j1 tk1, Pu_count j2 tk2 q3] i = {}"
  proof (rule race_claim_store [OF r _ _ room i(2) W, of 1])
  qed (use empty two that in \<open>auto simp: p_def\<close>)
  have i3: "i = jshard v3 j1" using r3(3) i(1) by simp
  have free: "rT (rg v3 i) < rH (rg v3 i) + rcap (rg v3 i)" using r3(5-7) two by simp
  obtain m4 v4 q4 where r4: "pub_race S 2 m4 v4 [Pu_count j1 tk1 q4, Pu_count j2 tk2 q3]
      (((i, p + 1), jentry v3 j1 tk1) # ((i, p), jentry v j2 tk2) # P) D" "nsh v4 = nsh v" "rT (rg v4 i) = p + 2" "rH (rg v4 i) = p"
    "writing v4 [Pu_count j1 tk1 q4, Pu_count j2 tk2 q3] i = {}"
  proof (rule race_claim_store [OF r3(1) _ _ r3(2) i3 r3(8) free, of 0])
  qed (use r3(4-6) that in auto)
  define ps where "ps = [Pu_count j1 tk1 q4, Pu_count j2 tk2 q3]"
  define Q where "Q = ((i, p + 1), jentry v3 j1 tk1) # ((i, p), jentry v j2 tk2) # P"
  have i4: "i < nsh v4" "rH (rg v4 i) < rT (rg v4 i)" using r4(2-4) lt by simp_all
  obtain m5 v5 where r5: "pub_race S 2 m5 v5 ps Q (((i, p), committed_entry (glog Q i p)) # D)" "nsh v5 = nsh v"
    "rT (rg v5 i) = p + 2" "rH (rg v5 i) = p + 1" "writing v5 ps i = {}"
  proof (rule race_take_one [OF r4(1) i4(1) r4(5) i4(2)])
  qed (use r4(2-4) that in \<open>auto simp: ps_def Q_def\<close>)
  have i5: "i < nsh v5" "rH (rg v5 i) < rT (rg v5 i)" using r5(2-4) lt by simp_all
  obtain m6 v6 where r6: "pub_race S 2 m6 v6 ps Q (((i, p + 1), committed_entry (glog Q i (p + 1))) # ((i, p), committed_entry (glog Q i p)) # D)"
  proof (rule race_take_one [OF r5(1) i5(1) r5(5) i5(2)])
  qed (use r5(4) that in auto)
  have "glog Q i (p + 1) = jentry v3 j1 tk1" "glog Q i p = jentry v j2 tk2" by (simp_all add: Q_def)
  with r6 show ?thesis unfolding p_def [symmetric]
    by (intro exI conjI) (assumption, simp_all add: jentry_def entry_of_def committed_entry_def)
qed

lemma fresh_overtaken:
  fixes j1 j2 :: pjob
  assumes "New S gomaxprocs t1 t2 cfg0 m k = Some (Inr v, m', k')"
    and "config_fits (v_cfg v)" "j_key j1 \<noteq> 0" "j_key j2 \<noteq> 0" "shard_of v (j_key j1) = shard_of v (j_key j2)"
    and "length (j_payload j1) \<le> unat (v_payloadCap v)" "length (j_payload j2) \<le> unat (v_payloadCap v)"
  shows "\<exists>m2 v2 ps P e1 e2. pub_race S 2 m2 v2 ps P [((shard_of v (j_key j1), 1), e1), ((shard_of v (j_key j1), 0), e2)] \<and>
    e_key e1 = j_key j1 \<and> e_payload e1 = j_payload j1 \<and> e_ticket e1 = 1 \<and>
    e_key e2 = j_key j2 \<and> e_payload e2 = j_payload j2 \<and> e_ticket e2 = 2"
proof -
  define i where "i = shard_of v (j_key j1)"
  have f: "fresh_engine (v_cfg v) t1 t2 v" using New_stack [OF assms(1,2)] by blast
  have r0: "pub_race S 2 m' v [Pu_idle, Pu_idle] [] []"
    using pub_race.start [OF assms(1,2), of 2] by (simp add: numeral_2_eq_2)
  have lt: "i < nsh v" using lanes_shard_of [OF pub_invD(2) [OF pub_race_inv [OF r0]]] by (simp add: i_def)
  have cap: "rcap (rg v k) \<le> 2 ^ 57" if "k < nsh v" for k
    using pub_race_marked [OF r0] that by (simp add: marked_def marks_ok_def)
  have z: "ctl_ticket (v_ctl v) = 0" "ctl_running (v_ctl v) = 1" "\<not> isClosed (v_valve v)" "\<not> v_nil v"
    "\<And>k. k < nsh v \<Longrightarrow> rT (rg v k) = 0" "rH (rg v i) = 0" using f lt by (simp_all add: fresh_engine_def)
  have room: "room_for (3 + (3 + (2 + (2 + 0)))) v" using z(1,5) cap by (fastforce simp: room_for_def)
  let ?v1 = "v\<lparr>v_ctl := (v_ctl v)\<lparr>ctl_ticket := 1\<rparr>\<rparr>" and ?v2 = "v\<lparr>v_ctl := (v_ctl v)\<lparr>ctl_ticket := 2\<rparr>\<rparr>"
  have adm: "admits v (j_key j1) (j_payload j1)" "admits ?v1 (j_key j2) (j_payload j2)"
    using assms(3,4,6,7) z by (simp_all add: admits_def)
  have r1: "pub_race S 2 m' ?v1 [Pu_claim j1 1, Pu_idle] [] []" "room_for (3 + (2 + (2 + 0))) ?v1"
    using race_to_claim [OF r0 _ _ adm(1) room refl, of 0] z(1) by simp_all
  have r2: "pub_race S 2 m' ?v2 [Pu_claim j1 1, Pu_claim j2 2] [] []" "room_for (2 + (2 + 0)) ?v2"
    using race_to_claim [OF r1(1) _ _ adm(2) r1(2) refl, of 1] by simp_all
  have "rT (rg ?v2 i) = 0" "rH (rg ?v2 i) = 0" "i = jshard ?v2 j1" "i = jshard ?v2 j2"
    using z(5) [OF lt] z(6) assms(5) by (simp_all add: i_def)
  then show ?thesis using race_overtake [OF r2, of i] unfolding i_def [symmetric] by simp
qed

end

text \<open>
  C36: Records are not delivered in ticket order. On every fresh engine, two producers whose keys route to the same shard can interleave so
  that the consumer is shown the record with ticket 2 at position 0 and then the record with ticket 1 at position 1: the ticket is
  drawn before the position is claimed, and nothing ties the two orders together.
\<close>
theorem tickets_out_of_order:
  fixes j1 j2 :: pjob
  assumes "vm_laws K mapped" "S \<in> {linux_sys K, darwin_sys K}" "New S gomaxprocs t1 t2 cfg0 m k = Some (Inr v, m', k')"
    and "config_fits (v_cfg v)" "j_key j1 \<noteq> 0" "j_key j2 \<noteq> 0" "shard_of v (j_key j1) = shard_of v (j_key j2)"
    and "length (j_payload j1) \<le> unat (v_payloadCap v)" "length (j_payload j2) \<le> unat (v_payloadCap v)"
  shows "\<exists>m2 v2 ps P e1 e2. pub_race S 2 m2 v2 ps P [((shard_of v (j_key j1), 1), e1), ((shard_of v (j_key j1), 0), e2)] \<and>
    e_key e1 = j_key j1 \<and> e_payload e1 = j_payload j1 \<and> e_ticket e1 = 1 \<and>
    e_key e2 = j_key j2 \<and> e_payload e2 = j_payload j2 \<and> e_ticket e2 = 2"
  by (rule os_memory.fresh_overtaken [OF platform_os [OF assms(1,2)] assms(3-9)])

section \<open>Witnesses\<close>

definition demo_job :: pjob where "demo_job = \<lparr>j_key = 7, j_payload = [1, 2, 3], j_flags = 0, j_now = 99\<rparr>"

lemma demo_overtaken:
  "\<exists>m v ps P i e1 e2. pub_race demo_S 2 m v ps P [((i, 1), e1), ((i, 0), e2)]"
proof -
  obtain m v k where n: "New demo_S 8 5 6 demo_config (\<lambda>_. 7) ({}, 4096) = Some (Inr v, m, k)" "fresh_engine demo_cfg 5 6 v"
    using demo_start by blast
  then have "config_fits (v_cfg v)" "length (j_payload demo_job) \<le> unat (v_payloadCap v)"
    using demo_fits by (simp_all add: fresh_engine_def demo_cfg_simps demo_job_def)
  from demo.lin.fresh_overtaken [OF n(1) this(1) _ _ refl this(2,2)] show ?thesis by (simp add: demo_job_def) blast
qed

theorem publish_race_delivers_witness:
  "\<exists>m v ps P i e1 e2 e1' e2'. pub_race demo_S 2 m v ps P [((i, 1), e1), ((i, 0), e2)] \<and> ((i, 1), e1') \<in> set P \<and> ((i, 0), e2') \<in> set P \<and>
     e1 = committed_entry e1' \<and> e2 = committed_entry e2' \<and> distinct (map (\<lambda>x. e_ticket (snd x)) P)"
proof -
  obtain m v ps P i e1 e2 where r: "pub_race demo_S 2 m v ps P [((i, 1), e1), ((i, 0), e2)]" using demo_overtaken by blast
  have "demo_S \<in> {demo_S, darwin_sys demo_kernel}" by simp
  note T = publish_race_delivers [OF demo_vm(1) this r]
  have "\<forall>((a, p), e)\<in>set [((i, 1), e1), ((i, 0), e2)]. \<exists>e'. ((a, p), e') \<in> set P \<and> e = committed_entry e' \<and> shard_of v (e_key e') = a"
    using T by (elim conjE)
  then obtain e1' e2' where "((i, 1), e1') \<in> set P" "((i, 0), e2') \<in> set P" "e1 = committed_entry e1'" "e2 = committed_entry e2'" by auto
  moreover have "distinct (map (\<lambda>x. e_ticket (snd x)) P)" using T by (elim conjE)
  ultimately show ?thesis using r by blast
qed

text \<open>One of two producers has published a record of key 7.\<close>

lemma demo_pub_race:
  "\<exists>m v P. pub_race demo_S 2 m v [Pu_ret (Inr 1), Pu_idle] P []"
proof -
  obtain m v k where n: "New demo_S 8 5 6 demo_config (\<lambda>_. 7) ({}, 4096) = Some (Inr v, m, k)"
    and e: "engine_reach demo_S m v (\<lambda>_. []) []" and f: "fresh_engine demo_cfg 5 6 v"
    using demo_start by blast
  have r0: "pub_race demo_S 2 m v [Pu_idle, Pu_idle] [] []"
    using pub_race.start [OF n, of 2] demo_fresh(4) [OF f] demo_fits by (simp add: numeral_2_eq_2)
  have r1: "pub_race demo_S 2 m v [Pu_check demo_job, Pu_idle] [] []" using pub_race.call [OF r0, of 0] by simp
  obtain G where H: "history_ok m v G (\<lambda>_. []) []" using demo.lin.reach_history [OF e] by blast
  obtain tk m' v' where p: "publish m v 7 [1, 2, 3] 0 99 = Returned (Inr tk, m', v')"
    using publish_ok_iff [OF historyD(1,2) [OF H] demo_fresh(1) [OF f], of 7 "[1, 2, 3]" 0 99] demo_fresh(3) [OF f] by blast
  have tk: "tk = 1" using history_publish(2) [OF H demo_fresh(1) [OF f] p] demo_fresh(5) [OF f] by simp
  have sh: "shard_of v 7 < nsh v" using shard_of_less [OF engine_invD(1) [OF historyD(1) [OF H]]] .
  have s: "pub_solo 9 (Pu_check demo_job) m v = Returned (Pu_ret (Inr 1), m', v')"
    using pub_solo_publish [of v demo_job m] sh p tk by (simp add: demo_job_def)
  have room: "room_for (9 + 0) v" using f by (auto simp: room_for_def fresh_engine_def demo_cfg_simps)
  show ?thesis using demo.lin.race_solo_run [OF r1 _ room, of 0] s by auto
qed

theorem publish_race_books_witness:
  "\<exists>m v P. pub_race demo_S 2 m v [Pu_ret (Inr 1), Pu_idle] P [] \<and> nsh v > 0 \<and> sh_ingested (v_shards v ! 0) = r_tail (rg v 0) \<and>
     unat (ctl_ticket (v_ctl v)) = (\<Sum>i<nsh v. rT (rg v i)) + unat (ctl_dropped (v_ctl v))"
proof -
  obtain m v P where r: "pub_race demo_S 2 m v [Pu_ret (Inr 1), Pu_idle] P []" using demo_pub_race by blast
  have "0 < nsh v" using lanes_shard_of [OF pub_invD(2) [OF demo.lin.pub_race_inv [OF r]], of 7] by linarith
  moreover have "\<forall>pc\<in>set [Pu_ret (Inr 1), Pu_idle]. returned pc" by simp
  from publish_race_books [OF demo_vm(1) _ r this] calculation r show ?thesis
    by (intro exI [of _ m] exI [of _ v] exI [of _ P]) auto
qed


theorem closed_gate_bounds_overshoot_witness:
  "\<exists>m v v'. isClosed (v_valve v) \<and> pub_run m v [Pu_ticket demo_job] m v' [Pu_claim demo_job 1] \<and>
     unat (ctl_ticket (v_ctl v')) \<le> unat (ctl_ticket (v_ctl v)) + 1 \<and> total_tails v' \<le> total_tails v + 1"
proof -
  obtain m v where s: "engine_reach demo_S m v (\<lambda>_. []) []" "fresh_engine demo_cfg 5 6 v" using demo_start by blast
  obtain G where H: "history_ok m v G (\<lambda>_. []) []" using demo.lin.reach_history [OF s(1)] by blast
  define w where "w = markSaturated v 0"
  have n: "0 < nsh v" using demo_fresh(2) [OF s(2)] by simp
  note S = same_but_latchD [OF markSaturated_same [OF n], folded w_def]
  have c: "isClosed (v_valve w)" using markSaturated_latch(3) [OF engine_invD(2) [OF historyD(1) [OF H]] n] by (simp add: w_def)
  have room: "race_room w" using s(2) S(1,2,15) by (auto simp: race_room_def fresh_engine_def demo_cfg_simps)
  obtain u where "pub_exec (Pu_ticket demo_job) m w = Returned (Pu_claim demo_job 1, m, u)"
    using s(2) S(7,15) by (simp add: pub_exec_def atomicAdd64_def fresh_engine_def)
  then have r: "pub_run m w [Pu_ticket demo_job] m u [Pu_claim demo_job 1]"
    using pub_run.exec [OF pub_run.here, of 0 "[Pu_ticket demo_job]" w m] room by simp
  from closed_gate_bounds_overshoot [OF r c] c r show ?thesis
    by (intro exI [of _ m] exI [of _ w] exI [of _ u]) simp
qed

theorem tickets_out_of_order_witness:
  "\<exists>m v ps P i e1 e2. pub_race demo_S 2 m v ps P [((i, 1), e1), ((i, 0), e2)] \<and> e_ticket e1 = 1 \<and> e_ticket e2 = 2 \<and>
     e_key e1 = 7 \<and> e_key e2 = 7"
proof -
  obtain m v k where n: "New demo_S 8 5 6 demo_config (\<lambda>_. 7) ({}, 4096) = Some (Inr v, m, k)" "fresh_engine demo_cfg 5 6 v"
    using demo_start by blast
  then have c: "config_fits (v_cfg v)" "length (j_payload demo_job) \<le> unat (v_payloadCap v)" "j_key demo_job \<noteq> 0"
    using demo_fits by (simp_all add: fresh_engine_def demo_cfg_simps demo_job_def)
  have "demo_S \<in> {demo_S, darwin_sys demo_kernel}" by simp
  from tickets_out_of_order [OF demo_vm(1) this n(1) c(1,3,3) refl c(2,2)] show ?thesis by (simp add: demo_job_def) blast
qed

end
