(* ===== verification/CloseSteps.thy ===== *)
theory CloseSteps
  imports PublishThms CloseThms LookupRace
begin

text \<open>
  \<^verbatim>\<open>Close\<close> while the engine is in use: callers of \<^verbatim>\<open>Close\<close>, the worker and clock threads and any number of producers
  take their steps in any order. A step is one call of a component, as in \<open>PublishSteps\<close>; a worker hands the record to its handler
  in a step of its own, so the cell is held while others run. An access to memory that \<^verbatim>\<open>Close\<close> has unmapped is a
  fault of its own, different from the dereference of a pointer that it has cleared.
\<close>

section \<open>Workers\<close>

text \<open>The points of \<^verbatim>\<open>worker\<close> between two calls, with its scratch record, its idle counter and the number of records
  in the current batch.\<close>

datatype worker_pc =
    Wk_take Record int int
  | Wk_handle Record int int u64
  | Wk_release Record int int u64
  | Wk_count Record int int
  | Wk_cool Record
  | Wk_running Record int
  | Wk_pending Record int
  | Wk_done

definition batch_over :: "Record \<Rightarrow> int \<Rightarrow> int \<Rightarrow> worker_pc" where
  "batch_over rec idle n = (if n > 0 then Wk_cool rec else Wk_running rec idle)"

fun worker_exec :: "'h handler \<Rightarrow> nat \<Rightarrow> worker_pc \<Rightarrow> mem \<Rightarrow> Vaultage \<Rightarrow> 'h \<Rightarrow> worker_pc \<times> mem \<times> Vaultage \<times> 'h" where
  "worker_exec h i (Wk_take rec idle n) m v s =
     (if n < drainBatch then
        (case dequeue m (sh_ring (v_shards v ! i)) rec of ((pos, ok), rec1, m1, r1) \<Rightarrow>
           (if ok then Wk_handle (rec1\<lparr>Shard := int i\<rparr>) idle n pos else batch_over rec1 idle n, m1,
            upd_shard i (sh_ring_update (\<lambda>_. r1)) v, s))
      else (batch_over rec idle n, m, v, s))"
| "worker_exec h i (Wk_handle rec idle n pos) m v s = (Wk_release rec idle n pos, m, v, h m rec s)"
| "worker_exec h i (Wk_release rec idle n pos) m v s =
     (Wk_count rec idle n, release m (sh_ring (v_shards v ! i)) pos, v, s)"
| "worker_exec h i (Wk_count rec idle n) m v s =
     (Wk_take rec idle (n + 1), m, upd_shard i (\<lambda>sh. sh\<lparr>sh_consumed := fst (atomicAdd64 (sh_consumed sh) 1)\<rparr>) v, s)"
| "worker_exec h i (Wk_cool rec) m v s = (Wk_take rec 0 0, m, markDrained v i, s)"
| "worker_exec h i (Wk_running rec idle) m v s =
     (if ctl_running (v_ctl v) = 0 then Wk_pending rec idle else Wk_take rec (backoff idle) 0, m, v, s)"
| "worker_exec h i (Wk_pending rec idle) m v s =
     (if pending (sh_ring (v_shards v ! i)) = 0 then Wk_done else Wk_take rec (backoff idle) 0, m, v, s)"
| "worker_exec h i Wk_done m v s = (Wk_done, m, v, s)"

section \<open>Producers\<close>

datatype 'a access = Done 'a | Nil_fault | Segv | Stuck

text \<open>Which steps of \<^verbatim>\<open>publish\<close> go through \<^verbatim>\<open>v.ctl\<close> first, which touch the control arena (through \<^verbatim>\<open>v.ctl\<close> or through
  the pointer to the shard loaded before), and the shard whose data arena they touch.\<close>

definition passes_checks :: "Vaultage \<Rightarrow> pjob \<Rightarrow> bool" where
  "passes_checks v j \<longleftrightarrow> j_key j \<noteq> 0 \<and> length (j_payload j) \<le> unat (v_payloadCap v)"

fun via_ctl :: "Vaultage \<Rightarrow> pub_pc \<Rightarrow> bool" where
  "via_ctl v (Pu_check j) = passes_checks v j"
| "via_ctl v (Pu_ticket j) = True"
| "via_ctl v (Pu_drop j) = True"
| "via_ctl v (Pu_store j t pos) = v_coarseClock v"
| "via_ctl v _ = False"

text \<open>\<^verbatim>\<open>markSaturated\<close> goes through \<^verbatim>\<open>v.ctl\<close> after its access to the latch of the shard.\<close>

fun then_ctl :: "Vaultage \<Rightarrow> pub_pc \<Rightarrow> bool" where
  "then_ctl v (Pu_hot j r) = (sh_hot (v_shards v ! jshard v j) = 0)"
| "then_ctl v _ = False"

fun touches_ctl :: "Vaultage \<Rightarrow> pub_pc \<Rightarrow> bool" where
  "touches_ctl v (Pu_check j) = passes_checks v j"
| "touches_ctl v Pu_idle = False"
| "touches_ctl v (Pu_gate j) = False"
| "touches_ctl v Pu_reject = False"
| "touches_ctl v (Pu_ret r) = False"
| "touches_ctl v _ = True"

fun touches_data :: "Vaultage \<Rightarrow> pub_pc \<Rightarrow> nat option" where
  "touches_data v (Pu_claim j t) = Some (jshard v j)"
| "touches_data v (Pu_store j t pos) = Some (jshard v j)"
| "touches_data v (Pu_index j t pos) = Some (jshard v j)"
| "touches_data v _ = None"

definition all_mapped :: "u64 set \<Rightarrow> Vaultage \<Rightarrow> Vaultage \<Rightarrow> pub_pc \<Rightarrow> bool" where
  "all_mapped M v0 v pc \<longleftrightarrow> (touches_ctl v pc \<longrightarrow> aregion (v_ctlArena v0) \<subseteq> M) \<and>
     (\<forall>i. touches_data v pc = Some i \<longrightarrow> aregion (v_arenas v0 ! i) \<subseteq> M)"

text \<open>One step of a producer, with \<open>M\<close> the mapped addresses and \<open>v0\<close> the engine as \<^verbatim>\<open>New\<close> built it, which says where the
  control blocks and the cells lie.\<close>

definition prod_exec :: "u64 set \<Rightarrow> Vaultage \<Rightarrow> pub_pc \<Rightarrow> mem \<Rightarrow> Vaultage \<Rightarrow> (pub_pc \<times> mem \<times> Vaultage) access" where
  "prod_exec M v0 pc m v =
     (if via_ctl v pc \<and> v_nil v then Nil_fault
      else if \<not> all_mapped M v0 v pc then Segv
      else if then_ctl v pc \<and> v_nil v then Nil_fault
      else case pub_step pc m v of Returned x \<Rightarrow> Done x | NilDeref \<Rightarrow> Nil_fault | Hangs \<Rightarrow> Stuck)"

section \<open>Close\<close>

datatype close_pc =
    Cl_idle
  | Cl_lock
  | Cl_flag
  | Cl_running
  | Cl_valve
  | Cl_stop
  | Cl_wait
  | Cl_unmap nat "error option"
  | Cl_ctl "error option"
  | Cl_null "error option"
  | Cl_unlock "error option"
  | Cl_ret "error option"

record ('k, 'h) cstate =
  cs_mem :: mem
  cs_v :: Vaultage
  cs_k :: 'k
  cs_h :: 'h
  cs_prods :: "pub_pc list"
  cs_workers :: "worker_pc list"
  cs_ticker :: bool
  cs_closers :: "close_pc list"
  cs_locked :: bool
  cs_stop :: bool

text \<open>The wait group has reached zero.\<close>

definition all_joined :: "('k, 'h) cstate \<Rightarrow> bool" where
  "all_joined st \<longleftrightarrow> (\<forall>w\<in>set (cs_workers st). w = Wk_done) \<and> \<not> cs_ticker st"

definition first_error :: "error option \<Rightarrow> error option \<Rightarrow> error option" where
  "first_error firstErr err = (if err \<noteq> None \<and> firstErr = None then err else firstErr)"

text \<open>One step of \<^verbatim>\<open>Close\<close>; \<open>None\<close> is a thread that has to wait, for the mutex or for the wait group.\<close>

fun close_exec :: "'k sys \<Rightarrow> close_pc \<Rightarrow> ('k, 'h) cstate \<Rightarrow> (close_pc \<times> ('k, 'h) cstate) option" where
  "close_exec S Cl_lock st = (if cs_locked st then None else Some (Cl_flag, st\<lparr>cs_locked := True\<rparr>))"
| "close_exec S Cl_flag st =
     (if v_closed (cs_v st) then Some (Cl_unlock None, st)
      else Some (Cl_running, st\<lparr>cs_v := (cs_v st)\<lparr>v_closed := True\<rparr>\<rparr>))"
| "close_exec S Cl_running st =
     Some (Cl_valve, st\<lparr>cs_v := (cs_v st)\<lparr>v_ctl := (v_ctl (cs_v st))\<lparr>ctl_running := 0\<rparr>\<rparr>\<rparr>)"
| "close_exec S Cl_valve st = Some (Cl_stop, st\<lparr>cs_v := (cs_v st)\<lparr>v_valve := forceOpen (v_valve (cs_v st))\<rparr>\<rparr>)"
| "close_exec S Cl_stop st = Some (Cl_wait, st\<lparr>cs_stop := True\<rparr>)"
| "close_exec S Cl_wait st = (if all_joined st then Some (Cl_unmap 0 None, st) else None)"
| "close_exec S (Cl_unmap i err) st =
     (if i < length (v_arenas (cs_v st)) then
        (case arena_Close S (v_arenas (cs_v st) ! i) (cs_k st) of (e, a, k) \<Rightarrow>
           Some (Cl_unmap (i + 1) (first_error err e),
             st\<lparr>cs_v := (cs_v st)\<lparr>v_arenas := (v_arenas (cs_v st))[i := a]\<rparr>, cs_k := k\<rparr>))
      else Some (Cl_ctl err, st\<lparr>cs_v := (cs_v st)\<lparr>v_arenas := []\<rparr>\<rparr>))"
| "close_exec S (Cl_ctl err) st =
     (case arena_Close S (v_ctlArena (cs_v st)) (cs_k st) of (e, a, k) \<Rightarrow>
        Some (Cl_null (first_error err e), st\<lparr>cs_v := (cs_v st)\<lparr>v_ctlArena := a\<rparr>, cs_k := k\<rparr>))"
| "close_exec S (Cl_null err) st =
     Some (Cl_unlock err, st\<lparr>cs_v := (cs_v st)\<lparr>v_ctlArena := zero_Arena, v_nil := True\<rparr>\<rparr>)"
| "close_exec S (Cl_unlock err) st = Some (Cl_ret err, st\<lparr>cs_locked := False\<rparr>)"
| "close_exec S pc st = Some (pc, st)"

section \<open>Runs\<close>

text \<open>The logs are those of \<open>PublishSteps\<close>: what was stored, and what handlers were shown.\<close>

definition shown :: "nat \<Rightarrow> worker_pc \<Rightarrow> mem \<Rightarrow> publog \<Rightarrow> publog" where
  "shown i pc m D = (case pc of Wk_handle rec idle n pos \<Rightarrow> ((i, unat pos), delivered m rec) # D | _ \<Rightarrow> D)"

type_synonym ('k, 'h) crun = "('k, 'h) cstate \<times> publog \<times> publog"

inductive cstep :: "'k sys \<Rightarrow> ('k \<Rightarrow> u64 set) \<Rightarrow> 'h handler \<Rightarrow> Vaultage \<Rightarrow> ('k, 'h) crun \<Rightarrow> ('k, 'h) crun \<Rightarrow> bool"
  for S :: "'k sys" and mapped and h and v0 where
  call: "t < length (cs_prods st) \<Longrightarrow> cs_prods st ! t = Pu_idle \<or> cs_prods st ! t = Pu_ret res \<Longrightarrow>
    cstep S mapped h v0 (st, P, D) (st\<lparr>cs_prods := (cs_prods st)[t := Pu_check j]\<rparr>, P, D)"
| produce: "t < length (cs_prods st) \<Longrightarrow> race_room (cs_v st) \<Longrightarrow>
    prod_exec (mapped (cs_k st)) v0 (cs_prods st ! t) (cs_mem st) (cs_v st) = Done (pc, m, v) \<Longrightarrow>
    cstep S mapped h v0 (st, P, D)
      (st\<lparr>cs_mem := m, cs_v := v, cs_prods := (cs_prods st)[t := pc]\<rparr>, stored (cs_prods st ! t) (cs_v st) P, D)"
| work: "i < length (cs_workers st) \<Longrightarrow> worker_exec h i (cs_workers st ! i) (cs_mem st) (cs_v st) (cs_h st) = (pc, m, v, s) \<Longrightarrow>
    cstep S mapped h v0 (st, P, D)
      (st\<lparr>cs_mem := m, cs_v := v, cs_h := s, cs_workers := (cs_workers st)[i := pc]\<rparr>, P, shown i (cs_workers st ! i) (cs_mem st) D)"
| tick: "cs_ticker st \<Longrightarrow>
    cstep S mapped h v0 (st, P, D) (st\<lparr>cs_v := clockTick (cs_v st) unixnano\<rparr>, P, D)"
| untick: "cs_ticker st \<Longrightarrow> cs_stop st \<Longrightarrow> cstep S mapped h v0 (st, P, D) (st\<lparr>cs_ticker := False\<rparr>, P, D)"
| close_call: "c < length (cs_closers st) \<Longrightarrow> cs_closers st ! c = Cl_idle \<Longrightarrow>
    cstep S mapped h v0 (st, P, D) (st\<lparr>cs_closers := (cs_closers st)[c := Cl_lock]\<rparr>, P, D)"
| close: "c < length (cs_closers st) \<Longrightarrow> close_exec S (cs_closers st ! c) st = Some (pc, st') \<Longrightarrow>
    cstep S mapped h v0 (st, P, D) (st'\<lparr>cs_closers := (cs_closers st)[c := pc]\<rparr>, P, D)"

text \<open>The worker threads that \<^verbatim>\<open>New\<close> starts, and an engine fresh from \<^verbatim>\<open>New\<close>, with \<open>n\<close> producers and \<open>c\<close> callers of \<^verbatim>\<open>Close\<close>.\<close>

definition fresh_workers :: "Vaultage \<Rightarrow> worker_pc list" where
  "fresh_workers v = (if c_Consumer (v_cfg v) then map (\<lambda>i. Wk_take (zero_Record\<lparr>Shard := int i\<rparr>) 0 0) [0..<unat (v_shardN v)] else [])"

definition cs_start :: "nat \<Rightarrow> nat \<Rightarrow> mem \<Rightarrow> Vaultage \<Rightarrow> 'k \<Rightarrow> 'h \<Rightarrow> ('k, 'h) cstate" where
  "cs_start n c m v k s =
     \<lparr>cs_mem = m, cs_v = v, cs_k = k, cs_h = s, cs_prods = replicate n Pu_idle,
      cs_workers = fresh_workers v,
      cs_ticker = v_coarseClock v, cs_closers = replicate c Cl_idle, cs_locked = False, cs_stop = False\<rparr>"

inductive close_race :: "'k sys \<Rightarrow> ('k \<Rightarrow> u64 set) \<Rightarrow> 'h handler \<Rightarrow> Vaultage \<Rightarrow> u64 set \<Rightarrow> ('k, 'h) crun \<Rightarrow> bool"
  for S :: "'k sys" and mapped and h and v0 and M0 where
  start: "New S gomaxprocs t1 t2 cfg0 m0 k0 = Some (Inr v0, m, k) \<Longrightarrow> config_fits (v_cfg v0) \<Longrightarrow> M0 = mapped k0 \<Longrightarrow>
    close_race S mapped h v0 M0 (cs_start n c m v0 k s, [], [])"
| step: "close_race S mapped h v0 M0 x \<Longrightarrow> cstep S mapped h v0 x y \<Longrightarrow> close_race S mapped h v0 M0 y"

end
