(* ===== verification/CloseSolo.thy ===== *)
theory CloseSolo
  imports CloseSteps
begin

text \<open>
  \<^verbatim>\<open>Close\<close> in steps against the \<open>Close\<close> of \<open>Fabric\<close>. With nobody else around, the steps of \<^verbatim>\<open>Close\<close> and of the workers it waits for compute what
  that \<open>Close\<close> computes.
\<close>

abbreviation csteps :: "'k sys \<Rightarrow> ('k \<Rightarrow> u64 set) \<Rightarrow> 'h handler \<Rightarrow> Vaultage \<Rightarrow> ('k, 'h) crun \<Rightarrow> ('k, 'h) crun \<Rightarrow> bool" where
  "csteps S mapped h v0 \<equiv> (cstep S mapped h v0)\<^sup>*\<^sup>*"

abbreviation worker_at :: "nat \<Rightarrow> mem \<Rightarrow> Vaultage \<Rightarrow> 'h \<Rightarrow> worker_pc \<Rightarrow> ('k, 'h) cstate \<Rightarrow> ('k, 'h) cstate" where
  "worker_at i m v s pc st \<equiv> st\<lparr>cs_mem := m, cs_v := v, cs_h := s, cs_workers := (cs_workers st)[i := pc]\<rparr>"

text \<open>One step of worker \<open>i\<close>, on a state described by what worker \<open>i\<close> left.\<close>

lemma worker_go:
  assumes "worker_exec h i pc m v s = (pc', m', v', s')" "i < length (cs_workers st)"
  shows "\<exists>D'. cstep S mapped h v0 (worker_at i m v s pc st, P, D) (worker_at i m' v' s' pc' st, P, D')"
  using cstep.work [of i "worker_at i m v s pc st" h pc' m' v' s' S mapped v0 P D] assms by auto

lemma worker_then:
  assumes "worker_exec h i pc m v s = (pc', m', v', s')" "i < length (cs_workers st)"
    and "\<And>D. \<exists>D'. csteps S mapped h v0 (worker_at i m' v' s' pc' st, P, D) (y, P, D')"
  shows "\<exists>D'. csteps S mapped h v0 (worker_at i m v s pc st, P, D) (y, P, D')"
  using worker_go [OF assms(1,2), of S mapped v0 P D] assms(3) by (meson converse_rtranclp_into_rtranclp)

lemma round_path:
  assumes "n < drainBatch" "dequeue m (rg v i) rec = ((pos, True), rec', m', r')" "i < length (cs_workers st)" "i < nsh v"
    and "\<And>D. \<exists>D'. csteps S mapped h v0 (worker_at i (release m' r' pos)
      (upd_shard i (\<lambda>sh. sh\<lparr>sh_ring := r', sh_consumed := fst (atomicAdd64 (sh_consumed sh) 1)\<rparr>) v)
      (h m' (rec'\<lparr>Shard := int i\<rparr>) s) (Wk_take (rec'\<lparr>Shard := int i\<rparr>) idle (n + 1)) st, P, D) (y, P, D')"
  shows "\<exists>D'. csteps S mapped h v0 (worker_at i m v s (Wk_take rec idle n) st, P, D) (y, P, D')"
proof -
  let ?rec = "rec'\<lparr>Shard := int i\<rparr>" and ?v1 = "upd_shard i (sh_ring_update (\<lambda>_. r')) v"
  have e: "worker_exec h i (Wk_take rec idle n) m v s = (Wk_handle ?rec idle n pos, m', ?v1, s)"
    "worker_exec h i (Wk_handle ?rec idle n pos) m' ?v1 s = (Wk_release ?rec idle n pos, m', ?v1, h m' ?rec s)"
    "worker_exec h i (Wk_release ?rec idle n pos) m' ?v1 (h m' ?rec s) =
      (Wk_count ?rec idle n, release m' r' pos, ?v1, h m' ?rec s)"
    "worker_exec h i (Wk_count ?rec idle n) (release m' r' pos) ?v1 (h m' ?rec s) =
      (Wk_take ?rec idle (n + 1), release m' r' pos,
       upd_shard i (\<lambda>sh. sh\<lparr>sh_ring := r', sh_consumed := fst (atomicAdd64 (sh_consumed sh) 1)\<rparr>) v, h m' ?rec s)"
    using assms(1,2,4) by simp_all
  show ?thesis
    by (rule worker_then [OF e(1) assms(3)], rule worker_then [OF e(2) assms(3)], rule worker_then [OF e(3) assms(3)],
      rule worker_then [OF e(4) assms(3)], rule assms(5))
qed

lemma drain_path:
  assumes "drain_shard (Some h) drainBatch (int i) m (v_shards v ! i) rec n s = (m1, sh1, rec1, n1, s1)"
    and "i < length (cs_workers st)" "i < nsh v"
  shows "\<exists>D'. csteps S mapped h v0 (worker_at i m v s (Wk_take rec idle n) st, P, D)
      (worker_at i m1 (upd_shard i (\<lambda>_. sh1) v) s1 (batch_over rec1 idle n1) st, P, D')"
  using assms(1,3)
proof (induction "nat (drainBatch - n)" arbitrary: m v rec n s D rule: less_induct)
  case less
  obtain pos ok rec' m' r' where d: "dequeue m (rg v i) rec = ((pos, ok), rec', m', r')" by (metis prod.exhaust)
  note run = less.prems(1) [unfolded drain_shard.simps [of "Some h" drainBatch "int i" m "v_shards v ! i"]]
  have b: "\<not> drainBatch \<le> 0" by (simp add: drainBatch_def)
  show ?case
  proof (cases "n < drainBatch \<and> ok")
    case True
    let ?sh = "(v_shards v ! i)\<lparr>sh_ring := r', sh_consumed := fst (atomicAdd64 (sh_consumed (v_shards v ! i)) 1)\<rparr>"
    let ?v = "upd_shard i (\<lambda>_. ?sh) v" and ?rec = "rec'\<lparr>Shard := int i\<rparr>"
    have v: "v_shards ?v ! i = ?sh" "i < nsh ?v" "upd_shard i (\<lambda>_. sh1) ?v = upd_shard i (\<lambda>_. sh1) v" using less.prems(2) by simp_all
    have "drain_shard (Some h) drainBatch (int i) (release m' r' pos) (v_shards ?v ! i) ?rec (n + 1) (h m' ?rec s) = (m1, sh1, rec1, n1, s1)"
      using run True d unfolding v(1) by (simp add: Let_def)
    moreover have "nat (drainBatch - (n + 1)) < nat (drainBatch - n)" using True by simp
    ultimately have "\<exists>D'. csteps S mapped h v0 (worker_at i (release m' r' pos) ?v (h m' ?rec s) (Wk_take ?rec idle (n + 1)) st, P, D)
        (worker_at i m1 (upd_shard i (\<lambda>_. sh1) v) s1 (batch_over rec1 idle n1) st, P, D')" for D
      using less.hyps [of "n + 1" "release m' r' pos" ?v ?rec "h m' ?rec s" D] v(2,3) by simp
    then show ?thesis using True d assms(2) less.prems(2) by (intro round_path) auto
  next
    case False
    have "worker_exec h i (Wk_take rec idle n) m v s = (batch_over rec1 idle n1, m1, upd_shard i (\<lambda>_. sh1) v, s1)"
      using run False d b by (auto split: if_splits)
    then show ?thesis by (rule worker_then [OF _ assms(2)]) blast
  qed
qed

lemma turn_path:
  assumes "worker_turn h i m v rec idle s = (fin, m1, v1, rec1, idle1, s1)" "i < length (cs_workers st)" "i < nsh v"
  shows "\<exists>D'. csteps S mapped h v0 (worker_at i m v s (Wk_take rec idle 0) st, P, D)
      (worker_at i m1 v1 s1 (if fin then Wk_done else Wk_take rec1 idle1 0) st, P, D')"
proof -
  obtain m2 sh2 rec2 n2 s2 where d: "drain_shard (Some h) drainBatch (int i) m (v_shards v ! i) rec 0 s = (m2, sh2, rec2, n2, s2)"
    by (metis prod.exhaust)
  let ?v = "upd_shard i (\<lambda>_. sh2) v"
  have "v_shards ?v ! i = sh2" using assms(3) by simp
  note t = assms(1) [unfolded worker_turn_def d, simplified]
  have path: "\<exists>D'. csteps S mapped h v0 (worker_at i m2 ?v s2 (batch_over rec2 idle n2) st, P, D)
      (worker_at i m1 v1 s1 (if fin then Wk_done else Wk_take rec1 idle1 0) st, P, D')" for D
  proof (cases "n2 > 0")
    case True
    have "worker_exec h i (Wk_cool rec2) m2 ?v s2 = (if fin then Wk_done else Wk_take rec1 idle1 0, m1, v1, s1)"
      using t True by (auto simp: Let_def)
    then show ?thesis using True by (simp only: batch_over_def if_True) (rule worker_then [OF _ assms(2)], blast+)
  next
    case False
    have same: "m1 = m2" "v1 = ?v" "s1 = s2" "rec1 = rec2" "fin \<longleftrightarrow> ctl_running (v_ctl v) = 0 \<and> pending (sh_ring sh2) = 0"
      "idle1 = (if fin then idle else backoff idle)" using t False by (auto simp: Let_def split: if_splits)
    show ?thesis
    proof (cases "ctl_running (v_ctl v) = 0")
      case True
      have e: "worker_exec h i (Wk_running rec2 idle) m2 ?v s2 = (Wk_pending rec2 idle, m2, ?v, s2)"
        "worker_exec h i (Wk_pending rec2 idle) m2 ?v s2 = (if fin then Wk_done else Wk_take rec1 idle1 0, m1, v1, s1)"
        using True same assms(3) by auto
      show ?thesis using False by (simp only: batch_over_def if_False)
          (rule worker_then [OF e(1) assms(2)], rule worker_then [OF e(2) assms(2)], blast)
    next
      case no: False
      have "worker_exec h i (Wk_running rec2 idle) m2 ?v s2 = (if fin then Wk_done else Wk_take rec1 idle1 0, m1, v1, s1)"
        using no same by auto
      then show ?thesis using False by (simp only: batch_over_def if_False) (rule worker_then [OF _ assms(2)], blast+)
    qed
  qed
  obtain D1 where "csteps S mapped h v0 (worker_at i m v s (Wk_take rec idle 0) st, P, D) (worker_at i m2 ?v s2 (batch_over rec2 idle n2) st, P, D1)"
    using drain_path [OF d assms(2,3)] by blast
  then show ?thesis using path [of D1] by (meson rtranclp_trans)
qed

lemma turn_frame:
  assumes "worker_turn h i m v rec idle s = (fin, m1, v1, rec1, idle1, s1)"
  shows "nsh v1 = nsh v" "v_cfg v1 = v_cfg v" "v_shardN v1 = v_shardN v"
  using assms by (auto simp: worker_turn_def Let_def markDrained_def split: prod.splits if_splits)

lemma run_path:
  assumes "worker_run h i m v rec idle s = Some (m1, v1, s1)" "i < length (cs_workers st)" "i < nsh v"
  shows "\<exists>D'. csteps S mapped h v0 (worker_at i m v s (Wk_take rec idle 0) st, P, D) (worker_at i m1 v1 s1 Wk_done st, P, D')"
    "nsh v1 = nsh v"
proof -
  let ?goal = "\<lambda>h i m v rec idle s y. i < length (cs_workers st) \<longrightarrow> i < nsh v \<longrightarrow>
      (\<forall>D. \<exists>D'. csteps S mapped h v0 (worker_at i m v s (Wk_take rec idle 0) st, P, D)
        (worker_at i (fst y) (fst (snd y)) (snd (snd y)) Wk_done st, P, D')) \<and> nsh (fst (snd y)) = nsh v"
  have "?goal h i m v rec idle s (m1, v1, s1)"
  proof (rule worker_run.raw_induct [OF _ assms(1), where P = ?goal])
    fix wr h i m v rec idle s y
    assume IH: "\<And>h i m v rec idle s y. wr h i m v rec idle s = Some y \<Longrightarrow> ?goal h i m v rec idle s y"
      and run: "(case worker_turn h i m v rec idle s of (done, m1, v1, rec1, idle1, s1) \<Rightarrow>
        if done then Some (m1, v1, s1) else wr h i m1 v1 rec1 idle1 s1) = Some y"
    obtain fin m' v' rec' idle' s' where t: "worker_turn h i m v rec idle s = (fin, m', v', rec', idle', s')" by (metis prod.exhaust)
    show "?goal h i m v rec idle s y"
    proof (intro impI)
      assume i: "i < length (cs_workers st)" "i < nsh v"
      note path = turn_path [OF t i, of S mapped v0 P]
      show "(\<forall>D. \<exists>D'. csteps S mapped h v0 (worker_at i m v s (Wk_take rec idle 0) st, P, D)
        (worker_at i (fst y) (fst (snd y)) (snd (snd y)) Wk_done st, P, D')) \<and> nsh (fst (snd y)) = nsh v"
      proof (cases fin)
        case True
        then show ?thesis using run t path turn_frame(1) [OF t] by auto
      next
        case False
        then have "wr h i m' v' rec' idle' s' = Some y" using run t by simp
        from IH [OF this] have ih: "\<And>D. \<exists>D'. csteps S mapped h v0 (worker_at i m' v' s' (Wk_take rec' idle' 0) st, P, D)
            (worker_at i (fst y) (fst (snd y)) (snd (snd y)) Wk_done st, P, D')" "nsh (fst (snd y)) = nsh v"
          using i turn_frame(1) [OF t] by auto
        have "\<exists>D'. csteps S mapped h v0 (worker_at i m v s (Wk_take rec idle 0) st, P, D)
            (worker_at i (fst y) (fst (snd y)) (snd (snd y)) Wk_done st, P, D')" for D
        proof -
          obtain D1 where "csteps S mapped h v0 (worker_at i m v s (Wk_take rec idle 0) st, P, D) (worker_at i m' v' s' (Wk_take rec' idle' 0) st, P, D1)"
            using path [of D] False by auto
          then show ?thesis using ih(1) [of D1] by (meson rtranclp_trans)
        qed
        then show ?thesis using ih(2) by blast
      qed
    qed
  qed
  then show "\<exists>D'. csteps S mapped h v0 (worker_at i m v s (Wk_take rec idle 0) st, P, D) (worker_at i m1 v1 s1 Wk_done st, P, D')"
    "nsh v1 = nsh v" using assms(2,3) by auto
qed

lemma wait_path:
  assumes "wait_workers h is m v s = Some (m1, v1, s1)" "distinct is" "\<forall>i\<in>set is. i < nsh v \<and> i < length (cs_workers st) \<and>
      cs_workers st ! i = Wk_take (zero_Record\<lparr>Shard := int i\<rparr>) 0 0"
  shows "\<exists>D'. csteps S mapped h v0 (st\<lparr>cs_mem := m, cs_v := v, cs_h := s\<rparr>, P, D)
      (st\<lparr>cs_mem := m1, cs_v := v1, cs_h := s1, cs_workers := fold (\<lambda>i ws. ws[i := Wk_done]) is (cs_workers st)\<rparr>, P, D')"
  using assms
proof (induction "is" arbitrary: st m v s D)
  case Nil
  have "st\<lparr>cs_mem := m1, cs_v := v1, cs_h := s1, cs_workers := cs_workers st\<rparr> = st\<lparr>cs_mem := m1, cs_v := v1, cs_h := s1\<rparr>" by simp
  then show ?case using Nil by auto
next
  case (Cons i "is")
  let ?rec = "zero_Record\<lparr>Shard := int i\<rparr>"
  obtain m' v' s' where r: "worker_run h i m v ?rec 0 s = Some (m', v', s')" and w: "wait_workers h is m' v' s' = Some (m1, v1, s1)"
    using Cons.prems(1) by (auto split: option.splits)
  have i: "i < nsh v" "i < length (cs_workers st)" "cs_workers st ! i = Wk_take ?rec 0 0" using Cons.prems(3) by simp_all
  have id: "worker_at i m v s (Wk_take ?rec 0 0) st = st\<lparr>cs_mem := m, cs_v := v, cs_h := s\<rparr>"
    unfolding i(3) [symmetric] list_update_id by (cases st) simp
  let ?st = "st\<lparr>cs_workers := (cs_workers st)[i := Wk_done]\<rparr>"
  have e: "worker_at i m' v' s' Wk_done st = ?st\<lparr>cs_mem := m', cs_v := v', cs_h := s'\<rparr>" by (cases st) simp
  obtain D1 where p: "csteps S mapped h v0 (st\<lparr>cs_mem := m, cs_v := v, cs_h := s\<rparr>, P, D)
      (?st\<lparr>cs_mem := m', cs_v := v', cs_h := s'\<rparr>, P, D1)"
    using run_path(1) [OF r i(2,1), of S mapped v0 P D] unfolding id e by blast
  have "\<forall>j\<in>set is. j < nsh v' \<and> j < length (cs_workers ?st) \<and> cs_workers ?st ! j = Wk_take (zero_Record\<lparr>Shard := int j\<rparr>) 0 0"
    using Cons.prems(2,3) run_path(2) [OF r i(2,1)] by (auto simp: nth_list_update)
  from Cons.IH [OF w _ this, of D1] Cons.prems(2) obtain D2 where "csteps S mapped h v0 (?st\<lparr>cs_mem := m', cs_v := v', cs_h := s'\<rparr>, P, D1)
      (?st\<lparr>cs_mem := m1, cs_v := v1, cs_h := s1, cs_workers := fold (\<lambda>i ws. ws[i := Wk_done]) is (cs_workers ?st)\<rparr>, P, D2)"
    by auto
  with p have "csteps S mapped h v0 (st\<lparr>cs_mem := m, cs_v := v, cs_h := s\<rparr>, P, D)
      (?st\<lparr>cs_mem := m1, cs_v := v1, cs_h := s1, cs_workers := fold (\<lambda>i ws. ws[i := Wk_done]) is (cs_workers ?st)\<rparr>, P, D2)"
    by (rule rtranclp_trans)
  then show ?case by (cases st) auto
qed

lemma fold_done: "fold (\<lambda>i ws. ws[i := Wk_done]) [0..<k] ws = replicate (min k (length ws)) Wk_done @ drop k ws"
proof (induction k)
  case (Suc k)
  show ?case
  proof (cases "k < length ws")
    case True
    have "drop k ws = ws ! k # drop (Suc k) ws" using True by (simp add: Cons_nth_drop_Suc)
    then show ?thesis using Suc True by (simp add: list_update_append replicate_app_Cons_same)
  qed (use Suc in \<open>simp add: list_update_beyond\<close>)
qed simp

lemma close_then:
  assumes "close_exec S (cs_closers st ! c) st = Some (pc, st')" "c < length (cs_closers st)"
    and "csteps S mapped h v0 (st'\<lparr>cs_closers := (cs_closers st)[c := pc]\<rparr>, P, D) y"
  shows "csteps S mapped h v0 (st, P, D) y"
  using cstep.close [OF assms(2,1)] assms(3) by (meson converse_rtranclp_into_rtranclp)

lemma unmap_path:
  assumes "close_arenas S (drop i (v_arenas (cs_v st))) err (cs_k st) = (err', k')" "cs_closers st ! c = Cl_unmap i err" "c < length (cs_closers st)"
    "i \<le> length (v_arenas (cs_v st))"
  shows "csteps S mapped h v0 (st, P, D)
    (st\<lparr>cs_v := (cs_v st)\<lparr>v_arenas := []\<rparr>, cs_k := k', cs_closers := (cs_closers st)[c := Cl_ctl err']\<rparr>, P, D)"
  using assms
proof (induction "length (v_arenas (cs_v st)) - i" arbitrary: st i err)
  case 0
  then have "close_exec S (cs_closers st ! c) st = Some (Cl_ctl err, st\<lparr>cs_v := (cs_v st)\<lparr>v_arenas := []\<rparr>\<rparr>)" "err' = err" "k' = cs_k st"
    by simp_all
  then show ?case by (intro close_then [OF _ 0(4)]) (cases st, auto)+
next
  case (Suc n)
  let ?v = "cs_v st"
  have lt: "i < length (v_arenas ?v)" using Suc(2) by simp
  obtain e a k1 where a: "arena_Close S (v_arenas ?v ! i) (cs_k st) = (e, a, k1)" by (metis prod.exhaust)
  let ?st = "st\<lparr>cs_v := ?v\<lparr>v_arenas := (v_arenas ?v)[i := a]\<rparr>, cs_k := k1, cs_closers := (cs_closers st)[c := Cl_unmap (i + 1) (first_error err e)]\<rparr>"
  have "drop i (v_arenas ?v) = v_arenas ?v ! i # drop (i + 1) (v_arenas ?v)" using lt by (simp add: Cons_nth_drop_Suc)
  then have r: "close_arenas S (drop (i + 1) (v_arenas (cs_v ?st))) (first_error err e) (cs_k ?st) = (err', k')"
    using Suc(3) a by (simp add: first_error_def)
  have s: "close_exec S (cs_closers st ! c) st =
      Some (Cl_unmap (i + 1) (first_error err e), st\<lparr>cs_v := ?v\<lparr>v_arenas := (v_arenas ?v)[i := a]\<rparr>, cs_k := k1\<rparr>)"
    using Suc(4) lt a by simp
  have "csteps S mapped h v0 (?st, P, D)
    (?st\<lparr>cs_v := (cs_v ?st)\<lparr>v_arenas := []\<rparr>, cs_k := k', cs_closers := (cs_closers ?st)[c := Cl_ctl err']\<rparr>, P, D)"
    by (rule Suc(1) [OF _ r]) (use Suc(2,5) lt in simp_all)
  then show ?case by (intro close_then [OF s Suc(5)]) simp
qed

lemma close_one:
  assumes "map_option (\<lambda>(pc, st'). st'\<lparr>cs_closers := (cs_closers st)[c := pc]\<rparr>) (close_exec S (cs_closers st ! c) st) = Some y"
    and "c < length (cs_closers st)"
  shows "csteps S mapped h v0 (st, P, D) (y, P, D)"
  using cstep.close [OF assms(2), of S] assms(1) by auto

text \<open>From the call to the store that clears \<^verbatim>\<open>running\<close>.\<close>

lemma Close_enters:
  assumes idle: "c < length (cs_closers st)" "cs_closers st ! c = Cl_idle" "\<not> cs_locked st" "\<not> v_closed (cs_v st)"
  shows "csteps S mapped h v0 (st, P, D)
    (st\<lparr>cs_v := (cs_v st)\<lparr>v_closed := True\<rparr>, cs_closers := (cs_closers st)[c := Cl_running], cs_locked := True\<rparr>, P, D)"
proof -
  let ?at = "\<lambda>pc. (cs_closers st)[c := pc]"
  have "csteps S mapped h v0 (st, P, D) (st\<lparr>cs_closers := ?at Cl_lock\<rparr>, P, D)"
    using cstep.close_call [OF idle(1,2)] by blast
  also have "csteps S mapped h v0 \<dots> (st\<lparr>cs_closers := ?at Cl_flag, cs_locked := True\<rparr>, P, D)"
    by (rule close_one [of _ c]) (use idle in simp_all)
  also have "csteps S mapped h v0 \<dots> (st\<lparr>cs_v := (cs_v st)\<lparr>v_closed := True\<rparr>, cs_closers := ?at Cl_running, cs_locked := True\<rparr>, P, D)"
    by (rule close_one [of _ c]) (use idle in simp_all)
  finally show ?thesis .
qed

text \<open>That store.\<close>

lemma Close_clears:
  assumes "c < length (cs_closers st)" "cs_closers st ! c = Cl_running"
  shows "cstep S mapped h v0 (st, P, D)
    (st\<lparr>cs_v := (cs_v st)\<lparr>v_ctl := (v_ctl (cs_v st))\<lparr>ctl_running := 0\<rparr>\<rparr>, cs_closers := (cs_closers st)[c := Cl_valve]\<rparr>, P, D)"
  using cstep.close [OF assms(1), of S Cl_valve] assms(2) by simp

text \<open>From there to the wait group.\<close>

lemma Close_stops:
  assumes "c < length (cs_closers st)" "cs_closers st ! c = Cl_valve"
  shows "csteps S mapped h v0 (st, P, D) (st\<lparr>cs_v := (cs_v st)\<lparr>v_valve := forceOpen (v_valve (cs_v st))\<rparr>,
      cs_closers := (cs_closers st)[c := Cl_wait], cs_stop := True\<rparr>, P, D)"
proof -
  let ?at = "\<lambda>pc. (cs_closers st)[c := pc]" and ?v = "(cs_v st)\<lparr>v_valve := forceOpen (v_valve (cs_v st))\<rparr>"
  have "csteps S mapped h v0 (st, P, D) (st\<lparr>cs_v := ?v, cs_closers := ?at Cl_stop\<rparr>, P, D)"
    by (rule close_one [of _ c]) (use assms in simp_all)
  also have "csteps S mapped h v0 \<dots> (st\<lparr>cs_v := ?v, cs_closers := ?at Cl_wait, cs_stop := True\<rparr>, P, D)"
    by (rule close_one [of _ c]) (use assms in simp_all)
  finally show ?thesis .
qed

text \<open>From the wait group to the return.\<close>

lemma Close_ends:
  assumes wait: "c < length (cs_closers st)" "cs_closers st ! c = Cl_wait" "all_joined st" "cs_locked st"
    and run: "close_arenas S (v_arenas (cs_v st)) None (cs_k st) = (err1, k1)" "arena_Close S (v_ctlArena (cs_v st)) k1 = (err, ca, k2)"
  shows "csteps S mapped h v0 (st, P, D)
    (st\<lparr>cs_v := (cs_v st)\<lparr>v_arenas := [], v_ctlArena := zero_Arena, v_nil := True\<rparr>, cs_k := k2,
       cs_closers := (cs_closers st)[c := Cl_ret (first_error err1 err)], cs_locked := False\<rparr>, P, D)"
proof -
  let ?at = "\<lambda>pc. (cs_closers st)[c := pc]" and ?v = "cs_v st" and ?e = "first_error err1 err"
  let ?u = "st\<lparr>cs_closers := ?at (Cl_unmap 0 None)\<rparr>"
  have "csteps S mapped h v0 (st, P, D) (?u, P, D)"
    by (rule close_one [of _ c]) (use wait in simp_all)
  also have "csteps S mapped h v0 \<dots> (?u\<lparr>cs_v := (cs_v ?u)\<lparr>v_arenas := []\<rparr>, cs_k := k1, cs_closers := (cs_closers ?u)[c := Cl_ctl err1]\<rparr>, P, D)"
    by (rule unmap_path [of S 0 ?u None err1 k1 c]) (use run(1) wait in \<open>simp_all\<close>)
  also have "csteps S mapped h v0 \<dots> (st\<lparr>cs_v := ?v\<lparr>v_arenas := [], v_ctlArena := ca\<rparr>, cs_k := k2, cs_closers := ?at (Cl_null ?e)\<rparr>, P, D)"
    by (rule close_one [of _ c]) (use run(2) wait in simp_all)
  also have "csteps S mapped h v0 \<dots> (st\<lparr>cs_v := ?v\<lparr>v_arenas := [], v_ctlArena := zero_Arena, v_nil := True\<rparr>, cs_k := k2, cs_closers := ?at (Cl_unlock ?e)\<rparr>, P, D)"
    by (rule close_one [of _ c]) (use wait in simp_all)
  also have "csteps S mapped h v0 \<dots> (st\<lparr>cs_v := ?v\<lparr>v_arenas := [], v_ctlArena := zero_Arena, v_nil := True\<rparr>, cs_k := k2,
      cs_closers := ?at (Cl_ret ?e), cs_locked := False\<rparr>, P, D)"
    by (rule close_one [of _ c]) (use wait in simp_all)
  finally show ?thesis .
qed

lemma untick_path:
  assumes "cs_stop st"
  shows "csteps S mapped h v0 (st, P, D) (st\<lparr>cs_ticker := False\<rparr>, P, D)"
proof (cases "cs_ticker st")
  case True
  then show ?thesis using cstep.untick [OF _ assms] by blast
next
  case False
  then have "st\<lparr>cs_ticker := False\<rparr> = st" by (cases st) simp
  then show ?thesis by simp
qed

text \<open>The whole call.\<close>

lemma join_path:
  assumes "(if c_Consumer (v_cfg v) then wait_workers h [0..<unat (v_shardN v)] m v s else Some (m, v, s)) = Some (m', v', s')"
    and "cs_workers st = fresh_workers v" "nsh v = unat (v_shardN v)"
  shows "\<exists>D'. csteps S mapped h v0 (st\<lparr>cs_mem := m, cs_v := v, cs_h := s\<rparr>, P, D)
      (st\<lparr>cs_mem := m', cs_v := v', cs_h := s', cs_workers := replicate (length (cs_workers st)) Wk_done\<rparr>, P, D')"
proof (cases "c_Consumer (v_cfg v)")
  case True
  let ?n = "unat (v_shardN v)"
  have w: "wait_workers h [0..<?n] m v s = Some (m', v', s')" using assms(1) True by simp
  have len: "length (cs_workers st) = ?n" using assms(2) True by (simp add: fresh_workers_def)
  have "fold (\<lambda>i ws. ws[i := Wk_done]) [0..<?n] (cs_workers st) = replicate (length (cs_workers st)) Wk_done"
    by (simp add: fold_done len)
  with wait_path [OF w, of st S mapped v0 P D] show ?thesis using assms(2,3) len True by (simp add: fresh_workers_def)
next
  case False
  then have "m' = m" "v' = v" "s' = s" "cs_workers st = []" using assms(1,2) by (simp_all add: fresh_workers_def)
  then show ?thesis by (cases st) auto
qed

abbreviation shut_down :: "Vaultage \<Rightarrow> Vaultage" where
  "shut_down v \<equiv> v\<lparr>v_closed := True, v_ctl := (v_ctl v)\<lparr>ctl_running := 0\<rparr>, v_valve := forceOpen (v_valve v)\<rparr>"

lemma Close_runD:
  assumes "Close S h m0 v0 s0 k0 = Returned (err, m, v, s, k)" "\<not> v_closed v0"
  obtains v2 err1 k1 err2 ca where "(if c_Consumer (v_cfg (shut_down v0)) then wait_workers h [0..<unat (v_shardN (shut_down v0))] m0 (shut_down v0) s0
        else Some (m0, shut_down v0, s0)) = Some (m, v2, s)"
    "close_arenas S (v_arenas v2) None k0 = (err1, k1)" "arena_Close S (v_ctlArena v2) k1 = (err2, ca, k)"
    "err = first_error err1 err2" "v = v2\<lparr>v_arenas := [], v_ctlArena := zero_Arena, v_nil := True\<rparr>"
proof -
  obtain m2 v2 s2 where w: "(if c_Consumer (v_cfg (shut_down v0)) then wait_workers h [0..<unat (v_shardN (shut_down v0))] m0 (shut_down v0) s0
        else Some (m0, shut_down v0, s0)) = Some (m2, v2, s2)"
    using assms by (cases "if c_Consumer (v_cfg (shut_down v0)) then wait_workers h [0..<unat (v_shardN (shut_down v0))] m0 (shut_down v0) s0
        else Some (m0, shut_down v0, s0)") (simp add: Close_def Let_def, metis prod.exhaust)
  obtain err1 k1 where c1: "close_arenas S (v_arenas v2) None k0 = (err1, k1)" by (metis prod.exhaust)
  obtain err2 ca k2 where c2: "arena_Close S (v_ctlArena v2) k1 = (err2, ca, k2)" by (metis prod.exhaust)
  have "err = first_error err1 err2 \<and> m = m2 \<and> v = v2\<lparr>v_arenas := [], v_ctlArena := zero_Arena, v_nil := True\<rparr> \<and> s = s2 \<and> k = k2"
    using assms w c1 c2 by (simp add: Close_def Let_def first_error_def)
  then show thesis using w c1 c2 by (intro that [of v2 err1 k1 err2 ca]) simp_all
qed

lemma Close_drains:
  assumes at: "c < length (cs_closers st)" "cs_closers st ! c = Cl_valve" and v1: "v1 = (cs_v st)\<lparr>v_valve := forceOpen (v_valve (cs_v st))\<rparr>"
    and w: "(if c_Consumer (v_cfg v1) then wait_workers h [0..<unat (v_shardN v1)] (cs_mem st) v1 (cs_h st)
        else Some (cs_mem st, v1, cs_h st)) = Some (m, v, s)"
    and ws: "cs_workers st = fresh_workers v1" and n: "nsh v1 = unat (v_shardN v1)"
  shows "\<exists>D'. csteps S mapped h v0 (st, P, D) (st\<lparr>cs_mem := m, cs_v := v, cs_h := s, cs_workers := replicate (length (cs_workers st)) Wk_done,
      cs_ticker := False, cs_closers := (cs_closers st)[c := Cl_wait], cs_stop := True\<rparr>, P, D')"
proof -
  define st1 where "st1 = st\<lparr>cs_v := v1, cs_closers := (cs_closers st)[c := Cl_wait], cs_stop := True\<rparr>"
  define st2 where "st2 = st1\<lparr>cs_ticker := False\<rparr>"
  have f: "cs_workers st2 = fresh_workers v1" using ws by (simp add: st1_def st2_def)
  have id: "st2\<lparr>cs_mem := cs_mem st, cs_v := v1, cs_h := cs_h st\<rparr> = st2" by (cases st) (simp add: st1_def st2_def)
  have "csteps S mapped h v0 (st, P, D) (st1, P, D)" unfolding st1_def v1 by (rule Close_stops [OF at])
  also have "csteps S mapped h v0 \<dots> (st2, P, D)" unfolding st2_def by (rule untick_path) (simp add: st1_def)
  finally have path: "csteps S mapped h v0 (st, P, D) (st2, P, D)" .
  obtain D' where "csteps S mapped h v0 (st2, P, D)
      (st2\<lparr>cs_mem := m, cs_v := v, cs_h := s, cs_workers := replicate (length (cs_workers st2)) Wk_done\<rparr>, P, D')"
    using join_path [OF w f n, of S mapped v0 P D] unfolding id by blast
  then have "csteps S mapped h v0 (st2, P, D) (st\<lparr>cs_mem := m, cs_v := v, cs_h := s, cs_workers := replicate (length (cs_workers st)) Wk_done,
      cs_ticker := False, cs_closers := (cs_closers st)[c := Cl_wait], cs_stop := True\<rparr>, P, D')"
    by (cases st) (simp add: st2_def st1_def)
  with path show ?thesis by (meson rtranclp_trans)
qed

lemma Close_waits:
  assumes idle: "c < length (cs_closers st)" "cs_closers st ! c = Cl_idle" "\<not> cs_locked st" "\<not> v_closed (cs_v st)"
    and w: "(if c_Consumer (v_cfg (shut_down (cs_v st))) then wait_workers h [0..<unat (v_shardN (shut_down (cs_v st)))] (cs_mem st)
        (shut_down (cs_v st)) (cs_h st) else Some (cs_mem st, shut_down (cs_v st), cs_h st)) = Some (m, v, s)"
    and ws: "cs_workers st = fresh_workers (cs_v st)" and n: "nsh (cs_v st) = unat (v_shardN (cs_v st))"
  shows "\<exists>D'. csteps S mapped h v0 (st, P, D) (st\<lparr>cs_mem := m, cs_v := v, cs_h := s, cs_workers := replicate (length (cs_workers st)) Wk_done,
      cs_ticker := False, cs_closers := (cs_closers st)[c := Cl_wait], cs_locked := True, cs_stop := True\<rparr>, P, D')"
proof -
  let ?v = "(cs_v st)\<lparr>v_closed := True, v_ctl := (v_ctl (cs_v st))\<lparr>ctl_running := 0\<rparr>\<rparr>"
  define st1 where "st1 = st\<lparr>cs_v := (cs_v st)\<lparr>v_closed := True\<rparr>, cs_closers := (cs_closers st)[c := Cl_running], cs_locked := True\<rparr>"
  define st2 where "st2 = st1\<lparr>cs_v := ?v, cs_closers := (cs_closers st)[c := Cl_valve]\<rparr>"
  have "csteps S mapped h v0 (st, P, D) (st1, P, D)" unfolding st1_def by (rule Close_enters [OF idle])
  also have "cstep S mapped h v0 \<dots> (st2, P, D)"
    using Close_clears [of c st1 S mapped h v0 P D] idle(1) by (simp add: st2_def st1_def)
  finally have path: "csteps S mapped h v0 (st, P, D) (st2, P, D)" .
  have v: "shut_down (cs_v st) = (cs_v st2)\<lparr>v_valve := forceOpen (v_valve (cs_v st2))\<rparr>" by (simp add: st2_def)
  have at: "c < length (cs_closers st2)" "cs_closers st2 ! c = Cl_valve" "cs_mem st2 = cs_mem st" "cs_h st2 = cs_h st"
    using idle(1) by (simp_all add: st2_def st1_def)
  have "cs_workers st2 = fresh_workers (shut_down (cs_v st))" "nsh (shut_down (cs_v st)) = unat (v_shardN (shut_down (cs_v st)))"
    using ws n by (simp_all add: st2_def st1_def fresh_workers_def)
  from Close_drains [OF at(1,2) v _ this, unfolded at(3,4), OF w, of S mapped v0 P D] obtain D' where
    "csteps S mapped h v0 (st2, P, D) (st\<lparr>cs_mem := m, cs_v := v, cs_h := s, cs_workers := replicate (length (cs_workers st)) Wk_done,
      cs_ticker := False, cs_closers := (cs_closers st)[c := Cl_wait], cs_locked := True, cs_stop := True\<rparr>, P, D')"
    by (cases st) (auto simp: st2_def st1_def)
  with path show ?thesis by (meson rtranclp_trans)
qed

text \<open>
  C14: The steps of a shutdown, run without interference, are \<^verbatim>\<open>Close\<close>. From any state in which nobody is closing and the workers are at the top of their
  loops, the steps of one caller, of the workers and of the clock thread lead to exactly the result that the sequential \<open>Close\<close> computes: the
  same error, memory, engine, kernel state and handler state, with every worker and the clock thread ended and the mutex released.
\<close>
theorem Close_solo:
  assumes idle: "c < length (cs_closers st)" "cs_closers st ! c = Cl_idle" "\<not> cs_locked st" "\<not> v_closed (cs_v st)"
    and run: "Close S h (cs_mem st) (cs_v st) (cs_h st) (cs_k st) = Returned (err, m, v, s, k)"
    and ws: "cs_workers st = fresh_workers (cs_v st)" and n: "nsh (cs_v st) = unat (v_shardN (cs_v st))"
  shows "\<exists>st' D'. csteps S mapped h v0 (st, P, D) (st', P, D') \<and> cs_mem st' = m \<and> cs_v st' = v \<and> cs_h st' = s \<and> cs_k st' = k \<and>
    cs_closers st' = (cs_closers st)[c := Cl_ret err] \<and> all_joined st' \<and> \<not> cs_locked st'"
proof -
  obtain v2 err1 k1 err2 ca where w: "(if c_Consumer (v_cfg (shut_down (cs_v st))) then wait_workers h [0..<unat (v_shardN (shut_down (cs_v st)))]
        (cs_mem st) (shut_down (cs_v st)) (cs_h st) else Some (cs_mem st, shut_down (cs_v st), cs_h st)) = Some (m, v2, s)"
    and c: "close_arenas S (v_arenas v2) None (cs_k st) = (err1, k1)" "arena_Close S (v_ctlArena v2) k1 = (err2, ca, k)"
    and r: "err = first_error err1 err2" "v = v2\<lparr>v_arenas := [], v_ctlArena := zero_Arena, v_nil := True\<rparr>"
    using Close_runD [OF run idle(4)] .
  define st3 where "st3 = st\<lparr>cs_mem := m, cs_v := v2, cs_h := s, cs_workers := replicate (length (cs_workers st)) Wk_done,
      cs_ticker := False, cs_closers := (cs_closers st)[c := Cl_wait], cs_locked := True, cs_stop := True\<rparr>"
  define st4 where "st4 = st3\<lparr>cs_v := (cs_v st3)\<lparr>v_arenas := [], v_ctlArena := zero_Arena, v_nil := True\<rparr>, cs_k := k,
       cs_closers := (cs_closers st3)[c := Cl_ret (first_error err1 err2)], cs_locked := False\<rparr>"
  obtain D' where j: "csteps S mapped h v0 (st, P, D) (st3, P, D')"
    using Close_waits [OF idle w ws n] unfolding st3_def by blast
  have at3: "c < length (cs_closers st3)" "cs_closers st3 ! c = Cl_wait" "all_joined st3" "cs_locked st3" "cs_v st3 = v2" "cs_k st3 = cs_k st"
    using idle(1) by (simp_all add: st3_def all_joined_def)
  have "csteps S mapped h v0 (st3, P, D') (st4, P, D')"
    unfolding st4_def by (rule Close_ends [OF at3(1-4)]) (unfold at3(5,6), rule c(1), rule c(2))
  with j have path: "csteps S mapped h v0 (st, P, D) (st4, P, D')" by (rule rtranclp_trans)
  have "cs_mem st4 = m" "cs_v st4 = v" "cs_h st4 = s" "cs_k st4 = k" "cs_closers st4 = (cs_closers st)[c := Cl_ret err]" "\<not> cs_locked st4"
    "all_joined st4"
    using at3 r by (simp_all add: st4_def st3_def all_joined_def)
  with path show ?thesis by blast
qed

theorem Close_solo_witness:
  "\<exists>m v k st' D'. New demo_S 8 5 6 demo_config (\<lambda>_. 7) ({}, 4096) = Some (Inr v, m, k) \<and>
     csteps demo_S demo_mapped logger v (cs_start 0 1 m v k [], [], []) (st', [], D') \<and>
     cs_closers st' = [Cl_ret None] \<and> all_joined st' \<and> demo_mapped (cs_k st') = {}"
proof -
  obtain m v k where n: "New demo_S 8 5 6 demo_config (\<lambda>_. 7) ({}, 4096) = Some (Inr v, m, k)"
    "engine_reach demo_S m v (\<lambda>_. []) []" "fresh_engine demo_cfg 5 6 v" using demo_start by blast
  have S: "demo_S \<in> {demo_S, darwin_sys demo_kernel}" by simp
  obtain G where H: "history_ok m v G (\<lambda>_. []) []" using platform_history [OF demo_vm(1) S n(2)] .
  from demo.lin.history_close [OF H platform_unmap [OF demo_vm(2) S] demo_stack [OF n(1,3)]] obtain m' v' D' k' where
    c: "Close demo_S logger m v [] k = Returned (None, m', v', D', k')" and k: "demo_mapped k' = {}" by blast
  have "nsh v = unat (v_shardN v)" by (rule engine_coreD(2) [OF engine_invD(1) [OF historyD(1) [OF H]]])
  from Close_solo [of 0 "cs_start 0 1 m v k []" demo_S logger None m' v' D' k' demo_mapped v "[]" "[]"] c this n(3)
  obtain st' D2 where "csteps demo_S demo_mapped logger v (cs_start 0 1 m v k [], [], []) (st', [], D2)"
    "cs_k st' = k'" "cs_closers st' = [Cl_ret None]" "all_joined st'"
    by (auto simp: cs_start_def fresh_engine_def)
  with n(1) k show ?thesis by blast
qed

end
