(* ===== verification/CloseCtrl.thy ===== *)
theory CloseCtrl
  imports CloseSolo
begin

text \<open>
  The order of a shutdown: what is mapped, and who has ended, at each point of a \<^verbatim>\<open>Close\<close> that runs beside producers, workers, the
  clock thread and other callers of \<^verbatim>\<open>Close\<close>.
\<close>

section \<open>What the threads leave alone\<close>

lemma same_shell_refl [simp]: "same_shell v v"
  by (simp add: same_shell_def)

lemma same_shell_simps [simp]:
  "same_shell v (v\<lparr>v_shards := s\<rparr>)" "same_shell v (clockTick v t)"
  by (simp_all add: same_shell_def clockTick_def)

lemma worker_shell:
  assumes "worker_exec h i pc m v s = (pc', m', v', s')"
  shows "same_shell v v'" "pc = Wk_done \<Longrightarrow> pc' = Wk_done"
  using assms by (cases pc; auto simp: latch_shell split: if_splits prod.splits)+

lemma prod_step: "prod_exec M v0 pc m v = Done x \<Longrightarrow> pub_step pc m v = Returned x"
  by (auto simp: prod_exec_def split: if_splits outcome.splits)

text \<open>A step that is not one of \<^verbatim>\<open>Close\<close>.\<close>

definition bystander :: "('k, 'h) cstate \<Rightarrow> ('k, 'h) cstate \<Rightarrow> bool" where
  "bystander st st' \<longleftrightarrow> cs_closers st' = cs_closers st \<and> cs_locked st' = cs_locked st \<and> cs_k st' = cs_k st \<and>
     same_shell (cs_v st) (cs_v st') \<and> (all_joined st \<longrightarrow> all_joined st') \<and> length (cs_workers st') = length (cs_workers st) \<and>
     length (cs_prods st') = length (cs_prods st)"

lemma joined_work:
  assumes "all_joined st" "i < length (cs_workers st)" "worker_exec h i (cs_workers st ! i) m v s = (pc, m', v', s')"
  shows "pc = Wk_done"
  using assms worker_shell(2) [OF assms(3)] by (simp add: all_joined_def)

inductive_cases cstepE: "cstep S mapped h v0 (st, P, D) y"

lemma cstep_cases:
  assumes "cstep S mapped h v0 (st, P, D) (st', P', D')"
  obtains (aside) "bystander st st'"
  | (own) c where "c < length (cs_closers st)" "cs_closers st ! c = Cl_idle" "st' = st\<lparr>cs_closers := (cs_closers st)[c := Cl_lock]\<rparr>"
      "P' = P" "D' = D"
  | (close) c pc st1 where "c < length (cs_closers st)" "close_exec S (cs_closers st ! c) st = Some (pc, st1)"
      "st' = st1\<lparr>cs_closers := (cs_closers st)[c := pc]\<rparr>" "P' = P" "D' = D"
  using assms
proof (cases rule: cstep.cases)
  case (call t res j)
  then show ?thesis by (intro aside) (simp add: bystander_def all_joined_def)
next
  case (produce t pc m v)
  then show ?thesis using step_shell [OF prod_step [OF produce(6)]] by (intro aside) (simp add: bystander_def all_joined_def)
next
  case (work i pc m v s)
  have "pc = Wk_done" if "all_joined st" by (rule joined_work [OF that work(4,5)])
  then have "all_joined st \<longrightarrow> all_joined st'"
    using work(1) set_update_subset_insert [of "cs_workers st" i pc] by (auto simp: all_joined_def)
  then show ?thesis using work worker_shell(1) [OF work(5)] by (intro aside) (simp add: bystander_def)
next
  case (tick unixnano)
  then show ?thesis by (intro aside) (simp add: bystander_def all_joined_def)
next
  case untick
  then show ?thesis by (intro aside) (simp add: bystander_def all_joined_def)
next
  case (close_call c)
  then show ?thesis by (intro own) simp_all
next
  case (close c pc st1)
  then show ?thesis by (intro that(3)) simp_all
qed

section \<open>The phases of a shutdown\<close>

fun inside :: "close_pc \<Rightarrow> bool" where
  "inside Cl_idle = False"
| "inside Cl_lock = False"
| "inside (Cl_ret err) = False"
| "inside _ = True"

text \<open>Nothing has been taken down yet; everything has.\<close>

definition pristine :: "('k \<Rightarrow> u64 set) \<Rightarrow> Vaultage \<Rightarrow> u64 set \<Rightarrow> ('k, 'h) cstate \<Rightarrow> bool" where
  "pristine mapped v0 B st \<longleftrightarrow> \<not> v_nil (cs_v st) \<and> v_arenas (cs_v st) = v_arenas v0 \<and> v_ctlArena (cs_v st) = v_ctlArena v0 \<and>
     mapped (cs_k st) = B"

definition gone :: "('k \<Rightarrow> u64 set) \<Rightarrow> u64 set \<Rightarrow> ('k, 'h) cstate \<Rightarrow> bool" where
  "gone mapped M0 st \<longleftrightarrow> v_closed (cs_v st) \<and> v_nil (cs_v st) \<and> all_joined st \<and> mapped (cs_k st) = M0"

definition data_upto :: "Vaultage \<Rightarrow> nat \<Rightarrow> u64 set" where
  "data_upto v0 i = (\<Union>a\<in>set (take i (v_arenas v0)). aregion a)"

fun phase_ok :: "('k \<Rightarrow> u64 set) \<Rightarrow> Vaultage \<Rightarrow> u64 set \<Rightarrow> u64 set \<Rightarrow> ('k, 'h) cstate \<Rightarrow> close_pc \<Rightarrow> bool" where
  "phase_ok mapped v0 M0 B st Cl_running = (v_closed (cs_v st) \<and> pristine mapped v0 B st)"
| "phase_ok mapped v0 M0 B st Cl_valve = (v_closed (cs_v st) \<and> pristine mapped v0 B st)"
| "phase_ok mapped v0 M0 B st Cl_stop = (v_closed (cs_v st) \<and> pristine mapped v0 B st)"
| "phase_ok mapped v0 M0 B st Cl_wait = (v_closed (cs_v st) \<and> pristine mapped v0 B st)"
| "phase_ok mapped v0 M0 B st (Cl_unmap i err) = (err = None \<and> v_closed (cs_v st) \<and> \<not> v_nil (cs_v st) \<and> all_joined st \<and>
     v_ctlArena (cs_v st) = v_ctlArena v0 \<and> i \<le> length (v_arenas v0) \<and>
     drop i (v_arenas (cs_v st)) = drop i (v_arenas v0) \<and> length (v_arenas (cs_v st)) = length (v_arenas v0) \<and>
     mapped (cs_k st) = B - data_upto v0 i)"
| "phase_ok mapped v0 M0 B st (Cl_ctl err) = (err = None \<and> v_closed (cs_v st) \<and> \<not> v_nil (cs_v st) \<and> all_joined st \<and>
     v_ctlArena (cs_v st) = v_ctlArena v0 \<and> mapped (cs_k st) = B - data_upto v0 (length (v_arenas v0)))"
| "phase_ok mapped v0 M0 B st (Cl_null err) = (err = None \<and> v_closed (cs_v st) \<and> \<not> v_nil (cs_v st) \<and> all_joined st \<and> mapped (cs_k st) = M0)"
| "phase_ok mapped v0 M0 B st (Cl_unlock err) = (err = None \<and> gone mapped M0 st)"
| "phase_ok mapped v0 M0 B st (Cl_ret err) = (err = None \<and> gone mapped M0 st)"
| "phase_ok mapped v0 M0 B st _ = True"

fun working :: "close_pc \<Rightarrow> bool" where
  "working Cl_flag = False"
| "working (Cl_unlock err) = False"
| "working pc = inside pc"

definition ctrl_ok :: "('k \<Rightarrow> u64 set) \<Rightarrow> Vaultage \<Rightarrow> u64 set \<Rightarrow> u64 set \<Rightarrow> ('k, 'h) cstate \<Rightarrow> bool" where
  "ctrl_ok mapped v0 M0 B st \<longleftrightarrow> (\<forall>c d. c < length (cs_closers st) \<longrightarrow> d < length (cs_closers st) \<longrightarrow>
       inside (cs_closers st ! c) \<longrightarrow> inside (cs_closers st ! d) \<longrightarrow> c = d) \<and>
     (cs_locked st \<longleftrightarrow> (\<exists>pc\<in>set (cs_closers st). inside pc)) \<and> (\<forall>pc\<in>set (cs_closers st). phase_ok mapped v0 M0 B st pc) \<and>
     (\<not> v_closed (cs_v st) \<and> pristine mapped v0 B st \<or> (\<exists>pc\<in>set (cs_closers st). working pc) \<or> gone mapped M0 st)"

lemma phase_frame:
  assumes "bystander st st'" "phase_ok mapped v0 M0 B st pc"
  shows "phase_ok mapped v0 M0 B st' pc"
  using assms by (cases pc) (auto simp: bystander_def same_shell_def pristine_def gone_def)

lemma ctrl_frame:
  assumes "bystander st st'" "ctrl_ok mapped v0 M0 B st"
  shows "ctrl_ok mapped v0 M0 B st'"
proof -
  have "\<forall>pc\<in>set (cs_closers st'). phase_ok mapped v0 M0 B st' pc"
    using assms phase_frame [OF assms(1)] by (auto simp: ctrl_ok_def bystander_def)
  moreover have "\<not> v_closed (cs_v st) \<and> pristine mapped v0 B st \<Longrightarrow> \<not> v_closed (cs_v st') \<and> pristine mapped v0 B st'"
    "gone mapped M0 st \<Longrightarrow> gone mapped M0 st'"
    using assms(1) by (auto simp: bystander_def same_shell_def pristine_def gone_def)
  ultimately show ?thesis using assms by (auto simp: ctrl_ok_def bystander_def)
qed

section \<open>Steps of Close\<close>

lemma ctrl_okD:
  assumes "ctrl_ok mapped v0 M0 B st"
  shows "\<And>c d. c < length (cs_closers st) \<Longrightarrow> d < length (cs_closers st) \<Longrightarrow> inside (cs_closers st ! c) \<Longrightarrow>
      inside (cs_closers st ! d) \<Longrightarrow> c = d"
    "cs_locked st \<longleftrightarrow> (\<exists>pc\<in>set (cs_closers st). inside pc)" "\<And>c. c < length (cs_closers st) \<Longrightarrow> phase_ok mapped v0 M0 B st (cs_closers st ! c)"
    "\<not> v_closed (cs_v st) \<and> pristine mapped v0 B st \<or> (\<exists>pc\<in>set (cs_closers st). working pc) \<or> gone mapped M0 st"
  using assms unfolding ctrl_ok_def by auto

lemma working_inside: "working pc \<Longrightarrow> inside pc"
  by (cases pc) auto

lemma outside_phase: "\<not> inside pc \<Longrightarrow> phase_ok mapped v0 M0 B st pc \<longleftrightarrow> (\<forall>err. pc = Cl_ret err \<longrightarrow> err = None \<and> gone mapped M0 st)"
  by (cases pc) auto

text \<open>A caller inside the critical section moves on. The others are outside, and all they rely on is that what
  is gone stays gone.\<close>

lemma ctrl_move:
  assumes ok: "ctrl_ok mapped v0 M0 B st" and c: "c < length (cs_closers st)" "inside (cs_closers st ! c)"
    and st': "cs_closers st' = (cs_closers st)[c := pc]" "cs_locked st' = inside pc" "phase_ok mapped v0 M0 B st' pc"
    and keep: "gone mapped M0 st \<Longrightarrow> gone mapped M0 st'"
    and left: "\<not> v_closed (cs_v st') \<and> pristine mapped v0 B st' \<or> working pc \<or> gone mapped M0 st'"
  shows "ctrl_ok mapped v0 M0 B st'"
proof -
  note K = ctrl_okD [OF ok]
  have out: "\<not> inside (cs_closers st ! d)" if "d < length (cs_closers st)" "d \<noteq> c" for d using K(1) [OF that(1) c(1)] c(2) that(2) by blast
  have at: "cs_closers st' ! d = (if d = c then pc else cs_closers st ! d)" if "d < length (cs_closers st)" for d
    using that by (simp add: st'(1) nth_list_update)
  have len: "length (cs_closers st') = length (cs_closers st)" by (simp add: st'(1))
  have mem: "pc \<in> set (cs_closers st')" using c(1) by (simp add: st'(1) set_update_memI)
  have "phase_ok mapped v0 M0 B st' (cs_closers st' ! d)" if "d < length (cs_closers st)" for d
    using K(3) [OF that] out [OF that] at [OF that] st'(3) keep by (cases "d = c") (auto simp: outside_phase)
  moreover have "d = e" if "d < length (cs_closers st)" "e < length (cs_closers st)" "inside (cs_closers st' ! d)" "inside (cs_closers st' ! e)" for d e
    using out that at by (cases "d = c"; cases "e = c") auto
  moreover have "(\<exists>pc\<in>set (cs_closers st'). inside pc) \<longleftrightarrow> inside pc"
  proof
    assume "\<exists>pc\<in>set (cs_closers st'). inside pc"
    then obtain d where "d < length (cs_closers st)" "inside (cs_closers st' ! d)" by (auto simp: in_set_conv_nth len)
    then show "inside pc" using out [of d] at [of d] by (cases "d = c") auto
  next
    assume "inside pc"
    then show "\<exists>pc\<in>set (cs_closers st'). inside pc" using mem by blast
  qed
  moreover have "working pc \<Longrightarrow> \<exists>pc\<in>set (cs_closers st'). working pc" using mem by blast
  ultimately show ?thesis using left st'(2) len by (auto simp: ctrl_ok_def in_set_conv_nth)
qed

text \<open>A caller takes the lock, or steps up to it.\<close>

lemma ctrl_enter:
  assumes ok: "ctrl_ok mapped v0 M0 B st" and c: "c < length (cs_closers st)" "\<not> inside (cs_closers st ! c)"
    and pc: "pc = Cl_lock \<or> pc = Cl_flag \<and> \<not> cs_locked st"
  shows "ctrl_ok mapped v0 M0 B (st\<lparr>cs_closers := (cs_closers st)[c := pc], cs_locked := cs_locked st \<or> inside pc\<rparr>)"
proof -
  note K = ctrl_okD [OF ok]
  let ?st = "st\<lparr>cs_closers := (cs_closers st)[c := pc], cs_locked := cs_locked st \<or> inside pc\<rparr>"
  have at: "cs_closers ?st ! d = (if d = c then pc else cs_closers st ! d)" if "d < length (cs_closers st)" for d
    using that by (simp add: nth_list_update)
  have ph: "phase_ok mapped v0 M0 B ?st x = phase_ok mapped v0 M0 B st x" for x
    by (cases x) (simp_all add: pristine_def gone_def all_joined_def)
  have pp: "phase_ok mapped v0 M0 B st pc" "\<not> working pc" using pc by auto
  have phs: "\<forall>x\<in>set (cs_closers ?st). phase_ok mapped v0 M0 B ?st x"
    using ok pp(1) set_update_subset_insert [of "cs_closers st" c pc] unfolding ph ctrl_ok_def by auto
  have none: "\<not> inside (cs_closers st ! d)" if "pc = Cl_flag" "d < length (cs_closers st)" for d
    using pc K(2) that by auto
  have one: "d = e" if "d < length (cs_closers st)" "e < length (cs_closers st)" "inside (cs_closers ?st ! d)" "inside (cs_closers ?st ! e)" for d e
    using that at K(1) [of d e] none pc by (cases "d = c"; cases "e = c") auto
  have iff: "(\<exists>x\<in>set (cs_closers ?st). f x) \<longleftrightarrow> f pc \<or> (\<exists>x\<in>set (cs_closers st). f x)" if "\<not> f (cs_closers st ! c)" for f
  proof -
    have "(\<exists>d<length (cs_closers st). f (cs_closers ?st ! d)) \<longleftrightarrow> f pc \<or> (\<exists>d<length (cs_closers st). f (cs_closers st ! d))"
      using that at c(1) by metis
    then show ?thesis by (simp add: Bex_def in_set_conv_nth) metis
  qed
  have "\<not> working (cs_closers st ! c)" using c(2) working_inside by blast
  note i2 = iff [of inside, OF c(2)] iff [of working, OF this]
  have "pristine mapped v0 B ?st = pristine mapped v0 B st" "gone mapped M0 ?st = gone mapped M0 st"
    by (simp_all add: pristine_def gone_def all_joined_def)
  with one phs K(2,4) i2 pp(2) show ?thesis by (simp add: ctrl_ok_def) blast
qed

lemma closers_same: "st\<lparr>cs_closers := cs_closers st\<rparr> = st"
  by (cases st) simp

lemma data_upto_Suc: "i < length (v_arenas v0) \<Longrightarrow> data_upto v0 (Suc i) = data_upto v0 i \<union> aregion (v_arenas v0 ! i)"
  by (auto simp: data_upto_def take_Suc_conv_app_nth)

lemma data_upto_0 [simp]: "data_upto v0 0 = {}"
  by (simp add: data_upto_def)

lemma stacked_nth: "stacked as A B \<Longrightarrow> i < length as \<Longrightarrow> a_base (as ! i) \<noteq> 0 \<and> a_raw (as ! i) = a_base (as ! i) \<and> a_rawSize (as ! i) = a_size (as ! i)"
proof (induction as arbitrary: A i)
  case (Cons a as)
  then show ?case by (cases i) auto
qed simp

context os_memory
begin

lemma ctrl_unmap:
  assumes never: "\<And>q n i. fst (sysUnmap S q n i) = None" and stack: "stacked (v_ctlArena v0 # v_arenas v0) M0 B"
    and ph: "phase_ok mapped v0 M0 B st (Cl_unmap i err)"
    and run: "close_exec S (Cl_unmap i err) st = Some (pc, st1)"
  shows "phase_ok mapped v0 M0 B (st1\<lparr>cs_closers := cl\<rparr>) pc \<and> working pc \<and> cs_locked st1 = cs_locked st"
proof (cases "i < length (v_arenas v0)")
  case True
  let ?v = "cs_v st"
  have drop: "drop i (v_arenas ?v) = drop i (v_arenas v0)" and len: "length (v_arenas ?v) = length (v_arenas v0)"
    and mp: "mapped (cs_k st) = B - data_upto v0 i" and err: "err = None" using ph by simp_all
  have a0: "v_arenas ?v ! i = v_arenas v0 ! i" using drop True len by (metis hd_drop_conv_nth)
  obtain e a k where a: "arena_Close S (v_arenas v0 ! i) (cs_k st) = (e, a, k)" by (metis prod.exhaust)
  have "stacked (v_arenas v0) (M0 \<union> aregion (v_ctlArena v0)) B" using stack by simp
  note b = stacked_nth [OF this True]
  have u: "e = None" "mapped k = mapped (cs_k st) - aregion (v_arenas v0 ! i)"
    using arena_Close_unmaps [OF _ _ _ a never] b by auto
  have r: "pc = Cl_unmap (i + 1) None" "st1 = st\<lparr>cs_v := ?v\<lparr>v_arenas := (v_arenas ?v)[i := a]\<rparr>, cs_k := k\<rparr>"
    using run True len a a0 u(1) err by (simp_all add: first_error_def)
  have "drop (Suc i) (v_arenas ?v) = drop (Suc i) (v_arenas v0)" using drop by (metis drop_Suc tl_drop)
  then show ?thesis using ph r u(2) mp True data_upto_Suc [OF True] by (auto simp: all_joined_def)
next
  case False
  then show ?thesis using ph run by (auto simp: all_joined_def)
qed

lemma stack_empties:
  assumes "stacked (v_ctlArena v0 # v_arenas v0) M0 B"
  shows "B - data_upto v0 (length (v_arenas v0)) - aregion (v_ctlArena v0) = M0"
  using stacked_union [OF assms] stacked_disjoint [OF assms] by (auto simp: data_upto_def)

text \<open>The caller that has just taken the lock finds the engine open and whole, or closed and gone.\<close>

lemma flag_phase:
  assumes ok: "ctrl_ok mapped v0 M0 B st" and c: "c < length (cs_closers st)" "cs_closers st ! c = Cl_flag"
  shows "if v_closed (cs_v st) then gone mapped M0 st else pristine mapped v0 B st"
proof -
  note K = ctrl_okD [OF ok]
  have "\<not> working pc" if mem: "pc \<in> set (cs_closers st)" for pc
  proof
    assume w: "working pc"
    obtain d where "d < length (cs_closers st)" "cs_closers st ! d = pc" using mem by (auto simp: in_set_conv_nth)
    then show False using K(1) [of d c] c w working_inside by force
  qed
  then show ?thesis using K(4) by (auto simp: gone_def)
qed

lemma phase_step:
  assumes never: "\<And>q n i. fst (sysUnmap S q n i) = None" and stack: "stacked (v_ctlArena v0 # v_arenas v0) M0 B"
    and ph: "phase_ok mapped v0 M0 B st pc0" and lock: "inside pc0" "cs_locked st"
    and flag: "pc0 = Cl_flag \<Longrightarrow> if v_closed (cs_v st) then gone mapped M0 st else pristine mapped v0 B st"
    and run: "close_exec S pc0 st = Some (pc, st1)" and st': "st' = st1\<lparr>cs_closers := cl\<rparr>"
  shows "cs_locked st' = inside pc \<and> phase_ok mapped v0 M0 B st' pc \<and> (gone mapped M0 st \<longrightarrow> gone mapped M0 st') \<and>
    (\<not> v_closed (cs_v st') \<and> pristine mapped v0 B st' \<or> working pc \<or> gone mapped M0 st')"
proof (cases pc0)
  case Cl_flag
  show ?thesis using flag [OF Cl_flag] run lock Cl_flag
    by (cases "v_closed (cs_v st)") (auto simp: st' pristine_def gone_def all_joined_def)
next
  case Cl_wait
  then have "all_joined st" "pc = Cl_unmap 0 None" "st1 = st" using run by (auto split: if_splits)
  then show ?thesis using ph lock Cl_wait by (auto simp: st' pristine_def gone_def all_joined_def)
next
  case (Cl_unmap i err)
  have "\<not> gone mapped M0 st" using ph Cl_unmap by (simp add: gone_def)
  then show ?thesis using ctrl_unmap [OF never stack, of st i err pc st1 cl] run ph lock Cl_unmap working_inside by (auto simp: st')
next
  case (Cl_ctl err)
  obtain e a k where a: "arena_Close S (v_ctlArena v0) (cs_k st) = (e, a, k)" by (metis prod.exhaust)
  have u: "e = None" "mapped k = mapped (cs_k st) - aregion (v_ctlArena v0)"
    using arena_Close_unmaps [OF _ _ _ a never] stack by auto
  show ?thesis using run ph lock Cl_ctl a u stack_empties [OF stack] by (auto simp: st' gone_def first_error_def all_joined_def)
qed (use run ph lock in \<open>auto simp: st' pristine_def gone_def all_joined_def\<close>)

lemma ctrl_close:
  assumes never: "\<And>q n i. fst (sysUnmap S q n i) = None" and stack: "stacked (v_ctlArena v0 # v_arenas v0) M0 B"
    and ok: "ctrl_ok mapped v0 M0 B st" and c: "c < length (cs_closers st)"
    and run: "close_exec S (cs_closers st ! c) st = Some (pc, st1)"
  shows "ctrl_ok mapped v0 M0 B (st1\<lparr>cs_closers := (cs_closers st)[c := pc]\<rparr>)"
proof (cases "inside (cs_closers st ! c)")
  case True
  let ?st = "st1\<lparr>cs_closers := (cs_closers st)[c := pc]\<rparr>"
  have lock: "cs_locked st" using ctrl_okD(2) [OF ok] nth_mem [OF c] True by blast
  note N = phase_step [OF never stack ctrl_okD(3) [OF ok c] True lock flag_phase [OF ok c] run refl, of "(cs_closers st)[c := pc]"]
  have "cs_locked st1 = inside pc" using N by simp
  moreover have "phase_ok mapped v0 M0 B ?st pc" "gone mapped M0 st \<longrightarrow> gone mapped M0 ?st"
    "\<not> v_closed (cs_v ?st) \<and> pristine mapped v0 B ?st \<or> working pc \<or> gone mapped M0 ?st" using N by simp_all
  ultimately show ?thesis by (intro ctrl_move [OF ok c True]) simp_all
next
  case False
  have "pc = cs_closers st ! c \<and> st1 = st \<or> pc = Cl_flag \<and> \<not> cs_locked st \<and> st1 = st\<lparr>cs_locked := True\<rparr>"
    using False run by (cases "cs_closers st ! c") (simp_all split: if_splits)
  then consider (stay) "pc = cs_closers st ! c" "st1 = st" | (lock) "pc = Cl_flag" "\<not> cs_locked st" "st1 = st\<lparr>cs_locked := True\<rparr>" by blast
  then show ?thesis
  proof cases
    case stay
    then show ?thesis using ok by (simp only: list_update_id closers_same)
  next
    case lock
    then have eq: "st1\<lparr>cs_closers := (cs_closers st)[c := pc]\<rparr> = st\<lparr>cs_closers := (cs_closers st)[c := pc], cs_locked := cs_locked st \<or> inside pc\<rparr>"
      by (cases st) simp
    show ?thesis unfolding eq by (rule ctrl_enter [OF ok c False]) (use lock in simp)
  qed
qed

end

end
