(* ===== verification/CloseRace.thy ===== *)
theory CloseRace
  imports CloseCtrl
begin

text \<open>
  The data of an engine that is being closed: rings and index keep their invariants, what a handler reads stays in place while it
  runs, and a bound on what a shutdown can lose.
\<close>

section \<open>Workers and lanes\<close>

fun held :: "worker_pc \<Rightarrow> u64 option" where
  "held (Wk_handle rec idle n pos) = Some pos"
| "held (Wk_release rec idle n pos) = Some pos"
| "held _ = None"

text \<open>The positions that the worker of a shard holds, and how many of a shard have been shown to the handler.\<close>

definition holding :: "worker_pc list \<Rightarrow> nat \<Rightarrow> nat set" where
  "holding ws i = (if i < length ws then unat ` set_option (held (ws ! i)) else {})"

fun showing :: "worker_pc \<Rightarrow> nat" where
  "showing (Wk_handle rec idle n pos) = 1"
| "showing _ = 0"

definition seen_of :: "Vaultage \<Rightarrow> worker_pc list \<Rightarrow> nat \<Rightarrow> nat" where
  "seen_of v ws i = consumed v i - (if i < length ws then showing (ws ! i) else 0)"

fun worker_ok :: "Vaultage \<Rightarrow> publog \<Rightarrow> nat \<Rightarrow> worker_pc \<Rightarrow> bool" where
  "worker_ok v P i (Wk_handle rec idle n pos) = (copied (rg v i) pos rec (glog P i (unat pos)) \<and> unat pos + 1 = rH (rg v i))"
| "worker_ok v P i _ = True"

definition data_ok :: "mem \<Rightarrow> Vaultage \<Rightarrow> pub_pc list \<Rightarrow> worker_pc list \<Rightarrow> publog \<Rightarrow> publog \<Rightarrow> bool" where
  "data_ok m v ps ws P D \<longleftrightarrow> pub_core (length ps) m v ps (holding ws) (seen_of v ws) P D \<and> length ws \<le> nsh v \<and>
     (\<forall>i<length ws. worker_ok v P i (ws ! i))"

lemma data_okD:
  assumes "data_ok m v ps ws P D"
  shows "pub_core (length ps) m v ps (holding ws) (seen_of v ws) P D" "length ws \<le> nsh v"
    "\<And>i. i < length ws \<Longrightarrow> worker_ok v P i (ws ! i)"
  using assms by (simp_all add: data_ok_def)

text \<open>Only cursors of a ring move.\<close>

definition same_place :: "ring \<Rightarrow> ring \<Rightarrow> bool" where
  "same_place r r' \<longleftrightarrow> r_base r' = r_base r \<and> r_stride r' = r_stride r \<and> r_capacity r' = r_capacity r \<and> r_head r' = r_head r"

lemma same_place_refl [simp]: "same_place r r"
  by (simp add: same_place_def)

lemma copied_place: "same_place r r' \<Longrightarrow> copied r' pos rec e = copied r pos rec e"
  by (simp add: same_place_def copied_def cellB_def)

lemma claim_place: "claim m r = Some (x, r') \<Longrightarrow> same_place r r'"
proof -
  have "same_place r (snd y)" if "claim m r = Some y" for m r y
    using that by (rule claim.raw_induct [rotated]) (auto simp: Let_def atomicCAS64_def same_place_def split: if_splits)
  then show "claim m r = Some (x, r') \<Longrightarrow> same_place r r'" by fastforce
qed

lemma advanceCommit_place: "same_place r (advanceCommit m r)"
  by (induction m r rule: advanceCommit.induct)
    (subst advanceCommit.simps, auto simp: Let_def same_place_def split: prod.split)

lemma step_place:
  assumes "pub_step pc m v = Returned (pc', m', v')" "\<And>j. jshard v j < nsh v"
  shows "\<forall>i<nsh v. same_place (rg v i) (rg v' i)"
proof (cases pc)
  case (Pu_hot j res)
  then show ?thesis using assms(1) same_lanes_latch [OF markSaturated_same [OF assms(2)]] by (auto simp: same_lanes_def)
qed (use assms(1) in \<open>auto simp: Let_def nth_list_update assms(2) ring_publish_def advanceCommit_place dest: claim_place
  split: if_splits prod.splits option.splits\<close>)

lemma worker_ok_place:
  assumes "same_place (rg v i) (rg v' i)" "\<And>p. p \<in> unat ` set_option (held pc) \<Longrightarrow> glog P' i p = glog P i p"
  shows "worker_ok v' P' i pc = worker_ok v P i pc"
  using assms by (cases pc) (auto simp: copied_place, auto simp: same_place_def)

text \<open>A producer stores at positions nobody holds.\<close>

lemma stored_elsewhere:
  assumes core: "pub_core n m v ps R seen P D" and t: "t < n" and i: "i < nsh v" "p \<in> R i"
  shows "glog (stored (ps ! t) v P) i p = glog P i p"
proof (cases "ps ! t")
  case (Pu_store j tk pos)
  note I = pub_coreD [OF core]
  note L = ring_inv0D [OF ring_invD(1) [OF lane_okD(2) [OF lanes_okD(5) [OF I(2) i(1)]]]]
  have "(jshard v j, unat pos) \<in> owned (writes v) ps"
    using ownedI [of "ps ! t" ps "writes v" "(jshard v j, unat pos)"] nth_mem [of t ps] t I(1) Pu_store by simp
  then have "jshard v j = i \<Longrightarrow> unat pos \<in> writing v ps i" by (simp add: writing_def)
  then have "jshard v j = i \<Longrightarrow> p \<noteq> unat pos" using L(3,7,8) i(2) by fastforce
  then show ?thesis using Pu_store by (auto simp: stored_def)
qed (simp_all add: stored_def)

lemma data_produce:
  assumes ok: "data_ok m v ps ws P D" and t: "t < length ps" and room: "race_room v"
    and run: "pub_step (ps ! t) m v = Returned (pc, m', v')"
  shows "data_ok m' v' (ps[t := pc]) ws (stored (ps ! t) v P) D"
proof -
  note I = data_okD [OF ok]
  have sh: "jshard v j < nsh v" for j using lanes_shard_of [OF pub_coreD(2) [OF I(1)]] .
  have "seen_of v' ws = seen_of v ws" by (simp add: seen_of_def step_consumed [OF run sh] fun_eq_iff)
  then have core: "pub_core (length (ps[t := pc])) m' v' (ps[t := pc]) (holding ws) (seen_of v' ws) (stored (ps ! t) v P) D"
    using core_step [OF I(1) t room run] by simp
  have "worker_ok v' (stored (ps ! t) v P) i (ws ! i)" if i: "i < length ws" for i
  proof -
    have "i < nsh v" using i I(2) by simp
    then have "worker_ok v' (stored (ps ! t) v P) i (ws ! i) = worker_ok v P i (ws ! i)"
      using step_place [OF run sh] stored_elsewhere [OF I(1) t] i by (intro worker_ok_place) (auto simp: holding_def)
    then show ?thesis using I(3) [OF i] by simp
  qed
  then show ?thesis using core I(2) step_head [OF run sh] by (simp add: data_ok_def)
qed

text \<open>The steps of a worker.\<close>

lemma holding_upd:
  assumes "i < length ws"
  shows "holding (ws[i := pc]) = (holding ws)(i := unat ` set_option (held pc))"
  using assms by (auto simp: holding_def fun_eq_iff nth_list_update)

lemma seen_upd:
  assumes "i < length ws" "\<And>j. j \<noteq> i \<Longrightarrow> consumed v' j = consumed v j"
  shows "seen_of v' (ws[i := pc]) = (seen_of v ws)(i := consumed v' i - showing pc)"
  using assms by (auto simp: seen_of_def fun_eq_iff nth_list_update)

lemma workers_upd:
  assumes "data_ok m v ps ws P D" "i < length ws" "worker_ok v' P i pc" "\<And>j. j < length ws \<Longrightarrow> j \<noteq> i \<Longrightarrow> rg v' j = rg v j"
  shows "\<forall>j<length (ws[i := pc]). worker_ok v' P j (ws[i := pc] ! j)"
proof (intro allI impI)
  fix j assume j: "j < length (ws[i := pc])"
  show "worker_ok v' P j (ws[i := pc] ! j)"
  proof (cases "j = i")
    case False
    then have "worker_ok v' P j (ws ! j) = worker_ok v P j (ws ! j)" using assms(4) j by (intro worker_ok_place) simp_all
    then show ?thesis using data_okD(3) [OF assms(1), of j] j False by simp
  qed (use assms(2,3) in simp)
qed

text \<open>A step that changes no ring and no index.\<close>

lemma data_still:
  assumes ok: "data_ok m v ps ws P D" and s: "same_lanes v v'" and i: "i < length ws" and pc: "held pc = held (ws ! i)" "showing pc = showing (ws ! i)"
    "showing pc = 0"
  shows "data_ok m v' ps (ws[i := pc]) P D"
proof -
  note I = data_okD [OF ok]
  have c: "consumed v' = consumed v" using same_lanes_cursors [OF s] by simp
  have "holding (ws[i := pc]) = holding ws" using i pc(1) by (auto simp: holding_upd holding_def fun_eq_iff)
  moreover have "seen_of v' (ws[i := pc]) = seen_of v ws" using i pc(2) by (auto simp: seen_of_def c fun_eq_iff nth_list_update)
  moreover have "\<forall>j<length (ws[i := pc]). worker_ok v' P j (ws[i := pc] ! j)"
  proof (rule workers_upd [OF ok i])
    show "worker_ok v' P i pc" using pc(3) by (cases pc) simp_all
    show "rg v' j = rg v j" if "j < length ws" for j using s I(2) that by (simp add: same_lanes_def)
  qed
  ultimately show ?thesis using core_still [OF I(1) s] I(2) s by (simp add: data_ok_def same_lanes_def)
qed

lemma data_take:
  assumes ok: "data_ok m v ps ws P D" and i: "i < length ws" "ws ! i = Wk_take rec idle n"
    and run: "worker_exec h i (ws ! i) m v s = (pc, m', v', s')"
  shows "data_ok m' v' ps (ws[i := pc]) P D"
proof -
  note I = data_okD [OF ok]
  have lt: "i < nsh v" using i(1) I(2) by simp
  note L = lanes_okD(5) [OF pub_coreD(2) [OF I(1)] lt]
  obtain pos okf rec1 m1 r1 where d: "dequeue m (rg v i) rec = ((pos, okf), rec1, m1, r1)" by (metis prod.exhaust)
  consider (idle) "pc = batch_over rec idle n" "m' = m" "v' = v" | (take) "okf" "n < drainBatch"
  proof (cases "n < drainBatch \<and> okf")
    case False
    show ?thesis
    proof (cases "n < drainBatch")
      case True
      then have "\<not> rH (rg v i) < rC (rg v i)" using False d dequeue_step(1) [OF lane_okD(2) [OF L], of rec] by auto
      then have "rH (rg v i) = rC (rg v i)" using ring_inv0D(3) [OF ring_invD(1) [OF lane_okD(2) [OF L]]] by simp
      then have "rec1 = rec" "m1 = m" "r1 = rg v i" "\<not> okf"
        using d dequeue_empty [OF ring_invD(1) [OF lane_okD(2) [OF L]]] by simp_all
      moreover have "(v_shards v ! i)\<lparr>sh_ring := rg v i\<rparr> = v_shards v ! i" "v\<lparr>v_shards := v_shards v\<rparr> = v" by simp_all
      ultimately show ?thesis using run i(2) True d by (intro that(1)) auto
    qed (use run i(2) in \<open>intro that(1), auto\<close>)
  qed (use that in blast)
  then show ?thesis
  proof cases
    case idle
    have "held pc = held (ws ! i)" "showing pc = showing (ws ! i)" "showing pc = 0" using i(2) idle(1) by (auto simp: batch_over_def)
    from data_still [OF ok _ i(1) this, of v] show ?thesis using idle by (simp add: same_lanes_def)
  next
    case take
    let ?sh = "(v_shards v ! i)\<lparr>sh_ring := r1\<rparr>"
    have eq: "pc = Wk_handle (rec1\<lparr>Shard := int i\<rparr>) idle n pos" "m' = m1" "v' = v\<lparr>v_shards := (v_shards v)[i := ?sh]\<rparr>"
      using run i(2) take d by auto
    have d': "dequeue m (rg v i) rec = ((pos, True), rec1, m1, r1)" using d take(1) by simp
    note C = core_dequeue [OF I(1) lt d', where sh = ?sh, simplified, folded eq(3)]
    have h: "holding ws i = {}" using i by (simp add: holding_def)
    have c: "consumed v' j = (if j = i then Suc (consumed v i) else consumed v j)" for j
      using lt C(3,4) by (auto simp: consumed_def eq(3) nth_list_update)
    have R: "holding (ws[i := pc]) = (holding ws)(i := insert (unat pos) (holding ws i))"
      using i(1) h by (simp add: holding_upd eq(1))
    have "seen_of v' (ws[i := pc]) = seen_of v ws"
      using i c by (auto simp: seen_of_def fun_eq_iff nth_list_update eq(1))
    moreover have "\<forall>j<length (ws[i := pc]). worker_ok v' P j (ws[i := pc] ! j)"
      by (rule workers_upd [OF ok i(1)]) (use C(2-4) lt in \<open>auto simp: eq copied_def\<close>)
    ultimately show ?thesis using C(1,5) I(2) R eq(2) by (simp add: data_ok_def eq(3) del: fun_upd_apply)
  qed
qed

lemma data_work:
  assumes ok: "data_ok m v ps ws P D" and i: "i < length ws" and run: "worker_exec h i (ws ! i) m v s = (pc, m', v', s')"
  shows "data_ok m' v' ps (ws[i := pc]) P (shown i (ws ! i) m D)"
proof -
  note I = data_okD [OF ok]
  have lt: "i < nsh v" using i I(2) by simp
  have still: "data_ok m' v' ps (ws[i := pc]) P (shown i (ws ! i) m D)"
    if "m' = m" "same_lanes v v'" "held (ws ! i) = None" "held pc = None" "shown i (ws ! i) m D = D"
  proof -
    have "showing pc = 0" "showing (ws ! i) = 0" using that(3,4) by (cases pc, auto) (cases "ws ! i", auto)
    then show ?thesis using data_still [OF ok that(2) i] that by simp
  qed
  show ?thesis
  proof (cases "ws ! i")
    case (Wk_take rec idle n)
    then show ?thesis using data_take [OF ok i Wk_take run] by (simp add: shown_def)
  next
    case (Wk_handle rec idle n pos)
    have eq: "pc = Wk_release rec idle n pos" "m' = m" "v' = v" using run Wk_handle by auto
    have w: "copied (rg v i) pos rec (glog P i (unat pos))" "unat pos + 1 = rH (rg v i)" using I(3) [OF i] Wk_handle by simp_all
    have "unat pos \<in> holding ws i" "unat pos = seen_of v ws i"
      using i lt Wk_handle w(2) by (simp_all add: holding_def seen_of_def consumed_def)
    note S = core_show(2) [OF I(1) lt this w(1)]
    have "holding (ws[i := pc]) = holding ws" using i Wk_handle by (auto simp: holding_upd holding_def eq fun_eq_iff)
    moreover have "seen_of v (ws[i := pc]) = (seen_of v ws)(i := seen_of v ws i + 1)"
      using i lt Wk_handle w(2) by (auto simp: seen_of_def consumed_def fun_eq_iff nth_list_update eq)
    moreover have "\<forall>j<length (ws[i := pc]). worker_ok v P j (ws[i := pc] ! j)" by (rule workers_upd [OF ok i]) (simp_all add: eq)
    ultimately show ?thesis using S I(2) by (simp add: data_ok_def eq(2,3) shown_def Wk_handle)
  next
    case (Wk_release rec idle n pos)
    have eq: "pc = Wk_count rec idle n" "m' = release m (rg v i) pos" "v' = v" using run Wk_release by auto
    have h: "holding ws i = {unat pos}" using i Wk_release by (simp add: holding_def)
    have "holding (ws[i := pc]) = (holding ws)(i := holding ws i - {unat pos})" using i h by (simp add: holding_upd eq)
    moreover have "seen_of v (ws[i := pc]) = seen_of v ws" using i Wk_release by (auto simp: seen_of_def fun_eq_iff nth_list_update eq)
    moreover have "\<forall>j<length (ws[i := pc]). worker_ok v P j (ws[i := pc] ! j)" by (rule workers_upd [OF ok i]) (simp_all add: eq)
    ultimately show ?thesis
      using core_release [OF I(1) lt, of pos] I(2) h by (simp add: data_ok_def eq(2,3) shown_def Wk_release)
  next
    case (Wk_count rec idle n)
    then show ?thesis using run lt by (intro still) (auto simp: shown_def same_lanes_def nth_list_update)
  next
    case (Wk_cool rec)
    then show ?thesis using run same_lanes_latch [OF markDrained_same [OF lt]] by (intro still) (auto simp: shown_def)
  next
    case (Wk_running rec idle)
    then show ?thesis using run by (intro still) (auto simp: shown_def same_lanes_def split: if_splits)
  next
    case (Wk_pending rec idle)
    then show ?thesis using run by (intro still) (auto simp: shown_def same_lanes_def split: if_splits)
  next
    case Wk_done
    then show ?thesis using run by (intro still) (auto simp: shown_def same_lanes_def)
  qed
qed

text \<open>Everything else leaves the lanes alone.\<close>

lemma data_cong:
  assumes ok: "data_ok m v ps ws P D" and s: "same_lanes v v'"
  shows "data_ok m v' ps ws P D"
proof -
  note I = data_okD [OF ok]
  have c: "seen_of v' ws = seen_of v ws" using same_lanes_cursors [OF s] by (simp add: seen_of_def fun_eq_iff)
  have "worker_ok v' P i (ws ! i)" if "i < length ws" for i
    using I(3) [OF that] worker_ok_place [of v i v' "ws ! i" P P] s I(2) that by (auto simp: same_lanes_def)
  then show ?thesis using core_still [OF I(1) s] I(2) s by (simp add: data_ok_def c same_lanes_def)
qed

lemma close_exec_frame:
  assumes "close_exec S pc st = Some (pc', st')"
  shows "same_lanes (cs_v st) (cs_v st')" "cs_mem st' = cs_mem st" "cs_prods st' = cs_prods st" "cs_workers st' = cs_workers st"
    "cs_h st' = cs_h st"
  using assms by (cases pc; auto simp: same_lanes_def split: if_splits prod.splits)+

lemma data_cstep:
  assumes "cstep S mapped h v0 (st, P, D) (st', P', D')" and ok: "data_ok (cs_mem st) (cs_v st) (cs_prods st) (cs_workers st) P D"
  shows "data_ok (cs_mem st') (cs_v st') (cs_prods st') (cs_workers st') P' D'"
  using assms(1)
proof (cases rule: cstep.cases)
  case (call t res j)
  note I = data_okD [OF ok]
  have "pub_core (length (cs_prods st)) (cs_mem st) (cs_v st) ((cs_prods st)[t := Pu_check j]) (holding (cs_workers st))
      (seen_of (cs_v st) (cs_workers st)) P D"
    by (rule core_local [OF I(1) call(4)]) (use call(5) in auto)
  then show ?thesis using call(1-3) I by (simp add: data_ok_def)
next
  case (produce t pc m v)
  then show ?thesis using data_produce [OF ok produce(4,5) prod_step [OF produce(6)]] by simp
next
  case (work i pc m v s)
  then show ?thesis using data_work [OF ok work(4,5)] by simp
next
  case (tick unixnano)
  have "same_lanes (cs_v st) (clockTick (cs_v st) unixnano)" by (simp add: clockTick_def same_lanes_def)
  from data_cong [OF ok this] show ?thesis using tick by simp
next
  case untick
  then show ?thesis using ok by simp
next
  case (close_call c)
  then show ?thesis using ok by simp
next
  case (close c pc st1)
  note F = close_exec_frame [OF close(5)]
  show ?thesis using data_cong [OF ok F(1)] F(2-4) close(1-3) by simp
qed

end
