(* ===== verification/CloseLoss.thy ===== *)
theory CloseLoss
  imports CloseRace
begin

text \<open>
  What a shutdown can lose: once \<^verbatim>\<open>Close\<close> has cleared \<^verbatim>\<open>running\<close>, the positions claimed in shards whose worker has
  ended are paid for by the producers that had passed the check before.
\<close>

section \<open>Tails\<close>

fun past_check :: "pub_pc \<Rightarrow> bool" where
  "past_check (Pu_gate j) = True"
| "past_check (Pu_ticket j) = True"
| "past_check (Pu_claim j t) = True"
| "past_check _ = False"

lemma unat_add1_le: "unat (w + 1) \<le> unat w + 1" for w :: u64
proof -
  have "unat (w + 1) = (unat w + 1) mod 2 ^ 64" by (simp add: unat_word_ariths)
  then show ?thesis using mod_less_eq_dividend by metis
qed

lemma step_tail:
  assumes run: "pub_step pc m v = Returned (pc', m', v')" and sh: "\<And>j. jshard v j < nsh v" and i: "i < nsh v"
  shows "(\<And>j tk. pc \<noteq> Pu_claim j tk) \<Longrightarrow> r_tail (rg v' i) = r_tail (rg v i)"
    "pc = Pu_claim j tk \<Longrightarrow> rT (rg v' i) \<le> rT (rg v i) + of_bool (\<not> past_check pc' \<and> i = jshard v j)"
proof -
  show "r_tail (rg v' i) = r_tail (rg v i)" if "\<And>j tk. pc \<noteq> Pu_claim j tk"
  proof (cases pc)
    case (Pu_hot j res)
    then show ?thesis using run same_lanes_latch [OF markSaturated_same [OF sh]] i by (auto simp: same_lanes_def)
  qed (use run i that in \<open>auto simp: Let_def nth_list_update sh ring_publish_def advanceCommit_tail split: if_splits prod.splits\<close>)
  show "rT (rg v' i) \<le> rT (rg v i) + of_bool (\<not> past_check pc' \<and> i = jshard v j)" if pc: "pc = Pu_claim j tk"
  proof -
    obtain pos ok r where c: "claim m (rg v (jshard v j)) = Some ((pos, ok), r)"
      using run pc by (auto simp: Let_def split: option.splits)
    have "rT r \<le> rT (rg v (jshard v j)) + 1" using claim_tails [OF c] unat_add1_le by auto
    moreover have "\<not> past_check pc'" "v' = upd_shard (jshard v j) (sh_ring_update (\<lambda>_. r)) v"
      using run pc c by (auto simp: Let_def split: if_splits)
    ultimately show ?thesis using i by (auto simp: nth_list_update)
  qed
qed

section \<open>The potential\<close>

text \<open>Positions claimed and not consumed in shards whose worker has ended.\<close>

definition lost_at :: "Vaultage \<Rightarrow> worker_pc list \<Rightarrow> nat \<Rightarrow> nat" where
  "lost_at v ws i = (if i < length ws \<and> ws ! i = Wk_done then rT (rg v i) - rH (rg v i) else 0)"

definition lost :: "Vaultage \<Rightarrow> worker_pc list \<Rightarrow> nat" where
  "lost v ws = (\<Sum>i<nsh v. lost_at v ws i)"

lemma sum_of_bool: "(\<Sum>i<(n :: nat). of_bool (b \<and> i = k)) = (of_bool (b \<and> k < n) :: nat)"
  by (induction n) (auto simp: less_Suc_eq)

lemma sum_one:
  fixes n :: nat
  assumes "\<And>i. i < n \<Longrightarrow> f i \<le> g i + of_bool (b \<and> i = k)"
  shows "(\<Sum>i<n. f i) \<le> (\<Sum>i<n. g i) + (of_bool b :: nat)"
proof -
  have "(\<Sum>i<n. f i) \<le> (\<Sum>i<n. g i + of_bool (b \<and> i = k))" using assms by (intro sum_mono) simp
  also have "\<dots> = (\<Sum>i<n. g i) + (\<Sum>i<n. of_bool (b \<and> i = k))" by (rule sum.distrib)
  also have "(\<Sum>i<n. of_bool (b \<and> i = k)) = (of_bool (b \<and> k < n) :: nat)" by (rule sum_of_bool)
  also have "\<dots> \<le> of_bool b" by simp
  finally show ?thesis by simp
qed

lemma lost_produce:
  assumes run: "pub_step pc m v = Returned (pc', m', v')" and sh: "\<And>j. jshard v j < nsh v" and stop: "ctl_running (v_ctl v) = 0"
  shows "lost v' ws + of_bool (past_check pc') \<le> lost v ws + of_bool (past_check pc)"
proof -
  have late: "past_check pc' \<Longrightarrow> past_check pc" using run stop by (cases pc) (auto simp: Let_def split: if_splits prod.splits option.splits)
  have n: "nsh v' = nsh v" and hd: "\<And>i. i < nsh v \<Longrightarrow> rH (rg v' i) = rH (rg v i)" using step_head [OF run sh] by auto
  let ?b = "past_check pc \<and> \<not> past_check pc'"
  have "lost v' ws \<le> lost v ws + of_bool ?b"
  proof (cases "\<exists>j tk. pc = Pu_claim j tk")
    case True
    then obtain j tk where pc: "pc = Pu_claim j tk" by blast
    have "lost_at v' ws i \<le> lost_at v ws i + of_bool (?b \<and> i = jshard v j)" if "i < nsh v" for i
      using step_tail(2) [OF run sh that pc] hd [OF that] by (auto simp: lost_at_def pc)
    then show ?thesis unfolding lost_def n by (rule sum_one)
  next
    case False
    have "lost_at v' ws i \<le> lost_at v ws i" if "i < nsh v" for i
    proof -
      have "rT (rg v' i) = rT (rg v i)" using step_tail(1) [OF run sh that] False by simp
      then show ?thesis using hd [OF that] by (simp add: lost_at_def)
    qed
    then show ?thesis unfolding lost_def n by (intro trans_le_add1 sum_mono) simp
  qed
  then show ?thesis using late by (cases "past_check pc"; cases "past_check pc'") auto
qed

lemma lost_work:
  assumes ok: "data_ok m v ps ws P D" and i: "i < length ws" and run: "worker_exec h i (ws ! i) m v s = (pc, m', v', s')"
  shows "lost v' (ws[i := pc]) \<le> lost v ws"
proof -
  note I = data_okD [OF ok]
  note L = lanes_okD(5) [OF pub_coreD(2) [OF I(1)]]
  have lt: "i < nsh v" using i I(2) by simp
  have rings: "nsh v' = nsh v" "\<And>j. j < nsh v \<Longrightarrow> j \<noteq> i \<Longrightarrow> rg v' j = rg v j"
    using run lt same_lanes_latch [OF markDrained_same [OF lt]] by (cases "ws ! i"; auto simp: same_lanes_def split: if_splits prod.splits)+
  have own: "lost_at v' (ws[i := pc]) i \<le> lost_at v ws i"
  proof (cases "pc = Wk_done")
    case True
    then consider rec idle where "ws ! i = Wk_pending rec idle" "v' = v" "pending (rg v i) = 0" | "ws ! i = Wk_done" "v' = v"
      using run by (cases "ws ! i") (auto simp: batch_over_def split: if_splits prod.splits)
    then show ?thesis
    proof cases
      case 1
      have "rH (rg v i) \<le> rT (rg v i)" using ring_inv0D(3,4) [OF ring_invD(1) [OF lane_okD(2) [OF L [OF lt]]]] by simp
      then have "rT (rg v i) - rH (rg v i) = 0" using 1(3) pending_unat [of "rg v i"] by simp
      then show ?thesis using 1(2) by (simp add: lost_at_def)
    next
      case 2
      then show ?thesis using i by (simp add: lost_at_def)
    qed
  qed (use i in \<open>simp add: lost_at_def\<close>)
  have "lost_at v' (ws[i := pc]) j \<le> lost_at v ws j" if "j < nsh v" for j
    using own rings(2) [OF that] by (cases "j = i") (auto simp: lost_at_def)
  then show ?thesis unfolding lost_def rings(1) by (intro sum_mono) simp
qed

lemma lost_cong: "same_lanes v v' \<Longrightarrow> lost v' ws = lost v ws"
  by (auto simp: same_lanes_def lost_def lost_at_def intro!: sum.cong)

text \<open>Once \<^verbatim>\<open>running\<close> is cleared it stays so, and the potential does not grow.\<close>

lemma potential_cstep:
  assumes "cstep S mapped h v0 (st, P, D) (st', P', D')" and ok: "data_ok (cs_mem st) (cs_v st) (cs_prods st) (cs_workers st) P D"
    and stop: "ctl_running (v_ctl (cs_v st)) = 0"
  shows "ctl_running (v_ctl (cs_v st')) = 0"
    "lost (cs_v st') (cs_workers st') + cnt past_check (cs_prods st') \<le> lost (cs_v st) (cs_workers st) + cnt past_check (cs_prods st)"
proof -
  note I = data_okD [OF ok]
  have sh: "jshard (cs_v st) j < nsh (cs_v st)" for j using lanes_shard_of [OF pub_coreD(2) [OF I(1)]] .
  have "ctl_running (v_ctl (cs_v st')) = 0 \<and>
    lost (cs_v st') (cs_workers st') + cnt past_check (cs_prods st') \<le> lost (cs_v st) (cs_workers st) + cnt past_check (cs_prods st)"
    using assms(1)
  proof (cases rule: cstep.cases)
    case (call t res j)
    then show ?thesis using filter_update [OF call(4), of past_check "Pu_check j"] stop by auto
  next
    case (produce t pc m v)
    note run = prod_step [OF produce(6)]
    have "ctl_running (v_ctl v) = 0" using step_shell [OF run] stop by (simp add: same_shell_def)
    moreover have "lost v (cs_workers st) + of_bool (past_check pc) \<le> lost (cs_v st) (cs_workers st) + of_bool (past_check (cs_prods st ! t))"
      by (rule lost_produce [OF run sh stop])
    ultimately show ?thesis using produce(1) filter_update [OF produce(4), of past_check pc] by (auto simp: of_bool_def split: if_splits)
  next
    case (work i pc m v s)
    then show ?thesis using lost_work [OF ok work(4,5)] worker_shell(1) [OF work(5)] stop by (simp add: same_shell_def)
  next
    case (tick unixnano)
    have "same_lanes (cs_v st) (clockTick (cs_v st) unixnano)" by (simp add: clockTick_def same_lanes_def)
    from lost_cong [OF this] show ?thesis using tick stop by (simp add: clockTick_def)
  next
    case untick
    then show ?thesis using stop by simp
  next
    case (close_call c)
    then show ?thesis using stop by simp
  next
    case (close c pc st1)
    note F = close_exec_frame [OF close(5)]
    have "ctl_running (v_ctl (cs_v st1)) = 0" using close(5) stop by (cases "cs_closers st ! c") (auto split: if_splits prod.splits)
    then show ?thesis using close(1) F lost_cong [OF F(1)] by simp
  qed
  then show "ctl_running (v_ctl (cs_v st')) = 0"
    "lost (cs_v st') (cs_workers st') + cnt past_check (cs_prods st') \<le> lost (cs_v st) (cs_workers st) + cnt past_check (cs_prods st)" by simp_all
qed

end
