(* ===== verification/CloseRaceThms.thy ===== *)
theory CloseRaceThms
  imports CloseLoss
begin

text \<open>
  Theorems about a \<^verbatim>\<open>Close\<close> that races with producers, workers, the clock thread and other calls of \<^verbatim>\<open>Close\<close>.
\<close>

section \<open>Reachable states\<close>

text \<open>The cells of every shard lie in its arena.\<close>

definition in_arena :: "Vaultage \<Rightarrow> Vaultage \<Rightarrow> bool" where
  "in_arena v0 v \<longleftrightarrow> (\<forall>i<nsh v. i < length (v_arenas v0) \<and> r_base (rg v i) = a_base (v_arenas v0 ! i) \<and>
     rcap (rg v i) * unat (r_stride (rg v i)) \<le> unat (a_size (v_arenas v0 ! i)))"

fun ending :: "worker_pc \<Rightarrow> bool" where
  "ending (Wk_pending rec idle) = True"
| "ending Wk_done = True"
| "ending _ = False"

definition frame_ok :: "Vaultage \<Rightarrow> ('k, 'h) cstate \<Rightarrow> bool" where
  "frame_ok v0 st \<longleftrightarrow> in_arena v0 (cs_v st) \<and> v_cfg (cs_v st) = v_cfg v0 \<and>
     length (cs_workers st) = (if c_Consumer (v_cfg v0) then nsh (cs_v st) else 0) \<and>
     ((\<exists>w\<in>set (cs_workers st). ending w) \<longrightarrow> ctl_running (v_ctl (cs_v st)) = 0)"

text \<open>Rings that sit where they sat.\<close>

definition same_seats :: "Vaultage \<Rightarrow> Vaultage \<Rightarrow> bool" where
  "same_seats v v' \<longleftrightarrow> nsh v' = nsh v \<and> (\<forall>i<nsh v. r_base (rg v' i) = r_base (rg v i) \<and> r_stride (rg v' i) = r_stride (rg v i) \<and>
     r_capacity (rg v' i) = r_capacity (rg v i))"

lemma same_lanes_seats: "same_lanes v v' \<Longrightarrow> same_seats v v'"
  by (simp add: same_lanes_def same_seats_def)

lemma in_arena_seats: "same_seats v v' \<Longrightarrow> in_arena v0 v \<Longrightarrow> in_arena v0 v'"
  by (simp add: same_seats_def in_arena_def)

lemma dequeue_seat: "dequeue m r rec = (x, rec', m', r') \<Longrightarrow> r_base r' = r_base r \<and> r_stride r' = r_stride r \<and> r_capacity r' = r_capacity r"
  by (subst (asm) dequeue.simps) (auto simp: Let_def split: if_splits)

lemma worker_seats:
  assumes "worker_exec h i pc m v s = (pc', m', v', s')" "i < nsh v"
  shows "same_seats v v'"
proof (cases pc)
  case (Wk_cool rec)
  then show ?thesis using assms(1) same_lanes_seats [OF same_lanes_latch [OF markDrained_same [OF assms(2)]]] by auto
qed (use assms in \<open>auto simp: same_seats_def nth_list_update dest: dequeue_seat split: if_splits prod.splits\<close>)

lemma frame_cstep:
  assumes step: "cstep S mapped h v0 (st, P, D) (st', P', D')" and fr: "frame_ok v0 st"
    and ok: "data_ok (cs_mem st) (cs_v st) (cs_prods st) (cs_workers st) P D"
  shows "frame_ok v0 st'"
proof -
  note I = data_okD [OF ok]
  have sh: "jshard (cs_v st) j < nsh (cs_v st)" for j using lanes_shard_of [OF pub_coreD(2) [OF I(1)]] .
  have keep: "frame_ok v0 st'" if "same_seats (cs_v st) (cs_v st')" "v_cfg (cs_v st') = v_cfg (cs_v st)" "cs_workers st' = cs_workers st"
    "ctl_running (v_ctl (cs_v st)) = 0 \<Longrightarrow> ctl_running (v_ctl (cs_v st')) = 0"
    using fr that in_arena_seats [OF that(1), of v0] by (auto simp: frame_ok_def same_seats_def)
  have stop: "ctl_running (v_ctl (cs_v st)) = 0 \<Longrightarrow> ctl_running (v_ctl (cs_v st')) = 0" by (rule potential_cstep(1) [OF step ok])
  show ?thesis
    using step
  proof (cases rule: cstep.cases)
    case (produce t pc m v)
    note run = prod_step [OF produce(6)]
    have "same_seats (cs_v st) v" using step_place [OF run sh] step_head [OF run sh] by (simp add: same_seats_def same_place_def)
    then show ?thesis using produce(1) step_shell [OF run] by (intro keep) (auto simp: same_shell_def)
  next
    case (work i pc m v s)
    have i: "i < nsh (cs_v st)" using work(4) I(2) by simp
    have s: "same_seats (cs_v st) v" by (rule worker_seats [OF work(5) i])
    have "ending pc \<Longrightarrow> ending (cs_workers st ! i) \<or> ctl_running (v_ctl (cs_v st)) = 0"
      using work(5) by (cases "cs_workers st ! i") (auto simp: batch_over_def split: if_splits prod.splits)
    then have "(\<exists>w\<in>set (cs_workers st'). ending w) \<longrightarrow> ctl_running (v_ctl (cs_v st')) = 0"
      using fr stop work(1,4) set_update_subset_insert [of "cs_workers st" i pc] nth_mem [OF work(4)] by (fastforce simp: frame_ok_def)
    then show ?thesis
      using fr work(1) in_arena_seats [OF s, of v0] worker_shell(1) [OF work(5)] s by (simp add: frame_ok_def same_shell_def same_seats_def)
  next
    case (close c pc st1)
    note F = close_exec_frame [OF close(5)]
    have "v_cfg (cs_v st1) = v_cfg (cs_v st)" using close(5) by (cases "cs_closers st ! c") (auto split: if_splits prod.splits)
    then show ?thesis using close(1) F same_lanes_seats [OF F(1)] stop by (intro keep) simp_all
  next
    case (call t res j)
    then show ?thesis using stop by (intro keep) (auto simp: same_seats_def)
  next
    case (tick unixnano)
    then show ?thesis using stop by (intro keep) (auto simp: same_seats_def clockTick_def)
  next
    case untick
    then show ?thesis using stop by (intro keep) (auto simp: same_seats_def)
  next
    case (close_call c)
    then show ?thesis using stop by (intro keep) (auto simp: same_seats_def)
  qed
qed

text \<open>What \<^verbatim>\<open>New\<close> hands over.\<close>

context os_memory
begin

lemma New_arenas:
  assumes new: "New S gomaxprocs t1 t2 cfg0 m k = Some (Inr v, m', k')" and fits: "config_fits (v_cfg v)"
  shows "in_arena v v" "length (v_arenas v) = nsh v"
proof -
  obtain cfg m1 k1 where norm: "normalize gomaxprocs cfg0 = Some (Inr cfg)"
    and sh: "new_shards S cfg (c_PayloadCapacity cfg) t1 (v_ctlArena v) [0..<unat (c_Shards cfg)] [] [] m1 k1 =
       Some (Inr (v_arenas v, v_shards v), m', k')" and cfg: "v_cfg v = cfg"
    using new by (rule New_okD)
  have st0: "stacked [] (mapped k1) (mapped k1)" by simp
  have built0: "shards_built cfg L m1 [] []" for L by (simp add: shards_built_def)
  have built: "shards_built cfg L m' (v_arenas v) (v_shards v)" for L
    using new_shards_ok [OF sh fits [unfolded cfg] payload_room [OF normalize_okD(4) [OF norm]] built0 st0] by blast
  then show "length (v_arenas v) = nsh v" by (simp add: shards_built_def)
  then show "in_arena v v" using built [of undefined] unfolding shards_built_def Let_def in_arena_def by auto
qed

lemma race_start:
  assumes "New S gomaxprocs t1 t2 cfg0 m0 k0 = Some (Inr v0, m, k)" "config_fits (v_cfg v0)"
  shows "data_ok m v0 (replicate n Pu_idle) (fresh_workers v0) [] []" "frame_ok v0 (cs_start n c m v0 k s)"
    "ctrl_ok mapped v0 (mapped k0) (mapped k) (cs_start n c m v0 k s)" "stacked (v_ctlArena v0 # v_arenas v0) (mapped k0) (mapped k)"
proof -
  note N = New_stack [OF assms]
  show st: "stacked (v_ctlArena v0 # v_arenas v0) (mapped k0) (mapped k)" using N by blast
  have fresh: "fresh_engine (v_cfg v0) t1 t2 v0" and inv: "\<And>G. engine_inv m v0 G" using N by blast+
  have f: "\<not> v_nil v0" "\<not> v_closed v0" "ctl_running (v_ctl v0) = 1" "\<And>i. i < nsh v0 \<Longrightarrow> r_tail (rg v0 i) = 0 \<and> r_head (rg v0 i) = 0"
    using fresh by (auto simp: fresh_engine_def)
  have n: "nsh v0 = unat (v_shardN v0)" by (rule engine_coreD(2) [OF engine_invD(1) [OF inv]])
  let ?ws = "fresh_workers v0"
  have w: "?ws ! i = Wk_take (zero_Record\<lparr>Shard := int i\<rparr>) 0 0" if "i < length ?ws" for i using that by (simp add: fresh_workers_def split: if_splits)
  have "holding ?ws = (\<lambda>_. {})" "seen_of v0 ?ws = consumed v0" using w by (auto simp: holding_def seen_of_def fun_eq_iff)
  then show "data_ok m v0 (replicate n Pu_idle) ?ws [] []"
    using pub_inv_core [OF pub_start [OF inv f(4), of n]] w n by (auto simp: data_ok_def fresh_workers_def)
  have "\<not> ending x" if "x \<in> set ?ws" for x using that by (auto simp: fresh_workers_def split: if_splits)
  then show "frame_ok v0 (cs_start n c m v0 k s)"
    using New_arenas(1) [OF assms] n by (auto simp: frame_ok_def cs_start_def fresh_workers_def)
  show "ctrl_ok mapped v0 (mapped k0) (mapped k) (cs_start n c m v0 k s)"
    using f by (auto simp: ctrl_ok_def cs_start_def pristine_def)
qed

lemma race_reach:
  assumes never: "\<And>q n i. fst (sysUnmap S q n i) = None" and "close_race S mapped h v0 M0 x"
  shows "case x of (st, P, D) \<Rightarrow> data_ok (cs_mem st) (cs_v st) (cs_prods st) (cs_workers st) P D \<and> frame_ok v0 st \<and>
    (\<exists>B. stacked (v_ctlArena v0 # v_arenas v0) M0 B \<and> ctrl_ok mapped v0 M0 B st)"
  using assms(2)
proof (induction rule: close_race.induct)
  case (start gomaxprocs t1 t2 cfg0 m0 k0 m k n c s)
  have "frame_ok v0 (cs_start n c m v0 k s)" "ctrl_ok mapped v0 M0 (mapped k) (cs_start n c m v0 k s)"
    by (simp_all add: race_start(2,3) [OF start(1,2)] start(3))
  then show ?case using race_start(1,4) [OF start(1,2)] start(3) by (auto simp: cs_start_def)
next
  case (step x y)
  obtain st P D st' P' D' where eq: "x = (st, P, D)" "y = (st', P', D')" by (metis prod.exhaust)
  have run: "cstep S mapped h v0 (st, P, D) (st', P', D')" using step.hyps(2) eq by simp
  have d: "data_ok (cs_mem st) (cs_v st) (cs_prods st) (cs_workers st) P D" and f: "frame_ok v0 st" using step.IH eq by simp_all
  obtain B where B: "stacked (v_ctlArena v0 # v_arenas v0) M0 B" "ctrl_ok mapped v0 M0 B st" using step.IH eq by auto
  have "ctrl_ok mapped v0 M0 B st'"
    using run
  proof (cases rule: cstep_cases)
    case aside
    then show ?thesis by (rule ctrl_frame [OF _ B(2)])
  next
    case (own c)
    have "st' = st\<lparr>cs_closers := (cs_closers st)[c := Cl_lock], cs_locked := cs_locked st \<or> inside Cl_lock\<rparr>" using own(3) by (cases st) simp
    then show ?thesis using ctrl_enter [OF B(2) own(1), of Cl_lock] own(2) by simp
  next
    case (close c pc st1)
    then show ?thesis using ctrl_close [OF never B close(1,2)] by simp
  qed
  then show ?case using eq B(1) data_cstep [OF run d] frame_cstep [OF run f d] by auto
qed

end

section \<open>Order\<close>

lemma unjoined_pristine:
  assumes "ctrl_ok mapped v0 M0 B st" "\<not> all_joined st"
  shows "pristine mapped v0 B st"
proof -
  have "pristine mapped v0 B st" if "pc \<in> set (cs_closers st)" "working pc" for pc
  proof -
    have "phase_ok mapped v0 M0 B st pc" using assms(1) that(1) by (simp add: ctrl_ok_def)
    then show ?thesis using that(2) assms(2) by (cases pc) auto
  qed
  then show ?thesis using ctrl_okD(4) [OF assms(1)] assms(2) by (auto simp: gone_def)
qed

lemma core_glog:
  assumes "pub_core n m v ps R seen P D" "i < nsh v" "p < rH (rg v i)"
  shows "((i, p), glog P i p) \<in> set P"
proof -
  note I = pub_coreD [OF assms(1)]
  note R = ring_inv0D [OF ring_invD(1) [OF lane_okD(2) [OF lanes_okD(5) [OF I(2) assms(2)]]]]
  have "p < rT (rg v i)" "p \<notin> writing v ps i" using R(3,4,7) assms(3) by auto
  then have "(i, p) \<in> fst ` set P" using plogs_okD(2) [OF I(5)] assms(2) by (simp add: claimed_def writing_def)
  then show ?thesis using map_of_SomeD [of P "(i, p)"] by (auto simp: glog_def dest: weak_map_of_SomeI)
qed

text \<open>The bytes behind a record that a worker has copied out are bytes of the arena.\<close>

lemma payload_in_arena:
  assumes g: "ring_geom r" and c: "copied r pos rec e" and len: "length (e_payload e) \<le> unat (r_payloadCap r)"
    and a: "r_base r = a_base a" "rcap r * unat (r_stride r) \<le> unat (a_size a)" and b: "b < sl_len (Payload rec)"
  shows "sl_ptr (Payload rec) + of_nat b \<in> aregion a"
proof -
  let ?slot = "of_nat (rslot r pos) :: u64" and ?n = "of_nat (length (e_payload e)) :: u64"
  have lt: "rslot r pos < rcap r" using ring_geom_pos [OF g] by simp
  then have s: "unat ?slot = rslot r pos" using unat_lt64 [of "r_capacity r"] by (intro unat_of_nat64) simp
  have p: "Payload rec = payloadSlice (cellB r (unat ?slot)) ?n" using c s by (simp add: copied_def)
  have "unat ?n \<le> unat (r_payloadCap r)" using len unat_lt64 [of "r_payloadCap r"] by (subst unat_of_nat64) simp_all
  then have n: "?n \<le> r_payloadCap r" by (simp add: word_le_nat_alt)
  have "?slot < r_capacity r" using lt s by (simp add: word_less_nat_alt)
  from payload_inside [OF g this n] b p have "unat (sl_ptr (Payload rec) + of_nat b - r_base r) < rcap r * unat (r_stride r)" by simp
  then show ?thesis using a by (simp add: region_def)
qed

text \<open>
  C10: Nothing is pulled away under a handler. However producers, workers, the clock thread and any number of callers of \<^verbatim>\<open>Close\<close>
  interleave: as long as a worker or the clock thread has not ended, the control pointers are set and the control arena and
  every data arena are mapped; and while a handler runs, every byte of the payload slice it was handed is mapped, and
  what it reads is, byte for byte, the record that a producer stored at that position.
\<close>
theorem close_race_handlers_safe:
  assumes "vm_laws K mapped" "munmap_succeeds K" "S \<in> {linux_sys K, darwin_sys K}" "close_race S mapped h v0 M0 (st, P, D)"
  shows "((\<exists>w\<in>set (cs_workers st). w \<noteq> Wk_done) \<or> cs_ticker st \<longrightarrow>
      \<not> v_nil (cs_v st) \<and> (\<forall>a\<in>set (v_ctlArena v0 # v_arenas v0). aregion a \<subseteq> mapped (cs_k st))) \<and>
    (\<forall>i<length (cs_workers st). \<forall>rec idle n pos. cs_workers st ! i = Wk_handle rec idle n pos \<longrightarrow>
      (\<forall>b < sl_len (Payload rec). sl_ptr (Payload rec) + of_nat b \<in> mapped (cs_k st)) \<and>
      (\<exists>e. ((i, unat pos), e) \<in> set P \<and> delivered (cs_mem st) rec = committed_entry e))"
proof -
  note R = os_memory.race_reach [OF platform_os [OF assms(1,3)] platform_unmap [OF assms(2,3)] assms(4)]
  have d: "data_ok (cs_mem st) (cs_v st) (cs_prods st) (cs_workers st) P D" and f: "frame_ok v0 st" using R by simp_all
  obtain B where B: "stacked (v_ctlArena v0 # v_arenas v0) M0 B" "ctrl_ok mapped v0 M0 B st" using R by auto
  have live: "\<not> v_nil (cs_v st) \<and> (\<forall>a\<in>set (v_ctlArena v0 # v_arenas v0). aregion a \<subseteq> mapped (cs_k st))" if "\<not> all_joined st"
    using unjoined_pristine [OF B(2) that] stacked_union [OF B(1)] by (auto simp: pristine_def)
  have handler: "(\<forall>b < sl_len (Payload rec). sl_ptr (Payload rec) + of_nat b \<in> mapped (cs_k st)) \<and>
      (\<exists>e. ((i, unat pos), e) \<in> set P \<and> delivered (cs_mem st) rec = committed_entry e)"
    if i: "i < length (cs_workers st)" and w: "cs_workers st ! i = Wk_handle rec idle n pos" for i rec idle n pos
  proof -
    note I = data_okD [OF d]
    let ?r = "rg (cs_v st) i" and ?e = "glog P i (unat pos)"
    have lt: "i < nsh (cs_v st)" using i I(2) by simp
    have ok: "copied ?r pos rec ?e" "unat pos < rH ?r" using I(3) [OF i] w by simp_all
    have h: "unat pos \<in> holding (cs_workers st) i" "unat pos = seen_of (cs_v st) (cs_workers st) i"
      using i w lt I(3) [OF i] by (auto simp: holding_def seen_of_def consumed_def)
    note L = lanes_okD(5) [OF pub_coreD(2) [OF I(1)] lt]
    have len: "length (e_payload ?e) \<le> unat (r_payloadCap ?r)" using lane_held [OF L h(1)] by (simp add: holds_def)
    have a: "i < length (v_arenas v0)" "r_base ?r = a_base (v_arenas v0 ! i)" "rcap ?r * unat (r_stride ?r) \<le> unat (a_size (v_arenas v0 ! i))"
      using f lt by (simp_all add: frame_ok_def in_arena_def)
    have "\<not> all_joined st" using nth_mem [OF i] w by (auto simp: all_joined_def)
    then have "aregion (v_arenas v0 ! i) \<subseteq> mapped (cs_k st)" using live nth_mem [OF a(1)] by simp
    then have "\<forall>b < sl_len (Payload rec). sl_ptr (Payload rec) + of_nat b \<in> mapped (cs_k st)"
      using payload_in_arena [OF shard_geomD(1) [OF lane_okD(1) [OF L]] ok(1) len a(2,3)] by blast
    then show ?thesis using core_glog [OF I(1) lt ok(2)] core_show(1) [OF I(1) lt h ok(1)] by blast
  qed
  show ?thesis using live handler by (auto simp: all_joined_def)
qed

theorem close_race_handlers_safe_witness:
  "\<exists>m v k. New demo_S 8 5 6 demo_config (\<lambda>_. 7) ({}, 4096) = Some (Inr v, m, k) \<and>
     close_race demo_S demo_mapped logger v {} (cs_start 2 1 m v k [], [], []) \<and> fresh_workers v \<noteq> [] \<and> aregion (v_ctlArena v) \<subseteq> demo_mapped k"
proof -
  obtain m v k where n: "New demo_S 8 5 6 demo_config (\<lambda>_. 7) ({}, 4096) = Some (Inr v, m, k)" "engine_reach demo_S m v (\<lambda>_. []) []"
    "fresh_engine demo_cfg 5 6 v" using demo_start by blast
  have c: "v_cfg v = demo_cfg" using n(3) by (simp add: fresh_engine_def)
  have r: "close_race demo_S demo_mapped logger v {} (cs_start 2 1 m v k [], [], [])"
    by (rule close_race.start [OF n(1)]) (use c demo_fits in \<open>simp_all add: demo_mapped_def\<close>)
  have "0 < unat (v_shardN v)" using n(3) engine_coreD(2) [OF engine_invD(1) [OF demo.lin.New_stack [OF n(1), unfolded c, OF demo_fits, THEN conjunct1]]]
    by (simp add: fresh_engine_def demo_cfg_simps)
  then have w: "fresh_workers v \<noteq> []" "\<exists>w\<in>set (fresh_workers v). w \<noteq> Wk_done" using c demo_cfg_simps by (auto simp: fresh_workers_def)
  have "demo_S \<in> {demo_S, darwin_sys demo_kernel}" by simp
  from close_race_handlers_safe [OF demo_vm this r] w n(1) r show ?thesis by (auto simp: cs_start_def)
qed

section \<open>Loss\<close>

text \<open>The step that clears \<^verbatim>\<open>running\<close> is one of \<^verbatim>\<open>Close\<close> and leaves the lanes alone; no worker has ended before.\<close>

lemma shutdown_step:
  assumes "cstep S mapped h v0 (st, P, D) (st', P', D')" "ctl_running (v_ctl (cs_v st)) \<noteq> 0" "ctl_running (v_ctl (cs_v st')) = 0"
    and fr: "frame_ok v0 st"
  shows "lost (cs_v st') (cs_workers st') + cnt past_check (cs_prods st') = cnt past_check (cs_prods st)"
proof -
  have "cs_workers st ! i \<noteq> Wk_done" if "i < length (cs_workers st)" for i
    using fr assms(2) nth_mem [OF that] by (auto simp: frame_ok_def)
  then have zero: "lost (cs_v st) (cs_workers st) = 0" by (auto simp: lost_def lost_at_def)
  show ?thesis
    using assms(1)
  proof (cases rule: cstep.cases)
    case (close c pc st1)
    note F = close_exec_frame [OF close(5)]
    then show ?thesis using close(1) lost_cong [OF F(1)] zero by simp
  next
    case (produce t pc m v)
    then show ?thesis using assms(2,3) step_shell [OF prod_step [OF produce(6)]] by (simp add: same_shell_def)
  next
    case (work i pc m v s)
    then show ?thesis using assms(2,3) worker_shell(1) [OF work(5)] by (simp add: same_shell_def)
  qed (use assms(2,3) in \<open>auto simp: clockTick_def\<close>)
qed

lemma shutdown_run:
  assumes "csteps S mapped h v0 x y"
    and ok: "\<And>st P D. close_race S mapped h v0 M0 (st, P, D) \<Longrightarrow> data_ok (cs_mem st) (cs_v st) (cs_prods st) (cs_workers st) P D"
    and x: "close_race S mapped h v0 M0 x" "ctl_running (v_ctl (cs_v (fst x))) = 0"
  shows "close_race S mapped h v0 M0 y \<and> ctl_running (v_ctl (cs_v (fst y))) = 0 \<and>
    lost (cs_v (fst y)) (cs_workers (fst y)) + cnt past_check (cs_prods (fst y)) \<le>
    lost (cs_v (fst x)) (cs_workers (fst x)) + cnt past_check (cs_prods (fst x))"
  using assms(1)
proof (induction rule: rtranclp_induct)
  case (step y z)
  obtain sty Py Dy stz Pz Dz where eq: "y = (sty, Py, Dy)" "z = (stz, Pz, Dz)" by (metis prod.exhaust)
  have run: "cstep S mapped h v0 (sty, Py, Dy) (stz, Pz, Dz)" using step.hyps(2) eq by simp
  have y: "close_race S mapped h v0 M0 (sty, Py, Dy)" "ctl_running (v_ctl (cs_v sty)) = 0" using step.IH eq by simp_all
  show ?case using step.IH potential_cstep [OF run ok [OF y(1)] y(2)] close_race.step [OF y(1) run] eq by simp
qed (use x in simp)

end
