(* ===== verification/CloseFault.thy ===== *)
theory CloseFault
  imports CloseRaceThms CtlPlane
begin

text \<open>
  Calls of \<^verbatim>\<open>Publish\<close> that a \<^verbatim>\<open>Close\<close> overtakes: what they are answered, and where they fault.
\<close>

section \<open>New calls\<close>

lemma close_race_New:
  assumes "close_race S mapped h v0 M0 x"
  obtains gomaxprocs t1 t2 cfg0 m0 k0 m k where "New S gomaxprocs t1 t2 cfg0 m0 k0 = Some (Inr v0, m, k)" "config_fits (v_cfg v0)" "M0 = mapped k0"
  using assms by (induction rule: close_race.induct) blast+

text \<open>The control arena stays mapped until the step that unmaps it.\<close>

lemma ctl_mapped:
  assumes stack: "stacked (v_ctlArena v0 # v_arenas v0) M0 B" and ok: "ctrl_ok mapped v0 M0 B st"
    and "\<not> v_nil (cs_v st)" "\<And>err. Cl_null err \<notin> set (cs_closers st)"
  shows "aregion (v_ctlArena v0) \<subseteq> mapped (cs_k st)"
proof -
  have B: "aregion (v_ctlArena v0) \<subseteq> B - data_upto v0 i" for i
  proof -
    have "(M0 \<union> aregion (v_ctlArena v0)) \<inter> (\<Union>a\<in>set (v_arenas v0). aregion a) = {}"
      by (rule stacked_disjoint [where B = B]) (use stack in simp)
    moreover have "data_upto v0 i \<subseteq> (\<Union>a\<in>set (v_arenas v0). aregion a)" using set_take_subset by (fastforce simp: data_upto_def)
    ultimately show ?thesis using stacked_union [OF stack] by auto
  qed
  then have whole: "aregion (v_ctlArena v0) \<subseteq> B" by blast
  have "aregion (v_ctlArena v0) \<subseteq> mapped (cs_k st)" if "pc \<in> set (cs_closers st)" "working pc" for pc
  proof -
    have "phase_ok mapped v0 M0 B st pc" using ok that(1) by (simp add: ctrl_ok_def)
    then show ?thesis using that assms(4) B whole by (cases pc) (auto simp: pristine_def)
  qed
  then show ?thesis using ctrl_okD(4) [OF ok] assms(3) whole by (auto simp: gone_def pristine_def)
qed

section \<open>Calls in flight\<close>

text \<open>With everything mapped a producer's step is the one of \<open>PublishSteps\<close>.\<close>

lemma prod_live:
  assumes "\<not> v_nil v" "\<And>a. a \<in> set (v_ctlArena v0 # v_arenas v0) \<Longrightarrow> aregion a \<subseteq> M"
    and "\<And>i. touches_data v pc = Some i \<Longrightarrow> i < length (v_arenas v0)" "pub_step pc m v = Returned x"
  shows "prod_exec M v0 pc m v = Done x"
  using assms by (auto simp: prod_exec_def all_mapped_def)

text \<open>Workers of empty shards end at once.\<close>

lemma wait_empty:
  assumes "ctl_running (v_ctl v) = 0"
    "\<forall>i\<in>set is. i < nsh v \<and> r_commit (rg v i) \<le> r_head (rg v i) \<and> r_tail (rg v i) = r_head (rg v i)"
  shows "wait_workers h is m v s = Some (m, v, s)"
  using assms(2)
proof (induction "is")
  case (Cons i "is")
  have i: "i < nsh v" "r_commit (rg v i) \<le> r_head (rg v i)" "r_tail (rg v i) = r_head (rg v i)" using Cons.prems by simp_all
  have "dequeue m (rg v i) rec = ((0, False), rec, m, rg v i)" for rec using i(2) by (subst dequeue.simps) simp
  then have "drain_shard (Some h) drainBatch (int i) m (v_shards v ! i) rec 0 s = (m, v_shards v ! i, rec, 0, s)" for rec
    by (subst drain_shard.simps) (simp add: drainBatch_def)
  then have "worker_turn h i m v rec 0 s = (True, m, v, rec, 0, s)" for rec
    using i assms(1) by (simp add: worker_turn_def pending_def)
  then have "worker_run h i m v rec 0 s = Some (m, v, s)" for rec by (subst worker_run.simps) simp
  then show ?case using Cons by simp
qed simp

text \<open>A run in which \<^verbatim>\<open>Close\<close> overtakes a call: the producer has seen \<^verbatim>\<open>running\<close> set, the workers end, and only
  then it claims. In a paused state \<^verbatim>\<open>Close\<close> has been woken by the wait group and has unmapped nothing yet.\<close>

definition paused :: "'k sys \<Rightarrow> ('k \<Rightarrow> u64 set) \<Rightarrow> 'h handler \<Rightarrow> Vaultage \<Rightarrow> ('k, 'h) crun \<Rightarrow> mem \<Rightarrow> 'k \<Rightarrow> pub_pc \<Rightarrow> Vaultage \<Rightarrow> bool" where
  "paused S mapped h v0 x m k pc v \<longleftrightarrow> (\<exists>st D. csteps S mapped h v0 x (st, [], D) \<and> cs_closers st = [Cl_wait] \<and> cs_locked st \<and>
     all_joined st \<and> cs_prods st = [pc] \<and> cs_v st = v \<and> cs_mem st = m \<and> cs_k st = k)"

lemma pausedI:
  assumes "csteps S mapped h v0 x (st, [], D)" "cs_closers st = [Cl_wait]" "cs_locked st" "all_joined st" "cs_prods st = [pc]"
    "cs_v st = v" "cs_mem st = m" "cs_k st = k"
  shows "paused S mapped h v0 x m k pc v"
  using assms unfolding paused_def by blast

lemma paused_go:
  assumes p: "paused S mapped h v0 x m k pc v" "race_room v" "prod_exec (mapped k) v0 pc m v = Done (pc', m, v')" "stored pc v [] = []"
  shows "paused S mapped h v0 x m k pc' v'"
proof -
  obtain st D where s: "csteps S mapped h v0 x (st, [], D)" "cs_closers st = [Cl_wait]" "cs_locked st"
    "all_joined st" "cs_prods st = [pc]" "cs_v st = v" "cs_mem st = m" "cs_k st = k" using p(1) by (auto simp: paused_def)
  let ?st = "st\<lparr>cs_mem := m, cs_v := v', cs_prods := (cs_prods st)[0 := pc']\<rparr>"
  have "cstep S mapped h v0 (st, [], D) (?st, stored (cs_prods st ! 0) (cs_v st) [], D)"
    by (rule cstep.produce) (use s p in simp_all)
  then have "csteps S mapped h v0 x (?st, [], D)" using s p(4) by (simp add: rtranclp.rtrancl_into_rtrancl)
  then show ?thesis by (rule pausedI) (use s in \<open>simp_all add: all_joined_def\<close>)
qed

text \<open>A state in which a call has passed its check and \<^verbatim>\<open>Close\<close> clears \<^verbatim>\<open>running\<close>, and the next state.\<close>

definition overtaking :: "'k sys \<Rightarrow> ('k \<Rightarrow> u64 set) \<Rightarrow> 'h handler \<Rightarrow> Vaultage \<Rightarrow> u64 set \<Rightarrow> pjob \<Rightarrow> ('k, 'h) crun \<Rightarrow> ('k, 'h) crun \<Rightarrow> bool" where
  "overtaking S mapped h v0 M0 j x y \<longleftrightarrow> close_race S mapped h v0 M0 x \<and> ctl_running (v_ctl (cs_v (fst x))) \<noteq> 0 \<and>
     cs_prods (fst x) = [Pu_gate j] \<and> cstep S mapped h v0 x y \<and> ctl_running (v_ctl (cs_v (fst y))) = 0"

lemma close_race_steps: "csteps S mapped h v0 x y \<Longrightarrow> close_race S mapped h v0 M0 x \<Longrightarrow> close_race S mapped h v0 M0 y"
  by (induction rule: rtranclp_induct) (auto intro: close_race.step)

context os_memory
begin

lemma fresh_rings:
  assumes new: "New S gomaxprocs t1 t2 cfg0 m0 k0 = Some (Inr v0, m, k)" "config_fits (v_cfg v0)" and l: "l < nsh v0"
  shows "r_tail (rg v0 l) = 0" "r_head (rg v0 l) = 0" "r_commit (rg v0 l) = 0" "rcap (rg v0 l) + 1 < 2 ^ 64"
    "claim m (rg v0 l) = Some ((0, True), (rg v0 l)\<lparr>r_tail := 1\<rparr>)" "0 < rcap (rg v0 l) * unat (r_stride (rg v0 l))"
proof -
  have fresh: "fresh_engine (v_cfg v0) t1 t2 v0" and inv: "engine_inv m v0 G" for G using New_stack [OF new] by blast+
  have ring: "ring_inv0 m (rg v0 l) {} {} L" for L
    using ring_invD(1) [OF shard_invD(2) [OF engine_coreD(5) [OF engine_invD(1) [OF inv [of "\<lambda>_. L"]] l]]] .
  note g = ring_inv0D [OF ring]
  show t: "r_tail (rg v0 l) = 0" "r_head (rg v0 l) = 0" using fresh l by (simp_all add: fresh_engine_def)
  then show "r_commit (rg v0 l) = 0" using g(4) by (simp add: unat_eq_0)
  have size: "64 \<le> unat (r_stride (rg v0 l))" "rcap (rg v0 l) * unat (r_stride (rg v0 l)) \<le> 2 ^ 64"
    using g(1) cellStrideFor_bounds(1) [of "r_payloadCap (rg v0 l)"] by (auto simp: ring_geom_def)
  then have "rcap (rg v0 l) * 64 \<le> 2 ^ 64" using mult_le_mono2 order_trans by blast
  then show "rcap (rg v0 l) + 1 < 2 ^ 64" by simp
  show "0 < rcap (rg v0 l) * unat (r_stride (rg v0 l))" using size(1) ring_geom_pos [OF g(1)] by simp
  have "\<not> ring_full (rg v0 l) {} {}" using t ring_geom_pos [OF g(1)] by (simp add: ring_full_def)
  from claim_free [OF ring this] show "claim m (rg v0 l) = Some ((0, True), (rg v0 l)\<lparr>r_tail := 1\<rparr>)" using t by simp
qed

text \<open>One producer calls and passes its check.\<close>

lemma race_checked:
  assumes new: "New S gomaxprocs t1 t2 cfg0 m0 k0 = Some (Inr v0, m, k)" "config_fits (v_cfg v0)" and ok: "passes_checks v0 j"
    and live: "\<And>a. a \<in> set (v_ctlArena v0 # v_arenas v0) \<Longrightarrow> aregion a \<subseteq> mapped k"
  shows "close_race S mapped h v0 (mapped k0) ((cs_start 1 1 m v0 k s)\<lparr>cs_prods := [Pu_gate j]\<rparr>, [], [])"
proof -
  have "fresh_engine (v_cfg v0) t1 t2 v0" using New_stack [OF new] by blast
  then have f: "\<not> v_nil v0" "ctl_running (v_ctl v0) = 1" "ctl_ticket (v_ctl v0) = 0" by (auto simp: fresh_engine_def)
  note R = fresh_rings [OF new]
  define st0 where "st0 = cs_start 1 1 m v0 k s"
  define st1 where "st1 = st0\<lparr>cs_prods := [Pu_check j]\<rparr>"
  have s: "cs_prods st0 = [Pu_idle]" "cs_v st1 = v0" "cs_mem st1 = m" "cs_k st1 = k" "cs_prods st1 = [Pu_check j]"
    "st1\<lparr>cs_mem := m, cs_v := v0, cs_prods := [Pu_gate j]\<rparr> = (cs_start 1 1 m v0 k s)\<lparr>cs_prods := [Pu_gate j]\<rparr>"
    by (simp_all add: st0_def st1_def cs_start_def)
  have r0: "close_race S mapped h v0 (mapped k0) (st0, [], [])" unfolding st0_def by (rule close_race.start [OF new refl])
  have "close_race S mapped h v0 (mapped k0) (st0\<lparr>cs_prods := (cs_prods st0)[0 := Pu_check j]\<rparr>, [], [])"
    by (rule close_race.step [OF r0 cstep.call]) (simp_all add: s)
  then have r1: "close_race S mapped h v0 (mapped k0) (st1, [], [])" by (simp add: st1_def s)
  have "prod_exec (mapped k) v0 (Pu_check j) m v0 = Done (Pu_gate j, m, v0)"
    by (rule prod_live [OF f(1) live]) (use ok f in \<open>auto simp: passes_checks_def\<close>)
  moreover have "race_room v0" using f(3) R(1,4) by (simp add: race_room_def)
  ultimately have "close_race S mapped h v0 (mapped k0) (st1\<lparr>cs_mem := m, cs_v := v0, cs_prods := (cs_prods st1)[0 := Pu_gate j]\<rparr>, stored (cs_prods st1 ! 0) (cs_v st1) [], [])"
    by (intro close_race.step [OF r1 cstep.produce]) (simp_all add: s)
  then show ?thesis by (simp add: s stored_def)
qed

text \<open>\<^verbatim>\<open>Close\<close> begins, and the workers end.\<close>

lemma paused_start:
  fixes h :: "'h handler"
  assumes new: "New S gomaxprocs t1 t2 cfg0 m0 k0 = Some (Inr v0, m, k)" "config_fits (v_cfg v0)" and ok: "passes_checks v0 j"
    and live: "\<And>a. a \<in> set (v_ctlArena v0 # v_arenas v0) \<Longrightarrow> aregion a \<subseteq> mapped k"
  obtains st0 st1 where "overtaking S mapped h v0 (mapped k0) j (st0, [], []) (st1, [], [])" "paused S mapped h v0 (st1, [], []) m k (Pu_gate j) (shut_down v0)"
proof -
  have fresh: "fresh_engine (v_cfg v0) t1 t2 v0" and inv: "engine_inv m v0 G" for G using New_stack [OF new] by blast+
  have f: "\<not> v_closed v0" "ctl_running (v_ctl v0) = 1" using fresh by (auto simp: fresh_engine_def)
  have n: "nsh v0 = unat (v_shardN v0)" by (rule engine_coreD(2) [OF engine_invD(1) [OF inv]])
  note R = fresh_rings [OF new]
  let ?v = "v0\<lparr>v_closed := True, v_ctl := (v_ctl v0)\<lparr>ctl_running := 0\<rparr>\<rparr>"
  define st where "st = (cs_start 1 1 m v0 k (undefined :: 'h))\<lparr>cs_prods := [Pu_gate j]\<rparr>"
  define st0 where "st0 = st\<lparr>cs_v := v0\<lparr>v_closed := True\<rparr>, cs_closers := [Cl_running], cs_locked := True\<rparr>"
  define st1 where "st1 = st0\<lparr>cs_v := ?v, cs_closers := [Cl_valve]\<rparr>"
  have r: "close_race S mapped h v0 (mapped k0) (st, [], [])" unfolding st_def by (rule race_checked [OF new ok live])
  have "csteps S mapped h v0 (st, [], []) (st0, [], [])"
    using Close_enters [of 0 st S mapped h v0 "[]" "[]"] f by (simp add: st_def st0_def cs_start_def)
  from close_race_steps [OF this r] have r0: "close_race S mapped h v0 (mapped k0) (st0, [], [])" .
  have "cstep S mapped h v0 (st0, [], []) (st1, [], [])"
    using Close_clears [of 0 st0 S mapped h v0 "[]" "[]"] by (simp add: st_def st0_def st1_def cs_start_def)
  then have o: "overtaking S mapped h v0 (mapped k0) j (st0, [], []) (st1, [], [])"
    using r0 f(2) by (simp add: overtaking_def st0_def st1_def st_def)
  have "wait_workers h [0..<unat (v_shardN (shut_down v0))] m (shut_down v0) s' = Some (m, shut_down v0, s')" for s'
    using R(1-3) n by (intro wait_empty) auto
  then have w: "(if c_Consumer (v_cfg (shut_down v0)) then wait_workers h [0..<unat (v_shardN (shut_down v0))] m (shut_down v0) s'
      else Some (m, shut_down v0, s')) = Some (m, shut_down v0, s')" for s' by simp
  have at: "0 < length (cs_closers st1)" "cs_closers st1 ! 0 = Cl_valve" "shut_down v0 = (cs_v st1)\<lparr>v_valve := forceOpen (v_valve (cs_v st1))\<rparr>"
    "cs_workers st1 = fresh_workers (shut_down v0)" "nsh (shut_down v0) = unat (v_shardN (shut_down v0))" "cs_mem st1 = m"
    using n by (simp_all add: st_def st0_def st1_def cs_start_def fresh_workers_def)
  obtain D where d: "csteps S mapped h v0 (st1, [], []) (st1\<lparr>cs_mem := m, cs_v := shut_down v0, cs_h := cs_h st1,
      cs_workers := replicate (length (cs_workers st1)) Wk_done, cs_ticker := False, cs_closers := (cs_closers st1)[0 := Cl_wait], cs_stop := True\<rparr>, [], D)"
    using Close_drains [OF at(1-3) _ at(4,5), unfolded at(6), OF w, of S mapped v0 "[]" "[]"] by blast
  have "paused S mapped h v0 (st1, [], []) m k (Pu_gate j) (shut_down v0)"
    by (rule pausedI [OF d]) (simp_all add: st_def st0_def st1_def cs_start_def all_joined_def)
  with o show thesis by (rule that)
qed

lemma overtaken:
  fixes h :: "'h handler"
  assumes new: "New S gomaxprocs t1 t2 cfg0 m0 k0 = Some (Inr v0, m, k)" "config_fits (v_cfg v0)" and ok: "passes_checks v0 j"
    and i: "i = jshard v0 j" and v: "v = upd_shard i (sh_ring_update (\<lambda>_. (rg v0 i)\<lparr>r_tail := 1\<rparr>))
      ((shut_down v0)\<lparr>v_ctl := (v_ctl (shut_down v0))\<lparr>ctl_ticket := 1\<rparr>\<rparr>)"
  obtains st0 st1 where "overtaking S mapped h v0 (mapped k0) j (st0, [], []) (st1, [], [])" "paused S mapped h v0 (st1, [], []) m k (Pu_store j 1 0) v"
proof -
  have fresh: "fresh_engine (v_cfg v0) t1 t2 v0" and inv: "engine_inv m v0 G" and
    st: "stacked (v_ctlArena v0 # v_arenas v0) (mapped k0) (mapped k)" for G using New_stack [OF new] by blast+
  have f: "\<not> v_nil v0" "ctl_ticket (v_ctl v0) = 0" using fresh by (auto simp: fresh_engine_def)
  note R = fresh_rings [OF new]
  have lt: "i < nsh v0" "i < length (v_arenas v0)"
    using shard_of_less [OF engine_invD(1) [OF inv]] New_arenas(2) [OF new] by (simp_all add: i)
  have live: "aregion a \<subseteq> mapped k" if "a \<in> set (v_ctlArena v0 # v_arenas v0)" for a using stacked_union [OF st] that by auto
  let ?v = "(shut_down v0)\<lparr>v_ctl := (v_ctl (shut_down v0))\<lparr>ctl_ticket := 1\<rparr>\<rparr>"
  have room: "race_room (shut_down v0)" "race_room ?v" using f(2) R(1,4) by (simp_all add: race_room_def)
  have sh: "shard_of (v0\<lparr>v_closed := b\<rparr>) = shard_of v0" for b by (simp add: shard_of_def route_def fun_eq_iff)
  have nil: "\<not> v_nil (shut_down v0)" "\<not> v_nil ?v" using f(1) by simp_all
  have e: "prod_exec (mapped k) v0 (Pu_gate j) m (shut_down v0) = Done (Pu_ticket j, m, shut_down v0)"
    "prod_exec (mapped k) v0 (Pu_ticket j) m (shut_down v0) = Done (Pu_claim j 1, m, ?v)"
    by (rule prod_live [OF nil(1) live]; use f in \<open>simp add: forceOpen_def isClosed_def gateOpen_def gateClosed_def atomicAdd64_def\<close>)+
  have c: "prod_exec (mapped k) v0 (Pu_claim j 1) m ?v = Done (Pu_store j 1 0, m, v)"
    by (rule prod_live [OF nil(2) live]) (use lt R(5) [OF lt(1)] in \<open>auto simp: sh i [symmetric] Let_def v\<close>)
  obtain st0 st1 where o: "overtaking S mapped h v0 (mapped k0) j (st0, [], []) (st1, [], [])"
    and p: "paused S mapped h v0 (st1, [], []) m k (Pu_gate j) (shut_down v0)" by (rule paused_start [OF new ok live])
  from paused_go [OF paused_go [OF paused_go [OF p room(1) e(1)] room(1) e(2)] room(2) c]
  have "paused S mapped h v0 (st1, [], []) m k (Pu_store j 1 0) v" by (simp add: stored_def)
  with o show thesis by (rule that)
qed

text \<open>\<^verbatim>\<open>Close\<close> then returns.\<close>

lemma paused_closes:
  assumes never: "\<And>q n i. fst (sysUnmap S q n i) = None" and stk: "stacked (v_ctlArena v0 # v_arenas v0) M0 (mapped k)"
    and p: "paused S mapped h v0 x m k pc v" and v: "v_arenas v = v_arenas v0" "v_ctlArena v = v_ctlArena v0"
  obtains st D where "csteps S mapped h v0 x (st, [], D)" "cs_closers st = [Cl_ret None]" "all_joined st" "cs_prods st = [pc]"
    "cs_v st = v\<lparr>v_arenas := [], v_ctlArena := zero_Arena, v_nil := True\<rparr>" "mapped (cs_k st) = M0"
proof -
  obtain st D where s: "csteps S mapped h v0 x (st, [], D)" "cs_closers st = [Cl_wait]" "cs_locked st"
    "all_joined st" "cs_prods st = [pc]" "cs_v st = v" "cs_k st = k" using p by (auto simp: paused_def)
  obtain err1 k1 where c1: "close_arenas S (v_arenas v0) None k = (err1, k1)" by (metis prod.exhaust)
  obtain err ca k2 where c2: "arena_Close S (v_ctlArena v0) k1 = (err, ca, k2)" by (metis prod.exhaust)
  note U = close_stack [OF never stk c1 c2]
  let ?st = "st\<lparr>cs_v := (cs_v st)\<lparr>v_arenas := [], v_ctlArena := zero_Arena, v_nil := True\<rparr>, cs_k := k2,
       cs_closers := (cs_closers st)[0 := Cl_ret (first_error err1 err)], cs_locked := False\<rparr>"
  have "csteps S mapped h v0 (st, [], D) (?st, [], D)" by (rule Close_ends) (use s v c1 c2 in simp_all)
  with s(1) have "csteps S mapped h v0 x (?st, [], D)" by (rule rtranclp_trans)
  then show thesis by (rule that) (use s U in \<open>simp_all add: first_error_def all_joined_def\<close>)
qed

end

section \<open>A run to instantiate the theorems on\<close>

definition demo_job :: pjob where
  "demo_job = \<lparr>j_key = 7, j_payload = [1, 2, 3], j_flags = 0, j_now = 99\<rparr>"

lemma demo_late:
  obtains m v0 k st0 st1 st D st' D' where "New demo_S 8 5 6 demo_config (\<lambda>_. 7) ({}, 4096) = Some (Inr v0, m, k)" "config_fits (v_cfg v0)"
    "c_Consumer (v_cfg v0)" "passes_checks v0 demo_job"
    "overtaking demo_S demo_mapped logger v0 {} demo_job (st0, [], []) (st1, [], [])"
    "csteps demo_S demo_mapped logger v0 (st1, [], []) (st, [], D)" "cs_closers st = [Cl_wait]" "all_joined st"
    "\<not> v_nil (cs_v st) \<and> ctl_running (v_ctl (cs_v st)) = 0 \<and> v_payloadCap (cs_v st) = v_payloadCap v0"
    "\<exists>i<nsh (cs_v st). rT (rg (cs_v st) i) - rH (rg (cs_v st) i) = 1"
    "csteps demo_S demo_mapped logger v0 (st1, [], []) (st', [], D')" "cs_closers st' = [Cl_ret None]"
    "v_nil (cs_v st') \<and> v_payloadCap (cs_v st') = v_payloadCap v0"
proof -
  obtain m v0 k where n: "New demo_S 8 5 6 demo_config (\<lambda>_. 7) ({}, 4096) = Some (Inr v0, m, k)" "fresh_engine demo_cfg 5 6 v0"
    using demo_start by blast
  have c: "config_fits (v_cfg v0)" using demo_fits demo_fresh(4) [OF n(2)] by simp
  have p: "passes_checks v0 demo_job" using n(2) by (simp add: fresh_engine_def passes_checks_def demo_job_def demo_cfg_simps)
  have M: "demo_mapped ({}, 4096) = {}" by (simp add: demo_mapped_def)
  let ?i = "jshard v0 demo_job"
  define v where "v = upd_shard ?i (sh_ring_update (\<lambda>_. (rg v0 ?i)\<lparr>r_tail := 1\<rparr>))
      ((shut_down v0)\<lparr>v_ctl := (v_ctl (shut_down v0))\<lparr>ctl_ticket := 1\<rparr>\<rparr>)"
  obtain st0 st1 where o: "overtaking demo_S demo_mapped logger v0 {} demo_job (st0, [], []) (st1, [], [])"
    and z: "paused demo_S demo_mapped logger v0 (st1, [], []) m k (Pu_store demo_job 1 0) v"
    by (rule demo.lin.overtaken [OF n(1) c p refl v_def, unfolded M])
  obtain st D where s: "csteps demo_S demo_mapped logger v0 (st1, [], []) (st, [], D)" "cs_closers st = [Cl_wait]" "all_joined st" "cs_v st = v"
    using z by (auto simp: paused_def)
  have "demo_S \<in> {demo_S, darwin_sys demo_kernel}" "v_arenas v = v_arenas v0" "v_ctlArena v = v_ctlArena v0" by (simp_all add: v_def)
  then obtain st' D' where s': "csteps demo_S demo_mapped logger v0 (st1, [], []) (st', [], D')" "cs_closers st' = [Cl_ret None]"
    "cs_v st' = v\<lparr>v_arenas := [], v_ctlArena := zero_Arena, v_nil := True\<rparr>"
    using demo.lin.paused_closes [OF platform_unmap [OF demo_vm(2)] demo_stack(2) [OF n] z] by metis
  have lt: "?i < nsh v0" using shard_of_less engine_invD(1) demo.lin.New_stack [OF n(1) c] by blast
  have "\<exists>i<nsh (cs_v st). rT (rg (cs_v st) i) - rH (rg (cs_v st) i) = 1"
    using lt demo.lin.fresh_rings(2) [OF n(1) c lt] by (intro exI [of _ ?i]) (simp add: s(4) v_def)
  moreover have "\<not> v_nil v" "ctl_running (v_ctl v) = 0" "v_payloadCap v = v_payloadCap v0" using n(2) by (simp_all add: v_def fresh_engine_def)
  ultimately show thesis using that n(1) c demo_stack(1) [OF n] p o s s' by simp
qed

lemma overtaking_steps:
  "overtaking S mapped h v0 M0 j x y \<Longrightarrow> csteps S mapped h v0 y z \<Longrightarrow> close_race S mapped h v0 M0 z"
  using close_race_steps close_race.step unfolding overtaking_def by blast

section \<open>Theorems\<close>

text \<open>
  C12: A \<^verbatim>\<open>Close\<close> that has returned is over, whoever called it. However the calls interleave, when any of them has returned it answers
  no error, the shutdown is complete: every worker and the clock thread have ended, the mapped memory is what it was before \<^verbatim>\<open>New\<close> and the
  control pointers are cleared; and no other caller is at work on it: between the lock and its release there is never more than one.
\<close>
theorem close_race_returns:
  assumes "vm_laws K mapped" "munmap_succeeds K" "S \<in> {linux_sys K, darwin_sys K}" "close_race S mapped h v0 M0 (st, P, D)"
  shows "(\<forall>err. Cl_ret err \<in> set (cs_closers st) \<longrightarrow> err = None \<and> all_joined st \<and> v_nil (cs_v st) \<and> mapped (cs_k st) = M0 \<and>
      (\<forall>pc\<in>set (cs_closers st). \<not> working pc)) \<and>
    (\<forall>c d. c < length (cs_closers st) \<and> d < length (cs_closers st) \<and> inside (cs_closers st ! c) \<and> inside (cs_closers st ! d) \<longrightarrow> c = d)"
proof -
  note R = os_memory.race_reach [OF platform_os [OF assms(1,3)] platform_unmap [OF assms(2,3)] assms(4)]
  obtain B where B: "ctrl_ok mapped v0 M0 B st" using R by auto
  have ph: "phase_ok mapped v0 M0 B st pc" if "pc \<in> set (cs_closers st)" for pc using B that by (simp add: ctrl_ok_def)
  have "\<not> working pc" if "pc \<in> set (cs_closers st)" "gone mapped M0 st" for pc
    using ph [OF that(1)] that(2) by (cases pc) (auto simp: gone_def pristine_def)
  moreover have "err = None \<and> gone mapped M0 st" if "Cl_ret err \<in> set (cs_closers st)" for err using ph [OF that] by simp
  ultimately show ?thesis using ctrl_okD(1) [OF B] by (auto simp: gone_def)
qed

theorem close_race_returns_witness:
  "\<exists>m v0 k st P D. New demo_S 8 5 6 demo_config (\<lambda>_. 7) ({}, 4096) = Some (Inr v0, m, k) \<and>
     close_race demo_S demo_mapped logger v0 {} (st, P, D) \<and> Cl_ret None \<in> set (cs_closers st) \<and> v_nil (cs_v st) \<and> demo_mapped (cs_k st) = {}"
proof -
  obtain m v0 k st0 st1 st D where n: "New demo_S 8 5 6 demo_config (\<lambda>_. 7) ({}, 4096) = Some (Inr v0, m, k)"
    "overtaking demo_S demo_mapped logger v0 {} demo_job (st0, [], []) (st1, [], [])"
    "csteps demo_S demo_mapped logger v0 (st1, [], []) (st, [], D)" "cs_closers st = [Cl_ret None]" by (rule demo_late)
  have S: "demo_S \<in> {demo_S, darwin_sys demo_kernel}" by simp
  note r = overtaking_steps [OF n(2,3)]
  from close_race_returns [OF demo_vm S r] n(4) have "v_nil (cs_v st) \<and> demo_mapped (cs_k st) = {}" by simp
  with n(1,4) r show ?thesis by (intro exI conjI) (assumption | simp)+
qed

text \<open>
  C11: What a shutdown can lose is bounded by the calls in flight. Take the step in which \<^verbatim>\<open>Close\<close> clears \<^verbatim>\<open>running\<close>. When later, after any
  interleaving, the workers have ended, at most as many claimed positions are left without having been shown to a handler as there were
  \<^verbatim>\<open>publish\<close> calls past their check of \<^verbatim>\<open>running\<close> and before their claim at that step. Every other position was shown,
  each shard in order, and what was shown is what was stored. With no such call in flight nothing is lost.
\<close>
theorem close_race_loss_bound:
  assumes "vm_laws K mapped" "munmap_succeeds K" "S \<in> {linux_sys K, darwin_sys K}" "close_race S mapped h v0 M0 (st0, P0, D0)"
    and "c_Consumer (v_cfg v0)" "ctl_running (v_ctl (cs_v st0)) \<noteq> 0"
    and "cstep S mapped h v0 (st0, P0, D0) (st1, P1, D1)" "ctl_running (v_ctl (cs_v st1)) = 0"
    and "csteps S mapped h v0 (st1, P1, D1) (st, P, D)" "all_joined st"
  shows "(\<Sum>i<nsh (cs_v st). rT (rg (cs_v st) i) - rH (rg (cs_v st) i)) \<le> cnt past_check (cs_prods st0) \<and>
    (\<forall>i<nsh (cs_v st). shown_at D i = rev [0..<rH (rg (cs_v st) i)]) \<and>
    (\<forall>((i, p), e)\<in>set D. \<exists>e'. ((i, p), e') \<in> set P \<and> e = committed_entry e')"
proof -
  note reach = os_memory.race_reach [OF platform_os [OF assms(1,3)] platform_unmap [OF assms(2,3)]]
  have ok: "data_ok (cs_mem st) (cs_v st) (cs_prods st) (cs_workers st) P D \<and> frame_ok v0 st"
    if "close_race S mapped h v0 M0 (st, P, D)" for st P D using reach [OF that] by simp
  have r1: "close_race S mapped h v0 M0 (st1, P1, D1)" by (rule close_race.step [OF assms(4,7)])
  have "close_race S mapped h v0 M0 (st, P, D)" and pot: "lost (cs_v st) (cs_workers st) \<le> cnt past_check (cs_prods st0)"
    using shutdown_run [OF assms(9) _ r1] ok shutdown_step [OF assms(7,6,8)] ok [OF assms(4)] assms(8) by auto
  then have d: "data_ok (cs_mem st) (cs_v st) (cs_prods st) (cs_workers st) P D" and f: "frame_ok v0 st" using ok by auto
  note I = data_okD [OF d]
  note l = plogs_okD [OF pub_coreD(5) [OF I(1)]]
  have ws: "length (cs_workers st) = nsh (cs_v st)" using f assms(5) by (simp add: frame_ok_def)
  have fin: "cs_workers st ! i = Wk_done" if "i < nsh (cs_v st)" for i using assms(10) ws that by (simp add: all_joined_def)
  have "lost (cs_v st) (cs_workers st) = (\<Sum>i<nsh (cs_v st). rT (rg (cs_v st) i) - rH (rg (cs_v st) i))"
    using fin ws by (auto simp: lost_def lost_at_def intro!: sum.cong)
  moreover have "shown_at D i = rev [0..<rH (rg (cs_v st) i)]" if "i < nsh (cs_v st)" for i
    using l(3) [of i] that fin ws by (simp add: seen_of_def consumed_def)
  moreover have "\<exists>e'. ((i, p), e') \<in> set P \<and> e = committed_entry e'" if "((i, p), e) \<in> set D" for i p e
  proof -
    have "p < consumed (cs_v st) i" using shown_at_set [OF that] l(3) [of i] l(6) [of i] by simp
    then have "i < nsh (cs_v st)" "p < rH (rg (cs_v st) i)" by (simp_all add: consumed_def split: if_splits)
    then show ?thesis using core_glog [OF I(1)] l(4) [OF that] by blast
  qed
  ultimately show ?thesis using pot by auto
qed

theorem close_race_loss_bound_witness:
  "\<exists>m v0 k st0 st1 st D. New demo_S 8 5 6 demo_config (\<lambda>_. 7) ({}, 4096) = Some (Inr v0, m, k) \<and>
     overtaking demo_S demo_mapped logger v0 {} demo_job (st0, [], []) (st1, [], []) \<and>
     csteps demo_S demo_mapped logger v0 (st1, [], []) (st, [], D) \<and> all_joined st \<and>
     cnt past_check (cs_prods st0) = 1 \<and> (\<Sum>i<nsh (cs_v st). rT (rg (cs_v st) i) - rH (rg (cs_v st) i)) = 1"
proof -
  obtain m v0 k st0 st1 st D where n: "New demo_S 8 5 6 demo_config (\<lambda>_. 7) ({}, 4096) = Some (Inr v0, m, k)" "c_Consumer (v_cfg v0)"
    "overtaking demo_S demo_mapped logger v0 {} demo_job (st0, [], []) (st1, [], [])"
    "csteps demo_S demo_mapped logger v0 (st1, [], []) (st, [], D)" "all_joined st"
    "\<exists>i<nsh (cs_v st). rT (rg (cs_v st) i) - rH (rg (cs_v st) i) = 1" by (rule demo_late)
  have S: "demo_S \<in> {demo_S, darwin_sys demo_kernel}" by simp
  have o: "close_race demo_S demo_mapped logger v0 {} (st0, [], [])" "ctl_running (v_ctl (cs_v st0)) \<noteq> 0" "cs_prods st0 = [Pu_gate demo_job]"
    "cstep demo_S demo_mapped logger v0 (st0, [], []) (st1, [], [])" "ctl_running (v_ctl (cs_v st1)) = 0"
    using n(3) by (simp_all add: overtaking_def)
  let ?f = "\<lambda>i. rT (rg (cs_v st) i) - rH (rg (cs_v st) i)"
  have one: "cnt past_check (cs_prods st0) = 1" using o(3) by simp
  have "(\<Sum>i<nsh (cs_v st). ?f i) \<le> 1"
    using close_race_loss_bound [OF demo_vm S o(1) n(2) o(2,4,5) n(4,5)] one by simp
  moreover obtain i where "i < nsh (cs_v st)" "?f i = 1" using n(6) by blast
  then have "1 \<le> (\<Sum>i<nsh (cs_v st). ?f i)" using member_le_sum [of i "{..<nsh (cs_v st)}" ?f] by simp
  ultimately have "(\<Sum>i<nsh (cs_v st). ?f i) = 1" by simp
  with n(1,3,4,5) one show ?thesis by blast
qed

text \<open>
  C13: What a \<^verbatim>\<open>Publish\<close> with valid arguments meets at its first access, at every point of a shutdown: the gate as long as \<^verbatim>\<open>running\<close> is set;
  \<^verbatim>\<open>ErrClosed\<close> from then until the control arena is unmapped; an access to unmapped memory between that and
  the clearing of the pointers; a dereference of nil ever after.
\<close>
theorem close_race_call_answers:
  assumes "vm_laws K mapped" "munmap_succeeds K" "S \<in> {linux_sys K, darwin_sys K}" "close_race S mapped h v0 M0 (st, P, D)"
    and "passes_checks (cs_v st) j"
  shows "prod_exec (mapped (cs_k st)) v0 (Pu_check j) (cs_mem st) (cs_v st) =
    (if v_nil (cs_v st) then Nil_fault
     else if \<exists>err. Cl_null err \<in> set (cs_closers st) then Segv
     else Done (if ctl_running (v_ctl (cs_v st)) = 0 then Pu_ret (Inl ErrClosed) else Pu_gate j, cs_mem st, cs_v st))"
proof -
  note os = platform_os [OF assms(1,3)]
  note R = os_memory.race_reach [OF os platform_unmap [OF assms(2,3)] assms(4)]
  obtain B where B: "stacked (v_ctlArena v0 # v_arenas v0) M0 B" "ctrl_ok mapped v0 M0 B st" using R by auto
  obtain gomaxprocs t1 t2 cfg0 m0 k0 m k where n: "New S gomaxprocs t1 t2 cfg0 m0 k0 = Some (Inr v0, m, k)" "config_fits (v_cfg v0)"
    by (rule close_race_New [OF assms(4)])
  have "0 < unat (a_size (v_ctlArena v0))" using os_memory.New_ctl_fits(1) [OF os n] by (simp add: ctl_fits_def)
  then have "a_base (v_ctlArena v0) \<in> aregion (v_ctlArena v0)" by (simp add: region_def)
  then have out: "\<not> aregion (v_ctlArena v0) \<subseteq> M0" using B(1) by auto
  consider (nil) "v_nil (cs_v st)" | (segv) err where "\<not> v_nil (cs_v st)" "Cl_null err \<in> set (cs_closers st)"
    | (ok) "\<not> v_nil (cs_v st)" "\<And>err. Cl_null err \<notin> set (cs_closers st)" by blast
  then show ?thesis
  proof cases
    case nil
    then show ?thesis using assms(5) by (simp add: prod_exec_def)
  next
    case segv
    have "phase_ok mapped v0 M0 B st (Cl_null err)" using B(2) segv(2) by (simp add: ctrl_ok_def del: phase_ok.simps)
    then have "mapped (cs_k st) = M0" by simp
    then show ?thesis using segv out assms(5) by (auto simp: prod_exec_def all_mapped_def)
  next
    case ok
    from ctl_mapped [OF B ok] show ?thesis using ok assms(5) by (auto simp: prod_exec_def all_mapped_def passes_checks_def)
  qed
qed

theorem close_race_call_answers_witness:
  "\<exists>m v0 k st D st' D'. New demo_S 8 5 6 demo_config (\<lambda>_. 7) ({}, 4096) = Some (Inr v0, m, k) \<and>
     close_race demo_S demo_mapped logger v0 {} (st, [], D) \<and> cs_closers st = [Cl_wait] \<and>
     prod_exec (demo_mapped (cs_k st)) v0 (Pu_check demo_job) (cs_mem st) (cs_v st) = Done (Pu_ret (Inl ErrClosed), cs_mem st, cs_v st) \<and>
     close_race demo_S demo_mapped logger v0 {} (st', [], D') \<and> cs_closers st' = [Cl_ret None] \<and>
     prod_exec (demo_mapped (cs_k st')) v0 (Pu_check demo_job) (cs_mem st') (cs_v st') = Nil_fault"
proof -
  obtain m v0 k st0 st1 st D st' D' where n: "New demo_S 8 5 6 demo_config (\<lambda>_. 7) ({}, 4096) = Some (Inr v0, m, k)" "passes_checks v0 demo_job"
    "overtaking demo_S demo_mapped logger v0 {} demo_job (st0, [], []) (st1, [], [])"
    "csteps demo_S demo_mapped logger v0 (st1, [], []) (st, [], D)" "cs_closers st = [Cl_wait]"
    "\<not> v_nil (cs_v st) \<and> ctl_running (v_ctl (cs_v st)) = 0 \<and> v_payloadCap (cs_v st) = v_payloadCap v0"
    "csteps demo_S demo_mapped logger v0 (st1, [], []) (st', [], D')" "cs_closers st' = [Cl_ret None]"
    "v_nil (cs_v st') \<and> v_payloadCap (cs_v st') = v_payloadCap v0" by (rule demo_late)
  have S: "demo_S \<in> {demo_S, darwin_sys demo_kernel}" by simp
  have p: "passes_checks (cs_v st) demo_job" "passes_checks (cs_v st') demo_job" using n(2,6,9) by (simp_all add: passes_checks_def)
  note r = overtaking_steps [OF n(3,4)] and r' = overtaking_steps [OF n(3,7)]
  from close_race_call_answers [OF demo_vm S r p(1)] n(5,6)
  have "prod_exec (demo_mapped (cs_k st)) v0 (Pu_check demo_job) (cs_mem st) (cs_v st) = Done (Pu_ret (Inl ErrClosed), cs_mem st, cs_v st)" by simp
  moreover from close_race_call_answers [OF demo_vm S r' p(2)] n(9)
  have "prod_exec (demo_mapped (cs_k st')) v0 (Pu_check demo_job) (cs_mem st') (cs_v st') = Nil_fault" by simp
  ultimately show ?thesis using n(1,5,8) r r' by blast
qed

text \<open>
  C37: \<^verbatim>\<open>Close\<close> does not wait for calls in flight. On every engine that \<^verbatim>\<open>New\<close> builds, and for every \<^verbatim>\<open>Publish\<close> whose arguments are valid, there is
  an interleaving in which the call passes its check of \<^verbatim>\<open>running\<close>, is given a position after the workers have ended, and finds
  itself with \<^verbatim>\<open>Close\<close> having returned without error: the position is claimed and will never be shown, and
  the next step of the call faults, with a dereference of nil under the coarse clock and otherwise with an access to unmapped memory.
\<close>
theorem close_race_fault:
  fixes h :: "'h handler"
  assumes "vm_laws K mapped" "munmap_succeeds K" "S \<in> {linux_sys K, darwin_sys K}"
    and "New S gomaxprocs t1 t2 cfg0 m0 k0 = Some (Inr v0, m, k)" "config_fits (v_cfg v0)" "passes_checks v0 j"
  shows "\<exists>st P D. close_race S mapped h v0 (mapped k0) (st, P, D) \<and> cs_closers st = [Cl_ret None] \<and> all_joined st \<and>
    cs_prods st = [Pu_store j 1 0] \<and> rT (rg (cs_v st) (jshard v0 j)) = 1 \<and> rH (rg (cs_v st) (jshard v0 j)) = 0 \<and>
    prod_exec (mapped (cs_k st)) v0 (cs_prods st ! 0) (cs_mem st) (cs_v st) = (if v_coarseClock v0 then Nil_fault else Segv)"
proof -
  note os = platform_os [OF assms(1,3)] and never = platform_unmap [OF assms(2,3)]
  let ?i = "jshard v0 j"
  define v where "v = upd_shard ?i (sh_ring_update (\<lambda>_. (rg v0 ?i)\<lparr>r_tail := 1\<rparr>))
      ((shut_down v0)\<lparr>v_ctl := (v_ctl (shut_down v0))\<lparr>ctl_ticket := 1\<rparr>\<rparr>)"
  have stk: "stacked (v_ctlArena v0 # v_arenas v0) (mapped k0) (mapped k)" and inv: "engine_inv m v0 G" for G
    using os_memory.New_stack [OF os assms(4,5)] by blast+
  have lt: "?i < nsh v0" by (rule shard_of_less [OF engine_invD(1) [OF inv]])
  note R = os_memory.fresh_rings [OF os assms(4,5) lt]
  obtain st0 st1 where o: "overtaking S mapped h v0 (mapped k0) j (st0, [], []) (st1, [], [])"
    and p: "paused S mapped h v0 (st1, [], []) m k (Pu_store j 1 0) v" by (rule os_memory.overtaken [OF os assms(4-6) refl v_def])
  have same: "v_arenas v = v_arenas v0" "v_ctlArena v = v_ctlArena v0" by (simp_all add: v_def)
  obtain st D where s: "csteps S mapped h v0 (st1, [], []) (st, [], D)" "cs_closers st = [Cl_ret None]" "all_joined st"
    "cs_prods st = [Pu_store j 1 0]" "cs_v st = v\<lparr>v_arenas := [], v_ctlArena := zero_Arena, v_nil := True\<rparr>" "mapped (cs_k st) = mapped k0"
    by (rule os_memory.paused_closes [OF os never stk p same])
  have "close_race S mapped h v0 (mapped k0) (st1, [], [])" using o close_race.step by (auto simp: overtaking_def)
  from close_race_steps [OF s(1) this] have reach: "close_race S mapped h v0 (mapped k0) (st, [], D)" .
  note A = os_memory.New_arenas [OF os assms(4,5)]
  have sh: "shard_of (cs_v st) = shard_of v0" by (simp add: s v_def shard_of_def route_def fun_eq_iff)
  have "a_base (v_arenas v0 ! ?i) \<in> aregion (v_arenas v0 ! ?i)"
    using A(1) lt less_le_trans [OF R(6)] by (auto simp: in_arena_def region_def)
  then have "\<not> aregion (v_arenas v0 ! ?i) \<subseteq> mapped k0" using stacked_disjoint [OF stk] nth_mem [of ?i "v_arenas v0"] A(2) lt by auto
  then have "\<not> all_mapped (mapped k0) v0 (cs_v st) (Pu_store j 1 0)" by (auto simp: all_mapped_def sh)
  then have "prod_exec (mapped (cs_k st)) v0 (cs_prods st ! 0) (cs_mem st) (cs_v st) = (if v_coarseClock v0 then Nil_fault else Segv)"
    by (simp add: prod_exec_def s v_def)
  moreover have "rT (rg (cs_v st) ?i) = 1" "rH (rg (cs_v st) ?i) = 0" using lt R(2) by (simp_all add: s v_def)
  ultimately show ?thesis using reach s(2-4) by blast
qed

theorem close_race_fault_witness:
  "\<exists>m v0 k st P D. New demo_S 8 5 6 demo_config (\<lambda>_. 7) ({}, 4096) = Some (Inr v0, m, k) \<and>
     close_race demo_S demo_mapped logger v0 {} (st, P, D) \<and> cs_closers st = [Cl_ret None] \<and> cs_prods st = [Pu_store demo_job 1 0] \<and>
     prod_exec (demo_mapped (cs_k st)) v0 (cs_prods st ! 0) (cs_mem st) (cs_v st) \<in> {Nil_fault, Segv}"
proof -
  obtain m v0 k where n: "New demo_S 8 5 6 demo_config (\<lambda>_. 7) ({}, 4096) = Some (Inr v0, m, k)" "config_fits (v_cfg v0)" "passes_checks v0 demo_job"
    by (rule demo_late)
  have "demo_S \<in> {demo_S, darwin_sys demo_kernel}" "demo_mapped ({}, 4096) = {}" by (simp_all add: demo_mapped_def)
  then obtain st P D where "close_race demo_S demo_mapped logger v0 {} (st, P, D)" "cs_closers st = [Cl_ret None]" "cs_prods st = [Pu_store demo_job 1 0]"
    "prod_exec (demo_mapped (cs_k st)) v0 (cs_prods st ! 0) (cs_mem st) (cs_v st) = (if v_coarseClock v0 then Nil_fault else Segv)"
    using close_race_fault [OF demo_vm, of demo_S _ _ _ _ _ _ v0 m k demo_job logger, OF _ n] by auto
  then show ?thesis using n(1) by (metis insertI1 insertI2)
qed

end
