(* ===== verification/Spec2Isabelle.thy ===== *)
theory Spec2Isabelle
  imports LayoutProps IndexThms CloseThms StatsThms RaceThms CtlPlane WorkerThms CtlMain LookupRace UpsertRace PublishThms CloseFault
begin

text \<open>
  Vaultage, an in-process ingestion engine (\<^verbatim>\<open>src/Vautlage\<close>, Go). A record published under a key is routed by hash
  to one of a power-of-two number of shards. Each shard owns one memory-mapped arena that holds a bounded sequence ring
  of cells and, behind it, an open-addressed key index. A publication takes a ticket, claims a position of the ring, fills
  the cell, publishes it by its sequence number, advances the commit index and points the index at the cell; a worker or
  \<^verbatim>\<open>Drain\<close> dequeues committed cells, hands them to a handler and releases them; \<^verbatim>\<open>Lookup\<close> reads the cell the
  index points at. When a shard fills up to its high-water mark it is latched hot and a gate freezes publication in the whole
  engine until no shard is hot.

  \<^bold>\<open>Which theory models what.\<close>
  \<^item> \<open>Prelude\<close>: machine words (\<^verbatim>\<open>uint64\<close> and \<^verbatim>\<open>uintptr\<close> are \<^typ>\<open>u64\<close>, \<^verbatim>\<open>int\<close> is a signed reading or an
    unbounded integer where it only counts), \<^verbatim>\<open>errors.go\<close>, theorem collections, facts on powers of two and masks.
  \<^item> \<open>Layout\<close>, \<open>LayoutProps\<close>, \<open>Sizes\<close>: \<^verbatim>\<open>layout.go\<close>, \<^verbatim>\<open>cacheline.go\<close>: constants, address arithmetic, the layout the
    Go compiler gives the structs, and the build-time assertion blocks of all files.
  \<^item> \<open>Memory\<close>: \<^verbatim>\<open>atomics.go\<close> and the payload accessors: memory is a map from addresses to bytes, accesses are little-endian.
  \<^item> \<open>Records\<close>: \<^verbatim>\<open>record.go\<close>. \<open>Gate\<close>: \<^verbatim>\<open>gate.go\<close>.
  \<^item> \<open>Ring\<close> (operations of \<^verbatim>\<open>ring.go\<close>), \<open>Cells\<close> (views of cells), \<open>RingInv\<close> (the invariant and what each operation does
    to it), \<open>Queue\<close> (the contract of a bounded queue, a locale), \<open>RingQueue\<close> (the ring meets it), \<open>RingProps\<close> (theorems),
    \<open>RingRace\<close>, \<open>RingRaceThms\<close> (any number of producers and consumers on one ring, access by access).
  \<^item> \<open>Index\<close> (operations of \<^verbatim>\<open>index.go\<close>), \<open>Buckets\<close>, \<open>IndexInv\<close> (the table as a finite map), \<open>HintTable\<close> (the contract the
    engine relies on, a locale), \<open>IndexProps\<close> (the index meets it), \<open>IndexThms\<close> (theorems). Access by access:
    \<open>IndexRace\<close> (the update of one bucket), \<open>UpsertSteps\<close>, \<open>UpsertRace\<close> (whole calls of \<^verbatim>\<open>upsert\<close>), \<open>LookupRace\<close>
    (a \<^verbatim>\<open>lookup\<close> whose loads each see the memory of their own moment).
  \<^item> \<open>Arena\<close> (\<^verbatim>\<open>arena.go\<close> and the files \<^verbatim>\<open>arena_linux.go\<close>, \<^verbatim>\<open>arena_darwin.go\<close>, \<^verbatim>\<open>arena_unsupported.go\<close>), \<open>ArenaProps\<close>
    (what an arena relies on of the system, a locale), \<open>ArenaThms\<close> (the platforms meet it; theorems).
  \<^item> \<open>Fabric\<close> (\<^verbatim>\<open>fabric.go\<close>: configuration, \<^verbatim>\<open>New\<close>, \<^verbatim>\<open>publish\<close>, \<^verbatim>\<open>Lookup\<close>, the latch, workers, \<^verbatim>\<open>Drain\<close>, \<^verbatim>\<open>Close\<close>),
    \<open>Latch\<close> (the latch over the contract of the gate), \<open>ShardInv\<close>, \<open>FabricInv\<close> (invariants of a shard and of the engine),
    \<open>Water\<close> (the water marks), \<open>NewInv\<close>, \<open>NewThms\<close> (construction), \<open>Engine\<close>, \<open>EngineThms\<close> (whole runs), \<open>WorkerThms\<close>,
    \<open>CloseThms\<close>, \<open>CtlPlane\<close> (where the control blocks lie), \<open>LatchRace\<close>, \<open>RaceThms\<close> (the latch access by access),
    \<open>PublishSteps\<close> (\<^verbatim>\<open>publish\<close> cut between its calls of ring, index, latch and counters), \<open>PublishRace\<close>, \<open>PublishCounts\<close>,
    \<open>PublishWater\<close>, \<open>PublishThms\<close> (any number of producers and consumers on a whole engine). \<open>Threads\<close>: ownership and
    counting over lists of threads. A shutdown under load: \<open>CloseSteps\<close> (callers of \<^verbatim>\<open>Close\<close>, workers, the clock thread and producers
    as threads, with the mutex, the wait group and the mapped memory in the state; a use of a cleared pointer and of
    unmapped memory are faults of their own), \<open>CloseSolo\<close> (the steps against the sequential \<^verbatim>\<open>Close\<close>), \<open>CloseCtrl\<close> (what is mapped, and who has ended, in
    each phase), \<open>CloseRace\<close> (the lanes while workers hold cells), \<open>CloseLoss\<close> (a potential for what can be lost), \<open>CloseRaceThms\<close>,
    \<open>CloseFault\<close> (theorems).
  \<^item> \<open>Stats\<close>, \<open>StatsThms\<close>: \<^verbatim>\<open>stats.go\<close>. \<open>Handlers\<close>, \<open>Driver\<close> (load and shutdown), \<open>Report\<close> (printed reports, with
    the texts of \<^verbatim>\<open>errors.go\<close>), \<open>CtlMain\<close> (\<^verbatim>\<open>main\<close> as a whole): \<^verbatim>\<open>cmd/vaultagectl/main.go\<close>.

  \<^bold>\<open>State and operations.\<close> A struct is a record with the fields of the source (\<open>ring\<close>, \<open>keyIndex\<close>, \<open>gate\<close>, \<open>shard\<close>,
  \<open>globalCtl\<close>, \<open>Vaultage\<close>, \<open>Arena\<close>, \<open>Config\<close>, \<open>Record\<close>); cells and buckets live in byte memory at the addresses the code
  computes. An operation takes the memory and the records it reads and returns them updated; an error is \<open>Inl\<close>; a loop that
  may not end returns an option or the \<open>Hangs\<close> outcome, and dereferencing nil is \<open>NilDeref\<close>. The state a handler keeps is
  threaded through the operations that call it.

  \<^bold>\<open>What is proved.\<close>
  \<^item> Ring: it refines a bounded FIFO queue; every reachable interleaving of whole calls keeps the cursor invariant,
    hands out cells exclusively, delivers what was published, and keeps the bytes of a record that is being read.
  \<^item> Index: \<^verbatim>\<open>upsert\<close> refines the update of a partial map, fails exactly when the whole probe sequence is live and
    foreign, and a successful \<^verbatim>\<open>lookup\<close> never shows another key's data.
  \<^item> Engine, over every sequence of publications, drains, worker turns and clock ticks from \<^verbatim>\<open>New\<close> on: per-shard FIFO
    delivery with exact counters, dense tickets, latest-value lookups, gate hysteresis, exact answers on every branch;
    workers empty the rings and reopen the gate whatever their order; \<^verbatim>\<open>Close\<close> returns, delivers the rest and unmaps everything;
    a failing \<^verbatim>\<open>New\<close> leaks nothing; the snapshot balances; so do the books of the load driver, whose
    \<^verbatim>\<open>main\<close> ends, leaves nothing mapped and exits with the code and the messages its source says.
  \<^item> Reports: the numbers of the printed gate and shard reports read back as the snapshot, rows line up with their heading while
    numbers fit, the alignment shown for an arena is that of the address shown, the error texts are distinct.
  \<^item> Concurrency, access by access: the steps of one thread alone compute the operation of the sequential model, and whatever
    the interleaving, the gate is never left open over a hot shard; a ring hands each cell to one producer and then to one
    consumer, and each record out once, in order; racing calls of \<^verbatim>\<open>upsert\<close> stay inside the table and keep every claimed bucket
    reachable on the probe path of its key; a \<^verbatim>\<open>lookup\<close> only answers from a cell that held its key.
  \<^item> Concurrency on the whole engine, with each call of a component as one step: records are delivered once and in the order of
    their positions, the counters are exact again once the producers have returned, no shard passes the high-water mark
    unnoticed, and a closed gate lets in at most the producers that had passed it.
  \<^item> Shutdown under load, with any number of producers and callers of \<^verbatim>\<open>Close\<close>: nothing is unmapped under a worker, a handler or the clock thread, and
    a handler reads the record that was stored; callers of \<^verbatim>\<open>Close\<close> exclude each other and find the shutdown complete when they return; what is
    lost is at most the calls that had passed their check when \<^verbatim>\<open>running\<close> was cleared; the answer to a new call is known in every phase; left
    alone, the steps compute the sequential \<^verbatim>\<open>Close\<close>.
  \<^item> Defects, as theorems: a one-cell ring loses records; \<^verbatim>\<open>dequeue\<close> stalls when the counters wrap; the rounding loop of
    \<^verbatim>\<open>normalize\<close> does not end above \<open>2 ^ 62\<close> shards; \<^verbatim>\<open>NewArena\<close> overflows near \<open>2 ^ 64\<close>; a closed engine dereferences nil; the
    gate can be left closed for good with no shard hot; a bucket can keep the slot of an older record; a racing \<^verbatim>\<open>lookup\<close> can pair the
    slot of one record with the ticket of another; two racing calls of \<^verbatim>\<open>upsert\<close> can give a key two buckets; records of one
    shard can be delivered against the order of their tickets; a \<^verbatim>\<open>publish\<close> in flight can be overtaken by \<^verbatim>\<open>Close\<close>, lose the record it has a
    position for and fault.

  \<^bold>\<open>Interfaces.\<close> \<open>bounded_queue\<close> (ring), \<open>hint_table\<close> (index), \<open>valve\<close> (gate), \<open>os_memory\<close> (system calls under an arena),
  \<open>posix_kernel\<close> (a kernel that keeps the laws of mmap and munmap) and \<open>handler_view\<close> (what a handler keeps does not influence
  the engine) are locales, each interpreted on the model's definitions.

  \<^bold>\<open>Bounds.\<close> \<open>config_fits\<close> asks for at least two cells per shard (with one the ring is broken, see above), at most
  \<open>2 ^ 40\<close> shards and a shard that fits in the address space. \<open>engine_room\<close>, \<open>race_room\<close> and \<open>load_room\<close> ask that the ticket counter
  stay a ring's length below \<open>2 ^ 64\<close>: at a billion publications a second that is centuries away, and past it the cursors wrap
  and \<^verbatim>\<open>dequeue\<close> stalls. There is no fuel: loops that may not end are \<open>partial_function (option)\<close>, and the theorems that say a call returns prove it.
  The kernel is a parameter; \<open>vm_laws\<close> and \<open>munmap_succeeds\<close> state what mmap and munmap document, and \<open>demo_kernel\<close> shows that
  they can hold.

  \<^bold>\<open>Not modelled.\<close> The scheduler and time: sleeps, yields, ticks of the coarse clock beyond their store, CPU pinning beyond
  its system call. Memory orders weaker than the sequential consistency of Go's atomics. The runs of \<open>engine_reach\<close>
  interleave whole calls and those of \<open>pub_race\<close> and \<open>close_race\<close> the calls of components inside \<^verbatim>\<open>publish\<close>, \<^verbatim>\<open>worker\<close> and \<^verbatim>\<open>Close\<close>; single
  accesses are interleaved per component (latch, ring, index) only. A \<^verbatim>\<open>Lookup\<close>, \<^verbatim>\<open>Drain\<close> or \<^verbatim>\<open>Stats\<close> that races with \<^verbatim>\<open>Close\<close> is not modelled. Flag parsing and
  timing in \<^verbatim>\<open>vaultagectl\<close>; the text of its throughput report is an argument of \<open>ctl_main\<close>. \<^verbatim>\<open>doc.go\<close> has no code, and the test files are evidence of intent only.
\<close>

end
